(* ===== verification/Packetio_Prelude.thy ===== *)
theory Packetio_Prelude
  imports Main "HOL-Library.Word" "HOL-Library.Monad_Syntax"
begin

text \<open>
  The shared prelude of the development.

  \<^item> Names for the machine types of the Go source: \<open>uint8\<close> to \<open>uint64\<close> are words of that
    width, so arithmetic wraps exactly as Go's does. Go's \<open>int\<close> is modelled by \<open>int\<close> where a
    value can be negative and by \<open>nat\<close> where it is a length.
  \<^item> Powers of two: the test \<open>n & (n-1)\<close>, \<open>bits.OnesCount\<close>, and masking as a remainder.
  \<^item> Byte order: \<open>encoding/binary\<close>'s big- and little-endian stores and loads, with their
    round trips.
  \<^item> Byte buffers: \<open>poke\<close> and \<open>peek\<close> are the bounds-checked store and load on a slice, with
    \<open>None\<close> for Go's index-out-of-range panic; \<open>cyc_write\<close> is the wrapping write the send
    queue's hardware reads.
  \<^item> Power-of-two rings addressed by free-running 32-bit counters (\<open>ring_list\<close>): the
    representation shared by the mlx5 send and receive rings and the DPDK rings.
\<close>

unbundle bit_operations_syntax

named_theorems word_nat \<open>reading masked and shifted words as natural numbers\<close>
named_theorems byte_simps \<open>lengths and round trips of byte encodings\<close>
named_theorems ring_simps \<open>power-of-two rings addressed by free-running counters\<close>

type_synonym u8 = "8 word"
type_synonym u16 = "16 word"
type_synonym u32 = "32 word"
type_synonym u64 = "64 word"
type_synonym bytes = "u8 list"

section \<open>Powers of two\<close>

text \<open>The source tests for a power of two in two ways: \<open>n & (n-1) == 0\<close> and
  \<open>bits.OnesCount(n) == 1\<close>.\<close>

definition is_pow2 :: "nat \<Rightarrow> bool" where
  "is_pow2 n \<longleftrightarrow> n \<noteq> 0 \<and> n AND (n - 1) = 0"

fun ones_count :: "nat \<Rightarrow> nat" where
  "ones_count n = (if n = 0 then 0 else n mod 2 + ones_count (n div 2))"

declare ones_count.simps [simp del]

lemma is_pow2_double: "is_pow2 (2 * n) \<longleftrightarrow> is_pow2 n"
proof (cases "n = 0")
  case False
  then have "(2 * n) AND (2 * n - 1) = 2 * (n AND (n - 1))"
    by (cases n) (simp_all add: and_rec [of "Suc (Suc (2 * _))"])
  with False show ?thesis by (simp add: is_pow2_def)
qed (simp add: is_pow2_def)

lemma is_pow2_odd: "is_pow2 (Suc (2 * n)) \<longleftrightarrow> n = 0"
  by (simp add: is_pow2_def and_rec [of "Suc (2 * n)"])

lemma is_pow2_iff: "is_pow2 n \<longleftrightarrow> (\<exists>k. n = 2 ^ k)"
proof (induction n rule: less_induct)
  case (less n)
  show ?case
  proof (cases "even n")
    case True
    then obtain m where m: "n = 2 * m" ..
    have "(\<exists>k. 2 * m = (2::nat) ^ k) \<longleftrightarrow> (\<exists>k. m = 2 ^ k)"
    proof
      assume "\<exists>k. 2 * m = (2::nat) ^ k"
      then obtain k where k: "2 * m = (2::nat) ^ k" ..
      then show "\<exists>k. m = 2 ^ k" by (cases k) auto
    next
      assume "\<exists>k. m = 2 ^ k"
      then obtain k where "m = 2 ^ k" ..
      then have "2 * m = 2 ^ Suc k" by simp
      then show "\<exists>k. 2 * m = (2::nat) ^ k" by blast
    qed
    moreover have "is_pow2 m \<longleftrightarrow> (\<exists>k. m = 2 ^ k)"
      using less[of m] m by (cases "m = 0") (auto simp: is_pow2_def)
    ultimately show ?thesis using m is_pow2_double by simp
  next
    case False
    then obtain m where m: "n = Suc (2 * m)" by (metis oddE Suc_eq_plus1)
    have "(\<exists>k. Suc (2 * m) = (2::nat) ^ k) \<longleftrightarrow> m = 0"
    proof
      assume "\<exists>k. Suc (2 * m) = (2::nat) ^ k"
      then obtain k where k: "Suc (2 * m) = (2::nat) ^ k" ..
      have "odd ((2::nat) ^ k)" using k by (metis even_Suc even_mult_iff even_numeral)
      then have "k = 0" by simp
      with k show "m = 0" by simp
    next
      assume "m = 0"
      then show "\<exists>k. Suc (2 * m) = (2::nat) ^ k" by (intro exI [of _ 0]) simp
    qed
    then show ?thesis using m is_pow2_odd by simp
  qed
qed

lemma is_pow2_exp [simp, intro]: "is_pow2 (2 ^ k)"
  using is_pow2_iff by blast

lemma is_pow2_pos: "is_pow2 n \<Longrightarrow> 0 < n"
  by (simp add: is_pow2_def)

lemma ones_count_eq_0: "ones_count n = 0 \<longleftrightarrow> n = 0"
proof (induction n rule: ones_count.induct)
  case (1 n)
  then show ?case
    by (cases "n = 0") (auto simp: ones_count.simps [of n] ones_count.simps [of 0])
qed

lemma ones_count_one: "ones_count n = 1 \<longleftrightarrow> is_pow2 n"
proof (induction n rule: ones_count.induct)
  case (1 n)
  show ?case
  proof (cases "n = 0")
    case True
    then show ?thesis by (simp add: ones_count.simps is_pow2_def)
  next
    case n: False
    show ?thesis
    proof (cases "even n")
      case True
      then obtain m where m: "n = 2 * m" ..
      from m n have "ones_count n = ones_count m"
        by (subst ones_count.simps) simp
      with "1.IH" n m show ?thesis by (simp add: is_pow2_double)
    next
      case False
      then obtain m where m: "n = Suc (2 * m)" by (metis oddE Suc_eq_plus1)
      then have "ones_count n = Suc (ones_count m)"
        by (subst ones_count.simps) simp
      with m show ?thesis by (simp add: is_pow2_odd ones_count_eq_0)
    qed
  qed
qed

lemma pow2_dvd_pow2:
  assumes "is_pow2 n" "n \<le> 2 ^ k"
  shows "n dvd 2 ^ k"
proof -
  obtain j where j: "n = 2 ^ j" using assms(1) is_pow2_iff by blast
  with assms(2) have "j \<le> k" by (metis power_increasing_iff one_less_numeral_iff semiring_norm(76))
  with j show ?thesis by (simp add: le_imp_power_dvd)
qed

section \<open>Masks\<close>

lemma unat_and_mask [word_nat]:
  fixes x :: "'a::len word"
  assumes "k \<le> LENGTH('a)"
  shows "unat (x AND (2 ^ k - 1)) = unat x mod 2 ^ k"
proof -
  have "x AND (2 ^ k - 1) = take_bit k x"
    by (simp only: take_bit_eq_mask mask_eq_exp_minus_1)
  then have "unat (x AND (2 ^ k - 1)) = take_bit k (unat x)"
    by (simp only: unsigned_take_bit_eq)
  then show ?thesis by (simp only: take_bit_eq_mod)
qed

lemma of_nat_pow2_minus_1:
  "(of_nat (2 ^ k - 1) :: 'a::len word) = 2 ^ k - 1"
  by (simp add: of_nat_diff)

lemma unat_and_pow2_mask [word_nat]:
  fixes x :: "'a::len word"
  assumes "is_pow2 n" "n \<le> 2 ^ LENGTH('a)"
  shows "unat (x AND of_nat (n - 1)) = unat x mod n"
proof -
  obtain k where k: "n = 2 ^ k" using assms(1) is_pow2_iff by blast
  with assms(2) have "k \<le> LENGTH('a)"
    by (metis power_increasing_iff one_less_numeral_iff semiring_norm(76))
  with k show ?thesis
    by (metis of_nat_pow2_minus_1 unat_and_mask)
qed

lemma unat_add_mod [word_nat]:
  fixes x :: "'a::len word"
  assumes "is_pow2 n" "n \<le> 2 ^ LENGTH('a)"
  shows "unat (x + of_nat i) mod n = (unat x + i) mod n"
proof -
  have d: "n dvd 2 ^ LENGTH('a)" using assms by (rule pow2_dvd_pow2)
  have "unat (x + of_nat i) mod n = ((unat x + i) mod 2 ^ LENGTH('a)) mod n"
    by (simp add: unat_word_ariths unat_of_nat mod_add_right_eq)
  also have "\<dots> = (unat x + i) mod n" using d by (rule mod_mod_cancel)
  finally show ?thesis .
qed

lemma and_not_eq_minus: "(a AND NOT m :: 'a::len word) = a - (a AND m)"
proof -
  have "(a AND NOT m) + (a AND m) = (a AND NOT m) OR (a AND m)"
    by (rule disjunctive_add) (auto simp: bit_simps)
  also have "\<dots> = a" by (rule bit_eqI) (auto simp: bit_simps)
  finally show ?thesis by (simp add: eq_diff_eq)
qed

lemma word_sub_of_nat:
  fixes a b :: "'a::len word"
  shows "a = b + of_nat (unat (a - b))"
  by simp

lemma unat_bound: "unat (x :: 'a::len word) < 2 ^ LENGTH('a)"
  by (rule unsigned_less)

lemma unat_plus_exact [word_nat]:
  "unat x + unat y < 2 ^ LENGTH('a) \<Longrightarrow> unat (x + y) = unat x + unat (y :: 'a::len word)"
  by (simp add: unat_word_ariths)

lemma unat_ucast_up [word_nat]:
  "LENGTH('a) \<le> LENGTH('b) \<Longrightarrow> unat (ucast (x :: 'a::len word) :: 'b::len word) = unat x"
  using less_le_trans [OF unat_bound [of x], of "2 ^ LENGTH('b)"]
  by (simp add: unsigned_ucast_eq take_bit_nat_eq_self)

lemma unat_drop_bit [word_nat]: "unat (drop_bit n (w :: 'a::len word)) = unat w div 2 ^ n"
  by (subst unsigned_drop_bit_eq) (simp add: drop_bit_eq_div take_bit_nat_eq_self unat_bound)

lemma unat_not [word_nat]: "unat (NOT (w :: 'a::len word)) = 2 ^ LENGTH('a) - 1 - unat w"
proof -
  have "NOT w = - 1 - w" by (simp add: not_eq_complement)
  moreover have "w \<le> - 1" by (rule word_n1_ge)
  ultimately have "unat (NOT w) = unat (- 1 :: 'a word) - unat w" by (simp only: unat_sub)
  then show ?thesis by (simp add: unsigned_minus_1_eq_mask mask_eq_exp_minus_1)
qed

lemma unat_hi_byte [word_nat]:
  "16 \<le> LENGTH('a) \<Longrightarrow> unat (push_bit 8 (ucast (x :: u8)) :: 'a::len word) = unat x * 256"
proof -
  assume L: "16 \<le> LENGTH('a)"
  have pow: "(65536 :: nat) \<le> 2 ^ LENGTH('a)"
    using power_increasing [OF L, of "2 :: nat"] by simp
  have "unat (push_bit 8 (ucast x) :: 'a word) = take_bit LENGTH('a) (push_bit 8 (unat x))"
    using L by (simp add: unsigned_push_bit_eq unat_ucast_up)
  also have "\<dots> = unat x * 256"
    using unat_bound [of x] pow by (simp add: push_bit_eq_mult take_bit_nat_eq_self mult.commute)
  finally show ?thesis .
qed

lemma u8_bound: "unat (x :: u8) < 256"
  using unat_bound [of x] by simp

text \<open>Two bytes read as a big-endian number, in any width that holds them.\<close>

lemma unat_be_pair [word_nat]:
  fixes x y :: u8
  assumes "16 \<le> LENGTH('a)"
  shows "unat (push_bit 8 (ucast x) OR ucast y :: 'a::len word) = unat x * 256 + unat y"
proof -
  have "push_bit 8 (ucast x) AND ucast y = (0 :: 'a word)"
    by (rule bit_eqI) (auto simp: bit_simps dest: bit_imp_le_length)
  then have plus: "push_bit 8 (ucast x) OR ucast y = push_bit 8 (ucast x) + (ucast y :: 'a word)"
    by (simp add: disjunctive_add_eq_or)
  have pow: "(65536 :: nat) \<le> 2 ^ LENGTH('a)"
    using power_increasing [OF assms, of "2 :: nat"] by simp
  have bound: "unat x * 256 + unat y < 65536" using u8_bound [of x] u8_bound [of y] by simp
  have p: "unat (push_bit 8 (ucast x) :: 'a word) = unat x * 256" using assms by (rule unat_hi_byte)
  have u: "unat (ucast y :: 'a word) = unat y" using assms by (simp add: unat_ucast_up)
  show ?thesis unfolding plus using bound pow p u by (subst unat_plus_exact) simp_all
qed

section \<open>Lists\<close>

lemma set_diff_drop: "distinct xs \<Longrightarrow> set xs - set (drop n xs) = set (take n xs)"
proof -
  assume d: "distinct xs"
  have "set xs = set (take n xs) \<union> set (drop n xs)"
    by (metis append_take_drop_id set_append)
  moreover have "set (take n xs) \<inter> set (drop n xs) = {}"
    using d by (rule set_take_disj_set_drop_if_distinct) simp
  ultimately show ?thesis by blast
qed

lemma length_filter_upt_Suc:
  "length (filter P [0..<Suc n]) = (if P 0 then 1 else 0) + length (filter (\<lambda>k. P (Suc k)) [0..<n])"
proof -
  have "[0..<Suc n] = 0 # map Suc [0..<n]" by (simp only: upt_conv_Cons zero_less_Suc map_Suc_upt)
  then show ?thesis by (simp only: filter.simps filter_map length_map comp_def) simp
qed

section \<open>Byte order\<close>

text \<open>\<open>encoding/binary\<close>: little-endian bytes of a word, least significant first; the
  big-endian form is the reverse.\<close>

primrec le_bytes :: "nat \<Rightarrow> 'a::len word \<Rightarrow> bytes" where
  "le_bytes 0 v = []"
| "le_bytes (Suc n) v = ucast v # le_bytes n (drop_bit 8 v)"

primrec le_word :: "bytes \<Rightarrow> 'a::len word" where
  "le_word [] = 0"
| "le_word (b # bs) = ucast b OR push_bit 8 (le_word bs)"

definition be_bytes :: "nat \<Rightarrow> 'a::len word \<Rightarrow> bytes" where
  "be_bytes n v = rev (le_bytes n v)"

definition be_word :: "bytes \<Rightarrow> 'a::len word" where
  "be_word bs = le_word (rev bs)"

abbreviation "be16 \<equiv> (be_bytes 2 :: u16 \<Rightarrow> bytes)"
abbreviation "be32 \<equiv> (be_bytes 4 :: u32 \<Rightarrow> bytes)"
abbreviation "be64 \<equiv> (be_bytes 8 :: u64 \<Rightarrow> bytes)"
abbreviation "le16 \<equiv> (le_bytes 2 :: u16 \<Rightarrow> bytes)"
abbreviation "le32 \<equiv> (le_bytes 4 :: u32 \<Rightarrow> bytes)"
abbreviation "le64 \<equiv> (le_bytes 8 :: u64 \<Rightarrow> bytes)"

lemma length_le_bytes [simp, byte_simps]: "length (le_bytes n v) = n"
  by (induction n arbitrary: v) auto

lemma length_be_bytes [simp, byte_simps]: "length (be_bytes n v) = n"
  by (simp add: be_bytes_def)

lemma le_word_le_bytes_take: "le_word (le_bytes n v) = take_bit (8 * n) v"
proof (induction n arbitrary: v)
  case (Suc n)
  show ?case
    by (rule bit_eqI) (auto simp: Suc bit_simps)
qed simp

lemma le_word_le_bytes [simp, byte_simps]:
  "LENGTH('a) \<le> 8 * n \<Longrightarrow> le_word (le_bytes n (v :: 'a::len word)) = v"
  by (simp add: le_word_le_bytes_take take_bit_word_eq_self)

lemma be_word_be_bytes [simp, byte_simps]:
  "LENGTH('a) \<le> 8 * n \<Longrightarrow> be_word (be_bytes n (v :: 'a::len word)) = v"
  by (simp add: be_word_def be_bytes_def)

lemma bit_le_word_less: "bit (le_word bs :: 'a::len word) i \<Longrightarrow> i < 8 * length bs"
proof (induction bs arbitrary: i)
  case (Cons b bs)
  from Cons.prems consider "bit b i" | "8 \<le> i" "bit (le_word bs :: 'a word) (i - 8)"
    by (auto simp: bit_simps)
  then show ?case
  proof cases
    case 1
    then have "i < 8" using bit_imp_le_length [of b i] by simp
    then show ?thesis by simp
  next
    case 2
    from Cons.IH [OF 2(2)] 2(1) show ?thesis by simp
  qed
qed simp

lemma le_bytes_le_word:
  "length bs = n \<Longrightarrow> 8 * n \<le> LENGTH('a) \<Longrightarrow> le_bytes n (le_word bs :: 'a::len word) = bs"
proof (induction n arbitrary: bs)
  case (Suc n)
  then obtain b cs where bs: "bs = b # cs" "length cs = n" by (cases bs) auto
  have len: "8 + 8 * n \<le> LENGTH('a)" using Suc.prems by simp
  have hd: "ucast (ucast b OR push_bit 8 (le_word cs :: 'a word)) = b"
    by (rule bit_eqI) (use len in \<open>auto simp: bit_simps\<close>)
  have tl: "drop_bit 8 (ucast b OR push_bit 8 (le_word cs :: 'a word)) = le_word cs"
  proof (rule bit_eqI)
    fix i
    show "bit (drop_bit 8 (ucast b OR push_bit 8 (le_word cs :: 'a word))) i
        = bit (le_word cs :: 'a word) i"
    proof (cases "bit (le_word cs :: 'a word) i")
      case True
      then have "i < 8 * n" using bit_le_word_less [of cs i] bs(2) by auto
      with True len show ?thesis by (auto simp: bit_simps)
    next
      case False
      moreover have "\<not> bit b (8 + i)" using bit_imp_le_length [of b "8 + i"] by auto
      ultimately show ?thesis by (auto simp: bit_simps)
    qed
  qed
  show ?case using bs Suc.IH [of cs] len hd tl by simp
qed simp

lemma be_bytes_be_word:
  "length bs = n \<Longrightarrow> 8 * n \<le> LENGTH('a) \<Longrightarrow> be_bytes n (be_word bs :: 'a::len word) = bs"
  by (simp add: be_bytes_def be_word_def le_bytes_le_word)

section \<open>Byte buffers\<close>

text \<open>A bounds-checked store into a Go slice and a load from it. \<open>None\<close> is the run-time panic
  of an index out of range.\<close>

definition poke :: "bytes \<Rightarrow> nat \<Rightarrow> bytes \<Rightarrow> bytes option" where
  "poke b off xs =
     (if off + length xs \<le> length b then Some (take off b @ xs @ drop (off + length xs) b)
      else None)"

definition peek :: "bytes \<Rightarrow> nat \<Rightarrow> nat \<Rightarrow> bytes option" where
  "peek b off n = (if off + n \<le> length b then Some (take n (drop off b)) else None)"

lemma poke_length [byte_simps]: "poke b off xs = Some b' \<Longrightarrow> length b' = length b"
  by (auto simp: poke_def split: if_splits)

lemma poke_defined [byte_simps]: "off + length xs \<le> length b \<Longrightarrow> \<exists>b'. poke b off xs = Some b'"
  by (simp add: poke_def)

lemma peek_length [byte_simps]: "peek b off n = Some xs \<Longrightarrow> length xs = n"
  by (auto simp: peek_def split: if_splits)

lemma peek_poke_same [byte_simps]:
  "poke b off xs = Some b' \<Longrightarrow> peek b' off (length xs) = Some xs"
  by (auto simp: poke_def peek_def split: if_splits)

lemma poke_nth [byte_simps]:
  "poke b off xs = Some b' \<Longrightarrow> i < length b \<Longrightarrow>
     b' ! i = (if off \<le> i \<and> i < off + length xs then xs ! (i - off) else b ! i)"
  by (auto simp: poke_def nth_append min_def split: if_splits)

lemma peek_poke_other [byte_simps]:
  assumes "poke b off xs = Some b'" "i + n \<le> off \<or> off + length xs \<le> i"
  shows "peek b' i n = peek b i n"
proof (cases "i + n \<le> length b")
  case True
  have len: "length b' = length b" using assms(1) by (rule poke_length)
  have "take n (drop i b') = take n (drop i b)"
    by (rule nth_equalityI) (use assms True len in \<open>auto simp: poke_nth\<close>)
  with True len show ?thesis by (simp add: peek_def)
qed (use poke_length [OF assms(1)] in \<open>simp add: peek_def\<close>)

subsection \<open>Wrapping writes\<close>

text \<open>A write at a byte position of a cyclic buffer that continues at the start when it runs off
  the end.\<close>

primrec cyc_write :: "bytes \<Rightarrow> nat \<Rightarrow> bytes \<Rightarrow> bytes" where
  "cyc_write b off [] = b"
| "cyc_write b off (x # xs) = cyc_write (b[off mod length b := x]) (Suc off) xs"

definition cyc_read :: "bytes \<Rightarrow> nat \<Rightarrow> nat \<Rightarrow> bytes" where
  "cyc_read b off n = map (\<lambda>j. b ! ((off + j) mod length b)) [0..<n]"

lemma length_cyc_write [simp, byte_simps]: "length (cyc_write b off xs) = length b"
  by (induction xs arbitrary: b off) auto

lemma length_cyc_read [simp, byte_simps]: "length (cyc_read b off n) = n"
  by (simp add: cyc_read_def)

lemma cyc_write_append:
  "cyc_write b off (xs @ ys) = cyc_write (cyc_write b off xs) (off + length xs) ys"
  by (induction xs arbitrary: b off) auto

lemma cyc_write_mod: "cyc_write b (off mod length b) xs = cyc_write b off xs"
proof (induction xs arbitrary: b off)
  case (Cons x xs)
  let ?b = "b[off mod length b := x]"
  have "cyc_write ?b (Suc (off mod length b)) xs = cyc_write ?b (Suc (off mod length b) mod length ?b) xs"
    by (simp only: Cons.IH)
  also have "\<dots> = cyc_write ?b (Suc off mod length ?b) xs" by (simp add: mod_Suc_eq)
  also have "\<dots> = cyc_write ?b (Suc off) xs" by (simp only: Cons.IH)
  finally show ?case by simp
qed simp

lemma cyc_write_cong_mod:
  "off mod length b = off' mod length b \<Longrightarrow> cyc_write b off xs = cyc_write b off' xs"
  by (metis cyc_write_mod)

lemma cyc_write_nth_other:
  assumes "i < length b" "\<And>j. j < length xs \<Longrightarrow> (off + j) mod length b \<noteq> i"
  shows "cyc_write b off xs ! i = b ! i"
  using assms
proof (induction xs arbitrary: b off)
  case (Cons x xs)
  let ?b = "b[off mod length b := x]"
  have ne: "off mod length b \<noteq> i" using Cons.prems(2) [of 0] by simp
  have "cyc_write ?b (Suc off) xs ! i = ?b ! i"
  proof (rule Cons.IH)
    show "i < length ?b" using Cons.prems(1) by simp
    fix j assume "j < length xs"
    with Cons.prems(2) [of "Suc j"] show "(Suc off + j) mod length ?b \<noteq> i" by simp
  qed
  with ne show ?case by simp
qed simp

lemma mod_add_inj:
  assumes "(a + i) mod n = (a + j) mod (n::nat)" "i < n" "j < n"
  shows "i = j"
proof (cases "i \<le> j")
  case True
  with assms(1) have "n dvd (a + j) - (a + i)"
    using mod_eq_dvd_iff_nat [of "a + i" "a + j" n] by simp
  with True assms(3) show ?thesis by (auto dest: dvd_imp_le)
next
  case False
  with assms(1) have "n dvd (a + i) - (a + j)"
    using mod_eq_dvd_iff_nat [of "a + j" "a + i" n] by simp
  with False assms(2) show ?thesis by (auto dest: dvd_imp_le)
qed

lemma cyc_write_nth:
  assumes "j < length xs" "length xs \<le> length b"
  shows "cyc_write b off xs ! ((off + j) mod length b) = xs ! j"
  using assms
proof (induction xs arbitrary: b off j)
  case (Cons x xs)
  let ?b = "b[off mod length b := x]"
  have pos: "0 < length b" using Cons.prems by (cases b) auto
  show ?case
  proof (cases j)
    case 0
    have "cyc_write ?b (Suc off) xs ! (off mod length b) = ?b ! (off mod length b)"
    proof (rule cyc_write_nth_other)
      show "off mod length b < length ?b" using pos by simp
      fix k assume k: "k < length xs"
      show "(Suc off + k) mod length ?b \<noteq> off mod length b"
        using mod_add_inj [of off "Suc k" "length b" 0] k Cons.prems(2) pos by auto
    qed
    with 0 pos show ?thesis by simp
  next
    case (Suc k)
    then have "cyc_write ?b (Suc off) xs ! ((Suc off + k) mod length ?b) = xs ! k"
      using Cons.prems by (intro Cons.IH) simp_all
    with Suc show ?thesis by simp
  qed
qed simp

lemma cyc_read_write:
  "length xs \<le> length b \<Longrightarrow> cyc_read (cyc_write b off xs) off (length xs) = xs"
  by (rule nth_equalityI) (auto simp: cyc_read_def cyc_write_nth)

lemma cyc_read_mod: "cyc_read b (off mod length b) n = cyc_read b off n"
  by (simp add: cyc_read_def mod_add_left_eq)

text \<open>A write leaves what another window reads alone when the two do not overlap: here the other
  window starts at or after the end of the write and ends before the write comes round again.\<close>

lemma cyc_read_write_later:
  assumes "length xs \<le> d" "d + n \<le> length b"
  shows "cyc_read (cyc_write b off xs) (off + d) n = cyc_read b (off + d) n"
proof (rule nth_equalityI)
  fix i assume "i < length (cyc_read (cyc_write b off xs) (off + d) n)"
  then have i: "i < n" by simp
  then have pos: "0 < length b" using assms(2) by linarith
  have "cyc_write b off xs ! ((off + (d + i)) mod length b) = b ! ((off + (d + i)) mod length b)"
  proof (rule cyc_write_nth_other)
    show "(off + (d + i)) mod length b < length b" using pos by simp
    fix j assume "j < length xs"
    then show "(off + j) mod length b \<noteq> (off + (d + i)) mod length b"
      using mod_add_inj [of off j "length b" "d + i"] assms i by auto
  qed
  with i show "cyc_read (cyc_write b off xs) (off + d) n ! i = cyc_read b (off + d) n ! i"
    by (simp add: cyc_read_def add.assoc)
qed simp

lemma cyc_write_flat:
  "off + length xs \<le> length b \<Longrightarrow> cyc_write b off xs = take off b @ xs @ drop (off + length xs) b"
proof (induction xs arbitrary: b off)
  case (Cons x xs)
  then have off: "off < length b" by simp
  then have m: "off mod length b = off" by simp
  have "cyc_write (b[off := x]) (Suc off) xs
      = take (Suc off) (b[off := x]) @ xs @ drop (Suc off + length xs) (b[off := x])"
    by (rule Cons.IH) (use Cons.prems in simp)
  also have "take (Suc off) (b[off := x]) = take off b @ [x]"
    using off by (simp add: take_Suc_conv_app_nth)
  finally show ?case using m by simp
qed simp

lemma poke_cyc_write:
  "off + length xs \<le> length b \<Longrightarrow> poke b off xs = Some (cyc_write b off xs)"
  by (simp add: poke_def cyc_write_flat)

section \<open>Rings over free-running counters\<close>

text \<open>A power-of-two array addressed by 32-bit counters that are masked when used. The elements
  between two counters, oldest first:\<close>

definition rslot :: "'a list \<Rightarrow> u32 \<Rightarrow> nat" where
  "rslot b w = unat (w AND of_nat (length b - 1))"

definition ring_list :: "'a list \<Rightarrow> u32 \<Rightarrow> nat \<Rightarrow> 'a list" where
  "ring_list b h n = map (\<lambda>i. b ! rslot b (h + of_nat i)) [0..<n]"

definition ring_ok :: "'a list \<Rightarrow> bool" where
  "ring_ok b \<longleftrightarrow> is_pow2 (length b) \<and> length b \<le> 2 ^ 31"

lemma rslot_mod: "ring_ok b \<Longrightarrow> rslot b (h + of_nat i) = (unat h + i) mod length b"
  unfolding rslot_def ring_ok_def
  by (subst unat_and_pow2_mask) (simp_all add: unat_add_mod)

lemma rslot_mod0: "ring_ok b \<Longrightarrow> rslot b h = unat h mod length b"
  using rslot_mod [of b h 0] by simp

lemma ring_ok_pos: "ring_ok b \<Longrightarrow> 0 < length b"
  unfolding ring_ok_def by (blast dest: is_pow2_pos)

lemma ring_ok_update [simp]: "ring_ok (b[i := x]) = ring_ok b"
  by (simp add: ring_ok_def)

lemma rslot_update [simp]: "rslot (b[i := x]) h = rslot b h"
  by (simp add: rslot_def)

lemma rslot_less [ring_simps]: "ring_ok b \<Longrightarrow> rslot b h < length b"
  using ring_ok_pos [of b] by (simp add: rslot_mod0)

lemma rslot_inj:
  "ring_ok b \<Longrightarrow> rslot b (h + of_nat i) = rslot b (h + of_nat j) \<Longrightarrow> i < length b \<Longrightarrow> j < length b \<Longrightarrow>
     i = j"
  using mod_add_inj [of "unat h" i "length b" j] by (simp add: rslot_mod)

lemma length_ring_list [simp, ring_simps]: "length (ring_list b h n) = n"
  by (simp add: ring_list_def)

lemma ring_list_0 [simp, ring_simps]: "ring_list b h 0 = []"
  by (simp add: ring_list_def)

lemma ring_list_nth [ring_simps]: "i < n \<Longrightarrow> ring_list b h n ! i = b ! rslot b (h + of_nat i)"
  by (simp add: ring_list_def)

lemma ring_list_push [ring_simps]:
  assumes "ring_ok b" "n < length b"
  shows "ring_list (b[rslot b (h + of_nat n) := x]) h (Suc n) = ring_list b h n @ [x]"
proof (rule nth_equalityI)
  let ?b = "b[rslot b (h + of_nat n) := x]"
  fix i assume "i < length (ring_list ?b h (Suc n))"
  then have i: "i \<le> n" by simp
  show "ring_list ?b h (Suc n) ! i = (ring_list b h n @ [x]) ! i"
  proof (cases "i = n")
    case True
    then show ?thesis
      using assms by (simp add: ring_list_nth nth_append rslot_less)
  next
    case False
    with i have "i < n" by simp
    moreover have "rslot b (h + of_nat n) \<noteq> rslot b (h + of_nat i)"
      using rslot_inj [OF assms(1), of h n i] assms(2) \<open>i < n\<close> by auto
    ultimately show ?thesis by (simp add: ring_list_nth nth_append)
  qed
qed simp

lemma ring_list_drop [ring_simps]:
  "k \<le> n \<Longrightarrow> ring_list b (h + of_nat k) (n - k) = drop k (ring_list b h n)"
  by (rule nth_equalityI) (auto simp: ring_list_def add.assoc)

lemma ring_list_take [ring_simps]: "k \<le> n \<Longrightarrow> take k (ring_list b h n) = ring_list b h k"
  by (rule nth_equalityI) (auto simp: ring_list_def)

lemma ring_list_Suc: "ring_list b h (Suc n) = b ! rslot b h # ring_list b (h + 1) n"
proof (rule nth_equalityI)
  fix i assume "i < length (ring_list b h (Suc n))"
  then show "ring_list b h (Suc n) ! i = (b ! rslot b h # ring_list b (h + 1) n) ! i"
    by (cases i) (simp_all add: ring_list_nth add.assoc)
qed simp

end
