(* ===== verification/Frame_Pool.thy ===== *)
theory Frame_Pool
  imports Packetio_Prelude
begin

text \<open>
  The free-frame list of \<^verbatim>\<open>internal/pool\<close>: \<open>pool.go\<close>, and the two builds of its
  double-return check, \<open>check_on.go\<close> (tag \<open>packetio_checked\<close>) and \<open>check_off.go\<close>. The build is
  the first argument of every operation that calls one of the build-dependent functions.
  \<open>None\<close> is a Go panic (an index out of range in the bitmap).

  The locale \<open>frame_pool\<close> is the contract the queues rely on: what \<open>Pop\<close> and \<open>Push\<close> do to the
  free list and that they keep the invariant. Its client lemma is ownership: along any run,
  every frame of the pool is either free or held by exactly one caller. It is interpreted on
  both builds; they differ in what a caller is allowed to push.
\<close>

section \<open>The source\<close>

record frames =
  free :: "u64 list"      \<comment> \<open>the Go slice; the last element is the top of the stack\<close>
  free_cap :: nat         \<comment> \<open>\<open>cap(p.free)\<close>, fixed by \<open>make\<close>\<close>
  frameSize :: nat
  frameMask :: u64
  frameShift :: nat
  base :: u64
  end_addr :: u64
  rejected :: u64
  in_bits :: "u64 list"   \<comment> \<open>one bit per frame; allocated by the checked build only\<close>

definition index :: "frames \<Rightarrow> u64 \<Rightarrow> u64" where
  "index p addr = drop_bit (frameShift p) (addr - base p)"

definition initChecks :: "bool \<Rightarrow> nat \<Rightarrow> frames \<Rightarrow> frames" where
  "initChecks chk count p =
     (if \<not> chk then p
      else let n = (count + 63) div 64;
               bs = replicate n (NOT 0);
               r = count mod 64
           in p\<lparr>in_bits := if r \<noteq> 0 then bs[n - 1 := push_bit r 1 - 1] else bs\<rparr>)"

definition markFree :: "bool \<Rightarrow> u64 \<Rightarrow> frames \<Rightarrow> (bool \<times> frames) option" where
  "markFree chk addr p =
     (if \<not> chk then Some (True, p)
      else let i = index p addr; w = unat (drop_bit 6 i); b = push_bit (unat (i AND 63)) 1
           in if \<not> w < length (in_bits p) then None
              else if in_bits p ! w AND b \<noteq> 0 then Some (False, p)
              else Some (True, p\<lparr>in_bits := (in_bits p)[w := in_bits p ! w OR b]\<rparr>))"

fun markTaken :: "bool \<Rightarrow> u64 list \<Rightarrow> frames \<Rightarrow> frames option" where
  "markTaken chk [] p = Some p"
| "markTaken chk (addr # addrs) p =
     (if \<not> chk then Some p
      else let i = index p addr; w = unat (drop_bit 6 i); b = push_bit (unat (i AND 63)) 1
           in if \<not> w < length (in_bits p) then None
              else markTaken chk addrs (p\<lparr>in_bits := (in_bits p)[w := in_bits p ! w AND NOT b]\<rparr>))"

text \<open>\<open>bits.TrailingZeros64\<close>, 64 for zero.\<close>

definition trailingZeros :: "nat \<Rightarrow> nat" where
  "trailingZeros n = (if n = 0 then 64 else length (takeWhile (\<lambda>i. \<not> bit n i) [0..<64]))"

definition New :: "bool \<Rightarrow> nat \<Rightarrow> nat \<Rightarrow> nat \<Rightarrow> frames" where
  "New chk bas count fsize =
     (let b = of_nat bas * of_nat fsize;
          p = \<lparr>free = [], free_cap = count, frameSize = fsize, frameMask = of_nat fsize - 1,
               frameShift = trailingZeros fsize, base = b,
               end_addr = b + of_nat count * of_nat fsize, rejected = 0, in_bits = []\<rparr>
      in (initChecks chk count p)
           \<lparr>free := map (\<lambda>i. of_nat (bas + count - 1 - i) * of_nat fsize) [0..<count]\<rparr>)"

definition Len :: "frames \<Rightarrow> nat" where
  "Len p = length (free p)"

definition Owns :: "frames \<Rightarrow> u64 \<Rightarrow> bool" where
  "Owns p addr \<longleftrightarrow> addr \<ge> base p \<and> addr < end_addr p"

definition Pop :: "bool \<Rightarrow> int \<Rightarrow> u64 list \<Rightarrow> frames \<Rightarrow> (u64 list \<times> frames) option" where
  "Pop chk n dst p =
     (let n' = (if n > int (length (free p)) then int (length (free p)) else n)
      in if n' \<le> 0 then Some (dst, p)
         else let start = length (free p) - nat n'; top = drop start (free p)
              in do { p1 \<leftarrow> markTaken chk top p;
                      Some (dst @ top, p1\<lparr>free := take start (free p)\<rparr>) })"

definition Push :: "bool \<Rightarrow> u64 \<Rightarrow> frames \<Rightarrow> frames option" where
  "Push chk addr p =
     (if addr < base p \<or> addr \<ge> end_addr p \<or> addr AND frameMask p \<noteq> 0
         \<or> length (free p) \<ge> free_cap p
      then Some (p\<lparr>rejected := rejected p + 1\<rparr>)
      else do { (ok, p1) \<leftarrow> markFree chk addr p;
                if \<not> ok then Some (p1\<lparr>rejected := rejected p1 + 1\<rparr>)
                else Some (p1\<lparr>free := free p1 @ [addr]\<rparr>) })"

definition Base :: "frames \<Rightarrow> u64 \<Rightarrow> u64" where
  "Base p addr = addr AND NOT (frameMask p)"

section \<open>The invariant\<close>

text \<open>The address of the pool's \<open>i\<close>-th frame, and the set of them.\<close>

definition faddr :: "frames \<Rightarrow> nat \<Rightarrow> u64" where
  "faddr p i = base p + of_nat (i * frameSize p)"

definition all_frames :: "frames \<Rightarrow> u64 set" where
  "all_frames p = faddr p ` {..<free_cap p}"

text \<open>The geometry \<open>New\<close> fixes: a power-of-two frame size, an aligned base and an end that does
  not wrap.\<close>

definition pool_geom :: "frames \<Rightarrow> bool" where
  "pool_geom p \<longleftrightarrow> is_pow2 (frameSize p) \<and> frameSize p < 2 ^ 63 \<and> frameMask p = of_nat (frameSize p - 1)
     \<and> 2 ^ frameShift p = frameSize p \<and> frameSize p dvd unat (base p)
     \<and> unat (base p) + free_cap p * frameSize p < 2 ^ 64
     \<and> end_addr p = base p + of_nat (free_cap p * frameSize p)"

text \<open>The checked build's bitmap says which frames are in a set.\<close>

definition bitmap :: "frames \<Rightarrow> u64 set \<Rightarrow> bool" where
  "bitmap p S \<longleftrightarrow> length (in_bits p) = (free_cap p + 63) div 64
     \<and> (\<forall>i < free_cap p. bit (in_bits p ! (i div 64)) (i mod 64) \<longleftrightarrow> faddr p i \<in> S)"

definition pool_inv :: "bool \<Rightarrow> frames \<Rightarrow> bool" where
  "pool_inv chk p \<longleftrightarrow> pool_geom p \<and> length (free p) \<le> free_cap p \<and> distinct (free p)
     \<and> set (free p) \<subseteq> all_frames p \<and> (chk \<longrightarrow> bitmap p (set (free p)))"

subsection \<open>Geometry\<close>

lemma geom_pos: "pool_geom p \<Longrightarrow> 0 < frameSize p"
  unfolding pool_geom_def using is_pow2_pos by blast

lemma geom_frame_end:
  assumes "i < free_cap p"
  shows "i * frameSize p + frameSize p \<le> free_cap p * frameSize p"
proof -
  have "(i + 1) * frameSize p \<le> free_cap p * frameSize p"
    using assms by (intro mult_le_mono1) simp
  then show ?thesis by simp
qed

lemma geom_frame_bound:
  assumes "pool_geom p" "i \<le> free_cap p"
  shows "unat (base p) + i * frameSize p < 2 ^ 64"
proof -
  have "i * frameSize p \<le> free_cap p * frameSize p" using assms(2) by (rule mult_le_mono1)
  moreover have "unat (base p) + free_cap p * frameSize p < 2 ^ 64"
    using assms(1) by (simp add: pool_geom_def)
  ultimately show ?thesis by linarith
qed

lemma unat_faddr:
  assumes "pool_geom p" "i \<le> free_cap p"
  shows "unat (faddr p i) = unat (base p) + i * frameSize p"
  using geom_frame_bound [OF assms]
  by (simp add: faddr_def unat_word_ariths unat_of_nat mod_add_right_eq del: of_nat_mult)

lemma end_addr_faddr: "pool_geom p \<Longrightarrow> end_addr p = faddr p (free_cap p)"
  unfolding pool_geom_def faddr_def by blast

lemma unat_end_addr:
  "pool_geom p \<Longrightarrow> unat (end_addr p) = unat (base p) + free_cap p * frameSize p"
  using unat_faddr [of p "free_cap p"] end_addr_faddr [of p] by simp

lemma faddr_inj:
  assumes "pool_geom p" "i < free_cap p" "j < free_cap p" "faddr p i = faddr p j"
  shows "i = j"
proof -
  have "unat (base p) + i * frameSize p = unat (base p) + j * frameSize p"
    using unat_faddr [of p i] unat_faddr [of p j] assms by (metis less_imp_le)
  then show ?thesis using geom_pos [OF assms(1)] by simp
qed

lemma unat_index_faddr:
  assumes "pool_geom p" "i < free_cap p"
  shows "unat (index p (faddr p i)) = i"
proof -
  have sz: "2 ^ frameShift p = frameSize p" using assms(1) by (simp add: pool_geom_def)
  have "i * frameSize p < 2 ^ 64" using geom_frame_bound [OF assms(1), of i] assms(2) by linarith
  then have "unat (of_nat (i * frameSize p) :: u64) = i * frameSize p"
    by (simp add: unat_of_nat del: of_nat_mult)
  moreover have "unat (index p (faddr p i)) = drop_bit (frameShift p) (unat (of_nat (i * frameSize p) :: u64))"
    unfolding index_def faddr_def by (simp only: add_diff_cancel_left' unat_drop_bit_eq)
  ultimately have "unat (index p (faddr p i)) = (i * frameSize p) div 2 ^ frameShift p"
    by (simp only: drop_bit_eq_div)
  then show ?thesis using sz geom_pos [OF assms(1)] by simp
qed

lemma mask_zero_iff:
  assumes "pool_geom p"
  shows "addr AND frameMask p = 0 \<longleftrightarrow> frameSize p dvd unat addr"
proof -
  have fs: "is_pow2 (frameSize p)" "frameSize p \<le> 2 ^ LENGTH(64)"
      "frameMask p = of_nat (frameSize p - 1)"
    using assms by (auto simp: pool_geom_def)
  have "unat (addr AND frameMask p) = unat addr mod frameSize p"
    unfolding fs(3) by (rule unat_and_pow2_mask [OF fs(1,2)])
  then show ?thesis by (simp only: dvd_eq_mod_eq_0 unat_eq_zero [symmetric])
qed

lemma all_frames_iff:
  assumes "pool_geom p"
  shows "addr \<in> all_frames p \<longleftrightarrow> base p \<le> addr \<and> addr < end_addr p \<and> addr AND frameMask p = 0"
proof
  assume "addr \<in> all_frames p"
  then obtain i where i: "i < free_cap p" "addr = faddr p i" by (auto simp: all_frames_def)
  then have u: "unat addr = unat (base p) + i * frameSize p" using unat_faddr [OF assms, of i] by simp
  have "frameSize p dvd unat (base p)" using assms by (simp add: pool_geom_def)
  then have "frameSize p dvd unat addr" using u by simp
  moreover have "unat addr < unat (end_addr p)"
    using u geom_frame_end [OF i(1)] geom_pos [OF assms] unat_end_addr [OF assms] by linarith
  ultimately show "base p \<le> addr \<and> addr < end_addr p \<and> addr AND frameMask p = 0"
    using u assms by (simp add: mask_zero_iff word_le_nat_alt word_less_nat_alt)
next
  assume R: "base p \<le> addr \<and> addr < end_addr p \<and> addr AND frameMask p = 0"
  then have d: "frameSize p dvd unat addr" using assms mask_zero_iff by blast
  have ub: "unat (base p) \<le> unat addr" and ue: "unat addr < unat (base p) + free_cap p * frameSize p"
    using R unat_end_addr [OF assms] by (auto simp: word_le_nat_alt word_less_nat_alt)
  have "frameSize p dvd unat (base p)" using assms by (simp add: pool_geom_def)
  with d have "frameSize p dvd unat addr - unat (base p)" by (rule dvd_diff_nat)
  then obtain i where i: "unat addr - unat (base p) = frameSize p * i" by (auto simp: dvd_def)
  have "frameSize p * i < frameSize p * free_cap p"
    using i ue ub mult.commute [of "free_cap p" "frameSize p"] by linarith
  then have lt: "i < free_cap p" by simp
  then have "unat (faddr p i) = unat addr"
    using unat_faddr [OF assms, of i] i ub by (simp add: mult.commute)
  then have "addr = faddr p i" by (simp add: word_unat_eq_iff)
  with lt show "addr \<in> all_frames p" by (auto simp: all_frames_def)
qed

subsection \<open>The bitmap\<close>

text \<open>The word and the bit of a frame's flag.\<close>

lemma flag_position:
  assumes "pool_geom p" "i < free_cap p"
  shows "unat (drop_bit 6 (index p (faddr p i))) = i div 64"
    and "unat (index p (faddr p i) AND 63) = i mod 64"
proof -
  note ix = unat_index_faddr [OF assms]
  show "unat (drop_bit 6 (index p (faddr p i))) = i div 64"
    unfolding unat_drop_bit_eq ix by (simp add: drop_bit_eq_div)
  have "unat (index p (faddr p i) AND (2 ^ 6 - 1)) = i mod 2 ^ 6"
    using ix by (subst unat_and_mask) simp_all
  then show "unat (index p (faddr p i) AND 63) = i mod 64" by simp
qed

lemma flag_word_in_range:
  "bitmap p S \<Longrightarrow> i < free_cap p \<Longrightarrow> i div 64 < length (in_bits p)"
  by (auto simp: bitmap_def)

lemma bit_set_flag: "bit (w OR 2 ^ k :: u64) j \<longleftrightarrow> bit w j \<or> (j = k \<and> k < 64)"
  by (auto simp: bit_simps)

lemma bit_clear_flag: "bit (w AND NOT (2 ^ k) :: u64) j \<longleftrightarrow> bit w j \<and> j \<noteq> k"
  using bit_imp_le_length [of w j] by (auto simp: bit_simps)

lemma div_mod_64_eq: "(i::nat) div 64 = j div 64 \<Longrightarrow> i mod 64 = j mod 64 \<Longrightarrow> i = j"
  by (metis div_mult_mod_eq)

lemma bitmap_update:
  assumes g: "pool_geom p" and b: "bitmap p S" and i: "i < free_cap p"
    and v: "\<And>j. j < 64 \<Longrightarrow> bit v j \<longleftrightarrow> (if j = i mod 64 then x else bit (in_bits p ! (i div 64)) j)"
    and T: "\<And>a. a \<in> all_frames p \<Longrightarrow> a \<in> T \<longleftrightarrow> (if a = faddr p i then x else a \<in> S)"
  shows "bitmap (p\<lparr>in_bits := (in_bits p)[i div 64 := v]\<rparr>) T"
  unfolding bitmap_def
proof (intro conjI allI impI)
  let ?p = "p\<lparr>in_bits := (in_bits p)[i div 64 := v]\<rparr>"
  have r: "i div 64 < length (in_bits p)" using b i by (rule flag_word_in_range)
  show "length (in_bits ?p) = (free_cap ?p + 63) div 64" using b by (simp add: bitmap_def)
  fix j assume "j < free_cap ?p"
  then have j: "j < free_cap p" by simp
  have old: "bit (in_bits p ! (j div 64)) (j mod 64) \<longleftrightarrow> faddr p j \<in> S"
    using b j by (simp add: bitmap_def)
  have aj: "faddr ?p j = faddr p j" by (simp add: faddr_def)
  have inA: "faddr p j \<in> all_frames p" using j by (simp add: all_frames_def)
  show "bit (in_bits ?p ! (j div 64)) (j mod 64) \<longleftrightarrow> faddr ?p j \<in> T"
  proof (cases "j = i")
    case True
    then show ?thesis using r v [of "i mod 64"] T [OF inA] aj by simp
  next
    case False
    then have ne: "faddr p j \<noteq> faddr p i" using faddr_inj [OF g j i] by blast
    show ?thesis
    proof (cases "j div 64 = i div 64")
      case True
      then have "j mod 64 \<noteq> i mod 64" using False div_mod_64_eq by blast
      then show ?thesis using True r v [of "j mod 64"] T [OF inA] aj ne old by simp
    qed (use T [OF inA] aj ne old in simp)
  qed
qed

lemma markFree_spec:
  assumes "pool_geom p" "chk \<longrightarrow> bitmap p S" "a \<in> all_frames p"
  shows "markFree chk a p = Some (False, p) \<and> chk \<and> a \<in> S
       \<or> (\<exists>v. markFree chk a p = Some (True, p\<lparr>in_bits := v\<rparr>) \<and> (chk \<longrightarrow> a \<notin> S)
            \<and> (chk \<longrightarrow> bitmap (p\<lparr>in_bits := v\<rparr>) (insert a S)))"
proof (cases chk)
  case False
  then show ?thesis by (auto simp: markFree_def intro!: exI [of _ "in_bits p"])
next
  case True
  then have b: "bitmap p S" using assms(2) by simp
  obtain i where i: "i < free_cap p" "a = faddr p i" using assms(3) by (auto simp: all_frames_def)
  note pos = flag_position [OF assms(1) i(1)]
  have r: "i div 64 < length (in_bits p)" using b i(1) by (rule flag_word_in_range)
  let ?w = "in_bits p ! (i div 64)" and ?b = "push_bit (i mod 64) (1::u64)"
  have flag: "bit ?w (i mod 64) \<longleftrightarrow> a \<in> S" using b i by (simp add: bitmap_def)
  have test: "?w AND ?b \<noteq> 0 \<longleftrightarrow> a \<in> S"
    using flag bit_iff_and_push_bit_not_eq_0 [of ?w "i mod 64"] by simp
  have eq: "markFree chk a p =
      (if a \<in> S then Some (False, p) else Some (True, p\<lparr>in_bits := (in_bits p)[i div 64 := ?w OR ?b]\<rparr>))"
    using True r test pos i(2) by (simp only: markFree_def Let_def) simp
  have "bitmap (p\<lparr>in_bits := (in_bits p)[i div 64 := ?w OR ?b]\<rparr>) (insert a S)"
    by (rule bitmap_update [OF assms(1) b i(1), where x = True]) (auto simp: bit_set_flag i(2))
  then show ?thesis using eq True by auto
qed

lemma markTaken_spec:
  assumes "pool_geom p" "chk \<longrightarrow> bitmap p S" "set as \<subseteq> all_frames p"
  shows "\<exists>v. markTaken chk as p = Some (p\<lparr>in_bits := v\<rparr>)
       \<and> (chk \<longrightarrow> bitmap (p\<lparr>in_bits := v\<rparr>) (S - set as))"
  using assms
proof (induction as arbitrary: p S)
  case Nil
  then show ?case by (auto intro!: exI [of _ "in_bits p"])
next
  case (Cons a as)
  show ?case
  proof (cases chk)
    case False
    then show ?thesis by (auto intro!: exI [of _ "in_bits p"])
  next
    case True
    then have b: "bitmap p S" using Cons.prems(2) by simp
    obtain i where i: "i < free_cap p" "a = faddr p i"
      using Cons.prems(3) by (auto simp: all_frames_def)
    note pos = flag_position [OF Cons.prems(1) i(1)]
    have r: "i div 64 < length (in_bits p)" using b i(1) by (rule flag_word_in_range)
    let ?w = "in_bits p ! (i div 64)" and ?b = "push_bit (i mod 64) (1::u64)"
    let ?p = "p\<lparr>in_bits := (in_bits p)[i div 64 := ?w AND NOT ?b]\<rparr>"
    have eq: "markTaken chk (a # as) p = markTaken chk as ?p"
      using True r pos i(2) by (simp only: markTaken.simps Let_def) simp
    have b': "bitmap ?p (S - {a})"
      by (rule bitmap_update [OF Cons.prems(1) b i(1), where x = False])
         (auto simp: bit_clear_flag i(2))
    have "pool_geom ?p" using Cons.prems(1) by (simp add: pool_geom_def)
    moreover have "set as \<subseteq> all_frames ?p"
      using Cons.prems(3) by (auto simp: all_frames_def faddr_def)
    ultimately obtain v where "markTaken chk as ?p = Some (?p\<lparr>in_bits := v\<rparr>)"
        "chk \<longrightarrow> bitmap (?p\<lparr>in_bits := v\<rparr>) (S - {a} - set as)"
      using Cons.IH [of ?p "S - {a}"] b' by auto
    then show ?thesis using eq by (intro exI [of _ v]) (simp add: Diff_insert2 [symmetric])
  qed
qed

subsection \<open>New establishes the invariant\<close>

lemma trailingZeros_exp:
  assumes "k < 64"
  shows "trailingZeros (2 ^ k) = k"
proof -
  have b: "bit ((2::nat) ^ k) i \<longleftrightarrow> i = k" for i by (auto simp: bit_exp_iff)
  have "[0..<64] = [0..<k] @ k # [Suc k..<64]"
    using assms upt_add_eq_append [of 0 k "64 - k"] upt_conv_Cons [of k 64] by simp
  then have "takeWhile (\<lambda>i. \<not> bit ((2::nat) ^ k) i) [0..<64] = [0..<k]"
    by (simp only: b) (subst takeWhile_append2, auto)
  then show ?thesis by (simp add: trailingZeros_def)
qed

lemma New_geom:
  assumes "is_pow2 fsize" "fsize < 2 ^ 63" "(bas + count) * fsize < 2 ^ 64"
  shows "pool_geom (New chk bas count fsize)"
proof -
  obtain k where k: "fsize = 2 ^ k" using assms(1) is_pow2_iff by blast
  with assms(2) have "(2::nat) ^ k < 2 ^ 63" by simp
  then have "k < 63" by (simp only: power_strict_increasing_iff)
  then have tz: "trailingZeros fsize = k" using k trailingZeros_exp by simp
  have pos: "0 < fsize" using assms(1) by (rule is_pow2_pos)
  have "bas * fsize \<le> (bas + count) * fsize" by (rule mult_le_mono1) simp
  then have "bas * fsize < 2 ^ 64" using assms(3) by linarith
  then have ub: "unat (of_nat bas * of_nat fsize :: u64) = bas * fsize"
    by (simp add: unat_of_nat flip: of_nat_mult)
  have "(of_nat fsize - 1 :: u64) = of_nat (fsize - 1)" using pos by (simp add: of_nat_diff)
  then show ?thesis
    using assms ub tz k
    by (simp add: pool_geom_def New_def initChecks_def Let_def algebra_simps)
qed

lemma New_simps [simp]:
  "free_cap (New chk bas count fsize) = count"
  "frameSize (New chk bas count fsize) = fsize"
  "base (New chk bas count fsize) = of_nat bas * of_nat fsize"
  "rejected (New chk bas count fsize) = 0"
  by (simp_all add: New_def initChecks_def Let_def)

lemma New_free:
  "free (New chk bas count fsize) = rev (map (faddr (New chk bas count fsize)) [0..<count])"
proof (rule nth_equalityI)
  show "length (free (New chk bas count fsize))
      = length (rev (map (faddr (New chk bas count fsize)) [0..<count]))"
    by (simp add: New_def Let_def)
  fix i assume "i < length (free (New chk bas count fsize))"
  then have i: "i < count" by (simp add: New_def Let_def)
  then have ix: "bas + count - 1 - i = bas + (count - 1 - i)" by linarith
  have "free (New chk bas count fsize) ! i = of_nat (bas + count - 1 - i) * of_nat fsize"
    using i by (simp add: New_def Let_def)
  also have "\<dots> = faddr (New chk bas count fsize) (count - 1 - i)"
    unfolding ix faddr_def New_simps by (simp only: of_nat_add of_nat_mult distrib_right)
  finally show "free (New chk bas count fsize) ! i
      = rev (map (faddr (New chk bas count fsize)) [0..<count]) ! i"
    using i by (simp add: rev_nth)
qed

lemma words_partial: "(m::nat) mod 64 \<noteq> 0 \<Longrightarrow> (m + 63) div 64 = m div 64 + 1"
proof -
  assume r: "m mod 64 \<noteq> 0"
  obtain q r where m: "m = 64 * q + r" "r < 64" "m div 64 = q" "m mod 64 = r"
    by (rule that [of "m div 64" "m mod 64"]) simp_all
  have "0 < r" using r m(4) by simp
  then have lo: "64 * (q + 1) \<le> m + 63" using m(1) by simp
  have "m + 63 < 64 * Suc (q + 1)" using m(1,2) by simp
  with lo have "(m + 63) div 64 = q + 1" by (rule div_nat_eqI)
  then show ?thesis using m(3) by simp
qed

lemma words_cover: "(i::nat) < m \<Longrightarrow> i div 64 < (m + 63) div 64"
proof -
  assume "i < m"
  then have "(i + 64) div 64 \<le> (m + 63) div 64" by (intro div_le_mono) simp
  then show ?thesis by simp
qed

lemma New_bitmap: "bitmap (New True bas count fsize) (all_frames (New True bas count fsize))"
  unfolding bitmap_def
proof (intro conjI allI impI)
  let ?p = "New True bas count fsize" and ?n = "(count + 63) div 64" and ?r = "count mod 64"
  have bs: "in_bits ?p = (if ?r \<noteq> 0 then (replicate ?n (NOT 0))[?n - 1 := push_bit ?r 1 - 1]
                         else replicate ?n (NOT 0))"
    by (simp add: New_def initChecks_def Let_def)
  show "length (in_bits ?p) = (free_cap ?p + 63) div 64" by (simp add: bs)
  fix i assume "i < free_cap ?p"
  then have i: "i < count" by simp
  have "bit (in_bits ?p ! (i div 64)) (i mod 64)"
  proof (cases "?r \<noteq> 0 \<and> i div 64 = ?n - 1")
    case True
    then have n: "?n = count div 64 + 1" using words_partial by blast
    then have "i div 64 = count div 64" using True by simp
    then have "i mod 64 < ?r" using i by (metis div_mult_mod_eq nat_add_left_cancel_less)
    moreover have "?n - 1 < length (replicate ?n (NOT 0 :: u64))" using n by simp
    then have "in_bits ?p ! (?n - 1) = push_bit ?r 1 - 1"
      using bs True nth_list_update_eq by metis
    then have "in_bits ?p ! (i div 64) = mask ?r"
      using True by (simp add: mask_eq_exp_minus_1)
    ultimately show ?thesis by (simp add: bit_mask_iff)
  next
    case False
    have "i div 64 < ?n" using i by (rule words_cover)
    then have "in_bits ?p ! (i div 64) = NOT 0" using False by (auto simp: bs nth_list_update)
    then show ?thesis by simp
  qed
  moreover have "faddr ?p i \<in> all_frames ?p" using i by (simp add: all_frames_def)
  ultimately show "bit (in_bits ?p ! (i div 64)) (i mod 64) \<longleftrightarrow> faddr ?p i \<in> all_frames ?p" by simp
qed

lemma New_inv:
  assumes "is_pow2 fsize" "fsize < 2 ^ 63" "(bas + count) * fsize < 2 ^ 64"
  shows "pool_inv chk (New chk bas count fsize)"
    and "set (free (New chk bas count fsize)) = all_frames (New chk bas count fsize)"
proof -
  let ?p = "New chk bas count fsize"
  have g: "pool_geom ?p" using assms by (rule New_geom)
  show all: "set (free ?p) = all_frames ?p"
    by (auto simp: New_free all_frames_def)
  have "inj_on (faddr ?p) {..<count}" using faddr_inj [OF g] by (auto intro!: inj_onI)
  then have "distinct (free ?p)"
    by (simp add: New_free distinct_map lessThan_atLeast0)
  moreover have "length (free ?p) = count" by (simp add: New_free)
  moreover have "chk \<longrightarrow> bitmap ?p (set (free ?p))" using New_bitmap all by (cases chk) auto
  ultimately show "pool_inv chk ?p" using g all by (simp add: pool_inv_def)
qed

subsection \<open>What Pop and Push do\<close>

lemma pool_geom_upd [simp]:
  "pool_geom (p\<lparr>in_bits := v\<rparr>) = pool_geom p" "pool_geom (p\<lparr>free := f\<rparr>) = pool_geom p"
  "pool_geom (p\<lparr>rejected := r\<rparr>) = pool_geom p"
  by (simp_all add: pool_geom_def)

lemma all_frames_upd [simp]:
  "all_frames (p\<lparr>in_bits := v\<rparr>) = all_frames p" "all_frames (p\<lparr>free := f\<rparr>) = all_frames p"
  "all_frames (p\<lparr>rejected := r\<rparr>) = all_frames p"
  by (simp_all add: all_frames_def faddr_def)

lemma bitmap_upd [simp]:
  "bitmap (p\<lparr>free := f\<rparr>) S = bitmap p S" "bitmap (p\<lparr>rejected := r\<rparr>) S = bitmap p S"
  by (simp_all add: bitmap_def faddr_def)

lemma Pop_spec:
  assumes "pool_inv chk p"
  obtains xs p' where "Pop chk n dst p = Some (dst @ xs, p')" "pool_inv chk p'"
    "free p = free p' @ xs" "length xs = min (nat n) (length (free p))"
    "all_frames p' = all_frames p" "rejected p' = rejected p" "free_cap p' = free_cap p"
    "frameSize p' = frameSize p" "frameMask p' = frameMask p" "base p' = base p"
proof (cases "min n (int (length (free p))) \<le> 0")
  case True
  then have "Pop chk n dst p = Some (dst @ [], p)" by (auto simp: Pop_def Let_def)
  moreover have "min (nat n) (length (free p)) = 0" using True by auto
  ultimately show thesis using assms by (intro that [of "[]" p]) auto
next
  case False
  let ?k = "min (nat n) (length (free p))"
  let ?s = "length (free p) - ?k"
  let ?top = "drop ?s (free p)"
  have inv: "pool_geom p" "length (free p) \<le> free_cap p" "distinct (free p)"
      "set (free p) \<subseteq> all_frames p" "chk \<longrightarrow> bitmap p (set (free p))"
    using assms by (simp_all add: pool_inv_def)
  have sub: "set ?top \<subseteq> all_frames p" using inv(4) set_drop_subset [of ?s "free p"] by blast
  obtain v where v: "markTaken chk ?top p = Some (p\<lparr>in_bits := v\<rparr>)"
      "chk \<longrightarrow> bitmap (p\<lparr>in_bits := v\<rparr>) (set (free p) - set ?top)"
    using markTaken_spec [OF inv(1,5) sub] by auto
  let ?p = "p\<lparr>in_bits := v, free := take ?s (free p)\<rparr>"
  have n': "nat (if n > int (length (free p)) then int (length (free p)) else n) = ?k"
    using False by auto
  have pos: "\<not> (if n > int (length (free p)) then int (length (free p)) else n) \<le> 0"
    using False by auto
  have pop: "Pop chk n dst p = Some (dst @ ?top, ?p)"
    unfolding Pop_def Let_def n' using pos v(1) by simp
  have split: "free p = take ?s (free p) @ ?top" by simp
  have "set (free p) - set ?top = set (take ?s (free p))"
    using inv(3) by (rule set_diff_drop)
  then have "pool_inv chk ?p"
    using inv v(2) set_take_subset [of ?s "free p"] by (auto simp: pool_inv_def min_def)
  then show thesis
    using pop split by (intro that [of ?top ?p]) auto
qed

lemma Push_spec:
  assumes "pool_inv chk p" "chk \<or> a \<notin> set (free p)"
  obtains (accepted) p' where "Push chk a p = Some p'" "pool_inv chk p'"
    "a \<in> all_frames p" "a \<notin> set (free p)" "free p' = free p @ [a]"
    "all_frames p' = all_frames p" "rejected p' = rejected p" "free_cap p' = free_cap p"
    "frameSize p' = frameSize p" "frameMask p' = frameMask p" "base p' = base p"
  | (refused) "Push chk a p = Some (p\<lparr>rejected := rejected p + 1\<rparr>)"
    "pool_inv chk (p\<lparr>rejected := rejected p + 1\<rparr>)" "a \<notin> all_frames p \<or> a \<in> set (free p)"
proof -
  have inv: "pool_geom p" "length (free p) \<le> free_cap p" "distinct (free p)"
      "set (free p) \<subseteq> all_frames p" "chk \<longrightarrow> bitmap p (set (free p))"
    using assms(1) by (simp_all add: pool_inv_def)
  have inv': "pool_inv chk (p\<lparr>rejected := rejected p + 1\<rparr>)"
    using assms(1) by (simp add: pool_inv_def)
  have card: "card (all_frames p) \<le> free_cap p"
    unfolding all_frames_def using card_image_le [of "{..<free_cap p}" "faddr p"] by simp
  show thesis
  proof (cases "a \<in> all_frames p \<and> length (free p) < free_cap p")
    case False
    then have r: "Push chk a p = Some (p\<lparr>rejected := rejected p + 1\<rparr>)"
      using all_frames_iff [OF inv(1), of a] by (auto simp: Push_def not_le)
    have "a \<notin> all_frames p \<or> a \<in> set (free p)"
    proof (rule ccontr)
      assume "\<not> (a \<notin> all_frames p \<or> a \<in> set (free p))"
      then have a: "a \<in> all_frames p" "a \<notin> set (free p)" by auto
      then have "card (insert a (set (free p))) \<le> card (all_frames p)"
        using inv(4) by (intro card_mono) (auto simp: all_frames_def)
      then show False using a False inv(3) card by (simp add: distinct_card)
    qed
    with r inv' show thesis by (rule refused)
  next
    case True
    then have ok: "\<not> (a < base p \<or> a \<ge> end_addr p \<or> a AND frameMask p \<noteq> 0 \<or> length (free p) \<ge> free_cap p)"
      using all_frames_iff [OF inv(1), of a] by auto
    have a: "a \<in> all_frames p" using True by simp
    from markFree_spec [OF inv(1,5) a] show thesis
    proof (elim disjE exE conjE)
      assume "markFree chk a p = Some (False, p)" "chk" "a \<in> set (free p)"
      then show thesis using ok inv' by (intro refused) (simp_all add: Push_def)
    next
      fix v assume m: "markFree chk a p = Some (True, p\<lparr>in_bits := v\<rparr>)" "chk \<longrightarrow> a \<notin> set (free p)"
          "chk \<longrightarrow> bitmap (p\<lparr>in_bits := v\<rparr>) (insert a (set (free p)))"
      let ?p = "p\<lparr>in_bits := v, free := free p @ [a]\<rparr>"
      have new: "a \<notin> set (free p)" using m(2) assms(2) by auto
      have "pool_inv chk ?p" using inv m(3) new True by (auto simp: pool_inv_def)
      then show thesis
        using m(1) ok new a by (intro accepted [of ?p]) (simp_all add: Push_def)
    qed
  qed
qed

section \<open>The contract and what a client can rely on\<close>

text \<open>One step of the code above a pool: it takes frames, or gives one back. \<open>held\<close> is what the
  callers have taken and not successfully returned; \<open>may\<close> says which addresses a caller is
  allowed to push.\<close>

inductive owner_step ::
  "(int \<Rightarrow> 'p \<Rightarrow> (u64 list \<times> 'p) option) \<Rightarrow> (u64 \<Rightarrow> 'p \<Rightarrow> 'p option) \<Rightarrow> ('p \<Rightarrow> u64 list) \<Rightarrow>
   ('p \<Rightarrow> u64 \<Rightarrow> bool) \<Rightarrow> 'p \<times> u64 list \<Rightarrow> 'p \<times> u64 list \<Rightarrow> bool"
  for pop push fl may where
  take_frames: "pop n p = Some (xs, p') \<Longrightarrow> owner_step pop push fl may (p, held) (p', held @ xs)"
| give_back: "may p a \<Longrightarrow> push a p = Some p' \<Longrightarrow>
     owner_step pop push fl may (p, held)
       (p', if length (fl p') = Suc (length (fl p)) then remove1 a held else held)"

locale frame_pool =
  fixes pop :: "int \<Rightarrow> 'p \<Rightarrow> (u64 list \<times> 'p) option"
    and push :: "u64 \<Rightarrow> 'p \<Rightarrow> 'p option"
    and fl :: "'p \<Rightarrow> u64 list"
    and all :: "'p \<Rightarrow> u64 set"
    and inv :: "'p \<Rightarrow> bool"
    and may :: "'p \<Rightarrow> u64 \<Rightarrow> bool"
  assumes inv_free: "inv p \<Longrightarrow> distinct (fl p) \<and> set (fl p) \<subseteq> all p"
    and pop_law: "inv p \<Longrightarrow> \<exists>xs p'. pop n p = Some (xs, p') \<and> inv p' \<and> all p' = all p
      \<and> fl p = fl p' @ xs \<and> length xs = min (nat n) (length (fl p))"
    and push_law: "inv p \<Longrightarrow> may p a \<Longrightarrow> \<exists>p'. push a p = Some p' \<and> inv p' \<and> all p' = all p
      \<and> fl p' = (if a \<in> all p \<and> a \<notin> set (fl p) then fl p @ [a] else fl p)"
begin

text \<open>Every frame is in exactly one place.\<close>

definition owned :: "'p \<Rightarrow> u64 list \<Rightarrow> bool" where
  "owned p held \<longleftrightarrow> inv p \<and> distinct (fl p @ held) \<and> set (fl p @ held) = all p"

lemma owned_pop:
  assumes "owned p held" "pop n p = Some (xs, p')"
  shows "owned p' (held @ xs)" "all p' = all p" "set xs \<inter> set held = {}" "distinct xs"
proof -
  have inv: "inv p" using assms(1) by (simp add: owned_def)
  from pop_law [OF inv, of n] assms(2)
  have p': "inv p'" "all p' = all p" "fl p = fl p' @ xs" by auto
  then show "owned p' (held @ xs)" "all p' = all p" "set xs \<inter> set held = {}" "distinct xs"
    using assms(1) by (auto simp: owned_def)
qed

lemma owned_push:
  assumes "owned p held" "may p a" "push a p = Some p'"
  shows "owned p' (if length (fl p') = Suc (length (fl p)) then remove1 a held else held)"
    and "all p' = all p"
proof -
  have inv: "inv p" using assms(1) by (simp add: owned_def)
  from push_law [OF inv assms(2)] assms(3)
  have p': "inv p'" "all p' = all p"
      "fl p' = (if a \<in> all p \<and> a \<notin> set (fl p) then fl p @ [a] else fl p)" by auto
  have d: "distinct held" using assms(1) by (simp add: owned_def)
  show "owned p' (if length (fl p') = Suc (length (fl p)) then remove1 a held else held)"
    using assms(1) p' d by (auto simp: owned_def)
  show "all p' = all p" by (rule p'(2))
qed

lemma owner_step_owned:
  assumes "owner_step pop push fl may s t" "owned (fst s) (snd s)"
  shows "owned (fst t) (snd t) \<and> all (fst t) = all (fst s)"
  using assms
proof (induction rule: owner_step.induct)
  case (take_frames n p xs p' held)
  then show ?case using owned_pop(1,2) [of p held n xs p'] by simp
next
  case (give_back p a p' held)
  then show ?case using owned_push [of p held a p'] by simp
qed

lemma owner_run_owned:
  assumes "(owner_step pop push fl may)\<^sup>*\<^sup>* s t" "owned (fst s) (snd s)"
  shows "owned (fst t) (snd t) \<and> all (fst t) = all (fst s)"
  using assms(1)
proof (induction rule: rtranclp_induct)
  case base
  then show ?case using assms(2) by simp
next
  case (step t u)
  then show ?case using owner_step_owned [of t u] by simp
qed

lemma owner_run_pop:
  assumes "(owner_step pop push fl may)\<^sup>*\<^sup>* (p0, []) (p, held)" "inv p0" "set (fl p0) = all p0"
  shows "distinct (fl p @ held) \<and> set (fl p @ held) = all p0
       \<and> (\<forall>n. \<exists>xs p'. pop n p = Some (xs, p') \<and> distinct (held @ xs)
             \<and> length xs = min (nat n) (length (fl p)))"
proof -
  have "owned p0 []" using assms(2,3) inv_free [of p0] by (simp add: owned_def)
  then have o: "owned p held" "all p = all p0" using owner_run_owned [OF assms(1)] by simp_all
  have "\<exists>xs p'. pop n p = Some (xs, p') \<and> distinct (held @ xs) \<and> length xs = min (nat n) (length (fl p))" for n
  proof -
    obtain xs p' where pop: "pop n p = Some (xs, p')" "length xs = min (nat n) (length (fl p))"
      using pop_law [of p n] o(1) by (auto simp: owned_def)
    have "owned p' (held @ xs)" using o(1) pop(1) by (rule owned_pop)
    then show ?thesis using pop by (auto simp: owned_def)
  qed
  then show ?thesis using o by (simp add: owned_def)
qed

end

text \<open>The checked build keeps the contract whatever a caller pushes.\<close>

interpretation chk_on: frame_pool "\<lambda>n. Pop True n []" "Push True" free all_frames "pool_inv True"
  "\<lambda>_ _. True"
proof (unfold_locales, goal_cases)
  case (1 p)
  then show ?case by (simp add: pool_inv_def)
next
  case (2 p n)
  then show ?case by (rule Pop_spec [of True p n "[]"]) auto
next
  case (3 p a)
  show ?case by (rule Push_spec [of True p a]) (use 3 in auto)
qed

text \<open>The unchecked build keeps it for callers that do not return a frame that is already free.\<close>

interpretation chk_off: frame_pool "\<lambda>n. Pop False n []" "Push False" free all_frames
  "pool_inv False" "\<lambda>p a. a \<notin> set (free p)"
proof (unfold_locales, goal_cases)
  case (1 p)
  then show ?case by (simp add: pool_inv_def)
next
  case (2 p n)
  then show ?case by (rule Pop_spec [of False p n "[]"]) auto
next
  case (3 p a)
  show ?case by (rule Push_spec [of False p a]) (use 3 in auto)
qed

section \<open>Properties\<close>

text \<open>C20: in the checked build, whatever addresses callers push and however pops and pushes
  interleave, every frame of the pool is always in exactly one place: free, or held by one caller.
  The next \<open>Pop\<close> never panics, and never hands out a frame somebody still holds.\<close>

theorem checked_pool_single_owner:
  assumes "is_pow2 fsize" "fsize < 2 ^ 63" "(bas + count) * fsize < 2 ^ 64"
    and "(owner_step (\<lambda>n. Pop True n []) (Push True) free (\<lambda>_ _. True))\<^sup>*\<^sup>*
           (New True bas count fsize, []) (p, held)"
  shows "distinct (free p @ held) \<and> set (free p @ held) = all_frames (New True bas count fsize)
       \<and> (\<forall>n. \<exists>xs p'. Pop True n [] p = Some (xs, p') \<and> distinct (held @ xs)
             \<and> length xs = min (nat n) (length (free p)))"
  by (rule chk_on.owner_run_pop [OF assms(4) New_inv [OF assms(1-3)]])

theorem checked_pool_single_owner_witness:
  "\<exists>p. (owner_step (\<lambda>n. Pop True n []) (Push True) free (\<lambda>_ _. True))\<^sup>*\<^sup>*
          (New True 1 2 64, []) (p, [64]) \<and> distinct (free p @ [64])
      \<and> set (free p @ [64]) = all_frames (New True 1 2 64)"
proof -
  let ?p0 = "New True 1 2 64"
  have "case Pop True 1 [] ?p0 of None \<Rightarrow> False | Some (xs, _) \<Rightarrow> xs = [64]" by code_simp
  then obtain p where pop: "Pop True 1 [] ?p0 = Some ([64], p)" by (auto split: option.splits)
  have run: "(owner_step (\<lambda>n. Pop True n []) (Push True) free (\<lambda>_ _. True))\<^sup>*\<^sup>* (?p0, []) (p, [64])"
    by (rule r_into_rtranclp, rule owner_step.take_frames [where held = "[]" and xs = "[64]", simplified], rule pop)
  have "is_pow2 64" by code_simp
  then show ?thesis using run checked_pool_single_owner [OF _ _ _ run] by auto
qed

text \<open>C21: in the production (unchecked) build the same single-owner property holds for any callers
  that never push a frame that is already on the free list; foreign, misaligned and surplus
  pushes are still allowed and still harmless.\<close>

theorem unchecked_pool_single_owner:
  assumes "is_pow2 fsize" "fsize < 2 ^ 63" "(bas + count) * fsize < 2 ^ 64"
    and "(owner_step (\<lambda>n. Pop False n []) (Push False) free (\<lambda>p a. a \<notin> set (free p)))\<^sup>*\<^sup>*
           (New False bas count fsize, []) (p, held)"
  shows "distinct (free p @ held) \<and> set (free p @ held) = all_frames (New False bas count fsize)
       \<and> (\<forall>n. \<exists>xs p'. Pop False n [] p = Some (xs, p') \<and> distinct (held @ xs)
             \<and> length xs = min (nat n) (length (free p)))"
  by (rule chk_off.owner_run_pop [OF assms(4) New_inv [OF assms(1-3)]])

theorem unchecked_pool_single_owner_witness:
  "\<exists>p. (owner_step (\<lambda>n. Pop False n []) (Push False) free (\<lambda>p a. a \<notin> set (free p)))\<^sup>*\<^sup>*
          (New False 1 2 64, []) (p, [64]) \<and> distinct (free p @ [64])
      \<and> set (free p @ [64]) = all_frames (New False 1 2 64)"
proof -
  let ?p0 = "New False 1 2 64"
  have "case Pop False 1 [] ?p0 of None \<Rightarrow> False | Some (xs, _) \<Rightarrow> xs = [64]" by code_simp
  then obtain p where pop: "Pop False 1 [] ?p0 = Some ([64], p)" by (auto split: option.splits)
  have run: "(owner_step (\<lambda>n. Pop False n []) (Push False) free (\<lambda>p a. a \<notin> set (free p)))\<^sup>*\<^sup>* (?p0, []) (p, [64])"
    by (rule r_into_rtranclp, rule owner_step.take_frames [where held = "[]" and xs = "[64]", simplified], rule pop)
  have "is_pow2 64" by code_simp
  then show ?thesis using run unchecked_pool_single_owner [OF _ _ _ run] by auto
qed

text \<open>C22: \<open>Push\<close> in the checked build, on every branch: the frame is appended exactly when it is a
  frame of this pool that is not already free, and then nothing is counted; otherwise the free
  list is untouched and one refusal is counted. It never panics and keeps the invariant.\<close>

theorem checked_Push_decides:
  assumes "pool_inv True p"
  shows "\<exists>p'. Push True a p = Some p' \<and> pool_inv True p'
       \<and> (if a \<in> all_frames p \<and> a \<notin> set (free p)
          then free p' = free p @ [a] \<and> rejected p' = rejected p
          else free p' = free p \<and> rejected p' = rejected p + 1)"
  by (rule Push_spec [of True p a]) (use assms in auto)

theorem checked_Push_decides_witness:
  "pool_inv True (New True 1 2 64)
   \<and> (\<exists>p'. Push True 64 (New True 1 2 64) = Some p' \<and> free p' = [128, 64] \<and> rejected p' = 1)"
proof -
  have inv: "pool_inv True (New True 1 2 64)" by (rule New_inv) (code_simp, simp_all)
  have "64 \<in> set (free (New True 1 2 64))" "free (New True 1 2 64) = [128, 64]" by code_simp+
  then show ?thesis using inv checked_Push_decides [OF inv, of 64] by auto
qed

text \<open>\<open>Base\<close> finds the frame a descriptor is in: for any address inside the pool it gives a
  frame of the pool that starts at or before the address and ends after it, whatever headroom
  the descriptor skipped.\<close>

theorem Base_finds_frame:
  assumes "pool_inv chk p" "Owns p addr"
  shows "Base p addr \<in> all_frames p \<and> unat (Base p addr) \<le> unat addr
       \<and> unat addr < unat (Base p addr) + frameSize p"
proof -
  have g: "pool_geom p" using assms(1) by (simp add: pool_inv_def)
  have m: "is_pow2 (frameSize p)" "frameSize p \<le> 2 ^ LENGTH(64)"
      "frameMask p = of_nat (frameSize p - 1)" "frameSize p dvd unat (base p)"
    using g by (auto simp: pool_geom_def)
  have mod: "unat (addr AND frameMask p) = unat addr mod frameSize p"
    unfolding m(3) by (rule unat_and_pow2_mask [OF m(1,2)])
  have B: "unat (Base p addr) = unat addr - unat addr mod frameSize p"
    unfolding Base_def and_not_eq_minus by (simp add: unat_sub word_and_le2 mod)
  have pos: "0 < frameSize p" using g by (rule geom_pos)
  then have lt: "unat addr mod frameSize p < frameSize p" by simp
  have le: "unat addr mod frameSize p \<le> unat addr" by simp
  have "Base p addr AND frameMask p = 0" by (simp add: Base_def and.assoc)
  moreover have "base p \<le> Base p addr"
  proof -
    have "unat (base p) \<le> unat addr" using assms(2) by (simp add: Owns_def word_le_nat_alt)
    then have "unat (base p) div frameSize p \<le> unat addr div frameSize p" by (rule div_le_mono)
    then have "unat (base p) div frameSize p * frameSize p \<le> unat addr div frameSize p * frameSize p"
      by simp
    moreover have "unat addr div frameSize p * frameSize p = unat (Base p addr)"
      unfolding B by (metis minus_mod_eq_div_mult)
    ultimately have "unat (base p) \<le> unat (Base p addr)" using m(4) by simp
    then show ?thesis by (simp add: word_le_nat_alt)
  qed
  moreover have "Base p addr < end_addr p"
    using assms(2) B by (auto simp: Owns_def word_less_nat_alt)
  ultimately have "Base p addr \<in> all_frames p" using all_frames_iff [OF g] by blast
  then show ?thesis using B lt le by linarith
qed

theorem Base_finds_frame_witness:
  "Owns (New False 1 2 64) 100 \<and> Base (New False 1 2 64) 100 \<in> all_frames (New False 1 2 64)"
proof -
  have inv: "pool_inv False (New False 1 2 64)" by (rule New_inv) (code_simp, simp_all)
  have "Owns (New False 1 2 64) 100" by code_simp
  then show ?thesis using Base_finds_frame [OF inv] by blast
qed

end
