(* ===== verification/Dpdk_Ring.thy ===== *)
theory Dpdk_Ring
  imports Packetio_Prelude
begin

text \<open>
  The address rings of \<^verbatim>\<open>dpdk/internal/queue/ring.go\<close>, which stand between the driver and the
  free list of a queue. The two indices are free-running 32-bit counters that wrap; a slot is a
  counter masked to the size of the ring. \<open>None\<close> is a Go panic.

  The locale \<open>bounded_fifo\<close> is what a client sees of a ring: a bounded queue that accepts a prefix
  and gives back the oldest addresses. Its client lemma is that a run loses, duplicates and
  reorders nothing.
\<close>

section \<open>The source\<close>

record dring =
  rg_buf :: "u64 list"
  rg_mask :: u32
  rg_head :: u32    \<comment> \<open>consumer: the next slot to read\<close>
  rg_tail :: u32    \<comment> \<open>producer: the next slot to write\<close>

datatype ring_error = NotPowerOfTwo int | NoIndices

definition NewRing :: "int \<Rightarrow> ring_error + dring" where
  "NewRing capacity =
     (if capacity \<le> 0 \<or> capacity AND (capacity - 1) \<noteq> 0 then Inl (NotPowerOfTwo capacity)
      else Inr \<lparr>rg_buf = replicate (nat capacity) 0, rg_mask = of_int (capacity - 1),
                rg_head = 0, rg_tail = 0\<rparr>)"

definition NewRingOver :: "u64 list \<Rightarrow> u32 option \<Rightarrow> u32 option \<Rightarrow> ring_error + dring" where
  "NewRingOver buf head tail =
     (if length buf = 0 \<or> length buf AND (length buf - 1) \<noteq> 0 then Inl (NotPowerOfTwo (int (length buf)))
      else case (head, tail) of
        (Some h, Some t) \<Rightarrow> Inr \<lparr>rg_buf = buf, rg_mask = of_nat (length buf - 1), rg_head = h, rg_tail = t\<rparr>
      | _ \<Rightarrow> Inl NoIndices)"

definition ring_Len :: "dring \<Rightarrow> nat" where
  "ring_Len r = unat (rg_tail r - rg_head r)"

definition ring_Cap :: "dring \<Rightarrow> nat" where
  "ring_Cap r = length (rg_buf r)"

definition ring_Room :: "dring \<Rightarrow> int" where
  "ring_Room r = int (length (rg_buf r)) - int (ring_Len r)"

text \<open>One store at the tail, one load at the head.\<close>

definition put_tail :: "u64 \<Rightarrow> dring \<Rightarrow> dring option" where
  "put_tail a r =
     (let s = unat (rg_tail r AND rg_mask r)
      in if s < length (rg_buf r)
         then Some (r\<lparr>rg_buf := (rg_buf r)[s := a], rg_tail := rg_tail r + 1\<rparr>) else None)"

definition get_head :: "dring \<Rightarrow> (u64 \<times> dring) option" where
  "get_head r =
     (let s = unat (rg_head r AND rg_mask r)
      in if s < length (rg_buf r) then Some (rg_buf r ! s, r\<lparr>rg_head := rg_head r + 1\<rparr>) else None)"

fun put_all :: "u64 list \<Rightarrow> dring \<Rightarrow> dring option" where
  "put_all [] r = Some r"
| "put_all (a # as) r = do { r1 \<leftarrow> put_tail a r; put_all as r1 }"

fun get_n :: "nat \<Rightarrow> dring \<Rightarrow> (u64 list \<times> dring) option" where
  "get_n 0 r = Some ([], r)"
| "get_n (Suc n) r = do { (a, r1) \<leftarrow> get_head r; (as, r2) \<leftarrow> get_n n r1; Some (a # as, r2) }"

definition ring_Push :: "u64 list \<Rightarrow> dring \<Rightarrow> (nat \<times> dring) option" where
  "ring_Push addrs r =
     (let n = (if int (length addrs) > ring_Room r then nat (ring_Room r) else length addrs)
      in do { r1 \<leftarrow> put_all (take n addrs) r; Some (n, r1) })"

definition PushOne :: "u64 \<Rightarrow> dring \<Rightarrow> (bool \<times> dring) option" where
  "PushOne addr r =
     (if ring_Room r = 0 then Some (False, r)
      else do { r1 \<leftarrow> put_tail addr r; Some (True, r1) })"

definition ring_Pop :: "int \<Rightarrow> u64 list \<Rightarrow> dring \<Rightarrow> (u64 list \<times> dring) option" where
  "ring_Pop n dst r =
     (let n' = (if n > int (ring_Len r) then int (ring_Len r) else n)
      in do { (as, r1) \<leftarrow> get_n (nat n') r; Some (dst @ as, r1) })"

text \<open>\<open>PopBulk\<close> writes \<open>dst[i]\<close>, which panics past the end of the caller's slice.\<close>

fun get_into :: "nat \<Rightarrow> nat \<Rightarrow> u64 list \<Rightarrow> dring \<Rightarrow> (u64 list \<times> dring) option" where
  "get_into i 0 dst r = Some (dst, r)"
| "get_into i (Suc n) dst r =
     do { (a, r1) \<leftarrow> get_head r;
          if i < length dst then get_into (Suc i) n (dst[i := a]) r1 else None }"

definition PopBulk :: "u64 list \<Rightarrow> int \<Rightarrow> dring \<Rightarrow> (bool \<times> u64 list \<times> dring) option" where
  "PopBulk dst n r =
     (if int (ring_Len r) < n then Some (False, dst, r)
      else do { (dst1, r1) \<leftarrow> get_into 0 (nat n) dst r; Some (True, dst1, r1) })"

section \<open>The ring as a list\<close>

definition ring_inv :: "dring \<Rightarrow> bool" where
  "ring_inv r \<longleftrightarrow> ring_ok (rg_buf r) \<and> rg_mask r = of_nat (length (rg_buf r) - 1)
     \<and> ring_Len r \<le> length (rg_buf r)"

definition ring_abs :: "dring \<Rightarrow> u64 list" where
  "ring_abs r = ring_list (rg_buf r) (rg_head r) (ring_Len r)"

lemma length_ring_abs [simp]: "length (ring_abs r) = ring_Len r"
  by (simp add: ring_abs_def)

lemma nat_and_int: "int m AND int n = int (m AND n)"
  by (simp add: of_nat_and_eq)

lemma NewRing_inv:
  assumes "NewRing c = Inr r" "c \<le> 2 ^ 31"
  shows "ring_inv r \<and> ring_abs r = [] \<and> int (ring_Cap r) = c"
proof -
  have c: "0 < c" "c AND (c - 1) = 0"
    using assms(1) by (auto simp: NewRing_def split: if_splits)
  have r: "r = \<lparr>rg_buf = replicate (nat c) 0, rg_mask = of_int (c - 1), rg_head = 0, rg_tail = 0\<rparr>"
    using assms(1) c by (simp add: NewRing_def)
  have "int (nat c AND (nat c - 1)) = 0"
    using c nat_and_int [of "nat c" "nat c - 1"] by (simp add: of_nat_diff)
  then have "is_pow2 (nat c)" using c by (simp add: is_pow2_def)
  moreover have "(of_int (c - 1) :: u32) = of_nat (nat c - 1)"
  proof -
    have "c - 1 = int (nat c - 1)" using c by simp
    then show ?thesis by (metis of_int_of_nat_eq)
  qed
  moreover have "nat c \<le> 2 ^ 31" using assms(2) by simp
  ultimately show ?thesis
    using c by (simp add: r ring_inv_def ring_ok_def ring_abs_def ring_Len_def ring_Cap_def)
qed

lemma slot_head: "ring_inv r \<Longrightarrow> unat (rg_head r AND rg_mask r) = rslot (rg_buf r) (rg_head r)"
  by (simp add: ring_inv_def rslot_def)

lemma slot_tail:
  "ring_inv r \<Longrightarrow> unat (rg_tail r AND rg_mask r) = rslot (rg_buf r) (rg_head r + of_nat (ring_Len r))"
  by (simp add: ring_inv_def rslot_def ring_Len_def)

lemma unat_Suc_bounded:
  fixes w :: u32
  assumes "unat w < 2 ^ 31"
  shows "unat (w + 1) = Suc (unat w)"
  using assms by (simp add: unat_word_ariths)

lemma put_tail_spec:
  assumes "ring_inv r" "ring_Len r < ring_Cap r"
  obtains r' where "put_tail a r = Some r'" "ring_inv r'" "ring_abs r' = ring_abs r @ [a]"
    "ring_Cap r' = ring_Cap r" "ring_Len r' = Suc (ring_Len r)"
proof -
  let ?b = "rg_buf r" let ?s = "rslot ?b (rg_head r + of_nat (ring_Len r))"
  let ?r = "r\<lparr>rg_buf := ?b[?s := a], rg_tail := rg_tail r + 1\<rparr>"
  have ok: "ring_ok ?b" and s: "?s < length ?b"
    using assms rslot_less by (auto simp: ring_inv_def)
  have put: "put_tail a r = Some ?r"
    using s by (simp add: put_tail_def slot_tail [OF assms(1)])
  have "unat (rg_tail r - rg_head r) < 2 ^ 31"
    using assms ok by (simp add: ring_Len_def ring_Cap_def ring_ok_def)
  then have "unat (rg_tail r - rg_head r + 1) = Suc (unat (rg_tail r - rg_head r))"
    by (rule unat_Suc_bounded)
  then have len: "ring_Len ?r = Suc (ring_Len r)" by (simp add: ring_Len_def algebra_simps)
  have "ring_abs ?r = ring_abs r @ [a]"
    using ring_list_push [OF ok, of "ring_Len r" "rg_head r" a] assms(2) len
    by (simp add: ring_abs_def ring_Cap_def)
  moreover have "ring_inv ?r" using assms len by (simp add: ring_inv_def ring_Cap_def)
  ultimately show thesis using put len that by (simp add: ring_Cap_def)
qed

lemma get_head_spec:
  assumes "ring_inv r" "0 < ring_Len r"
  obtains r' where "get_head r = Some (hd (ring_abs r), r')" "ring_inv r'" "ring_abs r' = tl (ring_abs r)"
    "ring_Cap r' = ring_Cap r" "Suc (ring_Len r') = ring_Len r"
proof -
  let ?b = "rg_buf r" let ?r = "r\<lparr>rg_head := rg_head r + 1\<rparr>"
  have s: "rslot ?b (rg_head r) < length ?b"
    using assms rslot_less by (auto simp: ring_inv_def)
  have "rg_tail r - rg_head r \<noteq> 0" using assms(2) by (auto simp: ring_Len_def)
  then have "unat (rg_tail r - rg_head r - 1) = unat (rg_tail r - rg_head r) - 1"
    by (simp add: unat_minus_one)
  then have len: "Suc (ring_Len ?r) = ring_Len r"
    using assms(2) by (simp add: ring_Len_def algebra_simps)
  then have abs: "ring_abs r = ?b ! rslot ?b (rg_head r) # ring_abs ?r"
    using ring_list_Suc [of ?b "rg_head r" "ring_Len ?r"] by (simp add: ring_abs_def)
  have "ring_inv ?r" using assms len by (simp add: ring_inv_def)
  moreover have "get_head r = Some (hd (ring_abs r), ?r)"
    using s abs by (simp add: get_head_def slot_head [OF assms(1)])
  ultimately show thesis using that abs len by (simp add: ring_Cap_def)
qed

lemma put_all_spec:
  assumes "ring_inv r" "ring_Len r + length as \<le> ring_Cap r"
  shows "\<exists>r'. put_all as r = Some r' \<and> ring_inv r' \<and> ring_abs r' = ring_abs r @ as \<and> ring_Cap r' = ring_Cap r"
  using assms
proof (induction as arbitrary: r)
  case (Cons a as)
  then obtain r1 where "put_tail a r = Some r1" "ring_inv r1" "ring_abs r1 = ring_abs r @ [a]"
      "ring_Cap r1 = ring_Cap r" "ring_Len r1 = Suc (ring_Len r)"
    using put_tail_spec [of r a] by auto
  then show ?case using Cons.IH [of r1] Cons.prems by auto
qed simp

lemma get_n_spec:
  assumes "ring_inv r" "n \<le> ring_Len r"
  shows "\<exists>r'. get_n n r = Some (take n (ring_abs r), r') \<and> ring_inv r'
           \<and> ring_abs r' = drop n (ring_abs r) \<and> ring_Cap r' = ring_Cap r"
  using assms
proof (induction n arbitrary: r)
  case (Suc n)
  then obtain r1 where r1: "get_head r = Some (hd (ring_abs r), r1)" "ring_inv r1"
      "ring_abs r1 = tl (ring_abs r)" "ring_Cap r1 = ring_Cap r" "Suc (ring_Len r1) = ring_Len r"
    using get_head_spec [of r] by (metis Suc_le_D zero_less_Suc)
  have ne: "ring_abs r \<noteq> []" using Suc.prems by (metis length_ring_abs list.size(3) not_less_eq_eq zero_le)
  obtain r2 where "get_n n r1 = Some (take n (ring_abs r1), r2)" "ring_inv r2"
      "ring_abs r2 = drop n (ring_abs r1)" "ring_Cap r2 = ring_Cap r1"
    using Suc.IH [of r1] r1 Suc.prems by auto
  then show ?case using r1 ne by (simp add: drop_Suc take_Suc)
qed simp

lemma get_into_spec:
  assumes "ring_inv r" "n \<le> ring_Len r" "i + n \<le> length dst"
  shows "\<exists>r'. get_into i n dst r = Some (take i dst @ take n (ring_abs r) @ drop (i + n) dst, r') \<and> ring_inv r'
           \<and> ring_abs r' = drop n (ring_abs r) \<and> ring_Cap r' = ring_Cap r"
  using assms
proof (induction n arbitrary: i dst r)
  case (Suc n)
  then obtain r1 where r1: "get_head r = Some (hd (ring_abs r), r1)" "ring_inv r1"
      "ring_abs r1 = tl (ring_abs r)" "ring_Cap r1 = ring_Cap r" "Suc (ring_Len r1) = ring_Len r"
    using get_head_spec [of r] by (metis Suc_le_D zero_less_Suc)
  have ne: "ring_abs r \<noteq> []" using Suc.prems by (metis length_ring_abs list.size(3) not_less_eq_eq zero_le)
  have i: "i < length dst" using Suc.prems by simp
  obtain r2 where r2: "get_into (Suc i) n (dst[i := hd (ring_abs r)]) r1
        = Some (take (Suc i) (dst[i := hd (ring_abs r)]) @ take n (ring_abs r1)
            @ drop (Suc i + n) (dst[i := hd (ring_abs r)]), r2)" "ring_inv r2"
      "ring_abs r2 = drop n (ring_abs r1)" "ring_Cap r2 = ring_Cap r1"
    using Suc.IH [of r1 "Suc i" "dst[i := hd (ring_abs r)]"] r1 Suc.prems by auto
  have "take (Suc i) (dst[i := hd (ring_abs r)]) = take i dst @ [hd (ring_abs r)]"
    using i by (simp add: take_Suc_conv_app_nth)
  moreover have "drop (Suc i + n) (dst[i := hd (ring_abs r)]) = drop (i + Suc n) dst" by simp
  moreover have "take (Suc n) (ring_abs r) = hd (ring_abs r) # take n (ring_abs r1)"
    using ne r1 by (simp add: take_Suc)
  ultimately show ?case using r1 r2 ne i by (simp add: drop_Suc [of n "ring_abs r"])
qed simp

lemma ring_Push_spec:
  fixes as :: "u64 list"
  assumes "ring_inv r"
  defines "n \<equiv> min (length as) (ring_Cap r - ring_Len r)"
  obtains r' where "ring_Push as r = Some (n, r')" "ring_inv r'" "ring_Cap r' = ring_Cap r"
    "ring_abs r' = ring_abs r @ take n as"
proof -
  have le: "ring_Len r \<le> ring_Cap r" using assms(1) by (simp add: ring_inv_def ring_Cap_def)
  then have n: "(if int (length as) > ring_Room r then nat (ring_Room r) else length as) = n"
    unfolding n_def ring_Room_def ring_Cap_def by auto
  have room: "ring_Len r + length (take n as) \<le> ring_Cap r" using le by (simp add: n_def)
  obtain r' where "put_all (take n as) r = Some r'" "ring_inv r'" "ring_abs r' = ring_abs r @ take n as"
      "ring_Cap r' = ring_Cap r"
    using put_all_spec [OF assms(1) room] by auto
  then show thesis using that n by (simp add: ring_Push_def)
qed

lemma ring_Pop_spec:
  assumes "ring_inv r"
  obtains r' where "ring_Pop n dst r = Some (dst @ take (nat n) (ring_abs r), r')" "ring_inv r'"
    "ring_Cap r' = ring_Cap r" "ring_abs r' = drop (nat n) (ring_abs r)"
proof -
  let ?n = "nat (if n > int (ring_Len r) then int (ring_Len r) else n)"
  have "?n \<le> ring_Len r" by (simp split: if_split) linarith
  from get_n_spec [OF assms this]
  obtain r' where r': "get_n ?n r = Some (take ?n (ring_abs r), r')" "ring_inv r'"
      "ring_abs r' = drop ?n (ring_abs r)" "ring_Cap r' = ring_Cap r"
    by blast
  have "take ?n (ring_abs r) = take (nat n) (ring_abs r)" "drop ?n (ring_abs r) = drop (nat n) (ring_abs r)"
    by auto
  then show thesis using that r' by (simp add: ring_Pop_def Let_def)
qed

section \<open>The contract\<close>

text \<open>A trace of a bounded queue: what was accepted and what was given back, in order.\<close>

inductive fifo_run ::
  "('a list \<Rightarrow> 'r \<Rightarrow> (nat \<times> 'r) option) \<Rightarrow> (int \<Rightarrow> 'r \<Rightarrow> ('a list \<times> 'r) option)
    \<Rightarrow> 'r \<Rightarrow> 'a list \<Rightarrow> 'a list \<Rightarrow> 'r \<Rightarrow> bool"
  for push pop r0 where
  start: "fifo_run push pop r0 [] [] r0"
| accept: "fifo_run push pop r0 ins outs r \<Longrightarrow> push xs r = Some (n, r')
    \<Longrightarrow> fifo_run push pop r0 (ins @ take n xs) outs r'"
| give: "fifo_run push pop r0 ins outs r \<Longrightarrow> pop k r = Some (ys, r')
    \<Longrightarrow> fifo_run push pop r0 ins (outs @ ys) r'"

locale bounded_fifo =
  fixes push :: "'a list \<Rightarrow> 'r \<Rightarrow> (nat \<times> 'r) option"
    and pop :: "int \<Rightarrow> 'r \<Rightarrow> ('a list \<times> 'r) option"
    and q :: "'r \<Rightarrow> 'a list"
    and cap :: "'r \<Rightarrow> nat"
    and inv :: "'r \<Rightarrow> bool"
  assumes q_cap: "inv r \<Longrightarrow> length (q r) \<le> cap r"
    and push_law: "inv r \<Longrightarrow> \<exists>r'. push xs r = Some (min (length xs) (cap r - length (q r)), r')
      \<and> inv r' \<and> cap r' = cap r \<and> q r' = q r @ take (cap r - length (q r)) xs"
    and pop_law: "inv r \<Longrightarrow> \<exists>r'. pop k r = Some (take (nat k) (q r), r')
      \<and> inv r' \<and> cap r' = cap r \<and> q r' = drop (nat k) (q r)"
begin

lemma run_fifo:
  assumes "fifo_run push pop r0 ins outs r" "inv r0" "q r0 = []"
  shows "inv r \<and> cap r = cap r0 \<and> ins = outs @ q r"
  using assms(1)
proof (induction rule: fifo_run.induct)
  case start
  then show ?case using assms by simp
next
  case (accept ins outs r xs n r')
  then show ?case using push_law [of r xs] by (auto simp: min_def)
next
  case (give ins outs r k ys r')
  then show ?case using pop_law [of r k] by auto
qed

lemma run_progress:
  assumes "fifo_run push pop r0 ins outs r" "inv r0" "q r0 = []"
  shows "ins = outs @ q r \<and> length (q r) \<le> cap r0
     \<and> (\<exists>r'. push xs r = Some (min (length xs) (cap r0 - length (q r)), r'))
     \<and> (\<exists>r'. pop k r = Some (take (nat k) (q r), r'))"
  using run_fifo [OF assms] push_law [of r xs] pop_law [of r k] q_cap [of r] by auto

end

interpretation dring: bounded_fifo ring_Push "\<lambda>n. ring_Pop n []" ring_abs ring_Cap ring_inv
proof (unfold_locales, goal_cases)
  case (1 r)
  then show ?case by (simp add: ring_inv_def ring_Cap_def)
next
  case (2 r xs)
  then show ?case by (rule ring_Push_spec [of r xs]) (auto simp: min_def)
next
  case (3 r k)
  show ?case by (rule ring_Pop_spec [of r k "[]"]) (use 3 in auto)
qed

section \<open>Properties\<close>

text \<open>C27: a ring from \<open>NewRing\<close> is a bounded first-in first-out queue however often its two 32-bit
  counters wrap: after any sequence of \<open>Push\<close> and \<open>Pop\<close> calls, the addresses accepted are, in order,
  those given back followed by those still queued, so none is lost, duplicated or reordered.
  Neither call ever panics; a push accepts exactly as many as there is room for, and a pop gives
  exactly as many as are there, up to what it asked.\<close>

theorem ring_is_bounded_fifo:
  assumes "NewRing c = Inr r0" "c \<le> 2 ^ 31"
    and "fifo_run ring_Push (\<lambda>n. ring_Pop n []) r0 ins outs r"
  shows "ins = outs @ ring_abs r \<and> ring_Len r \<le> nat c
     \<and> (\<exists>r'. ring_Push xs r = Some (min (length xs) (nat c - ring_Len r), r'))
     \<and> (\<exists>r'. ring_Pop k [] r = Some (take (nat k) (ring_abs r), r'))"
proof -
  have "ring_inv r0" "ring_abs r0 = []" "ring_Cap r0 = nat c"
    using NewRing_inv [OF assms(1,2)] by auto
  then show ?thesis using dring.run_progress [OF assms(3), of xs k] by simp
qed

theorem ring_is_bounded_fifo_witness:
  "\<exists>r0 r. NewRing 2 = Inr r0 \<and> fifo_run ring_Push (\<lambda>n. ring_Pop n []) r0 [7, 8] [] r
     \<and> ring_abs r = [7, 8]"
proof -
  define r0 where "r0 = \<lparr>rg_buf = [0, 0], rg_mask = 1, rg_head = 0, rg_tail = 0\<rparr>"
  define r where "r = \<lparr>rg_buf = [7, 8], rg_mask = 1, rg_head = 0, rg_tail = 2\<rparr>"
  have new: "NewRing 2 = Inr r0" by (simp add: NewRing_def r0_def numeral_2_eq_2)
  have "ring_Push [7, 8, 9] r0 = Some (2, r)"
    by (simp add: ring_Push_def ring_Room_def ring_Len_def put_tail_def r0_def r_def)
  then have run: "fifo_run ring_Push (\<lambda>n. ring_Pop n []) r0 [7, 8] [] r"
    using fifo_run.accept [OF fifo_run.start, of ring_Push "[7, 8, 9]" r0 2 r] by simp
  then show ?thesis using new ring_is_bounded_fifo [OF new _ run] by auto
qed

text \<open>\<open>PopBulk\<close> is all or nothing: with fewer than \<open>n\<close> addresses queued it reports false and
  changes neither the ring nor the caller's slice; otherwise it writes exactly the \<open>n\<close> oldest
  addresses at the front of the slice, leaves the rest of the slice alone and removes them.\<close>

theorem PopBulk_all_or_nothing:
  assumes "ring_inv r" "nat n \<le> length dst"
  shows "if int (ring_Len r) < n then PopBulk dst n r = Some (False, dst, r)
     else \<exists>r'. PopBulk dst n r = Some (True, take (nat n) (ring_abs r) @ drop (nat n) dst, r')
            \<and> ring_inv r' \<and> ring_abs r' = drop (nat n) (ring_abs r)"
proof (cases "int (ring_Len r) < n")
  case False
  then have "nat n \<le> ring_Len r" by simp
  from get_into_spec [OF assms(1) this, of 0 dst] assms(2) False show ?thesis
    by (auto simp: PopBulk_def)
qed (simp add: PopBulk_def)

theorem PopBulk_all_or_nothing_witness:
  "\<exists>r'. PopBulk [1, 2, 3] 2 \<lparr>rg_buf = [8, 7], rg_mask = 1, rg_head = - 1, rg_tail = 1\<rparr> = Some (True, [7, 8, 3], r')"
proof -
  let ?r = "\<lparr>rg_buf = [8, 7], rg_mask = 1, rg_head = - 1, rg_tail = 1\<rparr> :: dring"
  have "ring_inv ?r" by (simp add: ring_inv_def ring_ok_def ring_Len_def is_pow2_def)
  moreover have "ring_abs ?r = [7, 8]" "ring_Len ?r = 2"
    by (simp_all add: ring_abs_def ring_list_def ring_Len_def rslot_def upt_rec)
  ultimately show ?thesis using PopBulk_all_or_nothing [of ?r 2 "[1, 2, 3]"] by auto
qed

end
