(* ===== verification/Offload.thy ===== *)
theory Offload
  imports Packetio_Prelude
begin

text \<open>
  The descriptors and the offload metadata every backend shares, \<^verbatim>\<open>desc.go\<close> and
  \<^verbatim>\<open>offload.go\<close>: the frame descriptor \<open>Desc\<close>, its option bits, and the ten-byte virtio-net
  header, written by \<open>Marshal\<close> and read by \<open>UnmarshalOffload\<close>. Both index their slice up front
  and panic (\<open>None\<close>) when it is too short.
\<close>

section \<open>The source\<close>

record desc =
  d_addr :: u64
  d_len :: u32
  d_options :: u32

definition OptContinued :: u32 where "OptContinued = push_bit 0 1"
definition OptChecksumOK :: u32 where "OptChecksumOK = push_bit 1 1"
definition OptL3ChecksumOK :: u32 where "OptL3ChecksumOK = push_bit 2 1"
definition OptionsBackendShift :: nat where "OptionsBackendShift = 16"

record offload =
  Flags :: u8
  GSOType :: u8
  HdrLen :: u16
  GSOSize :: u16
  CsumStart :: u16
  CsumOff :: u16

definition OffloadNeedsCsum :: u8 where "OffloadNeedsCsum = 1"
definition OffloadGSONone :: u8 where "OffloadGSONone = 0"
definition OffloadGSOTCPv4 :: u8 where "OffloadGSOTCPv4 = 1"
definition OffloadGSOUDP :: u8 where "OffloadGSOUDP = 3"
definition OffloadGSOTCPv6 :: u8 where "OffloadGSOTCPv6 = 4"
definition OffloadGSOECN :: u8 where "OffloadGSOECN = 0x80"
definition OffloadHdrLen :: nat where "OffloadHdrLen = 10"

definition Segmented :: "offload \<Rightarrow> bool" where
  "Segmented o' \<longleftrightarrow> GSOType o' AND NOT OffloadGSOECN \<noteq> OffloadGSONone"

definition Marshal :: "offload \<Rightarrow> bytes \<Rightarrow> bytes option" where
  "Marshal o' dst =
     (if \<not> OffloadHdrLen - 1 < length dst then None
      else Some (dst[0 := Flags o', 1 := GSOType o',
                     2 := ucast (HdrLen o'), 3 := ucast (drop_bit 8 (HdrLen o')),
                     4 := ucast (GSOSize o'), 5 := ucast (drop_bit 8 (GSOSize o')),
                     6 := ucast (CsumStart o'), 7 := ucast (drop_bit 8 (CsumStart o')),
                     8 := ucast (CsumOff o'), 9 := ucast (drop_bit 8 (CsumOff o'))]))"

definition UnmarshalOffload :: "bytes \<Rightarrow> offload option" where
  "UnmarshalOffload src =
     (if \<not> OffloadHdrLen - 1 < length src then None
      else Some \<lparr>Flags = src ! 0, GSOType = src ! 1,
                 HdrLen = ucast (src ! 2) OR push_bit 8 (ucast (src ! 3)),
                 GSOSize = ucast (src ! 4) OR push_bit 8 (ucast (src ! 5)),
                 CsumStart = ucast (src ! 6) OR push_bit 8 (ucast (src ! 7)),
                 CsumOff = ucast (src ! 8) OR push_bit 8 (ucast (src ! 9))\<rparr>)"

section \<open>Two-byte fields\<close>

lemma u16_split: "(ucast (ucast w :: u8) OR push_bit 8 (ucast (ucast (drop_bit 8 w) :: u8)) :: u16) = w"
  by (rule bit_eqI) (auto simp: bit_simps)

lemma u16_lo: "(ucast (ucast a OR push_bit 8 (ucast b) :: u16) :: u8) = a"
  by (rule bit_eqI) (auto simp: bit_simps)

lemma u16_hi: "(ucast (drop_bit 8 (ucast a OR push_bit 8 (ucast b) :: u16)) :: u8) = b"
  for a b :: u8
proof (rule bit_eqI)
  fix n
  have "\<not> bit a (8 + n)" using bit_imp_le_length [of a "8 + n"] by auto
  then show "bit (ucast (drop_bit 8 (ucast a OR push_bit 8 (ucast b) :: u16)) :: u8) n = bit b n"
    using bit_imp_le_length [of b n] by (auto simp: bit_simps)
qed

lemmas u16_fields = u16_split u16_lo u16_hi u16_hi [unfolded drop_bit_or]

section \<open>Properties\<close>

text \<open>C33: the virtio-net header round-trips both ways. \<open>Marshal\<close> panics exactly when the slice is
  shorter than ten bytes; otherwise what \<open>UnmarshalOffload\<close> reads back is the offload that was
  written, field for field, and nothing past the ten bytes changes. Marshalling what was read
  over the bytes it was read from changes no byte at all.\<close>

theorem offload_round_trip:
  "(Marshal o' dst = None \<longleftrightarrow> length dst < OffloadHdrLen)
   \<and> (case Marshal o' dst of None \<Rightarrow> UnmarshalOffload dst = None
      | Some b \<Rightarrow> UnmarshalOffload b = Some o' \<and> drop OffloadHdrLen b = drop OffloadHdrLen dst
          \<and> (\<exists>r. UnmarshalOffload dst = Some r \<and> Marshal r dst = Some dst))"
proof (cases "length dst < OffloadHdrLen")
  case False
  then have len: "9 < length dst" by (simp add: OffloadHdrLen_def)
  have read: "UnmarshalOffload dst = Some r \<Longrightarrow> Marshal r dst = Some dst" for r
    using len
    by (auto simp: UnmarshalOffload_def Marshal_def OffloadHdrLen_def u16_fields list_update_id)
  have "dst \<noteq> []" using len by auto
  then show ?thesis using len read
    by (simp add: Marshal_def UnmarshalOffload_def OffloadHdrLen_def u16_fields)
qed (simp add: Marshal_def UnmarshalOffload_def OffloadHdrLen_def)

end
