(* ===== verification/Csum.thy ===== *)
theory Csum
  imports Offload
begin

text \<open>
  The checksum completion of the AF_PACKET backend, \<^verbatim>\<open>afpacket/csum.go\<close>. A frame that arrives
  with only the pseudo-header sum in its checksum field is finished in place by \<open>completeL4\<close>;
  \<open>completeOffloads\<close> decides for a batch which frames that may be done to. \<open>None\<close> is a Go panic;
  a frame is a byte list and the function returns the frame as it left it.
\<close>

section \<open>The source\<close>

fun sum_words :: "bytes \<Rightarrow> u32 \<Rightarrow> u32" where
  "sum_words [] s = s"
| "sum_words [x] s = s + push_bit 8 (ucast x)"
| "sum_words (x # y # b) s = sum_words b (s + (push_bit 8 (ucast x) OR ucast y))"

lemma fold16_less:
  fixes s :: u32
  assumes "drop_bit 16 s \<noteq> 0"
  shows "unat ((s AND 0xffff) + drop_bit 16 s) < unat s"
    and "unat ((s AND 0xffff) + drop_bit 16 s) = unat s mod 65536 + unat s div 65536"
proof -
  have a: "unat (s AND 0xffff) = unat s mod 65536"
    using unat_and_mask [of 16 s] by simp
  have d: "unat (drop_bit 16 s) = unat s div 65536"
    using unat_drop_bit [of 16 s] by simp
  have "unat s div 65536 < 65536" using unat_bound [of s] by (simp add: less_mult_imp_div_less)
  moreover have "unat s mod 65536 < 65536" by simp
  ultimately have sum: "unat ((s AND 0xffff) + drop_bit 16 s) = unat s mod 65536 + unat s div 65536"
    unfolding a [symmetric] d [symmetric] by (intro unat_plus_exact) simp
  have "unat s div 65536 \<noteq> 0" using assms d by (metis unat_eq_zero)
  moreover have "unat s = unat s div 65536 * 65536 + unat s mod 65536" by simp
  ultimately show "unat ((s AND 0xffff) + drop_bit 16 s) < unat s" unfolding sum by linarith
  show "unat ((s AND 0xffff) + drop_bit 16 s) = unat s mod 65536 + unat s div 65536" by (rule sum)
qed

function fold16 :: "u32 \<Rightarrow> u32" where
  "fold16 s = (if drop_bit 16 s \<noteq> 0 then fold16 ((s AND 0xffff) + drop_bit 16 s) else s)"
  by auto
termination
  by (relation "measure unat") (simp, simp only: in_measure, rule fold16_less)

declare fold16.simps [simp del]

definition onesComplement :: "bytes \<Rightarrow> u16" where
  "onesComplement b = NOT (ucast (fold16 (sum_words b 0)))"

definition get16 :: "bytes \<Rightarrow> nat \<Rightarrow> u16 option" where
  "get16 b i = (if i + 1 < length b then Some (push_bit 8 (ucast (b ! i)) OR ucast (b ! (i + 1))) else None)"

definition tpids :: "u16 list" where
  "tpids = [0x8100, 0x88a8, 0x9100, 0x9200, 0x9300]"

function skip_tags :: "bytes \<Rightarrow> nat \<Rightarrow> nat option" where
  "skip_tags frame l3 =
     (if l3 + 4 \<le> length frame
      then do { t \<leftarrow> get16 frame l3;
                if t \<in> set tpids then skip_tags frame (l3 + 4) else Some l3 }
      else Some l3)"
  by auto
termination
  by (relation "measure (\<lambda>(frame, l3). length frame - l3)") auto

declare skip_tags.simps [simp del]

text \<open>Where the summed range ends: the end of the IP payload when the length field can be believed,
  else the end of the frame.\<close>

definition csum_end :: "bytes \<Rightarrow> nat \<Rightarrow> nat option" where
  "csum_end frame at =
     do { l3 \<leftarrow> skip_tags frame 12;
          let hdr = l3 + 2;
          e \<leftarrow> (if hdr + 8 \<le> length frame \<and> length frame \<le> hdr + 0xffff
                then do { t \<leftarrow> get16 frame l3;
                          if t = 0x0800 then do { n \<leftarrow> get16 frame (hdr + 2); Some (hdr + unat n) }
                          else if t = 0x86dd then do { n \<leftarrow> get16 frame (hdr + 4); Some (hdr + 40 + unat n) }
                          else Some (length frame) }
                else Some (length frame));
          Some (if e > length frame \<or> e < at + 2 \<or> (e < length frame \<and> length frame > l3 + 2 + 46)
                then length frame else e) }"

definition completeL4 :: "bytes \<Rightarrow> int \<Rightarrow> int \<Rightarrow> (bool \<times> bytes) option" where
  "completeL4 frame csumStart csumOff =
     (if csumStart < 0 \<or> csumOff < 0 then Some (False, frame)
      else if csumStart > int (length frame) \<or> csumOff > int (length frame) - csumStart - 2 then Some (False, frame)
      else let at = nat (csumStart + csumOff)
           in if at + 2 > length frame then Some (False, frame)
              else do { e \<leftarrow> csum_end frame at;
                        let sum = onesComplement (drop (nat csumStart) (take e frame));
                        f \<leftarrow> poke frame at (be16 (if sum = 0 then 0xffff else sum));
                        Some (True, f) })"

definition chained :: "bool list option \<Rightarrow> nat \<Rightarrow> bool option" where
  "chained cont i =
     (case cont of None \<Rightarrow> Some False
      | Some c \<Rightarrow> if \<not> i < length c then None
                  else if c ! i then Some True
                  else Some (i > 0 \<and> c ! (i - 1)))"

text \<open>\<open>completeOffloads\<close> from packet \<open>i\<close> on; the frames of a batch are separate buffers, given and
  returned as a list.\<close>

fun completeFrom :: "nat \<Rightarrow> bool list option \<Rightarrow> offload list \<Rightarrow> bytes list
    \<Rightarrow> (nat \<times> offload list \<times> bytes list) option" where
  "completeFrom i cont [] fs = Some (0, [], fs)"
| "completeFrom i cont (o' # offs) [] = None"
| "completeFrom i cont (o' # offs) (f # fs) =
     do { skip \<leftarrow> (if Flags o' AND OffloadNeedsCsum = 0 \<or> Segmented o' then Some True
                   else chained cont i);
          (bad, o1, f1) \<leftarrow>
             (if skip then Some (0, o', f)
              else do { (ok, f1) \<leftarrow> completeL4 f (int (unat (CsumStart o'))) (int (unat (CsumOff o')));
                        Some (if ok then (0, o'\<lparr>Flags := Flags o' AND NOT OffloadNeedsCsum\<rparr>, f1)
                              else (1, o', f1)) });
          (bads, os, gs) \<leftarrow> completeFrom (Suc i) cont offs fs;
          Some (bad + bads, o1 # os, f1 # gs) }"

definition completeOffloads :: "offload list \<Rightarrow> bool list option \<Rightarrow> bytes list
    \<Rightarrow> (nat \<times> offload list \<times> bytes list) option" where
  "completeOffloads offs cont fs = completeFrom 0 cont offs fs"

section \<open>Ones' complement sums\<close>

text \<open>The sum of the 16-bit big-endian words of a range, as a natural number.\<close>

fun wsum :: "bytes \<Rightarrow> nat" where
  "wsum [] = 0"
| "wsum [x] = unat x * 256"
| "wsum (x # y # b) = unat x * 256 + unat y + wsum b"

lemma wsum_bound: "wsum b \<le> 65535 * ((length b + 1) div 2)"
proof (induction b rule: wsum.induct)
  case (3 x y b)
  then show ?case using u8_bound [of x] u8_bound [of y] by simp
next
  case (2 x)
  then show ?case using u8_bound [of x] by simp
qed simp

lemma sum_words_wsum:
  "unat s + wsum b < 2 ^ 32 \<Longrightarrow> unat (sum_words b s) = unat s + wsum b"
proof (induction b s rule: sum_words.induct)
  case (2 x s)
  have "unat (push_bit 8 (ucast x) :: u32) = unat x * 256" by (rule unat_hi_byte) simp
  then show ?case using 2 by (simp add: unat_plus_exact)
next
  case (3 x y b s)
  have p: "unat (push_bit 8 (ucast x) OR ucast y :: u32) = unat x * 256 + unat y"
    by (rule unat_be_pair) simp
  then have "unat (s + (push_bit 8 (ucast x) OR ucast y)) = unat s + (unat x * 256 + unat y)"
    using 3(2) by (subst unat_plus_exact) simp_all
  then show ?case using 3 by simp
qed simp

lemma fold16_spec:
  "unat (fold16 s) < 65536 \<and> unat (fold16 s) mod 65535 = unat s mod 65535 \<and> (fold16 s = 0 \<longleftrightarrow> s = 0)"
proof (induction s rule: fold16.induct)
  case (1 s)
  show ?case
  proof (cases "drop_bit 16 s = 0")
    case True
    then have "unat s div 65536 = 0" using unat_drop_bit [of 16 s] by simp
    moreover have "fold16 s = s" using True by (subst fold16.simps) simp
    ultimately show ?thesis by (simp add: div_eq_0_iff)
  next
    case False
    let ?t = "(s AND 0xffff) + drop_bit 16 s"
    have t: "unat ?t = unat s mod 65536 + unat s div 65536" using False by (rule fold16_less)
    have "unat s = 65535 * (unat s div 65536) + (unat s mod 65536 + unat s div 65536)" by simp
    then have m: "unat s mod 65535 = unat ?t mod 65535" unfolding t by (metis mod_mult_self4)
    have "unat ?t \<noteq> 0"
    proof
      assume "unat ?t = 0"
      then have "unat s mod 65536 = 0" "unat s div 65536 = 0" using t by simp_all
      then have "unat s = 0" using div_mult_mod_eq [of "unat s" 65536] by simp
      then have "s = 0" by (metis unat_eq_zero)
      with False show False by simp
    qed
    then have "?t \<noteq> 0" "s \<noteq> 0" using False by auto
    moreover have "fold16 s = fold16 ?t" using False by (subst fold16.simps) simp
    ultimately show ?thesis using 1 [OF False] m by simp
  qed
qed

lemma onesComplement_spec:
  assumes "wsum b < 2 ^ 32"
  shows "(unat (onesComplement b) + wsum b) mod 65535 = 0"
proof -
  let ?f = "fold16 (sum_words b 0)"
  have f: "unat ?f < 65536" "unat ?f mod 65535 = wsum b mod 65535"
    using fold16_spec [of "sum_words b 0"] sum_words_wsum [of 0 b] assms by auto
  have "unat (ucast ?f :: u16) = unat ?f"
    using f(1) by (simp add: unsigned_ucast_eq take_bit_nat_eq_self)
  moreover have "unat (NOT w) = 65535 - unat w" for w :: u16
    by (simp add: unat_not)
  ultimately have "unat (onesComplement b) = 65535 - unat ?f" by (simp add: onesComplement_def)
  then have "unat (onesComplement b) + unat ?f = 65535" using f(1) by simp
  then have "(unat (onesComplement b) + unat ?f) mod 65535 = 0" by simp
  then show ?thesis using f(2) by (metis mod_add_right_eq)
qed

section \<open>The range and the result\<close>

lemma get16_some: "i + 1 < length b \<Longrightarrow> \<exists>v. get16 b i = Some v"
  by (simp add: get16_def)

lemma skip_tags_total: "\<exists>r. skip_tags frame l3 = Some r"
proof (induction frame l3 rule: skip_tags.induct)
  case (1 frame l3)
  show ?case
  proof (cases "l3 + 4 \<le> length frame")
    case True
    then obtain t where t: "get16 frame l3 = Some t" using get16_some [of l3 frame] by auto
    then show ?thesis using True 1 [OF True] by (subst skip_tags.simps) auto
  qed (subst skip_tags.simps, simp)
qed

lemma csum_end_total:
  assumes "at + 2 \<le> length frame"
  shows "\<exists>e. csum_end frame at = Some e \<and> at + 2 \<le> e \<and> e \<le> length frame"
proof -
  obtain l3 where l3: "skip_tags frame 12 = Some l3" using skip_tags_total by blast
  show ?thesis
  proof (cases "l3 + 2 + 8 \<le> length frame")
    case True
    then obtain t n4 n6 where "get16 frame l3 = Some t" "get16 frame (l3 + 2 + 2) = Some n4"
        "get16 frame (l3 + 2 + 4) = Some n6"
      using get16_some [of l3 frame] get16_some [of "l3 + 2 + 2" frame] get16_some [of "l3 + 2 + 4" frame]
      by auto
    then show ?thesis using l3 assms by (simp add: csum_end_def Let_def)
  qed (use l3 assms in \<open>simp add: csum_end_def Let_def\<close>)
qed

text \<open>\<open>completeL4\<close> on every branch.\<close>

lemma completeL4_refuses:
  "csumStart < 0 \<or> csumOff < 0 \<or> csumStart + csumOff + 2 > int (length frame)
     \<Longrightarrow> completeL4 frame csumStart csumOff = Some (False, frame)"
  by (auto simp: completeL4_def)

lemma completeL4_accepts:
  fixes s off :: nat
  assumes "s + off + 2 \<le> length frame" "csum_end frame (s + off) = Some e"
  defines "c \<equiv> onesComplement (drop s (take e frame))"
  shows "completeL4 frame (int s) (int off)
     = Some (True, take (s + off) frame @ be16 (if c = 0 then 0xffff else c) @ drop (s + off + 2) frame)"
proof -
  have "nat (int s + int off) = s + off" by linarith
  then show ?thesis using assms by (auto simp: completeL4_def poke_def Let_def)
qed

subsection \<open>Validity of the completed sum\<close>

lemma wsum_append: "even (length a) \<Longrightarrow> wsum (a @ b) = wsum a + wsum b"
proof (induction a rule: wsum.induct)
  case (3 x y a)
  then show ?case by simp
qed auto

lemma be16_pair: "be16 c = [ucast (drop_bit 8 c), ucast c]"
  by (simp add: be_bytes_def numeral_2_eq_2)

lemma wsum_be16: "wsum (be16 c) = unat c"
proof -
  have "unat (push_bit 8 (ucast (ucast (drop_bit 8 c) :: u8)) OR ucast (ucast c :: u8) :: u16)
      = unat (ucast (drop_bit 8 c) :: u8) * 256 + unat (ucast c :: u8)"
    by (rule unat_be_pair) simp
  moreover have "push_bit 8 (ucast (ucast (drop_bit 8 c) :: u8)) OR ucast (ucast c :: u8) = c"
    using u16_split [of c] by (simp only: or.commute)
  ultimately show ?thesis by (simp add: be16_pair)
qed

text \<open>Splitting the summed range at the checksum field.\<close>

lemma range_split:
  assumes "s + off + 2 \<le> e" "e \<le> length frame" "length v = 2"
  shows "drop s (take e (take (s + off) frame @ v @ drop (s + off + 2) frame))
     = take off (drop s frame) @ v @ drop (s + off + 2) (take e frame)"
proof -
  have "take e (take (s + off) frame @ v @ drop (s + off + 2) frame)
      = take (s + off) frame @ v @ take (e - (s + off + 2)) (drop (s + off + 2) frame)"
    using assms by simp
  moreover have "drop s (take (s + off) frame) = take off (drop s frame)" by (simp add: take_drop add.commute)
  moreover have "take (e - (s + off + 2)) (drop (s + off + 2) frame) = drop (s + off + 2) (take e frame)"
    by (simp add: drop_take)
  ultimately show ?thesis using assms by simp
qed

lemma frame_at_field:
  "at + 2 \<le> length frame \<Longrightarrow> frame = take at frame @ [frame ! at, frame ! (at + 1)] @ drop (at + 2) frame"
  by (metis Cons_nth_drop_Suc Suc_eq_plus1 add_2_eq_Suc' append_Cons append_Nil append_take_drop_id
      less_eq_Suc_le Suc_le_lessD Suc_leD)

lemma completed_sum_valid:
  assumes "s + off + 2 \<le> e" "e \<le> length frame" "even off" "length frame \<le> 131072"
  defines "c \<equiv> onesComplement (drop s (take e frame))"
  defines "c' \<equiv> (if c = 0 then 0xffff else c)"
  shows "(wsum [frame ! (s + off), frame ! (s + off + 1)]
        + wsum (drop s (take e (take (s + off) frame @ be16 c' @ drop (s + off + 2) frame)))) mod 65535 = 0"
proof -
  let ?a = "take off (drop s frame)" and ?b = "drop (s + off + 2) (take e frame)"
  let ?v = "[frame ! (s + off), frame ! (s + off + 1)]"
  have la: "even (length ?a)" using assms by (simp add: min_def)
  have old: "drop s (take e frame) = ?a @ ?v @ ?b"
  proof -
    have f: "frame = take (s + off) frame @ ?v @ drop (s + off + 2) frame"
      by (rule frame_at_field) (use assms in linarith)
    show ?thesis using range_split [OF assms(1,2), of ?v] f by (metis length_Cons list.size(3) numeral_2_eq_2)
  qed
  have new: "drop s (take e (take (s + off) frame @ be16 c' @ drop (s + off + 2) frame)) = ?a @ be16 c' @ ?b"
    by (rule range_split) (use assms in simp_all)
  have sums: "wsum (?a @ w @ ?b) = wsum ?a + wsum w + wsum ?b" if "length w = 2" for w
    using la that by (simp add: wsum_append)
  have "wsum (drop s (take e frame)) \<le> 65535 * ((length (drop s (take e frame)) + 1) div 2)"
    by (rule wsum_bound)
  also have "\<dots> \<le> 65535 * 65536" using assms(2,4) by (intro mult_le_mono2) simp
  finally have "(unat c + wsum (drop s (take e frame))) mod 65535 = 0"
    unfolding c_def by (intro onesComplement_spec) simp
  moreover have "unat c' mod 65535 = unat c mod 65535" by (simp add: c'_def)
  ultimately have "(unat c' + wsum (drop s (take e frame))) mod 65535 = 0" by (metis mod_add_left_eq)
  moreover have "unat c' + wsum (drop s (take e frame)) = wsum ?v + wsum (?a @ be16 c' @ ?b)"
    unfolding old by (subst (1 2) sums) (simp_all add: wsum_be16 del: wsum.simps)
  ultimately show ?thesis unfolding new by simp
qed

subsection \<open>Where the range ends\<close>

lemma get16_at: "length pre = i \<Longrightarrow> get16 (pre @ be16 w @ rest) i = Some w"
  using u16_split [of w] by (simp add: get16_def be16_pair nth_append or.commute)

definition tag_bytes :: "u16 \<times> u16 \<Rightarrow> bytes" where
  "tag_bytes t = be16 (fst t) @ be16 (snd t)"

lemma length_tags [simp]: "length (concat (map tag_bytes tags)) = 4 * length tags"
  by (induction tags) (simp_all add: tag_bytes_def)

lemma skip_tags_walks:
  assumes "length pre = l3" "fst ` set tags \<subseteq> set tpids" "ty \<notin> set tpids" "2 \<le> length rest"
  shows "skip_tags (pre @ concat (map tag_bytes tags) @ be16 ty @ rest) l3 = Some (l3 + 4 * length tags)"
  using assms
proof (induction tags arbitrary: pre l3)
  case Nil
  then show ?case by (subst skip_tags.simps) (simp add: get16_at)
next
  case (Cons t tags)
  let ?f = "pre @ concat (map tag_bytes (t # tags)) @ be16 ty @ rest"
  have f: "?f = pre @ be16 (fst t) @ (be16 (snd t) @ concat (map tag_bytes tags) @ be16 ty @ rest)"
    by (simp add: tag_bytes_def)
  have "get16 ?f l3 = Some (fst t)" unfolding f using Cons.prems(1) by (rule get16_at)
  moreover have "skip_tags ?f (l3 + 4) = Some (l3 + 4 + 4 * length tags)"
    using Cons.IH [of "pre @ tag_bytes t" "l3 + 4"] Cons.prems
    by (simp add: tag_bytes_def [of t])
  ultimately show ?case using Cons.prems by (subst skip_tags.simps) (simp add: tag_bytes_def)
qed

text \<open>An Ethernet frame around an IP packet, with its VLAN tags and its padding.\<close>

definition eth_frame :: "bytes \<Rightarrow> (u16 \<times> u16) list \<Rightarrow> u16 \<Rightarrow> bytes \<Rightarrow> bytes \<Rightarrow> bytes" where
  "eth_frame mac tags ty ip pad = mac @ concat (map tag_bytes tags) @ be16 ty @ ip @ pad"

text \<open>The packet's own length field says how long it is.\<close>

definition ip_length_ok :: "u16 \<Rightarrow> bytes \<Rightarrow> bool" where
  "ip_length_ok ty ip \<longleftrightarrow>
     (ty = 0x0800 \<and> map_option unat (get16 ip 2) = Some (length ip))
     \<or> (ty = 0x86dd \<and> map_option (\<lambda>n. 40 + unat n) (get16 ip 4) = Some (length ip))"

lemma get16_shift:
  "get16 ip i = Some v \<Longrightarrow> length pre = k \<Longrightarrow> get16 (pre @ ip @ rest) (k + i) = Some v"
  by (auto simp: get16_def nth_append split: if_splits)

lemma csum_end_ip:
  assumes "length mac = 12" "fst ` set tags \<subseteq> set tpids" "ip_length_ok ty ip"
    and "8 \<le> length (ip @ pad)" "length (ip @ pad) \<le> 0xffff"
    and "pad = [] \<or> length (ip @ pad) \<le> 46"
    and "at + 2 \<le> 14 + 4 * length tags + length ip"
  shows "csum_end (eth_frame mac tags ty ip pad) at = Some (14 + 4 * length tags + length ip)"
proof -
  let ?f = "eth_frame mac tags ty ip pad" and ?pre = "mac @ concat (map tag_bytes tags)"
  let ?l3 = "12 + 4 * length tags"
  have ty: "ty \<notin> set tpids" using assms(3) by (auto simp: ip_length_ok_def tpids_def)
  have l3: "skip_tags ?f 12 = Some ?l3"
    unfolding eth_frame_def using skip_tags_walks [OF assms(1,2) ty, of "ip @ pad"] assms(4) by simp
  have t: "get16 ?f ?l3 = Some ty"
    using get16_at [of ?pre ?l3 ty "ip @ pad"] assms(1) by (simp add: eth_frame_def)
  have field: "get16 ?f (?l3 + 2 + i) = Some v" if "get16 ip i = Some v" for i v
    using get16_shift [OF that, of "?pre @ be16 ty" "?l3 + 2" pad] assms(1) by (simp add: eth_frame_def)
  have len: "length ?f = ?l3 + 2 + length ip + length pad" using assms(1) by (simp add: eth_frame_def)
  from assms(3) consider n where "ty = 0x0800" "get16 ip 2 = Some n" "unat n = length ip"
    | n where "ty = 0x86dd" "get16 ip 4 = Some n" "40 + unat n = length ip"
    by (auto simp: ip_length_ok_def)
  then show ?thesis
  proof cases
    case 1
    then show ?thesis using l3 t field [OF 1(2)] len assms(4-7) by (auto simp: csum_end_def Let_def)
  next
    case 2
    then show ?thesis using l3 t field [OF 2(2)] len assms(4-7) by (auto simp: csum_end_def Let_def)
  qed
qed

section \<open>Properties\<close>

text \<open>C31: \<open>completeL4\<close> never panics and never writes outside the two bytes of the checksum field,
  whatever offsets the kernel or a guest supplied: it succeeds exactly when the field lies inside
  the frame, and a refused pair leaves the frame exactly as it was.\<close>

theorem completeL4_safe:
  "\<exists>f. completeL4 frame csumStart csumOff
         = Some (0 \<le> csumStart \<and> 0 \<le> csumOff \<and> csumStart + csumOff + 2 \<le> int (length frame), f)
     \<and> length f = length frame
     \<and> (\<forall>i. i < length frame \<and> f ! i \<noteq> frame ! i
          \<longrightarrow> 0 \<le> csumStart \<and> 0 \<le> csumOff \<and> csumStart + csumOff + 2 \<le> int (length frame)
            \<and> csumStart + csumOff \<le> int i \<and> int i < csumStart + csumOff + 2)"
proof (cases "0 \<le> csumStart \<and> 0 \<le> csumOff \<and> csumStart + csumOff + 2 \<le> int (length frame)")
  case True
  define s off where "s = nat csumStart" and "off = nat csumOff"
  then have so: "csumStart = int s" "csumOff = int off" using True by simp_all
  have fit: "s + off + 2 \<le> length frame" using True unfolding so by linarith
  then obtain e where e: "csum_end frame (s + off) = Some e" using csum_end_total by blast
  define c where "c = onesComplement (drop s (take e frame))"
  define f where "f = take (s + off) frame @ be16 (if c = 0 then 0xffff else c) @ drop (s + off + 2) frame"
  have "completeL4 frame csumStart csumOff = Some (True, f)"
    using completeL4_accepts [OF fit e] by (simp add: so f_def c_def)
  moreover have "length f = length frame" using fit by (simp add: f_def)
  moreover have "csumStart + csumOff \<le> int i \<and> int i < csumStart + csumOff + 2"
    if "i < length frame" "f ! i \<noteq> frame ! i" for i
  proof (rule ccontr)
    assume "\<not> ?thesis"
    then consider "i < s + off" | "s + off + 2 \<le> i" unfolding so by linarith
    then have "f ! i = frame ! i"
    proof cases
      case 1
      then show ?thesis using fit by (simp add: f_def nth_append)
    next
      case 2
      then obtain k where "i = s + off + 2 + k" using le_Suc_ex by blast
      then show ?thesis using fit by (simp add: f_def nth_append)
    qed
    with that(2) show False by simp
  qed
  ultimately show ?thesis using True by (intro exI [of _ f] conjI allI impI) auto
next
  case False
  then have "completeL4 frame csumStart csumOff = Some (False, frame)"
    by (intro completeL4_refuses) linarith
  then show ?thesis using False by simp
qed

theorem completeL4_safe_witness:
  "\<exists>f. completeL4 [1, 2, 3, 4] 0 2 = Some (True, f) \<and> take 2 f = [1, 2]"
proof -
  obtain f where f: "completeL4 [1, 2, 3, 4] 0 2 = Some (True, f)" "length f = 4"
      "\<forall>i. i < 4 \<and> f ! i \<noteq> [1, 2, 3, 4] ! i \<longrightarrow> 2 \<le> i"
    using completeL4_safe [of "[1, 2, 3, 4]" 0 2] by auto
  have "f ! 0 = 1" "f ! 1 = 2" using f(3) [rule_format, of 0] f(3) [rule_format, of 1] by auto
  then have "take 2 f = [1, 2]" using f(2) by (simp add: list_eq_iff_nth_eq less_2_cases_iff)
  then show ?thesis using f by blast
qed

text \<open>C30: the checksum \<open>completeL4\<close> leaves is right. For an Ethernet frame around an IPv4 or IPv6
  packet, with any stack of VLAN tags and with padding up to the Ethernet minimum, the L4 range it
  sums is the IP payload without the padding, and afterwards the pseudo-header partial that was in
  the field plus all the words of that range is zero in ones' complement arithmetic, which is what
  a receiver verifies; the field itself is never left zero.\<close>

theorem completeL4_valid:
  assumes "length mac = 12" "fst ` set tags \<subseteq> set tpids" "ip_length_ok ty ip"
    and "8 \<le> length (ip @ pad)" "length (ip @ pad) \<le> 0xffff"
    and "pad = [] \<or> length (ip @ pad) \<le> 46" "length tags \<le> 1000"
    and "even off" "s + off + 2 \<le> 14 + 4 * length tags + length ip"
  shows "\<exists>f partial. completeL4 (eth_frame mac tags ty ip pad) (int s) (int off) = Some (True, f)
     \<and> get16 (eth_frame mac tags ty ip pad) (s + off) = Some partial
     \<and> (unat partial + wsum (drop s (take (14 + 4 * length tags + length ip) f))) mod 65535 = 0
     \<and> get16 f (s + off) \<noteq> Some 0 \<and> drop (14 + 4 * length tags + length ip) f = pad"
proof -
  let ?e = "14 + 4 * length tags + length ip"
  define fr where "fr = eth_frame mac tags ty ip pad"
  have e: "csum_end fr (s + off) = Some ?e"
    unfolding fr_def by (rule csum_end_ip) (use assms in simp_all)
  have len: "length fr = ?e + length pad" using assms(1) by (simp add: fr_def eth_frame_def)
  have pad: "drop ?e fr = pad" using assms(1) by (simp add: fr_def eth_frame_def)
  define c where "c = onesComplement (drop s (take ?e fr))"
  define c' where "c' = (if c = 0 then 0xffff else c)"
  define f where "f = take (s + off) fr @ be16 c' @ drop (s + off + 2) fr"
  have fit: "s + off + 2 \<le> length fr" using assms(9) len by simp
  have ok: "completeL4 fr (int s) (int off) = Some (True, f)"
    using completeL4_accepts [OF fit e] by (simp add: f_def c'_def c_def)
  have "get16 f (s + off) = Some c'" unfolding f_def by (rule get16_at) (use fit in simp)
  moreover have "c' \<noteq> 0" by (simp add: c'_def)
  ultimately have nz: "get16 f (s + off) \<noteq> Some 0" by simp
  have part: "get16 fr (s + off) = Some (push_bit 8 (ucast (fr ! (s + off))) OR ucast (fr ! (s + off + 1)))"
    using fit by (simp add: get16_def)
  have p: "unat (push_bit 8 (ucast (fr ! (s + off))) OR ucast (fr ! (s + off + 1)) :: u16)
      = wsum [fr ! (s + off), fr ! (s + off + 1)]"
    by (subst unat_be_pair) simp_all
  have "(wsum [fr ! (s + off), fr ! (s + off + 1)] + wsum (drop s (take ?e f))) mod 65535 = 0"
    unfolding f_def c'_def c_def
    by (rule completed_sum_valid) (use assms len in simp_all)
  moreover have "drop ?e f = pad"
  proof -
    have "drop ?e f = drop (?e - (s + off + 2)) (drop (s + off + 2) fr)"
      unfolding f_def using assms(9) fit by simp
    also have "\<dots> = drop ?e fr" using assms(9) by (simp add: add.assoc)
    finally show ?thesis using pad by simp
  qed
  ultimately show ?thesis using ok part p nz by (simp only: fr_def [symmetric]) auto
qed

theorem completeL4_valid_witness:
  "\<exists>f (partial :: u16). completeL4 (eth_frame (replicate 12 0) [] 0x0800 (be16 0 @ be16 8 @ be16 5 @ be16 7) [0, 0]) 16 2
        = Some (True, f)
     \<and> (unat partial + wsum (drop 16 (take 22 f))) mod 65535 = 0 \<and> drop 22 f = [0, 0]"
proof -
  let ?ip = "be16 0 @ be16 8 @ be16 5 @ be16 7"
  have "get16 (be16 0 @ be16 8 @ (be16 5 @ be16 7)) 2 = Some 8" by (rule get16_at) simp
  then have "ip_length_ok 0x0800 ?ip" by (simp add: ip_length_ok_def)
  then show ?thesis
    using completeL4_valid [of "replicate 12 0" "[]" "0x0800" ?ip "[0, 0]" 2 16]
    by (auto simp: mod_eq_0_iff_dvd)
qed

subsection \<open>Batches\<close>

text \<open>Whether packet \<open>i\<close> is one whose checksum is this code's to finish, and what becomes of it.\<close>

definition csum_due :: "offload \<Rightarrow> bool list option \<Rightarrow> nat \<Rightarrow> bool" where
  "csum_due o' cont i \<longleftrightarrow> Flags o' AND OffloadNeedsCsum \<noteq> 0 \<and> \<not> Segmented o' \<and> chained cont i = Some False"

definition csum_fits :: "offload \<Rightarrow> bytes \<Rightarrow> bool" where
  "csum_fits o' f \<longleftrightarrow> unat (CsumStart o') + unat (CsumOff o') + 2 \<le> length f"

lemma completeL4_offload:
  "\<exists>f'. completeL4 f (int (unat (CsumStart o'))) (int (unat (CsumOff o'))) = Some (csum_fits o' f, f')
     \<and> (\<not> csum_fits o' f \<longrightarrow> f' = f)"
proof (cases "csum_fits o' f")
  case True
  then have fit: "unat (CsumStart o') + unat (CsumOff o') + 2 \<le> length f" by (simp add: csum_fits_def)
  then obtain e where "csum_end f (unat (CsumStart o') + unat (CsumOff o')) = Some e"
    using csum_end_total by blast
  from completeL4_accepts [OF fit this] True show ?thesis by auto
next
  case False
  then have "completeL4 f (int (unat (CsumStart o'))) (int (unat (CsumOff o'))) = Some (False, f)"
    by (intro completeL4_refuses) (unfold csum_fits_def, linarith)
  then show ?thesis using False by auto
qed

lemma completeFrom_spec:
  assumes "length fs = length offs" "\<And>c. cont = Some c \<Longrightarrow> i + length offs \<le> length c"
  shows "\<exists>bad os gs. completeFrom i cont offs fs = Some (bad, os, gs)
     \<and> length os = length offs \<and> length gs = length offs
     \<and> bad = length (filter (\<lambda>k. csum_due (offs ! k) cont (i + k) \<and> \<not> csum_fits (offs ! k) (fs ! k)) [0..<length offs])
     \<and> (\<forall>k < length offs. if csum_due (offs ! k) cont (i + k) \<and> csum_fits (offs ! k) (fs ! k)
          then os ! k = (offs ! k)\<lparr>Flags := Flags (offs ! k) AND NOT OffloadNeedsCsum\<rparr>
             \<and> completeL4 (fs ! k) (int (unat (CsumStart (offs ! k)))) (int (unat (CsumOff (offs ! k)))) = Some (True, gs ! k)
          else os ! k = offs ! k \<and> gs ! k = fs ! k)"
  using assms
proof (induction offs arbitrary: i fs)
  case (Cons o' offs i ffs)
  then obtain f fs where ffs: "ffs = f # fs" by (cases ffs) auto
  let ?due = "csum_due o' cont i" and ?fits = "csum_fits o' f"
  let ?bad = "\<lambda>k. csum_due ((o' # offs) ! k) cont (i + k) \<and> \<not> csum_fits ((o' # offs) ! k) ((f # fs) ! k)"
  obtain f' where f': "completeL4 f (int (unat (CsumStart o'))) (int (unat (CsumOff o'))) = Some (?fits, f')"
      "\<not> ?fits \<longrightarrow> f' = f" using completeL4_offload by blast
  have ch: "\<exists>b. chained cont i = Some b"
    using Cons.prems(2) by (cases cont) (auto simp: chained_def)
  have skip: "(if Flags o' AND OffloadNeedsCsum = 0 \<or> Segmented o' then Some True else chained cont i)
      = Some (\<not> ?due)"
    using ch by (auto simp: csum_due_def)
  have pre: "length fs = length offs" "\<And>c. cont = Some c \<Longrightarrow> Suc i + length offs \<le> length c"
    using Cons.prems ffs by auto
  obtain bad os gs where r: "completeFrom (Suc i) cont offs fs = Some (bad, os, gs)"
      "length os = length offs" "length gs = length offs"
      "bad = length (filter (\<lambda>k. csum_due (offs ! k) cont (Suc i + k) \<and> \<not> csum_fits (offs ! k) (fs ! k)) [0..<length offs])"
      "\<forall>k < length offs. if csum_due (offs ! k) cont (Suc i + k) \<and> csum_fits (offs ! k) (fs ! k)
          then os ! k = (offs ! k)\<lparr>Flags := Flags (offs ! k) AND NOT OffloadNeedsCsum\<rparr>
             \<and> completeL4 (fs ! k) (int (unat (CsumStart (offs ! k)))) (int (unat (CsumOff (offs ! k)))) = Some (True, gs ! k)
          else os ! k = offs ! k \<and> gs ! k = fs ! k"
    using Cons.IH [OF pre] by blast
  have cnt: "length (filter ?bad [0..<length (o' # offs)]) = (if ?due \<and> \<not> ?fits then 1 else 0) + bad"
    using length_filter_upt_Suc [of ?bad "length offs"] r(4) by simp
  have run: "completeFrom i cont (o' # offs) (f # fs)
      = Some ((if ?due \<and> \<not> ?fits then 1 else 0) + bad,
          (if ?due \<and> ?fits then o'\<lparr>Flags := Flags o' AND NOT OffloadNeedsCsum\<rparr> else o') # os,
          (if ?due then f' else f) # gs)"
    using skip f' r(1) by simp
  let ?os = "(if ?due \<and> ?fits then o'\<lparr>Flags := Flags o' AND NOT OffloadNeedsCsum\<rparr> else o') # os"
    and ?gs = "(if ?due then f' else f) # gs"
  have each: "if csum_due ((o' # offs) ! k) cont (i + k) \<and> csum_fits ((o' # offs) ! k) ((f # fs) ! k)
      then ?os ! k = ((o' # offs) ! k)\<lparr>Flags := Flags ((o' # offs) ! k) AND NOT OffloadNeedsCsum\<rparr>
         \<and> completeL4 ((f # fs) ! k) (int (unat (CsumStart ((o' # offs) ! k))))
              (int (unat (CsumOff ((o' # offs) ! k)))) = Some (True, ?gs ! k)
      else ?os ! k = (o' # offs) ! k \<and> ?gs ! k = (f # fs) ! k" if "k < length (o' # offs)" for k
  proof (cases k)
    case 0
    then show ?thesis using f' by (cases ?fits) simp_all
  next
    case (Suc j)
    then have "j < length offs" using that by simp
    from r(5) [rule_format, OF this] show ?thesis
      by (simp only: Suc nth_Cons_Suc add_Suc_right add_Suc)
  qed
  show ?case
    unfolding ffs run
    by (intro exI conjI allI impI, rule refl, simp add: r(2), simp add: r(3), simp only: cnt, rule each)
qed simp

text \<open>C32: \<open>completeOffloads\<close> on a batch, packet by packet. It never panics when the metadata matches
  the frames. A super-frame, a packet spread over several frames and a frame that asks for nothing
  keep both their bytes and their metadata; every other packet goes through \<open>completeL4\<close>, its flag is
  cleared exactly when that succeeded, and the returned count is the number that did not.\<close>

theorem completeOffloads_batch:
  assumes "length fs = length offs" "case cont of None \<Rightarrow> True | Some c \<Rightarrow> length offs \<le> length c"
  shows "\<exists>bad os gs. completeOffloads offs cont fs = Some (bad, os, gs)
     \<and> length os = length offs \<and> length gs = length offs
     \<and> bad = length (filter (\<lambda>k. csum_due (offs ! k) cont k \<and> \<not> csum_fits (offs ! k) (fs ! k)) [0..<length offs])
     \<and> (\<forall>k < length offs. if csum_due (offs ! k) cont k \<and> csum_fits (offs ! k) (fs ! k)
          then os ! k = (offs ! k)\<lparr>Flags := Flags (offs ! k) AND NOT OffloadNeedsCsum\<rparr>
             \<and> completeL4 (fs ! k) (int (unat (CsumStart (offs ! k)))) (int (unat (CsumOff (offs ! k)))) = Some (True, gs ! k)
          else os ! k = offs ! k \<and> gs ! k = fs ! k)"
  using completeFrom_spec [OF assms(1), of cont 0] assms(2)
  unfolding completeOffloads_def by (simp only: add_0 split: option.splits) auto

theorem completeOffloads_batch_witness:
  "\<exists>os gs. completeOffloads
      [\<lparr>Flags = 1, GSOType = 1, HdrLen = 0, GSOSize = 0, CsumStart = 0, CsumOff = 0\<rparr>,
       \<lparr>Flags = 1, GSOType = 0, HdrLen = 0, GSOSize = 0, CsumStart = 9, CsumOff = 0\<rparr>] None [[1, 2], [3]] = Some (1, os, gs)
     \<and> gs ! 0 = [1, 2]"
  (is "\<exists>os gs. completeOffloads ?offs None ?fs = _ \<and> _")
proof -
  have "length (filter (\<lambda>k. csum_due (?offs ! k) None k \<and> \<not> csum_fits (?offs ! k) (?fs ! k)) [0..<2]) = 1"
    by code_simp
  moreover have "\<not> csum_due (?offs ! 0) None 0" by code_simp
  ultimately show ?thesis
    using completeOffloads_batch [of ?fs ?offs None] by (auto simp: numeral_2_eq_2)
qed

end
