(* ===== verification/Wqe_Queue.thy ===== *)
theory Wqe_Queue
  imports Packetio_Prelude
begin

text \<open>
  The send queue buffer of \<^verbatim>\<open>mlx5/internal/wqe/sq.go\<close>: a cyclic buffer of 64-byte blocks that
  entries are written into field by field, with every offset a 32-bit number that is masked when
  it is used. \<open>None\<close> is a Go panic.

  The library below reduces every write to \<open>cyc_write\<close> at a byte position, so that an entry built
  from a series of writes is one contiguous encoding, wherever in the queue it wraps.
\<close>

section \<open>The source\<close>

definition WQEBB :: nat where "WQEBB = 64"
definition Octoword :: nat where "Octoword = 16"
definition CtrlSegSize :: nat where "CtrlSegSize = 16"
definition EthSegHeaderSize :: nat where "EthSegHeaderSize = 14"
definition DataSegSize :: nat where "DataSegSize = 16"
definition CQESize :: nat where "CQESize = 64"
definition MaxDS :: nat where "MaxDS = 60"
definition MPWEthSegSize :: nat where "MPWEthSegSize = 16"

lemmas wqe_sizes = WQEBB_def Octoword_def CtrlSegSize_def EthSegHeaderSize_def DataSegSize_def
  CQESize_def MaxDS_def MPWEthSegSize_def

record sq =
  sq_buf :: bytes
  sq_mask :: u32
  sq_bbs :: u32

datatype wqe_error = EmptyBuffer | NotWholeBlocks nat | NotPow2Bytes nat | NegativeInline int
  | InlineTooLong u32 u32 | EntryTooBig u32 u32 | TooFewPackets int | BadMaxLen int
  | PacketTooLong int | CQESizeUnsupported int | NotWholeEntries nat | NotPow2Entries u32

definition NewSQ :: "bytes \<Rightarrow> wqe_error + sq" where
  "NewSQ buf =
     (let n = length buf
      in if n = 0 then Inl EmptyBuffer
         else if n mod WQEBB \<noteq> 0 then Inl (NotWholeBlocks n)
         else if n AND (n - 1) \<noteq> 0 then Inl (NotPow2Bytes n)
         else Inr \<lparr>sq_buf = buf, sq_mask = of_nat (n - 1), sq_bbs = of_nat (n div WQEBB)\<rparr>)"

definition sq_BBs :: "sq \<Rightarrow> u32" where
  "sq_BBs q = sq_bbs q"

definition sq_offset :: "sq \<Rightarrow> u32 \<Rightarrow> u32" where
  "sq_offset q idx = (idx * of_nat WQEBB) AND sq_mask q"

text \<open>A field store: \<open>binary.BigEndian.PutUint\<close> into the slice from the masked offset on.\<close>

definition put_field :: "sq \<Rightarrow> u32 \<Rightarrow> bytes \<Rightarrow> sq option" where
  "put_field q off xs = map_option (\<lambda>b. q\<lparr>sq_buf := b\<rparr>) (poke (sq_buf q) (unat (off AND sq_mask q)) xs)"

definition putU16BE :: "sq \<Rightarrow> u32 \<Rightarrow> u16 \<Rightarrow> sq option" where
  "putU16BE q off v = put_field q off (be16 v)"

definition putU32BE :: "sq \<Rightarrow> u32 \<Rightarrow> u32 \<Rightarrow> sq option" where
  "putU32BE q off v = put_field q off (be32 v)"

definition putU64BE :: "sq \<Rightarrow> u32 \<Rightarrow> u64 \<Rightarrow> sq option" where
  "putU64BE q off v = put_field q off (be64 v)"

text \<open>\<open>copy(dst[off:], src)\<close>: as much as fits; the slice expression panics past the end.\<close>

definition copy_at :: "bytes \<Rightarrow> nat \<Rightarrow> bytes \<Rightarrow> (nat \<times> bytes) option" where
  "copy_at b off src =
     (if off > length b then None
      else let n = min (length b - off) (length src)
           in Some (n, take off b @ take n src @ drop (off + n) b))"

definition putBytes :: "sq \<Rightarrow> u32 \<Rightarrow> bytes \<Rightarrow> sq option" where
  "putBytes q off src =
     do { (n, b) \<leftarrow> copy_at (sq_buf q) (unat (off AND sq_mask q)) src;
          if n < length src then do { (_, b1) \<leftarrow> copy_at b 0 (drop n src); Some (q\<lparr>sq_buf := b1\<rparr>) }
          else Some (q\<lparr>sq_buf := b\<rparr>) }"

definition ethSegOctowords :: "u32 \<Rightarrow> u32" where
  "ethSegOctowords inlineLen = (of_nat EthSegHeaderSize + inlineLen + of_nat Octoword - 1) div of_nat Octoword"

text \<open>\<open>clear(buf[from:to])\<close>.\<close>

definition clear_range :: "bytes \<Rightarrow> nat \<Rightarrow> nat \<Rightarrow> bytes option" where
  "clear_range b from to =
     (if from \<le> to \<and> to \<le> length b then Some (take from b @ replicate (to - from) 0 @ drop to b) else None)"

definition sq_zero :: "sq \<Rightarrow> u32 \<Rightarrow> u32 \<Rightarrow> sq option" where
  "sq_zero q off0 len =
     (let off = off0 AND sq_mask q;
          n0 = of_nat (length (sq_buf q)) - off;
          n = (if n0 > len then len else n0)
      in do { b \<leftarrow> clear_range (sq_buf q) (unat off) (unat (off + n));
              if n < len then do { b1 \<leftarrow> clear_range b 0 (unat (len - n)); Some (q\<lparr>sq_buf := b1\<rparr>) }
              else Some (q\<lparr>sq_buf := b\<rparr>) })"

section \<open>Well-formed queues\<close>

definition sq_ok :: "sq \<Rightarrow> bool" where
  "sq_ok q \<longleftrightarrow> is_pow2 (length (sq_buf q)) \<and> WQEBB dvd length (sq_buf q) \<and> length (sq_buf q) \<le> 2 ^ 31
     \<and> sq_mask q = of_nat (length (sq_buf q) - 1) \<and> sq_bbs q = of_nat (length (sq_buf q) div WQEBB)"

lemma NewSQ_ok: "NewSQ buf = Inr q \<Longrightarrow> length buf \<le> 2 ^ 31 \<Longrightarrow> sq_ok q \<and> sq_buf q = buf"
  by (auto simp: NewSQ_def sq_ok_def is_pow2_def Let_def mod_eq_0_iff_dvd split: if_splits)

lemma sq_ok_pos: "sq_ok q \<Longrightarrow> 0 < length (sq_buf q)"
  by (auto simp: sq_ok_def dest: is_pow2_pos)

lemma sq_ok_buf: "sq_ok q \<Longrightarrow> length b = length (sq_buf q) \<Longrightarrow> sq_ok (q\<lparr>sq_buf := b\<rparr>)"
  by (simp add: sq_ok_def)

lemma mask_mod: "sq_ok q \<Longrightarrow> unat (off AND sq_mask q) = unat off mod length (sq_buf q)"
  using unat_and_pow2_mask [of "length (sq_buf q)" off] by (simp add: sq_ok_def)

text \<open>A 32-bit offset names a byte position of the cyclic buffer.\<close>

definition at_pos :: "sq \<Rightarrow> u32 \<Rightarrow> nat \<Rightarrow> bool" where
  "at_pos q off p \<longleftrightarrow> unat off mod length (sq_buf q) = p mod length (sq_buf q)"

lemma at_pos_buf [simp]: "length b = length (sq_buf q) \<Longrightarrow> at_pos (q\<lparr>sq_buf := b\<rparr>) off p = at_pos q off p"
  by (simp add: at_pos_def)

lemma at_pos_add: "sq_ok q \<Longrightarrow> at_pos q off p \<Longrightarrow> at_pos q (off + of_nat k) (p + k)"
  unfolding at_pos_def sq_ok_def by (simp add: unat_add_mod) (metis mod_add_left_eq)

lemma at_pos_plus: "sq_ok q \<Longrightarrow> at_pos q off p \<Longrightarrow> at_pos q (off + w) (p + unat w)"
  using at_pos_add [of q off p "unat w"] by simp

lemma at_pos_offset:
  assumes "sq_ok q"
  shows "at_pos q (sq_offset q idx) (64 * unat idx)"
proof -
  have p: "is_pow2 (length (sq_buf q))" "length (sq_buf q) \<le> 2 ^ LENGTH(32)"
    using assms by (auto simp: sq_ok_def)
  have "unat (idx * 64) mod length (sq_buf q) = (unat idx * 64 mod 2 ^ LENGTH(32)) mod length (sq_buf q)"
    by (simp add: unat_word_ariths)
  also have "\<dots> = unat idx * 64 mod length (sq_buf q)"
    by (rule mod_mod_cancel) (rule pow2_dvd_pow2 [OF p])
  finally show ?thesis using assms by (simp add: at_pos_def sq_offset_def WQEBB_def mask_mod mult.commute)
qed

lemma aligned_fits:
  fixes n :: nat
  assumes "k dvd n" "k dvd p" "0 < n"
  shows "p mod n + k \<le> n"
proof -
  have d: "k dvd p mod n" using assms by (simp add: dvd_mod)
  have "p mod n < n" using assms(3) by simp
  moreover obtain a b where "p mod n = k * a" "n = k * b" using d assms(1) by (auto elim!: dvdE)
  ultimately have "k * a < k * b" by simp
  then have "k * (a + 1) \<le> k * b" by (intro mult_le_mono2) (metis mult_less_cancel1 Suc_eq_plus1 Suc_leI)
  then show ?thesis using \<open>p mod n = k * a\<close> \<open>n = k * b\<close> by simp
qed

section \<open>Writes as one encoding\<close>

text \<open>The queue after the bytes \<open>xs\<close> have been laid down from position \<open>p\<close> on.\<close>

definition written :: "sq \<Rightarrow> nat \<Rightarrow> bytes \<Rightarrow> sq" where
  "written q p xs = q\<lparr>sq_buf := cyc_write (sq_buf q) p xs\<rparr>"

lemma written_Nil [simp]: "written q p [] = q"
  by (simp add: written_def)

lemma written_simps [simp]:
  "length (sq_buf (written q p xs)) = length (sq_buf q)" "sq_mask (written q p xs) = sq_mask q"
  "sq_bbs (written q p xs) = sq_bbs q" "sq_ok (written q p xs) = sq_ok q"
  "at_pos (written q p xs) off p' = at_pos q off p'"
  by (simp_all add: written_def sq_ok_def at_pos_def)

lemma written_append: "written (written q p xs) (p + length xs) ys = written q p (xs @ ys)"
  by (simp add: written_def cyc_write_append)

lemma put_field_written:
  assumes "sq_ok q" "at_pos q off p" "length xs dvd p" "length xs dvd WQEBB"
  shows "put_field q off xs = Some (written q p xs)"
proof -
  let ?b = "sq_buf q"
  have pos: "0 < length ?b" using assms(1) by (rule sq_ok_pos)
  have "length xs dvd length ?b" using assms(1,4) by (auto simp: sq_ok_def intro: dvd_trans)
  then have fits: "p mod length ?b + length xs \<le> length ?b" using assms(3) pos by (rule aligned_fits)
  have "unat (off AND sq_mask q) = p mod length ?b"
    using assms(1,2) by (simp add: mask_mod at_pos_def)
  then show ?thesis
    using poke_cyc_write [OF fits] by (simp add: put_field_def written_def cyc_write_mod)
qed

lemma copy_at_cyc:
  assumes "off < length b" "length src \<le> length b"
  shows "\<exists>n b1. copy_at b off src = Some (n, b1) \<and> length b1 = length b
     \<and> (if n < length src then \<exists>m. copy_at b1 0 (drop n src) = Some (m, cyc_write b off src)
         else b1 = cyc_write b off src)"
proof (cases "off + length src \<le> length b")
  case True
  then have "copy_at b off src = Some (length src, cyc_write b off src)"
    by (simp add: copy_at_def cyc_write_flat Let_def)
  then show ?thesis by auto
next
  case False
  let ?n = "length b - off"
  let ?b1 = "take off b @ take ?n src"
  have n: "?n < length src" "min ?n (length src) = ?n" using False assms(1) by linarith+
  have b1: "copy_at b off src = Some (?n, ?b1)" using assms n by (simp add: copy_at_def Let_def)
  have l1: "length ?b1 = length b" using assms n by simp
  have "cyc_write b off (take ?n src) = ?b1"
    using assms n by (simp add: cyc_write_flat)
  then have "cyc_write b off (take ?n src @ drop ?n src) = cyc_write ?b1 (off + ?n) (drop ?n src)"
    using n by (simp only: cyc_write_append) simp
  also have "\<dots> = cyc_write ?b1 0 (drop ?n src)"
    by (rule cyc_write_cong_mod) (use l1 assms in simp)
  finally have "cyc_write b off src = cyc_write ?b1 0 (drop ?n src)" by simp
  also have "\<dots> = drop ?n src @ drop (length src - ?n) ?b1"
    using cyc_write_flat [of 0 "drop ?n src" ?b1] l1 assms by simp
  finally have w: "cyc_write b off src = drop ?n src @ drop (length src - ?n) ?b1" .
  have "min (length ?b1) (length (drop ?n src)) = length src - ?n" using assms l1 by simp
  then have "copy_at ?b1 0 (drop ?n src) = Some (length src - ?n, cyc_write b off src)"
    unfolding copy_at_def w by (simp only: Let_def) simp
  with b1 l1 n show ?thesis by auto
qed

lemma putBytes_written:
  assumes "sq_ok q" "at_pos q off p" "length src \<le> length (sq_buf q)"
  shows "putBytes q off src = Some (written q p src)"
proof -
  let ?o = "p mod length (sq_buf q)"
  have o: "unat (off AND sq_mask q) = ?o" using assms(1,2) by (simp add: mask_mod at_pos_def)
  have "?o < length (sq_buf q)" using sq_ok_pos [OF assms(1)] by simp
  from copy_at_cyc [OF this assms(3)] show ?thesis
    by (auto simp: putBytes_def o written_def cyc_write_mod split: if_splits)
qed

lemma sq_zero_written:
  assumes "sq_ok q" "at_pos q off p" "unat len \<le> length (sq_buf q)"
  shows "sq_zero q off len = Some (written q p (replicate (unat len) 0))"
proof -
  let ?L = "length (sq_buf q)" let ?o = "p mod ?L" let ?w = "off AND sq_mask q"
  have o: "unat ?w = ?o" using assms(1,2) by (simp add: mask_mod at_pos_def)
  have oL: "?o < ?L" using sq_ok_pos [OF assms(1)] by simp
  have L: "?L \<le> 2 ^ 31" using assms(1) by (simp add: sq_ok_def)
  have uL: "unat (of_nat ?L :: u32) = ?L" using L by (simp add: unat_of_nat take_bit_nat_eq_self)
  have n0: "unat (of_nat ?L - ?w) = ?L - ?o"
    using oL o uL by (subst unat_sub) (simp_all add: word_le_nat_alt)
  define n where "n = (if of_nat ?L - ?w > len then len else of_nat ?L - ?w)"
  have n: "unat n = min (unat len) (?L - ?o)"
    unfolding n_def using n0 by (auto simp: word_less_nat_alt)
  have wn: "unat (?w + n) = ?o + unat n"
    using o n oL L by (subst unat_plus_exact) simp_all
  have ln: "unat (len - n) = unat len - unat n"
    using n by (intro unat_sub) (simp add: word_le_nat_alt)
  let ?z = "\<lambda>k. replicate k (0 :: u8)"
  have c1: "clear_range (sq_buf q) (unat ?w) (unat (?w + n)) = Some (cyc_write (sq_buf q) ?o (?z (unat n)))"
    using n oL by (simp add: clear_range_def o wn cyc_write_flat)
  have z: "?z (unat len) = ?z (unat n) @ ?z (unat len - unat n)"
    using n by (simp add: replicate_add [symmetric])
  have all: "cyc_write (sq_buf q) ?o (?z (unat len))
      = cyc_write (cyc_write (sq_buf q) ?o (?z (unat n))) (?o + unat n) (?z (unat len - unat n))"
    unfolding z by (simp add: cyc_write_append)
  show ?thesis
  proof (cases "n < len")
    case True
    then have un: "unat n = ?L - ?o" using n by (simp add: word_less_nat_alt)
    let ?b1 = "cyc_write (sq_buf q) ?o (?z (unat n))"
    have "cyc_write ?b1 (?o + unat n) (?z (unat len - unat n)) = cyc_write ?b1 0 (?z (unat len - unat n))"
      by (rule cyc_write_cong_mod) (use un oL in simp)
    also have "\<dots> = ?z (unat len - unat n) @ drop (unat len - unat n) ?b1"
      using cyc_write_flat [of 0 "?z (unat len - unat n)" ?b1] assms(3) by simp
    finally have "clear_range ?b1 0 (unat (len - n)) = Some (cyc_write (sq_buf q) ?o (?z (unat len)))"
      using assms(3) all by (simp add: clear_range_def ln)
    then show ?thesis using True c1
      by (simp add: sq_zero_def Let_def n_def [symmetric] written_def cyc_write_mod)
  next
    case False
    then have "unat n = unat len" using n by (simp add: word_less_nat_alt)
    then show ?thesis using False c1
      by (simp add: sq_zero_def Let_def n_def [symmetric] written_def cyc_write_mod)
  qed
qed

end
