(* ===== verification/Wqe_Send.thy ===== *)
theory Wqe_Send
  imports Wqe_Queue
begin

text \<open>
  The two builders of send entries: \<open>Sender\<close> (\<^verbatim>\<open>mlx5/internal/wqe/send.go\<close>), one packet per entry,
  and \<open>MPWSender\<close> (\<^verbatim>\<open>mpw.go\<close>), several packets per entry, copied in or pointed at. Each \<open>Put\<close>
  returns how many blocks the entry takes and the sender with its queue written.

  \<open>send_entry\<close>, \<open>mpw_entry\<close> and \<open>mpw_ptr_entry\<close> are the encodings the builders write: the lemmas
  below say each builder lays down exactly its encoding, contiguously from the block it was given,
  wherever that wraps.
\<close>

section \<open>The source\<close>

definition OpcodeSend :: u32 where "OpcodeSend = 0x0a"
definition OpcodeEnhancedMPSW :: u32 where "OpcodeEnhancedMPSW = 0x29"
definition CtrlCQUpdate :: u32 where "CtrlCQUpdate = push_bit 2 2"
definition MPWInlineFlag :: u32 where "MPWInlineFlag = push_bit 31 1"

definition ctrlOpmodIdxOpcode :: u32 where "ctrlOpmodIdxOpcode = 0"
definition ctrlQPNDS :: u32 where "ctrlQPNDS = 4"
definition ctrlSignature :: u32 where "ctrlSignature = 8"
definition ctrlImm :: u32 where "ctrlImm = 12"
definition ethRsvd0 :: u32 where "ethRsvd0 = of_nat CtrlSegSize + 0"
definition ethCSFlags :: u32 where "ethCSFlags = of_nat CtrlSegSize + 4"
definition ethRsvd2 :: u32 where "ethRsvd2 = of_nat CtrlSegSize + 8"
definition ethInlineHdrSz :: u32 where "ethInlineHdrSz = of_nat CtrlSegSize + 12"
definition ethInlineHdr :: u32 where "ethInlineHdr = of_nat CtrlSegSize + 14"
definition dsegByteCount :: u32 where "dsegByteCount = 0"
definition dsegLKey :: u32 where "dsegLKey = 4"
definition dsegAddr :: u32 where "dsegAddr = 8"

lemmas wqe_offsets = ctrlOpmodIdxOpcode_def ctrlQPNDS_def ctrlSignature_def ctrlImm_def ethRsvd0_def
  ethCSFlags_def ethRsvd2_def ethInlineHdrSz_def ethInlineHdr_def dsegByteCount_def dsegLKey_def
  dsegAddr_def CtrlSegSize_def MPWEthSegSize_def Octoword_def

record sender =
  s_sq :: sq
  s_qpn :: u32
  s_lkey :: u32
  s_csFlags :: u8
  s_inlineLen :: u32
  s_maxDS :: u32
  s_maxBBs :: u32

record sender_config =
  sc_QPN :: u32
  sc_LKey :: u32
  sc_InlineLen :: int
  sc_CSFlags :: u8

definition NewSender :: "sq \<Rightarrow> sender_config \<Rightarrow> wqe_error + sender" where
  "NewSender q cfg =
     (if sc_InlineLen cfg < 0 then Inl (NegativeInline (sc_InlineLen cfg))
      else let il = of_int (sc_InlineLen cfg);
               maxDS = 1 + ethSegOctowords il + 1;
               maxBBs = (maxDS * of_nat Octoword + of_nat WQEBB - 1) div of_nat WQEBB
           in if maxDS > of_nat MaxDS then Inl (InlineTooLong il maxDS)
              else if maxBBs > sq_bbs q then Inl (EntryTooBig maxBBs (sq_bbs q))
              else Inr \<lparr>s_sq = q, s_qpn = sc_QPN cfg, s_lkey = sc_LKey cfg, s_csFlags = sc_CSFlags cfg,
                        s_inlineLen = il, s_maxDS = maxDS, s_maxBBs = maxBBs\<rparr>)"

text \<open>The control segment and the fixed part of the Ethernet segment, which all three builders
  write with the same seven stores.\<close>

definition put_header :: "sq \<Rightarrow> u32 \<Rightarrow> u32 \<Rightarrow> u16 \<Rightarrow> u32 \<Rightarrow> u32 \<Rightarrow> bool \<Rightarrow> u8 \<Rightarrow> sq option" where
  "put_header q off opcode idx qpn ds signaled cs =
     do { q \<leftarrow> putU32BE q (off + ctrlOpmodIdxOpcode) (push_bit 8 (ucast idx) OR opcode);
          q \<leftarrow> putU32BE q (off + ctrlQPNDS) (push_bit 8 qpn OR ds);
          let fmce = (if signaled then CtrlCQUpdate else 0);
          q \<leftarrow> putU32BE q (off + ctrlSignature) fmce;
          q \<leftarrow> putU32BE q (off + ctrlImm) 0;
          q \<leftarrow> putU32BE q (off + ethRsvd0) 0;
          q \<leftarrow> putU32BE q (off + ethCSFlags) (push_bit 24 (ucast cs));
          putU32BE q (off + ethRsvd2) 0 }"

text \<open>A data segment: byte count, memory key, address.\<close>

definition put_dseg :: "sq \<Rightarrow> u32 \<Rightarrow> u32 \<Rightarrow> u32 \<Rightarrow> u64 \<Rightarrow> sq option" where
  "put_dseg q at n lkey addr =
     do { q \<leftarrow> putU32BE q (at + dsegByteCount) n;
          q \<leftarrow> putU32BE q (at + dsegLKey) lkey;
          putU64BE q (at + dsegAddr) addr }"

definition blocks_of :: "u32 \<Rightarrow> u32" where
  "blocks_of ds = (ds * of_nat Octoword + of_nat WQEBB - 1) div of_nat WQEBB"

definition Sender_Put :: "sender \<Rightarrow> u16 \<Rightarrow> bytes \<Rightarrow> u64 \<Rightarrow> bool \<Rightarrow> (u32 \<times> sender) option" where
  "Sender_Put s idx frame addr signaled =
     (let inline = (if of_nat (length frame) > s_inlineLen s then s_inlineLen s else of_nat (length frame));
          rest = of_nat (length frame) - inline;
          ethOcts = ethSegOctowords inline;
          ds = (if rest > 0 then 1 + ethOcts + 1 else 1 + ethOcts);
          off = sq_offset (s_sq s) (ucast idx)
      in do { q \<leftarrow> put_header (s_sq s) off OpcodeSend idx (s_qpn s) ds signaled (s_csFlags s);
              q \<leftarrow> putU16BE q (off + ethInlineHdrSz) (ucast inline);
              q \<leftarrow> putBytes q (off + ethInlineHdr) (take (unat inline) frame);
              let pad = of_nat CtrlSegSize + ethOcts * of_nat Octoword - (ethInlineHdr + inline);
              q \<leftarrow> (if pad > 0 then sq_zero q (off + ethInlineHdr + inline) pad else Some q);
              q \<leftarrow> (if rest > 0
                    then put_dseg q (off + of_nat CtrlSegSize + ethOcts * of_nat Octoword) rest (s_lkey s)
                           (addr + ucast inline)
                    else Some q);
              Some (blocks_of ds, s\<lparr>s_sq := q\<rparr>) })"

text \<open>\<open>FirstOctoword\<close>: the eight bytes a send doorbell writes, as they lie in memory.\<close>

definition FirstOctoword :: "sq \<Rightarrow> u16 \<Rightarrow> bytes option" where
  "FirstOctoword q idx = peek (sq_buf q) (unat (sq_offset q (ucast idx))) 8"

record mpw_sender =
  m_sq :: sq
  m_qpn :: u32
  m_lkey :: u32
  m_csFlags :: u8
  m_pointer :: bool
  m_maxPackets :: int
  m_maxLen :: int

record mpw_config =
  mc_QPN :: u32
  mc_CSFlags :: u8
  mc_MaxLen :: int
  mc_Pointer :: bool
  mc_LKey :: u32

definition mpwPacketOctowords :: "u32 \<Rightarrow> u32" where
  "mpwPacketOctowords len = (4 + len + of_nat Octoword - 1) div of_nat Octoword"

text \<open>The division by \<open>perPacket\<close> panics when a length near \<open>2 ^ 32\<close> wraps it to zero.\<close>

definition NewMPWSender :: "sq \<Rightarrow> mpw_config \<Rightarrow> (wqe_error + mpw_sender) option" where
  "NewMPWSender q cfg =
     (let s = \<lparr>m_sq = q, m_qpn = mc_QPN cfg, m_lkey = mc_LKey cfg, m_csFlags = mc_CSFlags cfg,
               m_pointer = mc_Pointer cfg, m_maxPackets = 0, m_maxLen = mc_MaxLen cfg\<rparr>;
          room = int (unat (sq_bbs q)) * int WQEBB div int Octoword
      in if mc_Pointer cfg
         then let mp0 = int MaxDS - 2; mp = (if mp0 > room - 2 then room - 2 else mp0)
              in Some (if mp < 2 then Inl (TooFewPackets mp) else Inr (s\<lparr>m_maxPackets := mp\<rparr>))
         else if mc_MaxLen cfg \<le> 0 then Some (Inl (BadMaxLen (mc_MaxLen cfg)))
         else let perPacket = mpwPacketOctowords (of_int (mc_MaxLen cfg))
              in if 2 + perPacket > of_nat MaxDS then Some (Inl (PacketTooLong (mc_MaxLen cfg)))
                 else if perPacket = 0 then None
                 else let mp = int (unat ((of_nat MaxDS - 2) div perPacket))
                      in Some (if mp < 2 then Inl (TooFewPackets mp)
                         else if 2 + perPacket > of_int room then Inl (EntryTooBig (2 + perPacket) (sq_bbs q))
                         else Inr (s\<lparr>m_maxPackets := mp\<rparr>)))"

fun mpw_fits_copy :: "int \<Rightarrow> u32 \<Rightarrow> bytes list \<Rightarrow> nat" where
  "mpw_fits_copy maxLen ds [] = 0"
| "mpw_fits_copy maxLen ds (f # fs) =
     (if length f = 0 \<or> int (length f) > maxLen then 0
      else let need = mpwPacketOctowords (of_nat (length f))
           in if ds + need > of_nat MaxDS then 0 else Suc (mpw_fits_copy maxLen (ds + need) fs))"

definition MPWSender_Fits :: "mpw_sender \<Rightarrow> bytes list \<Rightarrow> nat" where
  "MPWSender_Fits s frames =
     (if m_pointer s
      then let n = (if int (length frames) > m_maxPackets s then nat (m_maxPackets s) else length frames)
           in length (takeWhile (\<lambda>f. length f \<noteq> 0) (take n frames))
      else mpw_fits_copy (m_maxLen s) 2 frames)"

fun mpw_put_packets :: "sq \<Rightarrow> u32 \<Rightarrow> bytes list \<Rightarrow> sq option" where
  "mpw_put_packets q at [] = Some q"
| "mpw_put_packets q at (f # fs) =
     (let n = of_nat (length f); size = mpwPacketOctowords n * of_nat Octoword; pad = size - 4 - n
      in do { q \<leftarrow> putU32BE q at (n OR MPWInlineFlag);
              q \<leftarrow> putBytes q (at + 4) f;
              q \<leftarrow> (if pad > 0 then sq_zero q (at + 4 + n) pad else Some q);
              mpw_put_packets q (at + size) fs })"

definition MPWSender_Put :: "mpw_sender \<Rightarrow> u16 \<Rightarrow> bytes list \<Rightarrow> bool \<Rightarrow> (u32 \<times> mpw_sender) option" where
  "MPWSender_Put s idx frames signaled =
     (let off = sq_offset (m_sq s) (ucast idx);
          ds = fold (\<lambda>f ds. ds + mpwPacketOctowords (of_nat (length f))) frames 2
      in do { q \<leftarrow> put_header (m_sq s) off OpcodeEnhancedMPSW idx (m_qpn s) ds signaled (m_csFlags s);
              q \<leftarrow> putU32BE q (off + ethInlineHdrSz) 0;
              q \<leftarrow> mpw_put_packets q (off + of_nat CtrlSegSize + of_nat MPWEthSegSize) frames;
              Some (blocks_of ds, s\<lparr>m_sq := q\<rparr>) })"

fun mpw_put_pointers :: "sq \<Rightarrow> u32 \<Rightarrow> u32 \<Rightarrow> bytes list \<Rightarrow> u64 list \<Rightarrow> sq option" where
  "mpw_put_pointers q at lkey [] addrs = Some q"
| "mpw_put_pointers q at lkey (f # fs) [] = None"
| "mpw_put_pointers q at lkey (f # fs) (a # addrs) =
     do { q \<leftarrow> put_dseg q at (of_nat (length f)) lkey a;
          mpw_put_pointers q (at + of_nat Octoword) lkey fs addrs }"

definition MPWSender_PutPointers ::
  "mpw_sender \<Rightarrow> u16 \<Rightarrow> bytes list \<Rightarrow> u64 list \<Rightarrow> bool \<Rightarrow> (u32 \<times> mpw_sender) option" where
  "MPWSender_PutPointers s idx frames addrs signaled =
     (let off = sq_offset (m_sq s) (ucast idx); ds = of_nat (2 + length frames)
      in do { q \<leftarrow> put_header (m_sq s) off OpcodeEnhancedMPSW idx (m_qpn s) ds signaled (m_csFlags s);
              q \<leftarrow> putU32BE q (off + ethInlineHdrSz) 0;
              q \<leftarrow> mpw_put_pointers q (off + of_nat CtrlSegSize + of_nat MPWEthSegSize) (m_lkey s) frames addrs;
              Some (blocks_of ds, s\<lparr>m_sq := q\<rparr>) })"

section \<open>The encodings\<close>

definition hdr_bytes :: "u32 \<Rightarrow> u16 \<Rightarrow> u32 \<Rightarrow> u32 \<Rightarrow> bool \<Rightarrow> u8 \<Rightarrow> bytes" where
  "hdr_bytes opcode idx qpn ds signaled cs =
     be32 (push_bit 8 (ucast idx) OR opcode) @ be32 (push_bit 8 qpn OR ds)
     @ be32 (if signaled then CtrlCQUpdate else 0) @ be32 0 @ be32 0 @ be32 (push_bit 24 (ucast cs)) @ be32 0"

definition dseg_bytes :: "u32 \<Rightarrow> u32 \<Rightarrow> u64 \<Rightarrow> bytes" where
  "dseg_bytes n lkey addr = be32 n @ be32 lkey @ be64 addr"

text \<open>Octowords of an Ethernet segment with \<open>i\<close> inline bytes, and of a copied packet.\<close>

definition eth_octs :: "nat \<Rightarrow> nat" where
  "eth_octs i = (i + 29) div 16"

definition mpw_octs :: "nat \<Rightarrow> nat" where
  "mpw_octs n = (n + 19) div 16"

definition send_ds :: "nat \<Rightarrow> bytes \<Rightarrow> nat" where
  "send_ds il frame = 1 + eth_octs (min (length frame) il) + (if il < length frame then 1 else 0)"

definition send_entry :: "u32 \<Rightarrow> u32 \<Rightarrow> u8 \<Rightarrow> nat \<Rightarrow> u16 \<Rightarrow> bytes \<Rightarrow> u64 \<Rightarrow> bool \<Rightarrow> bytes" where
  "send_entry qpn lkey cs il idx frame addr signaled =
     (let i = min (length frame) il
      in hdr_bytes OpcodeSend idx qpn (of_nat (send_ds il frame)) signaled cs
         @ be16 (of_nat i) @ take i frame @ replicate (16 * eth_octs i - 14 - i) 0
         @ (if il < length frame
            then dseg_bytes (of_nat (length frame - i)) lkey (addr + of_nat i) else []))"

definition mpw_packet :: "bytes \<Rightarrow> bytes" where
  "mpw_packet f = be32 (of_nat (length f) OR MPWInlineFlag) @ f
     @ replicate (16 * mpw_octs (length f) - 4 - length f) 0"

definition mpw_ds :: "bytes list \<Rightarrow> nat" where
  "mpw_ds frames = 2 + (\<Sum>f\<leftarrow>frames. mpw_octs (length f))"

definition mpw_entry :: "u32 \<Rightarrow> u8 \<Rightarrow> u16 \<Rightarrow> bytes list \<Rightarrow> bool \<Rightarrow> bytes" where
  "mpw_entry qpn cs idx frames signaled =
     hdr_bytes OpcodeEnhancedMPSW idx qpn (of_nat (mpw_ds frames)) signaled cs @ be32 0
     @ concat (map mpw_packet frames)"

definition mpw_ptr_entry :: "u32 \<Rightarrow> u32 \<Rightarrow> u8 \<Rightarrow> u16 \<Rightarrow> bytes list \<Rightarrow> u64 list \<Rightarrow> bool \<Rightarrow> bytes" where
  "mpw_ptr_entry qpn lkey cs idx frames addrs signaled =
     hdr_bytes OpcodeEnhancedMPSW idx qpn (of_nat (2 + length frames)) signaled cs @ be32 0
     @ concat (map2 (\<lambda>f a. dseg_bytes (of_nat (length f)) lkey a) frames addrs)"

lemma length_hdr_bytes [simp]: "length (hdr_bytes opcode idx qpn ds signaled cs) = 28"
  by (simp add: hdr_bytes_def)

lemma length_dseg_bytes [simp]: "length (dseg_bytes n lkey addr) = 16"
  by (simp add: dseg_bytes_def)

lemma eth_octs_bounds: "14 + i \<le> 16 * eth_octs i" "16 * eth_octs i < 30 + i"
  unfolding eth_octs_def by linarith+

lemma mpw_octs_bounds: "4 + n \<le> 16 * mpw_octs n" "16 * mpw_octs n < 20 + n"
  unfolding mpw_octs_def by linarith+

lemma length_send_entry: "length (send_entry qpn lkey cs il idx frame addr signaled) = 16 * send_ds il frame"
  using eth_octs_bounds [of "min (length frame) il"]
  by (auto simp: send_entry_def send_ds_def Let_def)

lemma length_mpw_packet [simp]: "length (mpw_packet f) = 16 * mpw_octs (length f)"
  using mpw_octs_bounds [of "length f"] by (simp add: mpw_packet_def)

lemma length_mpw_packets: "length (concat (map mpw_packet fs)) = 16 * (\<Sum>f\<leftarrow>fs. mpw_octs (length f))"
  by (induction fs) simp_all

lemma length_mpw_entry: "length (mpw_entry qpn cs idx frames signaled) = 16 * mpw_ds frames"
  unfolding mpw_entry_def length_append length_mpw_packets by (simp add: mpw_ds_def)

section \<open>The builders write the encodings\<close>

lemma putU32BE_next:
  assumes "sq_ok q" "at_pos q off p" "4 dvd p" "unat w = length xs" "4 dvd length xs"
  shows "putU32BE (written q p xs) (off + w) v = Some (written q p (xs @ be32 v))"
proof -
  have "at_pos q (off + w) (p + unat w)" using assms(1,2) by (rule at_pos_plus)
  then show ?thesis unfolding putU32BE_def
    by (subst put_field_written [where p = "p + length xs"])
       (use assms in \<open>simp_all add: written_append WQEBB_def\<close>)
qed

lemma putU64BE_next:
  assumes "sq_ok q" "at_pos q off p" "8 dvd p" "unat w = length xs" "8 dvd length xs"
  shows "putU64BE (written q p xs) (off + w) v = Some (written q p (xs @ be64 v))"
proof -
  have "at_pos q (off + w) (p + unat w)" using assms(1,2) by (rule at_pos_plus)
  then show ?thesis unfolding putU64BE_def
    by (subst put_field_written [where p = "p + length xs"])
       (use assms in \<open>simp_all add: written_append WQEBB_def\<close>)
qed

lemma putU16BE_next:
  assumes "sq_ok q" "at_pos q off p" "2 dvd p" "unat w = length xs" "2 dvd length xs"
  shows "putU16BE (written q p xs) (off + w) v = Some (written q p (xs @ be16 v))"
proof -
  have "at_pos q (off + w) (p + unat w)" using assms(1,2) by (rule at_pos_plus)
  then show ?thesis unfolding putU16BE_def
    by (subst put_field_written [where p = "p + length xs"])
       (use assms in \<open>simp_all add: written_append WQEBB_def\<close>)
qed

lemma putBytes_next:
  assumes "sq_ok q" "at_pos q off p" "unat w = length xs" "length src \<le> length (sq_buf q)"
  shows "putBytes (written q p xs) (off + w) src = Some (written q p (xs @ src))"
proof -
  have "at_pos q (off + w) (p + unat w)" using assms(1,2) by (rule at_pos_plus)
  then show ?thesis
    by (subst putBytes_written [where p = "p + length xs"])
       (use assms in \<open>simp_all add: written_append\<close>)
qed

lemma sq_zero_next:
  assumes "sq_ok q" "at_pos q off p" "unat w = length xs" "unat n \<le> length (sq_buf q)"
  shows "sq_zero (written q p xs) (off + w) n = Some (written q p (xs @ replicate (unat n) 0))"
proof -
  have "at_pos q (off + w) (p + unat w)" using assms(1,2) by (rule at_pos_plus)
  then show ?thesis
    by (subst sq_zero_written [where p = "p + length xs"])
       (use assms in \<open>simp_all add: written_append\<close>)
qed

lemma put_header_written:
  assumes "sq_ok q" "at_pos q off p" "4 dvd p"
  shows "put_header q off opcode idx qpn ds signaled cs
     = Some (written q p (hdr_bytes opcode idx qpn ds signaled cs))"
proof -
  note step = putU32BE_next [OF assms]
  have first: "putU32BE q off v = Some (written q p (be32 v))" for v
    using step [of 0 "[]" v] by simp
  show ?thesis
    unfolding put_header_def wqe_offsets hdr_bytes_def by (simp add: first step Let_def)
qed

lemma put_dseg_next:
  assumes "sq_ok q" "at_pos q off p" "8 dvd p" "unat w = length xs" "8 dvd length xs" "length xs < 2 ^ 31"
  shows "put_dseg (written q p xs) (off + w) n lkey addr = Some (written q p (xs @ dseg_bytes n lkey addr))"
proof -
  have d: "4 dvd p" "4 dvd length xs" using assms(3,5) by (auto elim!: dvdE)
  have w: "unat (w + 4) = length xs + 4" "unat (w + 8) = length xs + 8"
    using assms(4,6) by (simp_all add: unat_word_ariths)
  note s4 = putU32BE_next [OF assms(1,2) d(1)] and s8 = putU64BE_next [OF assms(1,2,3)]
  show ?thesis
    unfolding put_dseg_def wqe_offsets dseg_bytes_def
    using assms(4,5) d(2) w by (simp add: s4 s8 add.assoc)
qed

subsection \<open>Single-packet entries\<close>

lemma unat_of_nat_small: "n < 2 ^ 32 \<Longrightarrow> unat (of_nat n :: u32) = n"
  by (simp add: unat_of_nat take_bit_nat_eq_self)

lemma unat_ethSegOctowords: "unat i < 2 ^ 31 \<Longrightarrow> unat (ethSegOctowords i) = eth_octs (unat i)"
proof -
  assume "unat i < 2 ^ 31"
  then have "unat (14 + i + 16 - 1) = unat i + 29" by (simp add: unat_word_ariths)
  then show ?thesis
    by (simp add: ethSegOctowords_def eth_octs_def wqe_sizes unat_div_distrib)
qed

definition sender_ok :: "sender \<Rightarrow> bool" where
  "sender_ok s \<longleftrightarrow> sq_ok (s_sq s) \<and> unat (s_inlineLen s) < 2 ^ 31
     \<and> s_maxDS s = of_nat (2 + eth_octs (unat (s_inlineLen s))) \<and> 2 + eth_octs (unat (s_inlineLen s)) \<le> MaxDS
     \<and> s_maxBBs s = blocks_of (s_maxDS s) \<and> s_maxBBs s \<le> sq_bbs (s_sq s)"

lemma NewSender_ok:
  assumes "NewSender q cfg = Inr s" "sq_ok q" "sc_InlineLen cfg < 2 ^ 31"
  shows "sender_ok s \<and> s_sq s = q \<and> int (unat (s_inlineLen s)) = sc_InlineLen cfg"
proof -
  let ?il = "of_int (sc_InlineLen cfg) :: u32"
  have nn: "0 \<le> sc_InlineLen cfg" using assms(1) by (auto simp: NewSender_def split: if_splits)
  then have "uint ?il = sc_InlineLen cfg" using assms(3) by (simp add: uint_word_of_int_eq take_bit_int_eq_self)
  then have il: "int (unat ?il) = sc_InlineLen cfg" by simp
  have "int (unat ?il) < int (2 ^ 31)" using assms(3) il by simp
  then have small: "unat ?il < 2 ^ 31" by (simp only: of_nat_less_iff)
  have o: "unat (ethSegOctowords ?il) = eth_octs (unat ?il)" using small by (rule unat_ethSegOctowords)
  have b: "eth_octs (unat ?il) < 2 ^ 30" using small unfolding eth_octs_def by (simp add: div_less_iff_less_mult)
  have ds: "1 + ethSegOctowords ?il + 1 = of_nat (2 + eth_octs (unat ?il))"
  proof -
    have "ethSegOctowords ?il = of_nat (eth_octs (unat ?il))" unfolding o [symmetric] by simp
    then show ?thesis by simp
  qed
  have "unat (of_nat (2 + eth_octs (unat ?il)) :: u32) = 2 + eth_octs (unat ?il)"
    using b by (intro unat_of_nat_small) simp
  moreover have "\<not> (of_nat (2 + eth_octs (unat ?il)) > (of_nat MaxDS :: u32))"
    "\<not> blocks_of (of_nat (2 + eth_octs (unat ?il))) > sq_bbs q"
    and s: "s = \<lparr>s_sq = q, s_qpn = sc_QPN cfg, s_lkey = sc_LKey cfg, s_csFlags = sc_CSFlags cfg,
      s_inlineLen = ?il, s_maxDS = of_nat (2 + eth_octs (unat ?il)),
      s_maxBBs = blocks_of (of_nat (2 + eth_octs (unat ?il)))\<rparr>"
    using assms(1) nn unfolding NewSender_def Let_def ds blocks_of_def
    by (simp_all only: if_False not_less [symmetric] split: if_splits) simp_all
  ultimately show ?thesis
    unfolding sender_ok_def s using assms(2) small il by (simp add: MaxDS_def word_less_nat_alt word_le_nat_alt not_less)
qed

lemma sender_ok_inline: "sender_ok s \<Longrightarrow> unat (s_inlineLen s) \<le> 914"
proof -
  assume "sender_ok s"
  then have "eth_octs (unat (s_inlineLen s)) \<le> 58" by (simp add: sender_ok_def MaxDS_def)
  then show ?thesis unfolding eth_octs_def by linarith
qed

lemma unat_blocks_of:
  assumes "ds \<le> MaxDS"
  shows "unat (blocks_of (of_nat ds)) = (ds + 3) div 4"
proof -
  have "unat (of_nat ds * 16 + 64 - 1 :: u32) = ds * 16 + 63"
    using assms by (simp add: unat_word_ariths unat_of_nat take_bit_nat_eq_self MaxDS_def)
  then show ?thesis by (simp add: blocks_of_def wqe_sizes unat_div_distrib)
qed

lemma blocks_hold: "(d + 3) div 4 \<le> k \<Longrightarrow> 16 * d \<le> 64 * (k :: nat)"
  by linarith

lemma sender_room:
  assumes "sender_ok s"
  shows "16 * (2 + eth_octs (unat (s_inlineLen s))) \<le> length (sq_buf (s_sq s))"
    and "unat (s_maxBBs s) = (2 + eth_octs (unat (s_inlineLen s)) + 3) div 4"
proof -
  let ?L = "length (sq_buf (s_sq s))" let ?d = "2 + eth_octs (unat (s_inlineLen s))"
  show m: "unat (s_maxBBs s) = (?d + 3) div 4"
    using assms unat_blocks_of [of ?d] by (simp add: sender_ok_def)
  have ok: "sq_ok (s_sq s)" using assms by (simp add: sender_ok_def)
  then have "?L < 2 ^ 32" by (simp add: sq_ok_def)
  then have "?L div 64 < 2 ^ 32" by (rule le_less_trans [OF div_le_dividend])
  then have "unat (sq_bbs (s_sq s)) = ?L div 64"
    using ok unat_of_nat_small [of "?L div 64"] by (simp add: sq_ok_def WQEBB_def)
  then have "(?d + 3) div 4 \<le> ?L div 64"
    using assms m by (simp add: sender_ok_def word_le_nat_alt)
  moreover have "?L = 64 * (?L div 64)" using ok by (simp add: sq_ok_def WQEBB_def)
  ultimately show "16 * ?d \<le> ?L" using blocks_hold by metis
qed

lemma Sender_Put_written:
  assumes "sender_ok s" "length frame < 2 ^ 31"
  defines "il \<equiv> unat (s_inlineLen s)"
  shows "Sender_Put s idx frame addr signaled
     = Some (blocks_of (of_nat (send_ds il frame)),
             s\<lparr>s_sq := written (s_sq s) (64 * unat idx)
                 (send_entry (s_qpn s) (s_lkey s) (s_csFlags s) il idx frame addr signaled)\<rparr>)"
proof -
  let ?q = "s_sq s" and ?p = "64 * unat idx" and ?L = "length (sq_buf (s_sq s))"
  let ?off = "sq_offset ?q (ucast idx)" and ?i = "min (length frame) il"
  have ok: "sq_ok ?q" using assms(1) by (simp add: sender_ok_def)
  have pos: "at_pos ?q ?off ?p" using at_pos_offset [OF ok, of "ucast idx"] by (simp add: unat_ucast_up)
  have il: "il \<le> 914" using sender_ok_inline [OF assms(1)] by (simp add: il_def)
  have flen: "unat (of_nat (length frame) :: u32) = length frame"
    using assms(2) by (intro unat_of_nat_small) simp
  define inline where "inline = (if of_nat (length frame) > s_inlineLen s then s_inlineLen s else of_nat (length frame))"
  have ui: "unat inline = ?i"
    unfolding inline_def il_def using flen by (simp add: word_less_nat_alt min_def)
  have wi: "inline = of_nat ?i" unfolding ui [symmetric] by simp
  define rest where "rest = of_nat (length frame) - inline"
  have ur: "unat rest = length frame - ?i"
    unfolding rest_def using flen ui by (subst unat_sub) (simp_all add: word_le_nat_alt)
  have wr: "rest = of_nat (length frame - ?i)" unfolding ur [symmetric] by simp
  have rpos: "rest > 0 \<longleftrightarrow> il < length frame" using ur by (auto simp: word_less_nat_alt min_def)
  define octs where "octs = ethSegOctowords inline"
  have uo: "unat octs = eth_octs ?i"
    unfolding octs_def using ui il by (subst unat_ethSegOctowords) simp_all
  have wo: "octs = of_nat (eth_octs ?i)" unfolding uo [symmetric] by simp
  have ob: "eth_octs ?i \<le> 58" using il unfolding eth_octs_def by linarith
  have ds: "(if rest > 0 then 1 + octs + 1 else 1 + octs) = of_nat (send_ds il frame)"
    using rpos by (simp add: wo send_ds_def add.commute)
  let ?H = "hdr_bytes OpcodeSend idx (s_qpn s) (of_nat (send_ds il frame)) signaled (s_csFlags s)"
  let ?E = "?H @ be16 (of_nat ?i)" and ?pad = "16 * eth_octs ?i - 14 - ?i"
  have roomL: "16 * (2 + eth_octs il) \<le> ?L" using sender_room(1) [OF assms(1)] by (simp add: il_def)
  have mono: "eth_octs ?i \<le> eth_octs il" unfolding eth_octs_def by (intro div_le_mono) simp
  have hdr: "put_header ?q ?off OpcodeSend idx (s_qpn s) (of_nat (send_ds il frame)) signaled (s_csFlags s)
      = Some (written ?q ?p ?H)"
    by (rule put_header_written [OF ok pos]) simp
  have "?i < 2 ^ 32" using il by simp
  then have uc: "(ucast inline :: u16) = of_nat ?i" "(ucast inline :: u64) = of_nat ?i"
    unfolding wi by (simp_all add: unsigned_of_nat take_bit_nat_eq_self)
  have sz: "putU16BE (written ?q ?p ?H) (?off + ethInlineHdrSz) (ucast inline) = Some (written ?q ?p ?E)"
    unfolding uc by (rule putU16BE_next [OF ok pos], simp_all add: wqe_offsets)
  have bts: "putBytes (written ?q ?p ?E) (?off + ethInlineHdr) (take (unat inline) frame)
      = Some (written ?q ?p (?E @ take ?i frame))"
    unfolding ui
    by (rule putBytes_next [OF ok pos]) (use roomL mono eth_octs_bounds [of ?i] in \<open>simp_all add: wqe_offsets\<close>)
  define pad where "pad = of_nat CtrlSegSize + octs * of_nat Octoword - (ethInlineHdr + inline)"
  have h: "unat (ethInlineHdr + inline) = 30 + ?i"
    using ui il by (simp add: wqe_offsets unat_word_ariths)
  have e: "unat (of_nat CtrlSegSize + octs * of_nat Octoword) = 16 + 16 * eth_octs ?i"
    using uo ob by (simp add: wqe_offsets unat_word_ariths)
  have up: "unat pad = ?pad"
    unfolding pad_def using h e eth_octs_bounds [of ?i] by (subst unat_sub) (simp_all add: word_le_nat_alt)
  have padL: "unat pad \<le> ?L"
  proof -
    have "?pad \<le> 16 * eth_octs ?i" by simp
    also have "\<dots> \<le> 16 * (2 + eth_octs il)" using mono by simp
    finally show ?thesis using up roomL by simp
  qed
  have zer: "(if pad > 0 then sq_zero (written ?q ?p (?E @ take ?i frame)) (?off + ethInlineHdr + inline) pad
        else Some (written ?q ?p (?E @ take ?i frame)))
      = Some (written ?q ?p (?E @ take ?i frame @ replicate ?pad 0))"
  proof (cases "pad > 0")
    case True
    have "sq_zero (written ?q ?p (?E @ take ?i frame)) (?off + (ethInlineHdr + inline)) pad
        = Some (written ?q ?p ((?E @ take ?i frame) @ replicate (unat pad) 0))"
      by (rule sq_zero_next [OF ok pos])
         (use h padL in simp_all)
    then show ?thesis using True up by (simp add: add.assoc)
  next
    case False
    then have "?pad = 0" using up by (simp add: word_less_nat_alt)
    then show ?thesis using False by simp
  qed
  have lenE: "length (?E @ take ?i frame @ replicate ?pad 0) = 16 + 16 * eth_octs ?i"
    using eth_octs_bounds [of ?i] by simp
  have "put_dseg (written ?q ?p (?E @ take ?i frame @ replicate ?pad 0))
        (?off + (of_nat CtrlSegSize + octs * of_nat Octoword)) rest (s_lkey s) (addr + ucast inline)
      = Some (written ?q ?p ((?E @ take ?i frame @ replicate ?pad 0) @ dseg_bytes rest (s_lkey s) (addr + ucast inline)))"
    by (rule put_dseg_next [OF ok pos]) (use e lenE ob in simp_all)
  then have dsg: "put_dseg (written ?q ?p (?E @ take ?i frame @ replicate ?pad 0))
        (?off + of_nat CtrlSegSize + octs * of_nat Octoword) rest (s_lkey s) (addr + ucast inline)
      = Some (written ?q ?p (?E @ take ?i frame @ replicate ?pad 0
          @ dseg_bytes (of_nat (length frame - ?i)) (s_lkey s) (addr + of_nat ?i)))"
    using uc wr by (simp add: add.assoc)
  show ?thesis
    unfolding Sender_Put_def Let_def inline_def [symmetric] rest_def [symmetric] octs_def [symmetric] ds
      pad_def [symmetric]
    using hdr sz bts zer dsg rpos by (auto simp: send_entry_def Let_def)
qed

subsection \<open>Multi-packet entries\<close>

lemma unat_mpwPacketOctowords: "n < 2 ^ 31 \<Longrightarrow> unat (mpwPacketOctowords (of_nat n)) = mpw_octs n"
proof -
  assume "n < 2 ^ 31"
  then have "unat (4 + of_nat n + 16 - 1 :: u32) = n + 19"
    by (simp add: unat_word_ariths unat_of_nat take_bit_nat_eq_self)
  then show ?thesis
    by (simp add: mpwPacketOctowords_def mpw_octs_def wqe_sizes unat_div_distrib)
qed

lemma mpw_ds_fold:
  "\<forall>f \<in> set frames. length f < 2 ^ 31 \<Longrightarrow>
     fold (\<lambda>f ds. ds + mpwPacketOctowords (of_nat (length f))) frames d
       = d + of_nat (\<Sum>f\<leftarrow>frames. mpw_octs (length f))"
proof (induction frames arbitrary: d)
  case (Cons f fs)
  have "mpwPacketOctowords (of_nat (length f)) = of_nat (unat (mpwPacketOctowords (of_nat (length f))))" by simp
  also have "\<dots> = of_nat (mpw_octs (length f))" using Cons.prems by (simp add: unat_mpwPacketOctowords)
  finally show ?case using Cons by (simp add: add.assoc)
qed simp

lemma mpw_put_packets_written:
  assumes "sq_ok q" "at_pos q off p" "4 dvd p" "16 dvd length xs" "unat w = length xs"
    and "length xs + 16 * (\<Sum>f\<leftarrow>frames. mpw_octs (length f)) < 2 ^ 31"
    and "\<forall>f \<in> set frames. 16 * mpw_octs (length f) \<le> length (sq_buf q)"
  shows "mpw_put_packets (written q p xs) (off + w) frames
     = Some (written q p (xs @ concat (map mpw_packet frames)))"
  using assms(4-7)
proof (induction frames arbitrary: xs w)
  case (Cons f fs)
  let ?n = "length f" and ?o = "mpw_octs (length f)" and ?L = "length (sq_buf q)"
  let ?v = "of_nat (length f) OR MPWInlineFlag"
  have b: "4 + ?n \<le> 16 * ?o" "16 * ?o \<le> ?L" using mpw_octs_bounds [of ?n] Cons.prems by simp_all
  have small: "length xs + 16 * ?o < 2 ^ 31" using Cons.prems by simp
  have n: "unat (of_nat ?n :: u32) = ?n" using b small by (intro unat_of_nat_small) simp
  define size where "size = mpwPacketOctowords (of_nat ?n) * of_nat Octoword"
  have us: "unat size = 16 * ?o"
  proof -
    have "unat (mpwPacketOctowords (of_nat ?n)) = ?o" using b small by (intro unat_mpwPacketOctowords) simp
    then show ?thesis using small by (simp add: size_def Octoword_def unat_word_ariths)
  qed
  define pad where "pad = size - 4 - of_nat ?n"
  have "unat (size - 4) = 16 * ?o - 4" using us b by (subst unat_sub) (simp_all add: word_le_nat_alt)
  then have up: "unat pad = 16 * ?o - 4 - ?n"
    unfolding pad_def using n b by (subst unat_sub) (simp_all add: word_le_nat_alt)
  have d4: "4 dvd length xs" using Cons.prems(1) by (auto elim!: dvdE)
  have len: "putU32BE (written q p xs) (off + w) ?v = Some (written q p (xs @ be32 ?v))"
    by (rule putU32BE_next [OF assms(1-3) Cons.prems(2) d4])
  have w4: "unat (w + 4) = length (xs @ be32 ?v)"
    using Cons.prems(2) small by (simp add: unat_word_ariths)
  have byt: "putBytes (written q p (xs @ be32 ?v)) (off + w + 4) f = Some (written q p (xs @ be32 ?v @ f))"
    using putBytes_next [OF assms(1,2) w4, of f] b by (simp add: add.assoc)
  have wn: "unat (w + 4 + of_nat ?n) = length (xs @ be32 ?v @ f)"
    using Cons.prems(2) small b n by (simp add: unat_word_ariths)
  have zer: "(if pad > 0 then sq_zero (written q p (xs @ be32 ?v @ f)) (off + w + 4 + of_nat ?n) pad
       else Some (written q p (xs @ be32 ?v @ f))) = Some (written q p (xs @ mpw_packet f))"
  proof (cases "pad > 0")
    case True
    have "unat pad \<le> ?L" using up b by simp
    from sq_zero_next [OF assms(1,2) wn this] True up show ?thesis
      by (simp add: mpw_packet_def add.assoc)
  next
    case False
    then have "16 * ?o - 4 - ?n = 0" using up by (simp add: word_less_nat_alt)
    then show ?thesis using False by (simp add: mpw_packet_def)
  qed
  have "mpw_put_packets (written q p (xs @ mpw_packet f)) (off + (w + size)) fs
      = Some (written q p ((xs @ mpw_packet f) @ concat (map mpw_packet fs)))"
  proof (rule Cons.IH)
    show "unat (w + size) = length (xs @ mpw_packet f)"
      using Cons.prems(2) us small by (simp add: unat_word_ariths)
  qed (use Cons.prems in simp_all)
  then have rest: "mpw_put_packets (written q p (xs @ mpw_packet f)) (off + w + size) fs
      = Some (written q p (xs @ concat (map mpw_packet (f # fs))))" by (simp add: add.assoc)
  show ?case
    by (simp only: mpw_put_packets.simps Let_def size_def [symmetric] pad_def [symmetric] len byt zer
        rest Option.bind.simps)
qed simp

lemma mpw_put_pointers_written:
  assumes "sq_ok q" "at_pos q off p" "8 dvd p" "8 dvd length xs" "unat w = length xs"
    and "length xs + 16 * length frames < 2 ^ 31" "length addrs = length frames"
  shows "mpw_put_pointers (written q p xs) (off + w) lkey frames addrs
     = Some (written q p (xs @ concat (map2 (\<lambda>f a. dseg_bytes (of_nat (length f)) lkey a) frames addrs)))"
  using assms(4-7)
proof (induction frames arbitrary: xs w addrs)
  case (Cons f fs)
  then obtain a as where addrs: "addrs = a # as" by (cases addrs) auto
  let ?d = "dseg_bytes (of_nat (length f)) lkey a"
  have one: "put_dseg (written q p xs) (off + w) (of_nat (length f)) lkey a = Some (written q p (xs @ ?d))"
    by (rule put_dseg_next [OF assms(1-3)]) (use Cons.prems in simp_all)
  have "mpw_put_pointers (written q p (xs @ ?d)) (off + (w + of_nat Octoword)) lkey fs as
      = Some (written q p ((xs @ ?d) @ concat (map2 (\<lambda>f a. dseg_bytes (of_nat (length f)) lkey a) fs as)))"
  proof (rule Cons.IH)
    show "unat (w + of_nat Octoword) = length (xs @ ?d)"
      using Cons.prems by (simp add: Octoword_def unat_word_ariths)
  qed (use Cons.prems addrs in simp_all)
  then show ?case using one addrs by (simp add: add.assoc)
qed simp

lemma MPWSender_Put_written:
  assumes "sq_ok (m_sq s)" "mpw_ds frames \<le> MaxDS" "16 * mpw_ds frames \<le> length (sq_buf (m_sq s))"
  shows "MPWSender_Put s idx frames signaled
     = Some (blocks_of (of_nat (mpw_ds frames)),
             s\<lparr>m_sq := written (m_sq s) (64 * unat idx) (mpw_entry (m_qpn s) (m_csFlags s) idx frames signaled)\<rparr>)"
proof -
  let ?q = "m_sq s" and ?p = "64 * unat idx" let ?off = "sq_offset ?q (ucast idx)"
  let ?H = "hdr_bytes OpcodeEnhancedMPSW idx (m_qpn s) (of_nat (mpw_ds frames)) signaled (m_csFlags s)"
  have pos: "at_pos ?q ?off ?p" using at_pos_offset [OF assms(1), of "ucast idx"] by (simp add: unat_ucast_up)
  have each: "mpw_octs (length f) \<le> (\<Sum>f\<leftarrow>frames. mpw_octs (length f))" if "f \<in> set frames" for f
    using that by (intro member_le_sum_list) auto
  have short: "length f < 2 ^ 31" if "f \<in> set frames" for f
    using each [OF that] assms(2) mpw_octs_bounds(1) [of "length f"] by (simp add: mpw_ds_def MaxDS_def)
  have ds: "fold (\<lambda>f ds. ds + mpwPacketOctowords (of_nat (length f))) frames 2 = of_nat (mpw_ds frames)"
    using mpw_ds_fold [of frames 2] short by (simp add: mpw_ds_def)
  have hdr: "put_header ?q ?off OpcodeEnhancedMPSW idx (m_qpn s) (of_nat (mpw_ds frames)) signaled (m_csFlags s)
      = Some (written ?q ?p ?H)"
    by (rule put_header_written [OF assms(1) pos]) simp
  have z: "putU32BE (written ?q ?p ?H) (?off + ethInlineHdrSz) 0 = Some (written ?q ?p (?H @ be32 0))"
    by (rule putU32BE_next [OF assms(1) pos]) (simp_all add: wqe_offsets)
  have "mpw_put_packets (written ?q ?p (?H @ be32 0)) (?off + (of_nat CtrlSegSize + of_nat MPWEthSegSize)) frames
      = Some (written ?q ?p ((?H @ be32 0) @ concat (map mpw_packet frames)))"
  proof (rule mpw_put_packets_written [OF assms(1) pos])
    show "\<forall>f \<in> set frames. 16 * mpw_octs (length f) \<le> length (sq_buf ?q)"
      using each assms(3) by (fastforce simp: mpw_ds_def)
  qed (use assms(2) in \<open>simp_all add: wqe_offsets mpw_ds_def MaxDS_def\<close>)
  then have pk: "mpw_put_packets (written ?q ?p (?H @ be32 0)) (?off + of_nat CtrlSegSize + of_nat MPWEthSegSize) frames
      = Some (written ?q ?p (mpw_entry (m_qpn s) (m_csFlags s) idx frames signaled))"
    by (simp add: mpw_entry_def add.assoc)
  show ?thesis
    by (simp only: MPWSender_Put_def Let_def ds hdr z pk Option.bind.simps)
qed

lemma MPWSender_PutPointers_written:
  assumes "sq_ok (m_sq s)" "length frames + 2 \<le> MaxDS" "length addrs = length frames"
  shows "MPWSender_PutPointers s idx frames addrs signaled
     = Some (blocks_of (of_nat (2 + length frames)),
             s\<lparr>m_sq := written (m_sq s) (64 * unat idx)
                 (mpw_ptr_entry (m_qpn s) (m_lkey s) (m_csFlags s) idx frames addrs signaled)\<rparr>)"
proof -
  let ?q = "m_sq s" and ?p = "64 * unat idx" let ?off = "sq_offset ?q (ucast idx)"
  let ?H = "hdr_bytes OpcodeEnhancedMPSW idx (m_qpn s) (of_nat (2 + length frames)) signaled (m_csFlags s)"
  have pos: "at_pos ?q ?off ?p" using at_pos_offset [OF assms(1), of "ucast idx"] by (simp add: unat_ucast_up)
  have hdr: "put_header ?q ?off OpcodeEnhancedMPSW idx (m_qpn s) (of_nat (2 + length frames)) signaled (m_csFlags s)
      = Some (written ?q ?p ?H)"
    by (rule put_header_written [OF assms(1) pos]) simp
  have z: "putU32BE (written ?q ?p ?H) (?off + ethInlineHdrSz) 0 = Some (written ?q ?p (?H @ be32 0))"
    by (rule putU32BE_next [OF assms(1) pos]) (simp_all add: wqe_offsets)
  have "mpw_put_pointers (written ?q ?p (?H @ be32 0)) (?off + (of_nat CtrlSegSize + of_nat MPWEthSegSize))
        (m_lkey s) frames addrs
      = Some (written ?q ?p ((?H @ be32 0)
          @ concat (map2 (\<lambda>f a. dseg_bytes (of_nat (length f)) (m_lkey s) a) frames addrs)))"
    by (rule mpw_put_pointers_written [OF assms(1) pos])
       (use assms(2,3) in \<open>simp_all add: wqe_offsets MaxDS_def\<close>)
  then have pk: "mpw_put_pointers (written ?q ?p (?H @ be32 0)) (?off + of_nat CtrlSegSize + of_nat MPWEthSegSize)
        (m_lkey s) frames addrs
      = Some (written ?q ?p (mpw_ptr_entry (m_qpn s) (m_lkey s) (m_csFlags s) idx frames addrs signaled))"
    by (simp add: mpw_ptr_entry_def add.assoc)
  show ?thesis
    by (simp only: MPWSender_PutPointers_def Let_def hdr z pk Option.bind.simps)
qed

end
