(* ===== verification/Wqe_Device.thy ===== *)
theory Wqe_Device
  imports Wqe_Send
begin

text \<open>
  Send entries from the device's side. \<open>nic_send\<close> and \<open>nic_mpw\<close> read an entry back according to the
  layout \<^verbatim>\<open>mlx5/internal/wqe/consts.go\<close> documents; the properties say that what they read from the
  queue after a \<open>Put\<close> is exactly the packets the builder was given, and that the builder touched
  nothing outside the blocks it reports.
\<close>

section \<open>What the device reads\<close>

text \<open>The documented layout, from the device's side. \<open>mem\<close> is what its DMA engine fetches for an
  address and a length. A single-packet entry is its inline bytes followed by what its data segment
  names, if its size leaves room for one.\<close>

definition nic_ds :: "bytes \<Rightarrow> nat" where
  "nic_ds e = unat ((be_word (take 4 (drop 4 e)) :: u32) AND 0x3f)"

definition nic_signaled :: "bytes \<Rightarrow> bool" where
  "nic_signaled e \<longleftrightarrow> (be_word (take 4 (drop 8 e)) :: u32) AND CtrlCQUpdate \<noteq> 0"

definition nic_send :: "(u64 \<Rightarrow> nat \<Rightarrow> bytes) \<Rightarrow> bytes \<Rightarrow> bytes" where
  "nic_send mem e =
     (let i = unat (be_word (take 2 (drop 28 e)) :: u16); inl = take i (drop 30 e);
          at = 16 + 16 * ((14 + i + 15) div 16)
      in if 16 * nic_ds e = at then inl
         else inl @ mem (be_word (take 8 (drop (at + 8) e))) (unat (be_word (take 4 (drop at e)) :: u32)))"

text \<open>A multi-packet entry is a run of segments, each marked by the top bit of its length as copied
  bytes or as a pointer.\<close>

function nic_segments :: "(u64 \<Rightarrow> nat \<Rightarrow> bytes) \<Rightarrow> bytes \<Rightarrow> bytes list" where
  "nic_segments mem bs =
     (if length bs < 16 then []
      else let v = be_word (take 4 bs) :: u32
           in if v AND MPWInlineFlag \<noteq> 0
              then let n = unat (v AND NOT MPWInlineFlag)
                   in take n (drop 4 bs) # nic_segments mem (drop (16 * ((4 + n + 15) div 16)) bs)
              else mem (be_word (take 8 (drop 8 bs))) (unat v) # nic_segments mem (drop 16 bs))"
  by auto
termination
  by (relation "measure (\<lambda>(mem, bs). length bs)") auto

declare nic_segments.simps [simp del]

definition nic_mpw :: "(u64 \<Rightarrow> nat \<Rightarrow> bytes) \<Rightarrow> bytes \<Rightarrow> bytes list" where
  "nic_mpw mem e = nic_segments mem (take (16 * nic_ds e - 32) (drop 32 e))"

lemma ds_field:
  assumes "ds < 64"
  shows "unat ((push_bit 8 qpn OR of_nat ds :: u32) AND 0x3f) = ds"
proof -
  have q: "push_bit 8 qpn AND 0x3f = (0 :: u32)"
  proof -
    have "push_bit 8 qpn AND mask 6 = (0 :: u32)" by (rule bit_eqI) (auto simp: bit_simps)
    then show ?thesis by (simp add: mask_eq_exp_minus_1)
  qed
  have m: "unat (of_nat ds AND (2 ^ 6 - 1) :: u32) = ds"
    using assms by (subst unat_and_mask) (simp_all add: unat_of_nat take_bit_nat_eq_self)
  have "(push_bit 8 qpn OR of_nat ds) AND 0x3f = (of_nat ds AND 0x3f :: u32)"
    using q by (simp add: bit.conj_disj_distrib2)
  then show ?thesis using m by simp
qed

lemma nic_ds_hdr:
  "ds < 64 \<Longrightarrow> nic_ds (hdr_bytes opcode idx qpn (of_nat ds) signaled cs @ rest) = ds"
  by (simp add: nic_ds_def hdr_bytes_def ds_field)

lemma nic_signaled_hdr: "nic_signaled (hdr_bytes opcode idx qpn ds signaled cs @ rest) = signaled"
  by (simp add: nic_signaled_def hdr_bytes_def CtrlCQUpdate_def)

lemma drop_prefix: "length pre = n \<Longrightarrow> drop n (pre @ t) = t"
  by simp

lemma nic_send_entry:
  assumes "il \<le> 914" "length frame < 2 ^ 31"
    and "\<And>k. k \<le> length frame \<Longrightarrow> mem (addr + of_nat k) (length frame - k) = drop k frame"
  shows "nic_send mem (send_entry qpn lkey cs il idx frame addr signaled @ rest) = frame"
proof -
  let ?i = "min (length frame) il" and ?ds = "send_ds il frame"
  let ?H = "hdr_bytes OpcodeSend idx qpn (of_nat ?ds) signaled cs"
  let ?pad = "replicate (16 * eth_octs ?i - 14 - ?i) 0"
  let ?D = "if il < length frame then dseg_bytes (of_nat (length frame - ?i)) lkey (addr + of_nat ?i) else []"
  let ?e = "?H @ be16 (of_nat ?i) @ take ?i frame @ ?pad @ ?D @ rest"
  have e: "send_entry qpn lkey cs il idx frame addr signaled @ rest = ?e"
    by (simp add: send_entry_def Let_def)
  have o: "eth_octs ?i \<le> 58" using assms(1) unfolding eth_octs_def by linarith
  have ds: "nic_ds ?e = ?ds" by (rule nic_ds_hdr) (use o in \<open>auto simp: send_ds_def min_def split: if_splits\<close>)
  have ui: "unat (of_nat ?i :: u16) = ?i"
    using assms(1) by (simp add: unat_of_nat take_bit_nat_eq_self)
  have i: "unat (be_word (take 2 (drop 28 ?e)) :: u16) = ?i" using ui by simp
  have inl: "take ?i (drop 30 ?e) = take ?i frame" by simp
  have at: "16 + 16 * ((14 + ?i + 15) div 16) = 16 + 16 * eth_octs ?i" by (simp add: eth_octs_def add.commute)
  have pre: "length (?H @ be16 (of_nat ?i) @ take ?i frame @ ?pad) = 16 + 16 * eth_octs ?i"
    using eth_octs_bounds [of ?i] by simp
  have tail: "drop (16 + 16 * eth_octs ?i) ?e = ?D @ rest"
    using drop_prefix [OF pre, of "?D @ rest"] by (simp only: append_assoc)
  show ?thesis
  proof (cases "il < length frame")
    case True
    have ne: "(16 * ?ds = 16 + 16 * eth_octs ?i) = False" using True by (simp add: send_ds_def)
    have n: "unat (be_word (take 4 (drop (16 + 16 * eth_octs ?i) ?e)) :: u32) = length frame - ?i"
    proof -
      have "take 4 (drop (16 + 16 * eth_octs ?i) ?e) = be32 (of_nat (length frame - ?i))"
        by (subst tail) (use True in \<open>simp add: dseg_bytes_def\<close>)
      then show ?thesis using assms(2) unat_of_nat_small [of "length frame - ?i"] by (simp only:) simp
    qed
    have a: "(be_word (take 8 (drop (16 + 16 * eth_octs ?i + 8) ?e)) :: u64) = addr + of_nat ?i"
    proof -
      have "drop (16 + 16 * eth_octs ?i + 8) ?e = drop 8 (drop (16 + 16 * eth_octs ?i) ?e)"
        by (subst drop_drop) (rule arg_cong2 [of _ _ _ _ drop], rule add.commute, rule refl)
      also have "\<dots> = drop 8 (?D @ rest)" by (rule arg_cong [OF tail])
      finally have "take 8 (drop (16 + 16 * eth_octs ?i + 8) ?e) = be64 (addr + of_nat ?i)"
        using True by (simp only: if_True dseg_bytes_def) simp
      then show ?thesis by (simp only:) simp
    qed
    have m: "take ?i frame @ mem (addr + of_nat ?i) (length frame - ?i) = frame"
      using assms(3) [of ?i] by simp
    show ?thesis unfolding e nic_send_def Let_def i inl at ds by (simp only: ne n a m if_False)
  next
    case False
    then have "16 * ?ds = 16 + 16 * eth_octs ?i" "take ?i frame = frame" by (simp_all add: send_ds_def)
    then show ?thesis unfolding e nic_send_def Let_def i inl at ds by simp
  qed
qed

lemma cyc_read_written:
  assumes "length e \<le> n" "n \<le> length b"
  shows "\<exists>rest. cyc_read (cyc_write b p e) p n = e @ rest"
proof -
  have "cyc_read (cyc_write b p e) p n
      = cyc_read (cyc_write b p e) p (length e) @ map (\<lambda>j. cyc_write b p e ! ((p + j) mod length b)) [length e..<n]"
    using assms(1) upt_add_eq_append [of 0 "length e" "n - length e"]
    by (simp add: cyc_read_def map_append [symmetric] del: map_append)
  then show ?thesis using cyc_read_write [of e b p] assms by auto
qed

subsection \<open>Multi-packet entries, read back\<close>

lemma bit_flag: "bit MPWInlineFlag i \<longleftrightarrow> i = 31"
  unfolding MPWInlineFlag_def by (subst bit_push_bit_iff) (auto simp: bit_1_iff)

lemma mpw_octs_pos: "0 < mpw_octs n"
  by (simp add: mpw_octs_def div_greater_zero_iff)

lemma inline_flag:
  assumes "n < 2 ^ 31"
  shows "(of_nat n OR MPWInlineFlag) AND MPWInlineFlag \<noteq> 0"
    and "unat ((of_nat n OR MPWInlineFlag) AND NOT MPWInlineFlag) = n"
    and "of_nat n AND MPWInlineFlag = 0"
proof -
  have n: "(of_nat n :: u32) = take_bit 31 (of_nat n)"
  proof -
    have "unat (take_bit 31 (of_nat n) :: u32) = unat (of_nat n :: u32)"
      using assms by (simp add: unsigned_take_bit_eq unsigned_of_nat take_bit_nat_eq_self)
    then show ?thesis by (simp only: word_unat_eq_iff)
  qed
  have b: "bit (of_nat n :: u32) i \<Longrightarrow> i < 31" for i
    by (subst (asm) n) (simp add: bit_simps)
  have "bit ((of_nat n OR MPWInlineFlag) AND MPWInlineFlag) 31"
    by (simp add: bit_flag bit_and_iff bit_or_iff)
  then show "(of_nat n OR MPWInlineFlag) AND MPWInlineFlag \<noteq> 0" by auto
  have "(of_nat n OR MPWInlineFlag) AND NOT MPWInlineFlag = (of_nat n :: u32)"
    by (rule bit_eqI) (auto simp: bit_flag bit_and_iff bit_or_iff bit_not_iff dest: b)
  then show "unat ((of_nat n OR MPWInlineFlag) AND NOT MPWInlineFlag) = n"
    using assms unat_of_nat_small [of n] by simp
  show "of_nat n AND MPWInlineFlag = 0"
    by (rule bit_eqI) (auto simp: bit_flag bit_and_iff bit_or_iff bit_not_iff dest: b)
qed

lemma nic_segments_packet:
  assumes "length f < 2 ^ 31"
  shows "nic_segments mem (mpw_packet f @ rest) = f # nic_segments mem rest"
proof -
  let ?n = "length f" let ?v = "of_nat (length f) OR MPWInlineFlag"
  have o: "(4 + ?n + 15) div 16 = mpw_octs ?n" by (simp add: mpw_octs_def add.commute)
  have l: "\<not> length (mpw_packet f @ rest) < 16"
    using mpw_octs_pos [of ?n] by simp
  have v: "(be_word (take 4 (mpw_packet f @ rest)) :: u32) = ?v" by (simp add: mpw_packet_def)
  have t: "take ?n (drop 4 (mpw_packet f @ rest)) = f" by (simp add: mpw_packet_def)
  have d: "drop (16 * mpw_octs ?n) (mpw_packet f @ rest) = rest" by (rule drop_prefix) simp
  show ?thesis
    by (subst nic_segments.simps)
       (simp only: l v inline_flag [OF assms] o t d Let_def if_False if_True not_False_eq_True simp_thms)
qed

lemma nic_segments_pointer:
  assumes "n < 2 ^ 31"
  shows "nic_segments mem (dseg_bytes (of_nat n) lkey a @ rest) = mem a n # nic_segments mem rest"
proof -
  have l: "\<not> length (dseg_bytes (of_nat n) lkey a @ rest) < 16" by simp
  have v: "(be_word (take 4 (dseg_bytes (of_nat n) lkey a @ rest)) :: u32) = of_nat n"
    "(be_word (take 8 (drop 8 (dseg_bytes (of_nat n) lkey a @ rest))) :: u64) = a"
    by (simp_all add: dseg_bytes_def)
  have d: "drop 16 (dseg_bytes (of_nat n) lkey a @ rest) = rest" by (rule drop_prefix) simp
  have n: "unat (of_nat n :: u32) = n" using assms by (intro unat_of_nat_small) simp
  show ?thesis
    by (subst nic_segments.simps)
       (simp only: l v inline_flag(3) [OF assms] d n Let_def if_False if_True not_False_eq_True simp_thms)
qed

lemma nic_segments_copied:
  "\<forall>f \<in> set fs. length f < 2 ^ 31 \<Longrightarrow> nic_segments mem (concat (map mpw_packet fs)) = fs"
proof (induction fs)
  case Nil
  then show ?case by (subst nic_segments.simps) simp
next
  case (Cons f fs)
  then show ?case by (simp add: nic_segments_packet)
qed

lemma nic_segments_pointed:
  "\<forall>f \<in> set fs. length f < 2 ^ 31 \<Longrightarrow> length as = length fs \<Longrightarrow>
     nic_segments mem (concat (map2 (\<lambda>f a. dseg_bytes (of_nat (length f)) lkey a) fs as))
       = map2 (\<lambda>f a. mem a (length f)) fs as"
proof (induction fs arbitrary: as)
  case Nil
  then show ?case by (subst nic_segments.simps) simp
next
  case (Cons f fs)
  then obtain a bs where "as = a # bs" by (cases as) auto
  then show ?case using Cons by (simp add: nic_segments_pointer)
qed

lemma nic_mpw_entry:
  assumes "16 * ds = 32 + length segs" "ds < 64"
  shows "nic_mpw mem ((hdr_bytes opcode idx qpn (of_nat ds) signaled cs @ be32 0 @ segs) @ rest) = nic_segments mem segs"
proof -
  let ?H = "hdr_bytes opcode idx qpn (of_nat ds) signaled cs"
  have ds: "nic_ds ((?H @ be32 0 @ segs) @ rest) = ds"
    using nic_ds_hdr [OF assms(2), of opcode idx qpn signaled cs "be32 0 @ segs @ rest"] by simp
  have d: "drop 32 ((?H @ be32 0 @ segs) @ rest) = segs @ rest"
    using drop_prefix [of "?H @ be32 0" 32 "segs @ rest"] by simp
  show ?thesis unfolding nic_mpw_def ds d using assms(1) by simp
qed

subsection \<open>What \<open>Fits\<close> promises\<close>

lemma mpw_fits_copy_spec:
  fixes frames :: "bytes list" and d :: nat
  assumes "maxLen < 2 ^ 31" "d \<le> MaxDS"
  defines "n \<equiv> mpw_fits_copy maxLen (of_nat d) frames"
  shows "n \<le> length frames \<and> d + (\<Sum>f\<leftarrow>take n frames. mpw_octs (length f)) \<le> MaxDS
     \<and> (\<forall>f \<in> set (take n frames). f \<noteq> [] \<and> int (length f) \<le> maxLen)
     \<and> (n < length frames \<longrightarrow> frames ! n = [] \<or> int (length (frames ! n)) > maxLen
          \<or> d + (\<Sum>f\<leftarrow>take (Suc n) frames. mpw_octs (length f)) > MaxDS)"
  using assms(2) unfolding n_def
proof (induction frames arbitrary: d)
  case (Cons f fs)
  show ?case
  proof (cases "f = [] \<or> int (length f) > maxLen")
    case False
    then have lf: "length f < 2 ^ 31" using assms(1) by (simp add: nat_less_iff [symmetric])
    let ?need = "mpwPacketOctowords (of_nat (length f))"
    have u: "unat ?need = mpw_octs (length f)" using lf by (rule unat_mpwPacketOctowords)
    have need: "?need = of_nat (mpw_octs (length f))" unfolding u [symmetric] by simp
    have ob: "mpw_octs (length f) < 2 ^ 30" using lf unfolding mpw_octs_def by (simp add: div_less_iff_less_mult)
    have sum: "of_nat d + ?need = of_nat (d + mpw_octs (length f))" by (simp add: need)
    have us: "unat (of_nat (d + mpw_octs (length f)) :: u32) = d + mpw_octs (length f)"
      using Cons.prems ob by (intro unat_of_nat_small) (simp add: MaxDS_def)
    show ?thesis
    proof (cases "d + mpw_octs (length f) \<le> MaxDS")
      case True
      then have le: "\<not> of_nat d + ?need > (of_nat MaxDS :: u32)"
        unfolding sum word_less_nat_alt us by (simp add: MaxDS_def)
      have eq: "mpw_fits_copy maxLen (of_nat d) (f # fs) = Suc (mpw_fits_copy maxLen (of_nat (d + mpw_octs (length f))) fs)"
        using False le sum by (simp add: Let_def)
      show ?thesis unfolding eq using Cons.IH [OF True] False by (simp add: add.assoc)
    next
      case gt: False
      then have "of_nat d + ?need > (of_nat MaxDS :: u32)"
        unfolding sum word_less_nat_alt us by (simp add: MaxDS_def)
      then have "mpw_fits_copy maxLen (of_nat d) (f # fs) = 0" using False by (simp add: Let_def)
      then show ?thesis using gt Cons.prems by simp
    qed
  qed (use Cons.prems in auto)
qed simp

section \<open>The contract of an entry builder\<close>

text \<open>A builder lays one encoding down from the block it is given and reports how many blocks it
  took. What its clients rely on follows for all three builders at once: those blocks read back as
  the encoding, and every window that starts after them and ends before they come round again
  reads as it did.\<close>

locale entry_writer =
  fixes put :: "'s \<Rightarrow> u16 \<Rightarrow> 'a \<Rightarrow> (u32 \<times> 's) option"
    and queue :: "'s \<Rightarrow> sq"
    and encode :: "'s \<Rightarrow> u16 \<Rightarrow> 'a \<Rightarrow> bytes"
    and octs :: "'s \<Rightarrow> 'a \<Rightarrow> nat"
    and ready :: "'s \<Rightarrow> 'a \<Rightarrow> bool"
  assumes ready_ok: "ready s a \<Longrightarrow> sq_ok (queue s) \<and> octs s a \<le> MaxDS \<and> 16 * octs s a \<le> length (sq_buf (queue s))"
    and encode_length: "ready s a \<Longrightarrow> length (encode s idx a) = 16 * octs s a"
    and put_law: "ready s a \<Longrightarrow> \<exists>s'. put s idx a = Some (blocks_of (of_nat (octs s a)), s')
      \<and> queue s' = written (queue s) (64 * unat idx) (encode s idx a)"
begin

lemma put_blocks:
  assumes "ready s a"
  shows "16 * octs s a \<le> 64 * unat (blocks_of (of_nat (octs s a)))"
    and "64 * unat (blocks_of (of_nat (octs s a))) \<le> length (sq_buf (queue s))"
proof -
  have r: "sq_ok (queue s)" "octs s a \<le> MaxDS" "16 * octs s a \<le> length (sq_buf (queue s))"
    using ready_ok [OF assms] by simp_all
  have b: "unat (blocks_of (of_nat (octs s a))) = (octs s a + 3) div 4" using r(2) by (rule unat_blocks_of)
  then show "16 * octs s a \<le> 64 * unat (blocks_of (of_nat (octs s a)))"
    using blocks_hold [of "octs s a"] by simp
  obtain k where k: "length (sq_buf (queue s)) = 64 * k" using r(1) by (auto simp: sq_ok_def WQEBB_def elim: dvdE)
  then have "octs s a \<le> 4 * k" using r(3) by simp
  then have "(octs s a + 3) div 4 \<le> k" by linarith
  then show "64 * unat (blocks_of (of_nat (octs s a))) \<le> length (sq_buf (queue s))" using b k by simp
qed

lemma put_reads_back:
  assumes "ready s a"
  shows "\<exists>n s' rest. put s idx a = Some (n, s') \<and> n = blocks_of (of_nat (octs s a))
     \<and> sq_ok (queue s') \<and> length (sq_buf (queue s')) = length (sq_buf (queue s))
     \<and> cyc_read (sq_buf (queue s')) (64 * unat idx) (64 * unat n) = encode s idx a @ rest
     \<and> (\<forall>d k. 64 * unat n \<le> d \<and> d + k \<le> length (sq_buf (queue s)) \<longrightarrow>
          cyc_read (sq_buf (queue s')) (64 * unat idx + d) k = cyc_read (sq_buf (queue s)) (64 * unat idx + d) k)"
proof -
  obtain s' where s': "put s idx a = Some (blocks_of (of_nat (octs s a)), s')"
      "queue s' = written (queue s) (64 * unat idx) (encode s idx a)"
    using put_law [OF assms] by blast
  have len: "length (encode s idx a) \<le> 64 * unat (blocks_of (of_nat (octs s a)))"
    using put_blocks(1) [OF assms] encode_length [OF assms] by simp
  obtain rest where "cyc_read (sq_buf (queue s')) (64 * unat idx) (64 * unat (blocks_of (of_nat (octs s a))))
      = encode s idx a @ rest"
    using cyc_read_written [OF len put_blocks(2) [OF assms], of "64 * unat idx"] s'(2)
    by (auto simp: written_def)
  moreover have "cyc_read (sq_buf (queue s')) (64 * unat idx + d) k = cyc_read (sq_buf (queue s)) (64 * unat idx + d) k"
    if "64 * unat (blocks_of (of_nat (octs s a))) \<le> d" "d + k \<le> length (sq_buf (queue s))" for d k
    using cyc_read_write_later [of "encode s idx a" d k "sq_buf (queue s)" "64 * unat idx"] that len s'(2)
    by (simp add: written_def)
  ultimately show ?thesis using s' ready_ok [OF assms] by auto
qed

end

definition send_ready :: "sender \<Rightarrow> bytes \<times> u64 \<times> bool \<Rightarrow> bool" where
  "send_ready s a \<longleftrightarrow> sender_ok s \<and> length (fst a) < 2 ^ 31"

definition copy_ready :: "mpw_sender \<Rightarrow> bytes list \<times> bool \<Rightarrow> bool" where
  "copy_ready s a \<longleftrightarrow> sq_ok (m_sq s) \<and> mpw_ds (fst a) \<le> MaxDS \<and> 16 * mpw_ds (fst a) \<le> length (sq_buf (m_sq s))"

definition pointer_ready :: "mpw_sender \<Rightarrow> bytes list \<times> u64 list \<times> bool \<Rightarrow> bool" where
  "pointer_ready s a \<longleftrightarrow> sq_ok (m_sq s) \<and> length (fst a) + 2 \<le> MaxDS
     \<and> 16 * (2 + length (fst a)) \<le> length (sq_buf (m_sq s)) \<and> length (fst (snd a)) = length (fst a)"

lemma send_ds_le: "send_ds il frame \<le> 2 + eth_octs il"
proof -
  have "eth_octs (min (length frame) il) \<le> eth_octs il" unfolding eth_octs_def by (intro div_le_mono) simp
  then show ?thesis unfolding send_ds_def by presburger
qed

interpretation send: entry_writer
  "\<lambda>s idx (frame, addr, signaled). Sender_Put s idx frame addr signaled" s_sq
  "\<lambda>s idx (frame, addr, signaled). send_entry (s_qpn s) (s_lkey s) (s_csFlags s) (unat (s_inlineLen s)) idx frame addr signaled"
  "\<lambda>s (frame, addr, signaled). send_ds (unat (s_inlineLen s)) frame" send_ready
proof (unfold_locales, goal_cases)
  case (1 s a)
  then show ?case
    using sender_room(1) [of s] send_ds_le [of "unat (s_inlineLen s)" "fst a"]
    by (auto simp: send_ready_def sender_ok_def split: prod.splits)
next
  case (2 s a idx)
  then show ?case by (simp add: length_send_entry split: prod.splits)
next
  case (3 s a idx)
  then show ?case by (cases a rule: prod_cases3) (simp add: Sender_Put_written send_ready_def)
qed

interpretation copy: entry_writer
  "\<lambda>s idx (frames, signaled). MPWSender_Put s idx frames signaled" m_sq
  "\<lambda>s idx (frames, signaled). mpw_entry (m_qpn s) (m_csFlags s) idx frames signaled"
  "\<lambda>s (frames, signaled). mpw_ds frames" copy_ready
proof (unfold_locales, goal_cases)
  case (1 s a)
  then show ?case by (auto simp: copy_ready_def split: prod.splits)
next
  case (2 s a idx)
  then show ?case by (simp add: length_mpw_entry split: prod.splits)
next
  case (3 s a idx)
  then show ?case by (cases a) (simp add: MPWSender_Put_written copy_ready_def)
qed

lemma length_pointers:
  "length as = length fs \<Longrightarrow> length (concat (map2 (\<lambda>f a. dseg_bytes (of_nat (length f)) lkey a) fs as)) = 16 * length fs"
proof (induction fs arbitrary: as)
  case (Cons f fs)
  then show ?case by (cases as) auto
qed simp

interpretation pointers: entry_writer
  "\<lambda>s idx (frames, addrs, signaled). MPWSender_PutPointers s idx frames addrs signaled" m_sq
  "\<lambda>s idx (frames, addrs, signaled). mpw_ptr_entry (m_qpn s) (m_lkey s) (m_csFlags s) idx frames addrs signaled"
  "\<lambda>s (frames, addrs, signaled). 2 + length frames" pointer_ready
proof (unfold_locales, goal_cases)
  case (1 s a)
  then show ?case by (auto simp: pointer_ready_def split: prod.splits)
next
  case (2 s a idx)
  then show ?case by (auto simp: mpw_ptr_entry_def pointer_ready_def length_pointers split: prod.splits)
next
  case (3 s a idx)
  then show ?case by (cases a rule: prod_cases3) (simp add: MPWSender_PutPointers_written pointer_ready_def)
qed

section \<open>Properties\<close>

text \<open>C23: a single-packet send entry carries its packet. For a sender accepted by \<open>NewSender\<close>, and
  wherever in the cyclic queue the entry falls, \<open>Put\<close> never panics; a device that reads the blocks
  \<open>Put\<close> reports, fetching by DMA what the data segment names, gets exactly the frame; it completes
  with an event exactly when one was asked for; the entry takes no more blocks than \<open>MaxBBs\<close>, so no
  more than the queue has; and no byte outside those blocks changes.\<close>

theorem send_entry_carries_packet:
  assumes "NewSQ buf = Inr q" "length buf \<le> 2 ^ 31" "NewSender q cfg = Inr s" "sc_InlineLen cfg < 2 ^ 31"
    and "length frame < 2 ^ 31"
    and "\<And>k. k \<le> length frame \<Longrightarrow> mem (addr + of_nat k) (length frame - k) = drop k frame"
  shows "\<exists>n s'. Sender_Put s idx frame addr signaled = Some (n, s')
     \<and> n \<le> s_maxBBs s \<and> s_maxBBs s \<le> sq_bbs q
     \<and> nic_send mem (cyc_read (sq_buf (s_sq s')) (64 * unat idx) (64 * unat n)) = frame
     \<and> nic_signaled (cyc_read (sq_buf (s_sq s')) (64 * unat idx) (64 * unat n)) = signaled
     \<and> (\<forall>d k. 64 * unat n \<le> d \<and> d + k \<le> length buf \<longrightarrow>
          cyc_read (sq_buf (s_sq s')) (64 * unat idx + d) k = cyc_read buf (64 * unat idx + d) k)"
proof -
  have q: "sq_ok q" "sq_buf q = buf" using NewSQ_ok [OF assms(1,2)] by simp_all
  have s: "sender_ok s" "s_sq s = q" using NewSender_ok [OF assms(3) q(1) assms(4)] by simp_all
  let ?il = "unat (s_inlineLen s)" let ?ds = "send_ds ?il frame"
  have il: "?il \<le> 914" using s(1) by (rule sender_ok_inline)
  have "send_ready s (frame, addr, signaled)" using s(1) assms(5) by (simp add: send_ready_def)
  from send.put_reads_back [OF this, of idx] obtain n s' rest where
    p: "Sender_Put s idx frame addr signaled = Some (n, s')" "n = blocks_of (of_nat ?ds)"
      "cyc_read (sq_buf (s_sq s')) (64 * unat idx) (64 * unat n)
         = send_entry (s_qpn s) (s_lkey s) (s_csFlags s) ?il idx frame addr signaled @ rest"
      "\<forall>d k. 64 * unat n \<le> d \<and> d + k \<le> length buf \<longrightarrow>
          cyc_read (sq_buf (s_sq s')) (64 * unat idx + d) k = cyc_read buf (64 * unat idx + d) k"
    using s(2) q(2) by auto
  have max: "2 + eth_octs ?il \<le> MaxDS" "s_maxBBs s \<le> sq_bbs q" using s unfolding sender_ok_def by blast+
  have "?ds \<le> MaxDS" using send_ds_le [of ?il frame] max(1) by simp
  then have "unat n = (?ds + 3) div 4" using p(2) by (simp add: unat_blocks_of)
  also have "\<dots> \<le> unat (s_maxBBs s)"
    unfolding sender_room(2) [OF s(1)] using send_ds_le [of ?il frame] by (intro div_le_mono) simp
  finally have n: "n \<le> s_maxBBs s" by (simp add: word_le_nat_alt)
  have "nic_send mem (cyc_read (sq_buf (s_sq s')) (64 * unat idx) (64 * unat n)) = frame"
    unfolding p(3) by (rule nic_send_entry [OF il assms(5,6)])
  moreover have "nic_signaled (cyc_read (sq_buf (s_sq s')) (64 * unat idx) (64 * unat n)) = signaled"
    unfolding p(3) send_entry_def Let_def by (simp add: nic_signaled_hdr)
  ultimately show ?thesis using p(1,4) n max(2) by blast
qed

theorem send_entry_carries_packet_witness:
  "\<exists>q s n s'. NewSQ (replicate 64 0) = Inr q
     \<and> NewSender q \<lparr>sc_QPN = 5, sc_LKey = 6, sc_InlineLen = 2, sc_CSFlags = 0\<rparr> = Inr s
     \<and> Sender_Put s 7 [1, 2, 3] 0 True = Some (n, s')
     \<and> nic_send (\<lambda>a n. take n (drop (unat a) [1, 2, 3])) (cyc_read (sq_buf (s_sq s')) (64 * 7) (64 * unat n)) = [1, 2, 3]"
proof -
  have "case NewSQ (replicate 64 0) of Inl _ \<Rightarrow> False
      | Inr q \<Rightarrow> (case NewSender q \<lparr>sc_QPN = 5, sc_LKey = 6, sc_InlineLen = 2, sc_CSFlags = 0\<rparr> of
          Inl _ \<Rightarrow> False | Inr _ \<Rightarrow> True)"
    by code_simp
  then obtain q s where qs: "NewSQ (replicate 64 0) = Inr q"
      "NewSender q \<lparr>sc_QPN = 5, sc_LKey = 6, sc_InlineLen = 2, sc_CSFlags = 0\<rparr> = Inr s"
    by (auto split: sum.splits)
  have mem: "(\<lambda>a n. take n (drop (unat a) [1, 2, 3])) ((0 :: u64) + of_nat k) (length [1, 2, 3 :: u8] - k) = drop k [1, 2, 3]"
    if "k \<le> length [1, 2, 3 :: u8]" for k
    using that by (simp add: unat_of_nat take_bit_nat_eq_self)
  show ?thesis
    using qs send_entry_carries_packet [OF qs(1) _ qs(2) _ _ mem, of 7 True] by auto
qed

text \<open>C24: a multi-packet entry with the packets copied in. \<open>Fits\<close> chooses the longest prefix of the
  frames that stays within the entry's sixty octowords, stopping at an empty or too long frame, and for that
  prefix, when the queue is large enough for it, \<open>Put\<close> never panics, takes the fewest blocks that hold it, and a device
  reading those blocks gets those packets, in order and byte for byte.\<close>

theorem mpw_copy_carries_packets:
  assumes "sq_ok (m_sq s)" "\<not> m_pointer s" "m_maxLen s < 2 ^ 31"
    and "16 * mpw_ds (take (MPWSender_Fits s frames) frames) \<le> length (sq_buf (m_sq s))"
  defines "n \<equiv> MPWSender_Fits s frames"
  shows "n \<le> length frames \<and> (\<forall>f \<in> set (take n frames). f \<noteq> [] \<and> int (length f) \<le> m_maxLen s)
     \<and> mpw_ds (take n frames) \<le> 60
     \<and> (n < length frames \<longrightarrow> frames ! n = [] \<or> int (length (frames ! n)) > m_maxLen s
          \<or> mpw_ds (take (Suc n) frames) > 60)
     \<and> (\<exists>b s'. MPWSender_Put s idx (take n frames) signaled = Some (b, s')
          \<and> unat b = (mpw_ds (take n frames) + 3) div 4
          \<and> nic_mpw mem (cyc_read (sq_buf (m_sq s')) (64 * unat idx) (64 * unat b)) = take n frames)"
proof -
  have n: "n = mpw_fits_copy (m_maxLen s) (of_nat 2) frames"
    using assms(2) by (simp add: n_def MPWSender_Fits_def)
  note fits = mpw_fits_copy_spec [OF assms(3), of 2 frames, folded n]
  have ds: "mpw_ds (take n frames) \<le> MaxDS" using fits by (simp add: mpw_ds_def MaxDS_def)
  then have "copy_ready s (take n frames, signaled)"
    using assms(1,4) by (simp add: copy_ready_def n_def)
  from copy.put_reads_back [OF this, of idx] obtain b s' rest where
    p: "MPWSender_Put s idx (take n frames) signaled = Some (b, s')" "b = blocks_of (of_nat (mpw_ds (take n frames)))"
      "cyc_read (sq_buf (m_sq s')) (64 * unat idx) (64 * unat b)
        = mpw_entry (m_qpn s) (m_csFlags s) idx (take n frames) signaled @ rest"
    by auto
  have short: "\<forall>f \<in> set (take n frames). length f < 2 ^ 31"
    using fits assms(3) by (force simp: MaxDS_def)
  have "nic_mpw mem (mpw_entry (m_qpn s) (m_csFlags s) idx (take n frames) signaled @ rest)
      = nic_segments mem (concat (map mpw_packet (take n frames)))"
    unfolding mpw_entry_def
    by (rule nic_mpw_entry) (use ds in \<open>simp_all add: length_mpw_packets mpw_ds_def MaxDS_def\<close>)
  also have "\<dots> = take n frames" using short by (rule nic_segments_copied)
  finally show ?thesis using p fits unat_blocks_of [OF ds] by (auto simp: mpw_ds_def MaxDS_def)
qed

theorem mpw_copy_carries_packets_witness:
  "\<exists>s b s'. MPWSender_Fits s [[1, 2], [3], []] = 2 \<and> MPWSender_Put s 1 [[1, 2], [3]] False = Some (b, s') \<and> unat b = 1
     \<and> nic_mpw (\<lambda>_ _. []) (cyc_read (sq_buf (m_sq s')) (64 * 1) (64 * unat b)) = [[1, 2], [3]]"
proof -
  define q where "q = \<lparr>sq_buf = replicate 128 0, sq_mask = 127, sq_bbs = 2\<rparr>"
  define s where "s = \<lparr>m_sq = q, m_qpn = 5, m_lkey = 6, m_csFlags = 0, m_pointer = False, m_maxPackets = 2, m_maxLen = 100\<rparr>"
  have "is_pow2 128" by code_simp
  then have q: "sq_ok q" by (simp add: sq_ok_def q_def WQEBB_def)
  have n: "MPWSender_Fits s [[1, 2], [3], []] = 2"
    unfolding s_def q_def by code_simp
  have "16 * mpw_ds (take (MPWSender_Fits s [[1, 2], [3], []]) [[1, 2], [3], []]) \<le> length (sq_buf (m_sq s))"
    unfolding n by (simp add: s_def q_def mpw_ds_def mpw_octs_def)
  then show ?thesis
    using n q mpw_copy_carries_packets [of s "[[1, 2], [3], []]" 1 False "\<lambda>_ _. []"]
    by (auto simp: s_def mpw_ds_def mpw_octs_def)
qed

text \<open>C25: a multi-packet entry of pointers. For a pointer-mode sender accepted by \<open>NewMPWSender\<close>,
  \<open>Fits\<close> chooses a prefix without empty frames that always fits the queue, \<open>PutPointers\<close> on it never
  panics, a device fetching what the entry's data segments name gets those packets in order, and no
  byte outside the blocks it reports changes.\<close>

theorem mpw_pointers_carry_packets:
  assumes "NewSQ buf = Inr q" "length buf \<le> 2 ^ 31" "NewMPWSender q cfg = Some (Inr s)" "mc_Pointer cfg"
    and "length addrs = length frames" "\<forall>f \<in> set frames. length f < 2 ^ 31"
    and "\<And>i. i < length frames \<Longrightarrow> mem (addrs ! i) (length (frames ! i)) = frames ! i"
  defines "n \<equiv> MPWSender_Fits s frames"
  shows "n \<le> length frames \<and> (\<forall>f \<in> set (take n frames). f \<noteq> [])
     \<and> (\<exists>b s'. MPWSender_PutPointers s idx (take n frames) (take n addrs) signaled = Some (b, s')
          \<and> nic_mpw mem (cyc_read (sq_buf (m_sq s')) (64 * unat idx) (64 * unat b)) = take n frames
          \<and> (\<forall>d k. 64 * unat b \<le> d \<and> d + k \<le> length buf \<longrightarrow>
               cyc_read (sq_buf (m_sq s')) (64 * unat idx + d) k = cyc_read buf (64 * unat idx + d) k))"
proof -
  have q: "sq_ok q" "sq_buf q = buf" using NewSQ_ok [OF assms(1,2)] by simp_all
  have "length buf div 64 < 2 ^ 32" using assms(2) by (intro le_less_trans [OF div_le_dividend]) simp
  then have bbs: "unat (sq_bbs q) = length buf div 64"
    using q unat_of_nat_small [of "length buf div 64"] by (simp add: sq_ok_def WQEBB_def)
  have L: "length buf = 64 * (length buf div 64)" using q by (simp add: sq_ok_def WQEBB_def)
  let ?room = "int (unat (sq_bbs q)) * int WQEBB div int Octoword"
  have s: "m_sq s = q" "m_pointer s" "m_maxPackets s \<le> int MaxDS - 2" "m_maxPackets s \<le> ?room - 2"
    using assms(3,4) by (auto simp: NewMPWSender_def Let_def split: if_splits)
  have room: "?room = int (length buf div 16)"
    unfolding bbs using L by (simp add: wqe_sizes)
  let ?m = "if int (length frames) > m_maxPackets s then nat (m_maxPackets s) else length frames"
  have n: "n = length (takeWhile (\<lambda>f. length f \<noteq> 0) (take ?m frames))"
    using s(2) by (simp add: n_def MPWSender_Fits_def Let_def)
  have "n \<le> length (take ?m frames)" unfolding n by (rule length_takeWhile_le)
  then have nm: "n \<le> ?m" "n \<le> length frames" by auto
  have tk: "take n frames = takeWhile (\<lambda>f. length f \<noteq> 0) (take ?m frames)"
    using nm by (metis n min.absorb1 take_take takeWhile_eq_take)
  have ne: "\<forall>f \<in> set (take n frames). f \<noteq> []" unfolding tk by (auto dest: set_takeWhileD)
  have "int n \<le> m_maxPackets s \<or> n = 0" using nm(1) by (auto split: if_splits)
  moreover have "64 \<le> length buf"
    using q sq_ok_pos [OF q(1)] by (auto simp: sq_ok_def WQEBB_def intro: dvd_imp_le)
  ultimately have nb: "n + 2 \<le> MaxDS" "16 * (2 + n) \<le> length buf"
    using s(3,4) room L by (auto simp: MaxDS_def)
  have "pointer_ready s (take n frames, take n addrs, signaled)"
    using q s(1) nb nm assms(5) by (simp add: pointer_ready_def)
  from pointers.put_reads_back [OF this, of idx] obtain b s' rest where
    p: "MPWSender_PutPointers s idx (take n frames) (take n addrs) signaled = Some (b, s')"
      "cyc_read (sq_buf (m_sq s')) (64 * unat idx) (64 * unat b)
        = mpw_ptr_entry (m_qpn s) (m_lkey s) (m_csFlags s) idx (take n frames) (take n addrs) signaled @ rest"
      "\<forall>d k. 64 * unat b \<le> d \<and> d + k \<le> length buf \<longrightarrow>
          cyc_read (sq_buf (m_sq s')) (64 * unat idx + d) k = cyc_read buf (64 * unat idx + d) k"
    using s(1) q(2) by auto
  have "nic_mpw mem (mpw_ptr_entry (m_qpn s) (m_lkey s) (m_csFlags s) idx (take n frames) (take n addrs) signaled @ rest)
      = nic_segments mem (concat (map2 (\<lambda>f a. dseg_bytes (of_nat (length f)) (m_lkey s) a) (take n frames) (take n addrs)))"
    unfolding mpw_ptr_entry_def
    by (rule nic_mpw_entry) (use nb nm assms(5) in \<open>simp_all add: length_pointers MaxDS_def\<close>)
  also have "\<dots> = map2 (\<lambda>f a. mem a (length f)) (take n frames) (take n addrs)"
    by (rule nic_segments_pointed) (use assms(5,6) in \<open>auto dest: in_set_takeD\<close>)
  also have "\<dots> = take n frames"
    by (rule nth_equalityI) (use assms(5,7) nm in simp_all)
  finally show ?thesis using p nm(2) ne by auto
qed

theorem mpw_pointers_carry_packets_witness:
  "\<exists>q s b s'. NewSQ (replicate 64 0) = Inr q
     \<and> NewMPWSender q \<lparr>mc_QPN = 5, mc_CSFlags = 0, mc_MaxLen = 0, mc_Pointer = True, mc_LKey = 6\<rparr> = Some (Inr s)
     \<and> MPWSender_Fits s [[1, 2], [3], [4]] = 2
     \<and> MPWSender_PutPointers s 1 [[1, 2], [3]] [0, 16] False = Some (b, s')
     \<and> nic_mpw (\<lambda>a n. if a = 0 then [1, 2] else if a = 16 then [3] else [4])
          (cyc_read (sq_buf (m_sq s')) (64 * 1) (64 * unat b)) = [[1, 2], [3]]"
proof -
  let ?cfg = "\<lparr>mc_QPN = 5, mc_CSFlags = 0, mc_MaxLen = 0, mc_Pointer = True, mc_LKey = 6\<rparr>"
  let ?mem = "\<lambda>(a :: u64) (n :: nat). if a = 0 then [1, 2] else if a = 16 then [3] else [4 :: u8]"
  have "case NewSQ (replicate 64 0) of Inl _ \<Rightarrow> False
      | Inr q \<Rightarrow> (case NewMPWSender q ?cfg of Some (Inr s) \<Rightarrow> MPWSender_Fits s [[1, 2], [3], [4]] = 2 | _ \<Rightarrow> False)"
    by code_simp
  then obtain q s where qs: "NewSQ (replicate 64 0) = Inr q" "NewMPWSender q ?cfg = Some (Inr s)"
      "MPWSender_Fits s [[1, 2], [3], [4]] = 2"
    by (auto split: sum.split_asm option.split_asm) (metis sum.exhaust)
  have mem: "?mem ([0, 16, 32] ! i) (length ([[1, 2], [3], [4]] ! i)) = [[1, 2], [3], [4]] ! i"
    if "i < length [[1, 2], [3], [4 :: u8]]" for i
    using that by (auto simp: less_Suc_eq)
  show ?thesis
    using qs mpw_pointers_carry_packets [OF qs(1) _ qs(2) _ _ _ mem, of 1 False] by auto
qed

end
