(* ===== verification/Wqe_Cqe.thy ===== *)
theory Wqe_Cqe
  imports Wqe_Queue
begin

text \<open>
  Completion queues and the decoding of their entries, \<^verbatim>\<open>mlx5/internal/wqe/cqe.go\<close>. The header word
  of an entry is its last four bytes as a big-endian number, which is how
  \<^verbatim>\<open>arch.LoadCQEHeader\<close> delivers it. \<open>None\<close> is a Go panic.
\<close>

section \<open>The source\<close>

definition CQEReq :: u8 where "CQEReq = 0"
definition CQERespWrImm :: u8 where "CQERespWrImm = 1"
definition CQERespSend :: u8 where "CQERespSend = 2"
definition CQERespSendImm :: u8 where "CQERespSendImm = 3"
definition CQERespSendInv :: u8 where "CQERespSendInv = 4"
definition CQEResizeCQ :: u8 where "CQEResizeCQ = 5"
definition CQENoPacket :: u8 where "CQENoPacket = 6"
definition CQESigErr :: u8 where "CQESigErr = 12"
definition CQEReqErr :: u8 where "CQEReqErr = 13"
definition CQERespErr :: u8 where "CQERespErr = 14"
definition CQEInvalid :: u8 where "CQEInvalid = 15"
definition CQEFormatNoData :: u8 where "CQEFormatNoData = 0"
definition CQEL2OK :: u8 where "CQEL2OK = push_bit 0 1"
definition CQEL3OK :: u8 where "CQEL3OK = push_bit 1 1"
definition CQEL4OK :: u8 where "CQEL4OK = push_bit 2 1"

lemmas cqe_opcodes = CQEReq_def CQERespWrImm_def CQERespSend_def CQERespSendImm_def CQERespSendInv_def
  CQEResizeCQ_def CQENoPacket_def CQESigErr_def CQEReqErr_def CQERespErr_def CQEInvalid_def

definition cqeRXHashResult :: nat where "cqeRXHashResult = 24"
definition cqeHDSIPExt :: nat where "cqeHDSIPExt = 28"
definition cqeL4HdrTypeEtc :: nat where "cqeL4HdrTypeEtc = 29"
definition cqeVLANInfo :: nat where "cqeVLANInfo = 30"
definition cqeByteCount :: nat where "cqeByteCount = 44"
definition cqeTimestamp :: nat where "cqeTimestamp = 48"
definition cqeVendorSyndrom :: nat where "cqeVendorSyndrom = 54"
definition cqeSyndrome :: nat where "cqeSyndrome = 55"
definition cqeSWQEOpcodeQPN :: nat where "cqeSWQEOpcodeQPN = 56"
definition cqeHeader :: nat where "cqeHeader = 60"

lemmas cqe_offsets = cqeRXHashResult_def cqeHDSIPExt_def cqeL4HdrTypeEtc_def cqeVLANInfo_def
  cqeByteCount_def cqeTimestamp_def cqeVendorSyndrom_def cqeSyndrome_def cqeSWQEOpcodeQPN_def cqeHeader_def

record cq =
  cq_buf :: bytes
  cq_entries :: u32
  cq_mask :: u32
  cq_log2 :: u32

text \<open>\<open>bits.TrailingZeros32\<close>.\<close>

definition trailingZeros32 :: "u32 \<Rightarrow> nat" where
  "trailingZeros32 n = (if n = 0 then 32 else length (takeWhile (\<lambda>i. \<not> bit n i) [0..<32]))"

definition NewCQ :: "bytes \<Rightarrow> int \<Rightarrow> wqe_error + cq" where
  "NewCQ buf cqeSize =
     (if cqeSize \<noteq> int CQESize then Inl (CQESizeUnsupported cqeSize)
      else if length buf mod CQESize \<noteq> 0 \<or> length buf = 0 then Inl (NotWholeEntries (length buf))
      else let n = of_nat (length buf div CQESize)
           in if n AND (n - 1) \<noteq> 0 then Inl (NotPow2Entries n)
              else Inr \<lparr>cq_buf = buf, cq_entries = n, cq_mask = n - 1, cq_log2 = of_nat (trailingZeros32 n)\<rparr>)"

definition cq_Entry :: "cq \<Rightarrow> u32 \<Rightarrow> bytes option" where
  "cq_Entry c ci = (let off = (ci AND cq_mask c) * of_nat CQESize in peek (cq_buf c) (unat off) CQESize)"

text \<open>The load through \<open>HeaderPtr\<close>.\<close>

definition cq_header :: "cq \<Rightarrow> u32 \<Rightarrow> u32 option" where
  "cq_header c ci =
     (let off = (ci AND cq_mask c) * of_nat CQESize + of_nat cqeHeader
      in map_option be_word (peek (cq_buf c) (unat off) 4))"

definition ExpectedOwner :: "cq \<Rightarrow> u32 \<Rightarrow> u32" where
  "ExpectedOwner c ci = drop_bit (unat (cq_log2 c)) ci AND 1"

definition Owner :: "u32 \<Rightarrow> u32" where
  "Owner header = header AND 1"

definition Format :: "u32 \<Rightarrow> u8" where
  "Format header = ucast (drop_bit 2 header) AND 3"

definition Opcode :: "u32 \<Rightarrow> u8" where
  "Opcode header = ucast (drop_bit 4 header) AND 0xf"

definition WQECounter :: "u32 \<Rightarrow> u16" where
  "WQECounter header = ucast (drop_bit 16 header)"

definition Owned :: "cq \<Rightarrow> u32 \<Rightarrow> u32 \<Rightarrow> bool" where
  "Owned c ci header \<longleftrightarrow> Owner header = ExpectedOwner c ci \<and> Opcode header \<noteq> CQEInvalid"

definition get_byte :: "bytes \<Rightarrow> nat \<Rightarrow> u8 option" where
  "get_byte e i = (if i < length e then Some (e ! i) else None)"

definition ByteCount :: "bytes \<Rightarrow> u32 option" where
  "ByteCount e = map_option be_word (peek e cqeByteCount 4)"

definition ChecksumFlags :: "bytes \<Rightarrow> u8 option" where
  "ChecksumFlags e = get_byte e cqeHDSIPExt"

definition L3HeaderType :: "bytes \<Rightarrow> u8 option" where
  "L3HeaderType e = map_option (\<lambda>b. drop_bit 2 b AND 3) (get_byte e cqeL4HdrTypeEtc)"

definition VLANInfo :: "bytes \<Rightarrow> u16 option" where
  "VLANInfo e = map_option be_word (peek e cqeVLANInfo 2)"

definition RXHashResult :: "bytes \<Rightarrow> u32 option" where
  "RXHashResult e = map_option be_word (peek e cqeRXHashResult 4)"

definition Timestamp :: "bytes \<Rightarrow> u64 option" where
  "Timestamp e = map_option be_word (peek e cqeTimestamp 8)"

record error_info =
  ei_Syndrome :: u8
  ei_VendorSyndrome :: u8
  ei_QPN :: u32
  ei_WQECounter :: u16

definition cqe_Error :: "bytes \<Rightarrow> error_info option" where
  "cqe_Error e =
     do { syn \<leftarrow> get_byte e cqeSyndrome;
          vs \<leftarrow> get_byte e cqeVendorSyndrom;
          q \<leftarrow> map_option be_word (peek e cqeSWQEOpcodeQPN 4);
          w \<leftarrow> map_option be_word (peek e cqeHeader 2);
          Some \<lparr>ei_Syndrome = syn, ei_VendorSyndrome = vs, ei_QPN = q AND 0xffffff, ei_WQECounter = w\<rparr> }"

section \<open>Well-formed completion queues\<close>

definition cq_ok :: "cq \<Rightarrow> nat \<Rightarrow> bool" where
  "cq_ok c k \<longleftrightarrow> k \<le> 26 \<and> length (cq_buf c) = 64 * 2 ^ k \<and> cq_entries c = 2 ^ k \<and> cq_mask c = 2 ^ k - 1
     \<and> cq_log2 c = of_nat k"

lemma trailingZeros32_exp:
  assumes "k < 32"
  shows "trailingZeros32 (2 ^ k) = k"
proof -
  have b: "bit ((2 :: u32) ^ k) i \<longleftrightarrow> i = k" for i using assms by (auto simp: bit_exp_iff)
  have "[0..<32] = [0..<k] @ k # [Suc k..<32]"
    using assms upt_add_eq_append [of 0 k "32 - k"] upt_conv_Cons [of k 32] by simp
  then have "takeWhile (\<lambda>i. \<not> bit ((2 :: u32) ^ k) i) [0..<32] = [0..<k]"
    by (simp only: b) (subst takeWhile_append2, auto)
  moreover have "(2 :: u32) ^ k \<noteq> 0" using b [of k] bit_0_eq by (metis bot_apply bot_bool_def)
  ultimately show ?thesis by (simp add: trailingZeros32_def)
qed

lemma word_pow2_nat:
  assumes "n < 2 ^ 32" "(of_nat n :: u32) AND (of_nat n - 1) = 0" "0 < n"
  shows "is_pow2 n"
proof -
  have "(of_nat n :: u32) - 1 = of_nat (n - 1)" using assms(3) by (simp add: of_nat_diff)
  then have "unat (of_nat n AND of_nat (n - 1) :: u32) = 0" using assms(2) by simp
  then have "n AND (n - 1) = 0"
    using assms(1) by (simp add: unsigned_and_eq unsigned_of_nat take_bit_nat_eq_self)
  then show ?thesis using assms(3) by (simp add: is_pow2_def)
qed

lemma NewCQ_ok:
  assumes "NewCQ buf sz = Inr c" "length buf \<le> 2 ^ 32"
  shows "\<exists>k. cq_ok c k \<and> cq_buf c = buf"
proof -
  define n where "n = length buf div 64"
  have d: "64 dvd length buf" "buf \<noteq> []"
    using assms(1) by (auto simp: NewCQ_def CQESize_def split: if_splits)
  then have b: "length buf = 64 * n" "0 < n" unfolding n_def by (auto elim!: dvdE intro: gr0I)
  have lt: "n < 2 ^ 32" "n \<le> 2 ^ 26" using assms(2) b by simp_all
  have c: "(of_nat n :: u32) AND (of_nat n - 1) = 0"
    "c = \<lparr>cq_buf = buf, cq_entries = of_nat n, cq_mask = of_nat n - 1, cq_log2 = of_nat (trailingZeros32 (of_nat n))\<rparr>"
    using assms(1) unfolding n_def NewCQ_def CQESize_def Let_def by (auto split: if_splits)
  obtain k where k: "n = 2 ^ k" using word_pow2_nat [OF lt(1) c(1) b(2)] is_pow2_iff by blast
  then have "(2 :: nat) ^ k \<le> 2 ^ 26" using lt by simp
  then have k26: "k \<le> 26" by (simp only: power_increasing_iff)
  then have k32: "k < 32" by simp
  have "(of_nat n :: u32) = 2 ^ k" using k by simp
  then have "cq_ok c k" using b k k26 trailingZeros32_exp [OF k32] by (simp add: cq_ok_def c(2))
  then show ?thesis using c(2) by auto
qed

lemma cq_slot:
  assumes "cq_ok c k"
  shows "unat (ci AND cq_mask c) = unat ci mod 2 ^ k"
  using unat_and_mask [of k ci] assms by (simp add: cq_ok_def)

lemma slot_bound:
  assumes "cq_ok c k"
  shows "unat ci mod 2 ^ k * 64 + 64 \<le> length (cq_buf c)" "length (cq_buf c) \<le> 2 ^ 32"
proof -
  have "Suc (unat ci mod 2 ^ k) \<le> 2 ^ k" by (simp add: Suc_le_eq)
  then have "Suc (unat ci mod 2 ^ k) * 64 \<le> 2 ^ k * 64" by (rule mult_le_mono1)
  then show "unat ci mod 2 ^ k * 64 + 64 \<le> length (cq_buf c)" using assms by (simp add: cq_ok_def)
  have "(2 :: nat) ^ k \<le> 2 ^ 26" using assms by (simp only: cq_ok_def power_increasing_iff)
  then show "length (cq_buf c) \<le> 2 ^ 32" using assms by (simp add: cq_ok_def)
qed

lemma slot_offset:
  assumes "cq_ok c k" "j < 64"
  shows "unat ((ci AND cq_mask c) * 64 + of_nat j) = unat ci mod 2 ^ k * 64 + j"
proof -
  have b: "unat ci mod 2 ^ k * 64 + 64 \<le> 2 ^ 32"
    using slot_bound(1) [OF assms(1), of ci] slot_bound(2) [OF assms(1)] by (rule le_trans)
  have m: "unat ((ci AND cq_mask c) * 64) = unat ci mod 2 ^ k * 64"
    using b by (simp add: unat_word_ariths cq_slot [OF assms(1)])
  have "unat (of_nat j :: u32) = j" using assms(2) by (simp add: unat_of_nat take_bit_nat_eq_self)
  then show ?thesis using b m assms(2) by (subst unat_plus_exact) simp_all
qed

lemma cq_Entry_some:
  assumes "cq_ok c k"
  shows "cq_Entry c ci = Some (take 64 (drop (unat ci mod 2 ^ k * 64) (cq_buf c)))"
  using slot_offset [OF assms, of 0 ci] slot_bound(1) [OF assms, of ci]
  by (simp add: cq_Entry_def CQESize_def peek_def Let_def)

lemma cq_header_some:
  assumes "cq_ok c k"
  shows "cq_header c ci = Some (be_word (take 4 (drop (unat ci mod 2 ^ k * 64 + 60) (cq_buf c))))"
  using slot_offset [OF assms, of 60 ci] slot_bound(1) [OF assms, of ci]
  by (simp add: cq_header_def CQESize_def cqeHeader_def peek_def Let_def)

text \<open>The header word is the last four bytes of the entry.\<close>

lemma cq_header_Entry:
  "cq_ok c k \<Longrightarrow> cq_Entry c ci = Some e \<Longrightarrow> cq_header c ci = Some (be_word (drop 60 e))"
  by (auto simp: cq_Entry_some cq_header_some drop_take add.commute)

lemma ExpectedOwner_bit: "cq_ok c k \<Longrightarrow> ExpectedOwner c ci = (if bit ci k then 1 else 0)"
proof -
  assume ok: "cq_ok c k"
  then have "unat (cq_log2 c) = k" by (simp add: cq_ok_def unat_of_nat take_bit_nat_eq_self)
  then show ?thesis by (simp add: ExpectedOwner_def and_one_eq mod_2_eq_odd bit_iff_odd_drop_bit)
qed

text \<open>One lap on, the bit above the index has flipped, also across the wrap of the counter.\<close>

lemma bit_add_exp:
  assumes "k < 32"
  shows "bit (ci + 2 ^ k :: u32) k = (\<not> bit ci k)"
proof -
  have "(2 :: nat) ^ k < 2 ^ 32" using assms by (rule power_strict_increasing) simp
  then have "unat (of_nat (2 ^ k) :: u32) = 2 ^ k"
    by (simp only: unat_of_nat take_bit_nat_eq_self len_num0 len_num1) simp
  then have pw: "unat (2 ^ k :: u32) = 2 ^ k" by simp
  have two: "(2 :: nat) ^ 32 = 2 ^ k * 2 ^ (32 - k)" using assms by (simp add: power_add [symmetric])
  have "unat (ci + 2 ^ k) div 2 ^ k = (unat ci + 2 ^ k) mod (2 ^ k * 2 ^ (32 - k)) div 2 ^ k"
    unfolding two [symmetric] using pw by (simp add: unat_word_ariths)
  also have "\<dots> = (unat ci + 2 ^ k) div 2 ^ k mod 2 ^ (32 - k)"
    by (simp only: mod_mult2_eq) simp
  also have "\<dots> = (unat ci div 2 ^ k + 1) mod 2 ^ (32 - k)" by (subst div_add_self2) simp_all
  finally have "odd (unat (ci + 2 ^ k) div 2 ^ k) = odd (unat ci div 2 ^ k + 1)"
    using assms by (simp add: dvd_mod_iff)
  moreover have "bit w k = odd (unat w div 2 ^ k)" for w :: u32
  proof -
    have "bit w k = bit (unat w) k" by (simp add: bit_unsigned_iff)
    then show ?thesis by (simp only: bit_iff_odd)
  qed
  ultimately show ?thesis by simp
qed

lemma Owned_lap:
  assumes "cq_ok c k" "Owned c ci h"
  shows "\<not> Owned c (ci + cq_entries c) h"
proof -
  have "cq_entries c = 2 ^ k" "k < 32" using assms(1) by (simp_all add: cq_ok_def)
  then show ?thesis
    using assms(2) ExpectedOwner_bit [OF assms(1)] bit_add_exp [of k ci] by (auto simp: Owned_def split: if_splits)
qed

lemma slot_lap:
  assumes "cq_ok c k"
  shows "cq_Entry c (ci + cq_entries c) = cq_Entry c ci" "cq_header c (ci + cq_entries c) = cq_header c ci"
proof -
  have "(2 :: nat) ^ k \<le> 2 ^ 26" using assms by (simp only: cq_ok_def power_increasing_iff)
  then have k: "cq_entries c = of_nat (2 ^ k)" "is_pow2 (2 ^ k)" "(2 :: nat) ^ k \<le> 2 ^ LENGTH(32)"
    using assms by (simp_all add: cq_ok_def)
  have "unat (ci + cq_entries c) mod 2 ^ k = unat ci mod 2 ^ k"
    unfolding k(1) unat_add_mod [OF k(2,3)] by simp
  then show "cq_Entry c (ci + cq_entries c) = cq_Entry c ci" "cq_header c (ci + cq_entries c) = cq_header c ci"
    using assms by (simp_all add: cq_Entry_some cq_header_some)
qed

section \<open>Properties\<close>

text \<open>C26: the owner bit tells a new completion from one of the lap before. For any completion queue
  \<open>NewCQ\<close> accepts and any value of the free-running consumer index, the entry and its header can be
  read without a panic and lie inside the queue; an index one lap on names the same slot; and while
  the slot still holds a header that was owned on one lap, it is not owned on the next, also where
  the 32-bit index wraps, so no completion is ever consumed twice. A slot the hardware never wrote,
  which reads as the invalid opcode, is never owned.\<close>

theorem cq_owner_bit:
  assumes "NewCQ buf sz = Inr c" "length buf \<le> 2 ^ 32"
  shows "(\<exists>e h. cq_Entry c ci = Some e \<and> length e = CQESize \<and> cq_header c ci = Some h \<and> h = be_word (drop cqeHeader e)
       \<and> cq_Entry c (ci + cq_entries c) = Some e \<and> cq_header c (ci + cq_entries c) = Some h)
     \<and> (Owned c ci header \<longrightarrow> \<not> Owned c (ci + cq_entries c) header)
     \<and> (Opcode header = CQEInvalid \<longrightarrow> \<not> Owned c ci header)"
proof -
  obtain k where k: "cq_ok c k" using NewCQ_ok [OF assms] by blast
  have "length (take 64 (drop (unat ci mod 2 ^ k * 64) (cq_buf c))) = 64"
    using slot_bound(1) [OF k, of ci] by simp
  then show ?thesis
    using cq_Entry_some [OF k, of ci] cq_header_Entry [OF k] slot_lap [OF k, of ci] Owned_lap [OF k, of ci header]
    by (auto simp: CQESize_def cqeHeader_def Owned_def)
qed

theorem cq_owner_bit_witness:
  "\<exists>c. NewCQ (replicate 128 0) 64 = Inr c \<and> Owned c (- 1) 1 \<and> \<not> Owned c (- 1 + cq_entries c) 1"
proof -
  have "case NewCQ (replicate 128 0) 64 of Inl _ \<Rightarrow> False | Inr c \<Rightarrow> Owned c (- 1) 1" by code_simp
  then obtain c where c: "NewCQ (replicate 128 0) 64 = Inr c" "Owned c (- 1) 1"
    by (auto split: sum.split_asm)
  then show ?thesis using cq_owner_bit [OF c(1), of "- 1" 1] by auto
qed

end
