(* ===== verification/Mlx5_Tx.thy ===== *)
theory Mlx5_Tx
  imports Offload Wqe_Device Wqe_Cqe
begin

text \<open>
  The mlx5 send ring, \<^verbatim>\<open>mlx5/internal/ring/tx.go\<close>: what goes in the send queue, who owns each frame,
  and how completions hand frames back. The sender, the multi-packet sender and \<open>sqBytes\<close> of the Go
  struct share one buffer; here that buffer is the field \<open>tx_sq\<close>, which every builder call is given
  and whose new value is stored back. A doorbell record is the bytes last stored in it, a user
  access region the eight bytes last written to it. \<open>None\<close> is a Go panic.
\<close>

section \<open>State\<close>

record tx_counters =
  c_packets :: u64
  c_bytes :: u64
  c_completed :: u64
  c_batches :: u64
  c_completions :: u64
  c_ringFull :: u64
  c_errors :: u64
  c_badDesc :: u64
  c_sincePublish :: u32

record tx_stats =
  st_Packets :: u64
  st_Bytes :: u64
  st_Completed :: u64
  st_Batches :: u64
  st_Completions :: u64
  st_RingFull :: u64
  st_Errors :: u64
  st_BadDesc :: u64

record entry_meta =
  em_slotTail :: u32
  em_bbs :: u16

record tx =
  tx_sender :: sender
  tx_mpw :: "mpw_sender option"
  tx_cq :: cq
  tx_sqDbrec :: bytes
  tx_cqDbrec :: bytes
  tx_uar :: bytes
  tx_region :: bytes
  tx_regionVA :: u64
  tx_frameMask :: u64
  tx_sq :: sq
  tx_bbs :: u32
  tx_bbMask :: u32
  tx_maxBBs :: u32
  tx_pi :: u32
  tx_head :: u32
  tx_ci :: u32
  tx_slots :: "desc list"
  tx_slotMask :: u32
  tx_slotHead :: u32
  tx_slotTail :: u32
  tx_meta :: "entry_meta list"
  tx_signalEvery :: u32
  tx_sinceSignal :: u32
  tx_failed :: "error_info option"
  tx_c :: tx_counters
  tx_Stats :: tx_stats

record tx_config =
  tc_SQ :: bytes
  tc_CQ :: bytes
  tc_SQDbrec :: "bytes option"
  tc_CQDbrec :: "bytes option"
  tc_UAR :: "bytes option"
  tc_QPN :: u32
  tc_LKey :: u32
  tc_Region :: bytes
  tc_RegionVA :: u64
  tc_FrameSize :: int
  tc_InlineLen :: int
  tc_CSFlags :: u8
  tc_MultiPacket :: bool
  tc_MultiPacketMaxLen :: int
  tc_MultiPacketPointer :: bool
  tc_SignalEvery :: int

datatype ring_cfg_error = WqeErr wqe_error | MissingDoorbell | CQTooSmall u32 u32 | NeedsMaxLen
  | InlineWithMPW int | BlocksNotPow2 u32 | FrameSizeNotPow2 int | RegionNotWhole nat int

section \<open>Construction and bookkeeping\<close>

definition publishEvery :: u32 where "publishEvery = 256"

definition tx_publish :: "tx \<Rightarrow> tx" where
  "tx_publish t =
     (let c = tx_c t
      in t\<lparr>tx_c := c\<lparr>c_sincePublish := 0\<rparr>,
           tx_Stats := \<lparr>st_Packets = c_packets c, st_Bytes = c_bytes c, st_Completed = c_completed c,
             st_Batches = c_batches c, st_Completions = c_completions c, st_RingFull = c_ringFull c,
             st_Errors = c_errors c, st_BadDesc = c_badDesc c\<rparr>\<rparr>)"

definition tx_tick :: "tx \<Rightarrow> tx" where
  "tx_tick t =
     (let t1 = t\<lparr>tx_c := (tx_c t)\<lparr>c_sincePublish := c_sincePublish (tx_c t) + 1\<rparr>\<rparr>
      in if c_sincePublish (tx_c t1) \<ge> publishEvery then tx_publish t1 else t1)"

definition tx_Sync :: "tx \<Rightarrow> tx" where
  "tx_Sync t = tx_publish t"

text \<open>\<open>nextPow2\<close> doubles until it reaches \<open>n\<close>; above \<open>2 ^ 31\<close> the 32-bit shift drops the bit and the
  Go loop never ends, which the fuel turns into \<open>None\<close>.\<close>

fun nextPow2_from :: "nat \<Rightarrow> u32 \<Rightarrow> u32 \<Rightarrow> u32 option" where
  "nextPow2_from fuel p n =
     (if p < n then (case fuel of 0 \<Rightarrow> None | Suc f \<Rightarrow> nextPow2_from f (push_bit 1 p) n) else Some p)"

definition nextPow2 :: "u32 \<Rightarrow> u32 option" where
  "nextPow2 n = nextPow2_from 32 1 n"

definition ones32 :: "u32 \<Rightarrow> nat" where
  "ones32 w = ones_count (unat w)"

text \<open>The multi-packet builder, when it is asked for, and how many slots a block can need.\<close>

definition NewTx_mpw :: "tx_config \<Rightarrow> sq \<Rightarrow> (ring_cfg_error + mpw_sender option \<times> u32) option" where
  "NewTx_mpw cfg q =
     (if \<not> tc_MultiPacket cfg then Some (Inr (None, 1))
      else if tc_MultiPacketMaxLen cfg \<le> 0 \<and> \<not> tc_MultiPacketPointer cfg then Some (Inl NeedsMaxLen)
      else if tc_InlineLen cfg \<noteq> 0 then Some (Inl (InlineWithMPW (tc_InlineLen cfg)))
      else do {
        m \<leftarrow> NewMPWSender q \<lparr>mc_QPN = tc_QPN cfg, mc_CSFlags = tc_CSFlags cfg,
               mc_MaxLen = tc_MultiPacketMaxLen cfg, mc_Pointer = tc_MultiPacketPointer cfg,
               mc_LKey = tc_LKey cfg\<rparr>;
        let perEntry = (of_nat MaxDS - 2 :: u32);
        let entryBlocks = ((2 + perEntry) * of_nat Octoword) div of_nat WQEBB;
        let spb = (perEntry + entryBlocks - 1) div entryBlocks;
        Some (case m of Inl e \<Rightarrow> Inl (WqeErr e)
              | Inr mpw \<Rightarrow> Inr (Some mpw, if spb = 0 then 1 else spb)) })"

definition tx_fresh :: "tx_config \<Rightarrow> sq \<Rightarrow> cq \<Rightarrow> sender \<Rightarrow> mpw_sender option \<Rightarrow> u32 \<Rightarrow> bytes \<Rightarrow> bytes \<Rightarrow> bytes \<Rightarrow> tx" where
  "tx_fresh cfg q c s mpw slots sqdb cqdb uar =
     \<lparr>tx_sender = s, tx_mpw = mpw, tx_cq = c, tx_sqDbrec = sqdb, tx_cqDbrec = cqdb,
      tx_uar = uar, tx_region = tc_Region cfg, tx_regionVA = tc_RegionVA cfg,
      tx_frameMask = of_int (tc_FrameSize cfg) - 1, tx_sq = q, tx_bbs = sq_BBs q,
      tx_bbMask = sq_BBs q - 1, tx_maxBBs = s_maxBBs s, tx_pi = 0, tx_head = 0, tx_ci = 0,
      tx_slots = replicate (unat slots) \<lparr>d_addr = 0, d_len = 0, d_options = 0\<rparr>,
      tx_slotMask = slots - 1, tx_slotHead = 0, tx_slotTail = 0,
      tx_meta = replicate (unat (sq_BBs q)) \<lparr>em_slotTail = 0, em_bbs = 0\<rparr>,
      tx_signalEvery = of_int (tc_SignalEvery cfg), tx_sinceSignal = 0, tx_failed = None,
      tx_c = \<lparr>c_packets = 0, c_bytes = 0, c_completed = 0, c_batches = 0, c_completions = 0,
        c_ringFull = 0, c_errors = 0, c_badDesc = 0, c_sincePublish = 0\<rparr>,
      tx_Stats = \<lparr>st_Packets = 0, st_Bytes = 0, st_Completed = 0, st_Batches = 0,
        st_Completions = 0, st_RingFull = 0, st_Errors = 0, st_BadDesc = 0\<rparr>\<rparr>"

definition NewTx :: "tx_config \<Rightarrow> (ring_cfg_error + tx) option" where
  "NewTx cfg =
     (case NewSQ (tc_SQ cfg) of Inl e \<Rightarrow> Some (Inl (WqeErr e)) | Inr q \<Rightarrow>
      case NewCQ (tc_CQ cfg) (int CQESize) of Inl e \<Rightarrow> Some (Inl (WqeErr e)) | Inr c \<Rightarrow>
      case NewSender q \<lparr>sc_QPN = tc_QPN cfg, sc_LKey = tc_LKey cfg, sc_InlineLen = tc_InlineLen cfg,
             sc_CSFlags = tc_CSFlags cfg\<rparr> of Inl e \<Rightarrow> Some (Inl (WqeErr e)) | Inr s \<Rightarrow>
      case (tc_SQDbrec cfg, tc_CQDbrec cfg, tc_UAR cfg) of
        (Some sqdb, Some cqdb, Some uar) \<Rightarrow>
          if cq_entries c < sq_BBs q then Some (Inl (CQTooSmall (cq_entries c) (sq_BBs q)))
          else do {
            r \<leftarrow> NewTx_mpw cfg q;
            case r of Inl e \<Rightarrow> Some (Inl e)
            | Inr (mpw, slotsPerBlock) \<Rightarrow> do {
                slots \<leftarrow> nextPow2 (sq_BBs q * slotsPerBlock);
                let t = tx_fresh cfg q c s mpw slots sqdb cqdb uar;
                Some (if ones32 (tx_bbs t) \<noteq> 1 then Inl (BlocksNotPow2 (tx_bbs t))
                      else if tc_FrameSize cfg \<le> 0 \<or> ones_count (unat (of_int (tc_FrameSize cfg) :: u64)) \<noteq> 1
                      then Inl (FrameSizeNotPow2 (tc_FrameSize cfg))
                      else if int (length (tc_Region cfg)) mod tc_FrameSize cfg \<noteq> 0
                      then Inl (RegionNotWhole (length (tc_Region cfg)) (tc_FrameSize cfg))
                      else Inr t) } }
      | _ \<Rightarrow> Some (Inl MissingDoorbell))"

definition tx_descOK :: "tx \<Rightarrow> desc \<Rightarrow> bool" where
  "tx_descOK t d \<longleftrightarrow> d_addr d < of_nat (length (tx_region t))
     \<and> ucast (d_len d) - 1 < tx_frameMask t + 1 - (d_addr d AND tx_frameMask t)"

definition entryBlocksFor :: "u32 \<Rightarrow> u32 \<Rightarrow> u32" where
  "entryBlocksFor maxLen packets =
     (let perPacket = (4 + maxLen + of_nat Octoword - 1) div of_nat Octoword;
          ds = 2 + packets * perPacket;
          blocks = (ds * of_nat Octoword + of_nat WQEBB - 1) div of_nat WQEBB
      in if blocks = 0 then 1 else blocks)"

definition tx_FreeSlots :: "tx \<Rightarrow> int" where
  "tx_FreeSlots t =
     (if tx_failed t \<noteq> None then 0
      else let free = tx_bbs t - (tx_pi t - tx_head t)
      in case tx_mpw t of
        Some m \<Rightarrow>
          (let byBlocks =
             (if m_pointer m
              then let perEntry = 58; entryBBs = 15;
                       whole = (ucast (free div entryBBs) :: u64) * perEntry;
                       rem = int (unat (free mod entryBBs)) * 4 - 2
                   in if rem > 0 then whole + of_int rem else whole
              else let perPacket = (4 + of_int (m_maxLen m) + 16 - 1) div 16
                   in (ucast free :: u64) * 4 div perPacket);
             bySlots = (ucast (of_nat (length (tx_slots t)) - (tx_slotTail t - tx_slotHead t) :: u32) :: u64)
           in int (unat (if byBlocks > bySlots then bySlots else byBlocks)))
      | None \<Rightarrow> int (unat (free div tx_maxBBs t)))"

definition tx_Capacity :: "tx \<Rightarrow> nat" where
  "tx_Capacity t = unat (tx_bbs t div tx_maxBBs t)"

definition tx_InFlight :: "tx \<Rightarrow> nat" where
  "tx_InFlight t = unat (tx_slotTail t - tx_slotHead t)"

definition tx_Failed :: "tx \<Rightarrow> error_info option" where
  "tx_Failed t = tx_failed t"

section \<open>Posting\<close>

text \<open>\<open>t.region[d.Addr:d.Addr+uint64(d.Len)]\<close>.\<close>

definition region_slice :: "tx \<Rightarrow> desc \<Rightarrow> bytes option" where
  "region_slice t d =
     (let a = d_addr d; e = a + ucast (d_len d)
      in if a \<le> e \<and> unat e \<le> length (tx_region t)
         then Some (take (unat (e - a)) (drop (unat a) (tx_region t))) else None)"

text \<open>The three builder calls, on the shared send queue buffer.\<close>

definition tx_Put :: "tx \<Rightarrow> u16 \<Rightarrow> bytes \<Rightarrow> u64 \<Rightarrow> bool \<Rightarrow> (u32 \<times> tx) option" where
  "tx_Put t idx frame addr signal =
     map_option (\<lambda>(n, s). (n, t\<lparr>tx_sq := s_sq s\<rparr>))
       (Sender_Put ((tx_sender t)\<lparr>s_sq := tx_sq t\<rparr>) idx frame addr signal)"

definition tx_PutMulti :: "tx \<Rightarrow> mpw_sender \<Rightarrow> u16 \<Rightarrow> bytes list \<Rightarrow> tx option" where
  "tx_PutMulti t m idx frames =
     map_option (\<lambda>(n, s). t\<lparr>tx_sq := m_sq s\<rparr>) (MPWSender_Put (m\<lparr>m_sq := tx_sq t\<rparr>) idx frames False)"

definition tx_PutPointers :: "tx \<Rightarrow> mpw_sender \<Rightarrow> u16 \<Rightarrow> bytes list \<Rightarrow> u64 list \<Rightarrow> tx option" where
  "tx_PutPointers t m idx frames addrs =
     map_option (\<lambda>(n, s). t\<lparr>tx_sq := m_sq s\<rparr>)
       (MPWSender_PutPointers (m\<lparr>m_sq := tx_sq t\<rparr>) idx frames addrs False)"

text \<open>\<open>t.slots[t.slotTail\&t.slotMask] = d; t.slotTail++\<close>.\<close>

definition push_slot :: "desc \<Rightarrow> tx \<Rightarrow> tx option" where
  "push_slot d t =
     (let i = unat (tx_slotTail t AND tx_slotMask t)
      in if i < length (tx_slots t)
         then Some (t\<lparr>tx_slots := (tx_slots t)[i := d], tx_slotTail := tx_slotTail t + 1\<rparr>) else None)"

text \<open>\<open>t.meta[t.pi\&t.bbMask] = entryMeta{...}; t.pi += bbs\<close>.\<close>

definition push_meta :: "u32 \<Rightarrow> tx \<Rightarrow> tx option" where
  "push_meta bbs t =
     (let i = unat (tx_pi t AND tx_bbMask t)
      in if i < length (tx_meta t)
         then Some (t\<lparr>tx_meta := (tx_meta t)[i := \<lparr>em_slotTail = tx_slotTail t, em_bbs = ucast bbs\<rparr>],
                      tx_pi := tx_pi t + bbs\<rparr>)
         else None)"

definition count_tx :: "(tx_counters \<Rightarrow> tx_counters) \<Rightarrow> tx \<Rightarrow> tx" where
  "count_tx f t = t\<lparr>tx_c := f (tx_c t)\<rparr>"

definition tx_doorbell :: "u16 \<Rightarrow> tx \<Rightarrow> tx option" where
  "tx_doorbell lastIdx t =
     do { o8 \<leftarrow> FirstOctoword (tx_sq t) lastIdx;
          Some (t\<lparr>tx_sqDbrec := be32 (tx_pi t AND 0xffff), tx_uar := o8\<rparr>) }"

text \<open>The state of a posting loop besides the ring.\<close>

record post_acc =
  pa_bytes :: u64
  pa_lastIdx :: u16
  pa_posted :: nat

fun post_each :: "nat \<Rightarrow> nat \<Rightarrow> desc list \<Rightarrow> tx \<Rightarrow> post_acc \<Rightarrow> (tx \<times> post_acc) option" where
  "post_each i n [] t a = Some (t, a)"
| "post_each i n (d # ds) t a =
     (if \<not> tx_descOK t d then Some (count_tx (\<lambda>c. c\<lparr>c_badDesc := c_badDesc c + 1\<rparr>) t, a)
      else let idx = ucast (tx_pi t);
               since = tx_sinceSignal t + 1;
               signal = (Suc i = n \<or> (tx_signalEvery t \<noteq> 0 \<and> since \<ge> tx_signalEvery t));
               t0 = t\<lparr>tx_sinceSignal := (if signal then 0 else since)\<rparr>
           in do { frame \<leftarrow> region_slice t0 d;
                   (bbs, t1) \<leftarrow> tx_Put t0 idx frame (tx_regionVA t0 + d_addr d) signal;
                   t2 \<leftarrow> push_slot d t1;
                   t3 \<leftarrow> push_meta bbs t2;
                   post_each (Suc i) n ds t3
                     \<lparr>pa_bytes = pa_bytes a + ucast (d_len d), pa_lastIdx = idx, pa_posted = Suc (pa_posted a)\<rparr> })"

definition post_counts :: "nat \<Rightarrow> u64 \<Rightarrow> tx_counters \<Rightarrow> tx_counters" where
  "post_counts n bytes c =
     c\<lparr>c_packets := c_packets c + of_nat n, c_bytes := c_bytes c + bytes, c_batches := c_batches c + 1\<rparr>"

text \<open>The loop of \<open>postMulti\<close>.\<close>

record multi =
  mu_bytes :: u64
  mu_lastIdx :: u16
  mu_posted :: nat
  mu_anyPut :: bool
  mu_bad :: bool
  mu_checked :: nat

text \<open>Gathering the frames of one entry from \<open>i\<close> to \<open>limit\<close>: a refused descriptor stops it.\<close>

function gather :: "bool \<Rightarrow> desc list \<Rightarrow> nat \<Rightarrow> nat \<Rightarrow> tx \<Rightarrow> multi \<Rightarrow> bytes list \<Rightarrow> u64 list
    \<Rightarrow> (tx \<times> multi \<times> bytes list \<times> u64 list) option" where
  "gather pointer descs i limit t m frames paddrs =
     (if \<not> i < limit then Some (t, m, frames, paddrs)
      else if \<not> i < length descs then None
      else let d = descs ! i
           in if mu_checked m \<le> i \<and> \<not> tx_descOK t d
              then Some (count_tx (\<lambda>c. c\<lparr>c_badDesc := c_badDesc c + 1\<rparr>) t, m\<lparr>mu_bad := True\<rparr>, frames, paddrs)
              else let m1 = (if mu_checked m \<le> i then m\<lparr>mu_checked := Suc i\<rparr> else m)
                   in do { f \<leftarrow> region_slice t d;
                           gather pointer descs (Suc i) limit t m1 (frames @ [f])
                             (if pointer then paddrs @ [tx_regionVA t + d_addr d] else paddrs) })"
  by auto
termination
  by (relation "measure (\<lambda>(_, _, i, limit, _). limit - i)") auto

declare gather.simps [simp del]

definition mpwBlocks :: "bytes list \<Rightarrow> u32" where
  "mpwBlocks frames =
     (let ds = fold (\<lambda>f ds. ds + (4 + of_nat (length f) + of_nat Octoword - 1) div of_nat Octoword) frames 2
      in (ds * of_nat Octoword + of_nat WQEBB - 1) div of_nat WQEBB)"

fun push_slots :: "desc list \<Rightarrow> tx \<Rightarrow> tx option" where
  "push_slots [] t = Some t"
| "push_slots (d # ds) t = do { t1 \<leftarrow> push_slot d t; push_slots ds t1 }"

text \<open>One turn of the loop: \<open>Inl\<close> leaves it, \<open>Inr\<close> goes round again. The switch writes the entry and
  gives its blocks and packets; zero blocks, or more than are free, means nothing was written.\<close>

definition multi_write :: "tx \<Rightarrow> mpw_sender \<Rightarrow> desc \<Rightarrow> u32 \<Rightarrow> bytes list \<Rightarrow> u64 list \<Rightarrow> (u32 \<times> nat \<times> tx) option" where
  "multi_write t mpw d free frames paddrs =
     (let k = MPWSender_Fits mpw frames; idx = ucast (tx_pi t)
      in if k \<ge> 2 \<and> m_pointer mpw
         then let bbs = (of_nat (2 + k) * of_nat Octoword + of_nat WQEBB - 1) div of_nat WQEBB
              in if bbs > free then Some (bbs, k, t)
                 else do { t1 \<leftarrow> tx_PutPointers t mpw idx (take k frames) (take k paddrs); Some (bbs, k, t1) }
         else if k \<ge> 2
         then let bbs = mpwBlocks (take k frames)
              in if bbs > free then Some (bbs, k, t)
                 else do { t1 \<leftarrow> tx_PutMulti t mpw idx (take k frames); Some (bbs, k, t1) }
         else if tx_maxBBs t > free then Some (0, 1, t)
         else do { f \<leftarrow> region_slice t d;
                   (bbs, t1) \<leftarrow> tx_Put t idx f (tx_regionVA t + d_addr d) False;
                   Some (bbs, 1, t1) })"

definition multi_turn :: "mpw_sender \<Rightarrow> desc list \<Rightarrow> tx \<Rightarrow> multi \<Rightarrow> (tx \<times> multi + tx \<times> multi) option" where
  "multi_turn mpw descs t m =
     (let free = tx_bbs t - (tx_pi t - tx_head t); posted = mu_posted m
      in if free = 0 \<or> tx_slotTail t - tx_slotHead t = of_nat (length (tx_slots t)) then Some (Inl (t, m))
         else let limit0 = (if posted + MaxDS - 2 > length descs then length descs else posted + MaxDS - 2);
                  room = unat (tx_slotTail t - tx_slotHead t);
                  limit = (if int limit0 - int posted > int (length (tx_slots t)) - int room
                           then nat (int posted + int (length (tx_slots t)) - int room) else limit0)
              in do { (t1, m1, frames, paddrs) \<leftarrow> gather (m_pointer mpw) descs posted limit t m [] [];
                      if frames = [] then Some (Inl (t1, m1))
                      else do { (bbs, k, t2) \<leftarrow> multi_write t1 mpw (descs ! posted) free frames paddrs;
                                if bbs = 0 \<or> bbs > free then Some (Inl (t2, m1))
                                else if posted + k > length descs then None
                                else let ds = take k (drop posted descs)
                                     in do { t3 \<leftarrow> push_slots ds t2;
                                             t4 \<leftarrow> push_meta bbs t3;
                                             Some (Inr (t4, m1\<lparr>mu_bytes := mu_bytes m1 + (\<Sum>d\<leftarrow>ds. ucast (d_len d)),
                                               mu_lastIdx := ucast (tx_pi t2), mu_posted := posted + k,
                                               mu_anyPut := True\<rparr>)) } } })"

text \<open>Every turn that goes round again has posted at least one packet, which is why the loop ends.\<close>

lemma multi_write_packets: "multi_write t mpw d free frames paddrs = Some (bbs, k, t1) \<Longrightarrow> 0 < k"
  by (auto simp: multi_write_def Let_def bind_eq_Some_conv split: if_splits)

lemma gather_posted: "gather p descs i limit t m fs ps = Some (t1, m1, fs1, ps1) \<Longrightarrow> mu_posted m1 = mu_posted m"
proof (induction "limit - i" arbitrary: p i m fs ps)
  case 0
  then show ?case by (subst (asm) gather.simps) simp
next
  case (Suc n)
  then have n: "n = limit - Suc i" by simp
  from Suc.prems show ?case
    by (subst (asm) gather.simps)
       (auto simp: Let_def bind_eq_Some_conv dest: Suc.hyps(1) [OF n] split: if_splits)
qed

lemma multi_turn_progress: "multi_turn mpw descs t m = Some (Inr (t1, m1)) \<Longrightarrow> mu_posted m < mu_posted m1"
  by (auto simp: multi_turn_def Let_def bind_eq_Some_conv dest!: multi_write_packets gather_posted split: if_splits)

function multi_loop :: "mpw_sender \<Rightarrow> desc list \<Rightarrow> tx \<Rightarrow> multi \<Rightarrow> (tx \<times> multi) option" where
  "multi_loop mpw descs t m =
     (if \<not> (mu_posted m < length descs \<and> \<not> mu_bad m) then Some (t, m)
      else case multi_turn mpw descs t m of
        None \<Rightarrow> None
      | Some (Inl r) \<Rightarrow> Some r
      | Some (Inr (t1, m1)) \<Rightarrow> multi_loop mpw descs t1 m1)"
  by auto
termination
  by (relation "measure (\<lambda>(_, descs, _, m). length descs - mu_posted m)") (auto dest!: multi_turn_progress)

declare multi_loop.simps [simp del]

definition setSignaled :: "u16 \<Rightarrow> tx \<Rightarrow> tx option" where
  "setSignaled idx t =
     (let b = sq_buf (tx_sq t);
          off = (ucast idx * of_nat WQEBB) AND (of_nat (length b) - 1) :: u32;
          i = unat (off + 11)
      in if i < length b
         then Some (t\<lparr>tx_sq := (tx_sq t)\<lparr>sq_buf := b[i := b ! i OR ucast CtrlCQUpdate]\<rparr>\<rparr>) else None)"

definition postMulti :: "mpw_sender \<Rightarrow> desc list \<Rightarrow> tx \<Rightarrow> (nat \<times> tx) option" where
  "postMulti mpw descs t =
     do { (t1, m) \<leftarrow> multi_loop mpw descs t \<lparr>mu_bytes = 0, mu_lastIdx = 0, mu_posted = 0, mu_anyPut = False,
            mu_bad = False, mu_checked = 0\<rparr>;
          if \<not> mu_anyPut m then Some (0, tx_publish (count_tx (\<lambda>c. c\<lparr>c_ringFull := c_ringFull c + 1\<rparr>) t1))
          else do { t2 \<leftarrow> setSignaled (mu_lastIdx m) t1;
                    t3 \<leftarrow> tx_doorbell (mu_lastIdx m) t2;
                    Some (mu_posted m, tx_tick (count_tx (post_counts (mu_posted m) (mu_bytes m)) t3)) } }"

definition tx_Post :: "desc list \<Rightarrow> tx \<Rightarrow> (nat \<times> tx) option" where
  "tx_Post descs t =
     (if tx_failed t \<noteq> None then Some (0, t)
      else let free = tx_FreeSlots t
      in if int (length descs) > free \<and> free = 0
         then Some (0, tx_publish (count_tx (\<lambda>c. c\<lparr>c_ringFull := c_ringFull c + 1\<rparr>) t))
         else let n = (if int (length descs) > free then nat free else length descs)
         in if n = 0 then Some (0, t)
            else case tx_mpw t of
              Some mpw \<Rightarrow> postMulti mpw (take n descs) t
            | None \<Rightarrow>
                do { (t1, a) \<leftarrow> post_each 0 n (take n descs) t \<lparr>pa_bytes = 0, pa_lastIdx = 0, pa_posted = 0\<rparr>;
                     if pa_posted a = 0 then Some (0, tx_publish t1)
                     else do { t2 \<leftarrow> tx_doorbell (pa_lastIdx a) t1;
                               Some (pa_posted a, tx_tick (count_tx (post_counts (pa_posted a) (pa_bytes a)) t2)) } })"

section \<open>Completing\<close>

text \<open>\<open>entryFor\<close>: the slot position and block index an entry in flight accounts for. The inner option
  is the Go \<open>ok\<close>.\<close>

definition entryFor :: "tx \<Rightarrow> u32 \<Rightarrow> (u32 \<times> u32) option option" where
  "entryFor t header =
     (let counter = WQECounter header;
          delta = ucast (counter - ucast (tx_head t)) :: u32
      in if delta \<ge> tx_pi t - tx_head t then Some None
         else let i = unat ((tx_head t + delta) AND tx_bbMask t)
              in if \<not> i < length (tx_meta t) then None
                 else let e = tx_meta t ! i; used = em_slotTail e - tx_slotHead t
                      in if em_bbs e = 0 then Some None
                         else if used = 0 \<or> used > tx_slotTail t - tx_slotHead t then Some None
                         else Some (Some (em_slotTail e, tx_head t + delta + ucast (em_bbs e))))"

record comp_acc =
  ca_release :: u32
  ca_newHead :: u32
  ca_haveAny :: bool
  ca_completed :: u64

definition consume_cqe :: "tx \<Rightarrow> tx" where
  "consume_cqe t = t\<lparr>tx_ci := tx_ci t + 1\<rparr>"

definition count_error :: "tx \<Rightarrow> tx" where
  "count_error t = count_tx (\<lambda>c. c\<lparr>c_errors := c_errors c + 1\<rparr>) t"

text \<open>An error completion: count it and latch the first one.\<close>

definition latch_error :: "tx \<Rightarrow> tx option" where
  "latch_error t =
     do { e \<leftarrow> cq_Entry (tx_cq t) (tx_ci t - 1);
          info \<leftarrow> cqe_Error e;
          Some ((count_error t)\<lparr>tx_failed := (case tx_failed t of None \<Rightarrow> Some info | Some x \<Rightarrow> Some x)\<rparr>) }"

fun complete_loop :: "nat \<Rightarrow> int \<Rightarrow> tx \<Rightarrow> comp_acc \<Rightarrow> (tx \<times> comp_acc) option" where
  "complete_loop 0 mx t a = Some (t, a)"
| "complete_loop (Suc n) mx t a =
     do { header \<leftarrow> cq_header (tx_cq t) (tx_ci t);
          if \<not> Owned (tx_cq t) (tx_ci t) header then Some (t, a)
          else if Format header \<noteq> CQEFormatNoData then Some (count_error t, a)
          else if Opcode header \<noteq> CQEReq \<and> Opcode header \<noteq> CQEReqErr
          then complete_loop n mx (count_error (consume_cqe t)) (a\<lparr>ca_completed := ca_completed a + 1\<rparr>)
          else do { r \<leftarrow> entryFor t header;
                    if (case r of None \<Rightarrow> False | Some (target, _) \<Rightarrow> ca_haveAny a \<and> target - tx_slotHead t > of_int mx)
                    then Some (t, a)
                    else let a1 = a\<lparr>ca_completed := ca_completed a + 1\<rparr>
                    in do { t1 \<leftarrow> (if Opcode header = CQEReqErr then latch_error (consume_cqe t)
                                  else Some (consume_cqe t));
                            case r of
                              None \<Rightarrow> complete_loop n mx (count_error t1) a1
                            | Some (target, nh) \<Rightarrow>
                                (let a2 = a1\<lparr>ca_release := target, ca_newHead := nh, ca_haveAny := True\<rparr>
                                 in if target - tx_slotHead t1 \<ge> of_int mx then Some (t1, a2)
                                    else complete_loop n mx t1 a2) } } }"

function release_slots :: "u32 \<Rightarrow> tx \<Rightarrow> desc list \<Rightarrow> (desc list \<times> tx) option" where
  "release_slots rel t out =
     (if tx_slotHead t = rel then Some (out, t)
      else let i = unat (tx_slotHead t AND tx_slotMask t)
           in if \<not> i < length (tx_slots t) then None
              else release_slots rel (t\<lparr>tx_slotHead := tx_slotHead t + 1\<rparr>) (out @ [tx_slots t ! i]))"
  by auto
termination
proof (relation "measure (\<lambda>(rel, t, _). unat (rel - tx_slotHead t))", simp)
  fix rel :: u32 and t :: tx and out :: "desc list" and i
  assume "tx_slotHead t \<noteq> rel"
  then have "rel - tx_slotHead t \<noteq> 0" by auto
  then have "unat (rel - tx_slotHead t - 1) < unat (rel - tx_slotHead t)"
    by (metis unat_minus_one diff_less less_one unat_gt_0 unat_eq_zero bot_nat_0.not_eq_extremum)
  then show "((rel, t\<lparr>tx_slotHead := tx_slotHead t + 1\<rparr>, out @ [tx_slots t ! i]), rel, t, out)
      \<in> measure (\<lambda>(rel, t, _). unat (rel - tx_slotHead t))"
    by (simp add: algebra_simps)
qed

declare release_slots.simps [simp del]

definition tx_Complete :: "int \<Rightarrow> desc list \<Rightarrow> tx \<Rightarrow> (desc list \<times> tx) option" where
  "tx_Complete mx out t =
     (if mx \<le> 0 then Some (out, t)
      else do { (t1, a) \<leftarrow> complete_loop (unat (cq_entries (tx_cq t))) mx t
                   \<lparr>ca_release = 0, ca_newHead = 0, ca_haveAny = False, ca_completed = 0\<rparr>;
                if ca_completed a = 0 then Some (out, t1)
                else do { let t2 = count_tx (\<lambda>c. c\<lparr>c_completions := c_completions c + ca_completed a\<rparr>) t1;
                          (out1, t3) \<leftarrow>
                            (if \<not> ca_haveAny a then Some (out, t2)
                             else do { let freed = ca_release a - tx_slotHead t2;
                                       (o1, u) \<leftarrow> release_slots (ca_release a) t2 out;
                                       let u1 = (count_tx (\<lambda>c. c\<lparr>c_completed := c_completed c + ucast freed\<rparr>) u)
                                                  \<lparr>tx_head := ca_newHead a\<rparr>;
                                       Some (o1, if tx_slotTail u1 = tx_slotHead u1 then tx_publish u1 else u1) });
                          Some (out1, t3\<lparr>tx_cqDbrec := be32 (tx_ci t3 AND 0xffffff)\<rparr>) } })"

fun completable_loop :: "nat \<Rightarrow> u32 \<Rightarrow> tx \<Rightarrow> u32 option \<Rightarrow> u32 option option" where
  "completable_loop 0 ci t rel = Some rel"
| "completable_loop (Suc n) ci t rel =
     do { header \<leftarrow> cq_header (tx_cq t) ci;
          if \<not> Owned (tx_cq t) ci header \<or> Format header \<noteq> CQEFormatNoData then Some rel
          else if Opcode header = CQEReq \<or> Opcode header = CQEReqErr
          then do { r \<leftarrow> entryFor t header;
                    completable_loop n (ci + 1) t (case r of None \<Rightarrow> rel | Some (target, _) \<Rightarrow> Some target) }
          else completable_loop n (ci + 1) t rel }"

definition tx_Completable :: "tx \<Rightarrow> nat option" where
  "tx_Completable t =
     do { rel \<leftarrow> completable_loop (unat (cq_entries (tx_cq t))) (tx_ci t) t None;
          Some (case rel of None \<Rightarrow> 0 | Some r \<Rightarrow> unat (r - tx_slotHead t)) }"

end
