(* ===== verification/Mlx5_Tx_Inv.thy ===== *)
theory Mlx5_Tx_Inv
  imports Mlx5_Tx
begin

text \<open>
  The send ring as a queue of entries. \<open>tx_abs t es\<close> says that what is in flight is the list \<open>es\<close> of
  entries, oldest first, each a number of blocks and the descriptors it carries: the block counters
  span exactly their blocks, the slot ring holds exactly their descriptors, and the record kept at
  the first block of each says where its descriptors end. Posting appends entries, completing drops
  a prefix of them.
\<close>

section \<open>The slot ring\<close>

definition slot_abs :: "tx \<Rightarrow> desc list \<Rightarrow> bool" where
  "slot_abs t xs \<longleftrightarrow> ring_ok (tx_slots t) \<and> tx_slotMask t = of_nat (length (tx_slots t) - 1)
     \<and> unat (tx_slotTail t - tx_slotHead t) = length xs \<and> length xs \<le> length (tx_slots t)
     \<and> ring_list (tx_slots t) (tx_slotHead t) (length xs) = xs"

lemma slot_abs_tail: "slot_abs t xs \<Longrightarrow> tx_slotTail t = tx_slotHead t + of_nat (length xs)"
  unfolding slot_abs_def by (metis word_sub_of_nat)

lemma unat_of_nat_ring: "ring_ok b \<Longrightarrow> n \<le> length b \<Longrightarrow> unat (of_nat n :: u32) = n"
  by (rule unat_of_nat_small) (simp add: ring_ok_def)

lemma push_slot_abs:
  assumes "slot_abs t xs" "length xs < length (tx_slots t)"
  shows "\<exists>sl. push_slot d t = Some (t\<lparr>tx_slots := sl, tx_slotTail := tx_slotTail t + 1\<rparr>)
     \<and> length sl = length (tx_slots t)
     \<and> slot_abs (t\<lparr>tx_slots := sl, tx_slotTail := tx_slotTail t + 1\<rparr>) (xs @ [d])"
proof -
  let ?b = "tx_slots t" let ?i = "rslot ?b (tx_slotHead t + of_nat (length xs))"
  have ok: "ring_ok ?b" using assms(1) by (simp add: slot_abs_def)
  have tail: "tx_slotTail t = tx_slotHead t + of_nat (length xs)" using assms(1) by (rule slot_abs_tail)
  have i: "unat (tx_slotTail t AND tx_slotMask t) = ?i"
    using assms(1) tail by (simp add: slot_abs_def rslot_def)
  have lt: "?i < length ?b" using ok by (rule rslot_less)
  have "unat (of_nat (Suc (length xs)) :: u32) = Suc (length xs)"
    by (rule unat_of_nat_ring [OF ok]) (use assms(2) in linarith)
  then have u: "unat (tx_slotTail t + 1 - tx_slotHead t) = Suc (length xs)"
    unfolding tail by (simp add: algebra_simps)
  have "ring_list (?b[?i := d]) (tx_slotHead t) (Suc (length xs)) = xs @ [d]"
    using ring_list_push [OF ok assms(2)] assms(1) by (simp add: slot_abs_def)
  then have "slot_abs (t\<lparr>tx_slots := ?b[?i := d], tx_slotTail := tx_slotTail t + 1\<rparr>) (xs @ [d])"
    using u ok assms by (simp add: slot_abs_def Suc_le_eq)
  then show ?thesis
    using i lt by (intro exI [of _ "?b[?i := d]"]) (simp add: push_slot_def Let_def)
qed

lemma push_slots_abs:
  assumes "slot_abs t xs" "length xs + length ds \<le> length (tx_slots t)"
  shows "\<exists>sl. push_slots ds t = Some (t\<lparr>tx_slots := sl, tx_slotTail := tx_slotTail t + of_nat (length ds)\<rparr>)
     \<and> length sl = length (tx_slots t)
     \<and> slot_abs (t\<lparr>tx_slots := sl, tx_slotTail := tx_slotTail t + of_nat (length ds)\<rparr>) (xs @ ds)"
  using assms
proof (induction ds arbitrary: t xs)
  case Nil
  have "t\<lparr>tx_slots := tx_slots t, tx_slotTail := tx_slotTail t\<rparr> = t" by simp
  then show ?case using Nil by (intro exI [of _ "tx_slots t"]) simp
next
  case (Cons d ds)
  then have "length xs < length (tx_slots t)" by simp
  from push_slot_abs [OF Cons.prems(1) this, of d] obtain sl where
    sl: "push_slot d t = Some (t\<lparr>tx_slots := sl, tx_slotTail := tx_slotTail t + 1\<rparr>)"
      "length sl = length (tx_slots t)"
      "slot_abs (t\<lparr>tx_slots := sl, tx_slotTail := tx_slotTail t + 1\<rparr>) (xs @ [d])" by blast
  let ?t = "t\<lparr>tx_slots := sl, tx_slotTail := tx_slotTail t + 1\<rparr>"
  have "length (xs @ [d]) + length ds \<le> length (tx_slots ?t)" using Cons.prems(2) sl(2) by simp
  from Cons.IH [OF sl(3) this] obtain sl' where
    "push_slots ds ?t = Some (?t\<lparr>tx_slots := sl', tx_slotTail := tx_slotTail ?t + of_nat (length ds)\<rparr>)"
    "length sl' = length (tx_slots ?t)"
    "slot_abs (?t\<lparr>tx_slots := sl', tx_slotTail := tx_slotTail ?t + of_nat (length ds)\<rparr>) ((xs @ [d]) @ ds)"
    by blast
  then show ?case using sl by (intro exI [of _ sl']) (simp add: algebra_simps)
qed

lemma release_slots_abs:
  assumes "slot_abs t xs" "k \<le> length xs"
  shows "release_slots (tx_slotHead t + of_nat k) t out
       = Some (out @ take k xs, t\<lparr>tx_slotHead := tx_slotHead t + of_nat k\<rparr>)"
    and "slot_abs (t\<lparr>tx_slotHead := tx_slotHead t + of_nat k\<rparr>) (drop k xs)"
proof -
  let ?b = "tx_slots t"
  have ok: "ring_ok ?b" and le: "length xs \<le> length ?b" and mask: "tx_slotMask t = of_nat (length ?b - 1)"
    and xs: "ring_list ?b (tx_slotHead t) (length xs) = xs" using assms(1) by (simp_all add: slot_abs_def)
  have "release_slots (tx_slotHead t + of_nat k) (t\<lparr>tx_slotHead := tx_slotHead t + of_nat j\<rparr>) (out @ take j xs)
      = Some (out @ take k xs, t\<lparr>tx_slotHead := tx_slotHead t + of_nat k\<rparr>)" if "j \<le> k" for j
    using that
  proof (induction "k - j" arbitrary: j)
    case 0
    then show ?case by (subst release_slots.simps) simp
  next
    case (Suc n)
    let ?h = "tx_slotHead t + of_nat j"
    have j: "j < k" "j < length xs" using Suc assms(2) by simp_all
    have "unat (of_nat k :: u32) = k" "unat (of_nat j :: u32) = j"
      using ok le assms(2) j by (auto intro!: unat_of_nat_ring)
    then have ne: "?h \<noteq> tx_slotHead t + of_nat k" using j by auto
    have x: "?b ! rslot ?b ?h = xs ! j" using ring_list_nth [OF j(2), of ?b "tx_slotHead t"] xs by simp
    have i: "unat (?h AND tx_slotMask t) = rslot ?b ?h" "rslot ?b ?h < length ?b"
      using mask rslot_less [OF ok] by (simp_all add: rslot_def)
    have "out @ take j xs @ [xs ! j] = out @ take (Suc j) xs" using j by (simp add: take_Suc_conv_app_nth)
    moreover have "release_slots (tx_slotHead t + of_nat k) (t\<lparr>tx_slotHead := tx_slotHead t + of_nat (Suc j)\<rparr>) (out @ take (Suc j) xs)
        = Some (out @ take k xs, t\<lparr>tx_slotHead := tx_slotHead t + of_nat k\<rparr>)"
      using Suc j by (intro Suc.hyps(1)) simp_all
    ultimately show ?case using ne x i
      by (subst release_slots.simps) (simp add: Let_def algebra_simps)
  qed
  from this [of 0] show "release_slots (tx_slotHead t + of_nat k) t out
       = Some (out @ take k xs, t\<lparr>tx_slotHead := tx_slotHead t + of_nat k\<rparr>)" by simp
  have "unat (of_nat (length xs - k) :: u32) = length xs - k"
    by (rule unat_of_nat_ring [OF ok]) (use le in linarith)
  then have "unat (tx_slotTail t - (tx_slotHead t + of_nat k)) = length xs - k"
    using slot_abs_tail [OF assms(1)] assms(2) by (simp add: of_nat_diff)
  moreover have "ring_list ?b (tx_slotHead t + of_nat k) (length xs - k) = drop k xs"
    using ring_list_drop [OF assms(2), of ?b "tx_slotHead t"] xs by simp
  ultimately show "slot_abs (t\<lparr>tx_slotHead := tx_slotHead t + of_nat k\<rparr>) (drop k xs)"
    using ok le mask by (simp add: slot_abs_def)
qed

section \<open>Entries in flight\<close>

type_synonym entry = "nat \<times> desc list"

definition bsum :: "entry list \<Rightarrow> nat" where
  "bsum es = sum_list (map fst es)"

definition dsum :: "entry list \<Rightarrow> desc list" where
  "dsum es = concat (map snd es)"

lemma bsum_simps [simp]: "bsum [] = 0" "bsum (e # es) = fst e + bsum es" "bsum (es @ fs) = bsum es + bsum fs"
  by (simp_all add: bsum_def)

lemma dsum_simps [simp]: "dsum [] = []" "dsum (e # es) = snd e @ dsum es" "dsum (es @ fs) = dsum es @ dsum fs"
  by (simp_all add: dsum_def)

lemma bsum_take_drop: "bsum (take i es) + bsum (drop i es) = bsum es"
  by (metis append_take_drop_id bsum_simps(3))

lemma dsum_take_drop: "dsum (take i es) @ dsum (drop i es) = dsum es"
  by (metis append_take_drop_id dsum_simps(3))

lemma dsum_take_le: "length (dsum (take i es)) \<le> length (dsum es)"
  using arg_cong [OF dsum_take_drop [of i es], of length] by simp

text \<open>What \<open>NewTx\<close> fixes for good. The 16-bit counter of a completion can only place an entry when the
  queue has at most \<open>2 ^ 16\<close> blocks.\<close>

definition tx_geom :: "tx \<Rightarrow> bool" where
  "tx_geom t \<longleftrightarrow> sender_ok ((tx_sender t)\<lparr>s_sq := tx_sq t\<rparr>) \<and> (\<exists>k. cq_ok (tx_cq t) k)
     \<and> length (sq_buf (tx_sq t)) = 64 * length (tx_meta t) \<and> ring_ok (tx_meta t)
     \<and> length (tx_meta t) \<le> 65536 \<and> tx_bbs t = of_nat (length (tx_meta t))
     \<and> tx_bbMask t = of_nat (length (tx_meta t) - 1) \<and> tx_maxBBs t = s_maxBBs (tx_sender t)
     \<and> length (tx_meta t) \<le> length (tx_slots t)
     \<and> (\<exists>fs. is_pow2 fs \<and> fs < 2 ^ 31 \<and> tx_frameMask t = of_nat (fs - 1) \<and> fs dvd length (tx_region t))
     \<and> length (tx_region t) < 2 ^ 63
     \<and> (\<forall>m. tx_mpw t = Some m \<longrightarrow> m_maxPackets m \<le> 58 \<and> m_maxLen m < 2 ^ 31
          \<and> s_inlineLen (tx_sender t) = 0)"

definition tx_abs :: "tx \<Rightarrow> entry list \<Rightarrow> bool" where
  "tx_abs t es \<longleftrightarrow> tx_geom t \<and> slot_abs t (dsum es)
     \<and> unat (tx_pi t - tx_head t) = bsum es \<and> bsum es \<le> length (tx_meta t)
     \<and> (\<forall>e \<in> set es. 0 < fst e \<and> fst e \<le> 15 \<and> snd e \<noteq> [] \<and> (tx_mpw t = None \<longrightarrow> length (snd e) = 1))
     \<and> (\<forall>i < length es. tx_meta t ! rslot (tx_meta t) (tx_head t + of_nat (bsum (take i es)))
          = \<lparr>em_slotTail = tx_slotHead t + of_nat (length (dsum (take (Suc i) es))), em_bbs = of_nat (fst (es ! i))\<rparr>)"

lemma tx_abs_pi: "tx_abs t es \<Longrightarrow> tx_pi t = tx_head t + of_nat (bsum es)"
  unfolding tx_abs_def by (metis word_sub_of_nat)

lemma bsum_take_less:
  assumes "\<forall>e \<in> set es. 0 < fst e" "i < length es"
  shows "bsum (take i es) < bsum es"
proof -
  have "es ! i \<in> set es" using assms(2) by simp
  then have "0 < fst (es ! i)" using assms(1) by blast
  then have "0 < bsum (drop i es)" using assms(2) by (metis Cons_nth_drop_Suc add_gr_0 bsum_simps(2))
  then show ?thesis using bsum_take_drop [of i es] by linarith
qed

text \<open>Updates that the abstraction does not see.\<close>

lemma tx_geom_frame [simp]:
  "tx_geom (t\<lparr>tx_c := c\<rparr>) = tx_geom t" "tx_geom (t\<lparr>tx_Stats := st\<rparr>) = tx_geom t"
  "tx_geom (t\<lparr>tx_sinceSignal := w\<rparr>) = tx_geom t" "tx_geom (t\<lparr>tx_sqDbrec := b\<rparr>) = tx_geom t"
  "tx_geom (t\<lparr>tx_cqDbrec := b\<rparr>) = tx_geom t" "tx_geom (t\<lparr>tx_uar := b\<rparr>) = tx_geom t"
  "tx_geom (t\<lparr>tx_failed := f\<rparr>) = tx_geom t" "tx_geom (t\<lparr>tx_ci := w\<rparr>) = tx_geom t"
  "tx_geom (t\<lparr>tx_pi := w\<rparr>) = tx_geom t" "tx_geom (t\<lparr>tx_head := w\<rparr>) = tx_geom t"
  "tx_geom (t\<lparr>tx_slotHead := w\<rparr>) = tx_geom t" "tx_geom (t\<lparr>tx_slotTail := w\<rparr>) = tx_geom t"
  by (simp_all add: tx_geom_def)

lemma slot_abs_frame [simp]:
  "slot_abs (t\<lparr>tx_c := c\<rparr>) xs = slot_abs t xs" "slot_abs (t\<lparr>tx_Stats := st\<rparr>) xs = slot_abs t xs"
  "slot_abs (t\<lparr>tx_sinceSignal := w\<rparr>) xs = slot_abs t xs" "slot_abs (t\<lparr>tx_sqDbrec := b\<rparr>) xs = slot_abs t xs"
  "slot_abs (t\<lparr>tx_cqDbrec := b\<rparr>) xs = slot_abs t xs" "slot_abs (t\<lparr>tx_uar := b\<rparr>) xs = slot_abs t xs"
  "slot_abs (t\<lparr>tx_failed := f\<rparr>) xs = slot_abs t xs" "slot_abs (t\<lparr>tx_ci := w\<rparr>) xs = slot_abs t xs"
  "slot_abs (t\<lparr>tx_pi := w\<rparr>) xs = slot_abs t xs" "slot_abs (t\<lparr>tx_head := w\<rparr>) xs = slot_abs t xs"
  "slot_abs (t\<lparr>tx_meta := m\<rparr>) xs = slot_abs t xs" "slot_abs (t\<lparr>tx_sq := q\<rparr>) xs = slot_abs t xs"
  "slot_abs (t\<lparr>tx_cq := cqx\<rparr>) xs = slot_abs t xs"
  by (simp_all add: slot_abs_def)

lemma tx_abs_frame [simp]:
  "tx_abs (t\<lparr>tx_c := c\<rparr>) es = tx_abs t es" "tx_abs (t\<lparr>tx_Stats := st\<rparr>) es = tx_abs t es"
  "tx_abs (t\<lparr>tx_sinceSignal := w\<rparr>) es = tx_abs t es" "tx_abs (t\<lparr>tx_sqDbrec := b\<rparr>) es = tx_abs t es"
  "tx_abs (t\<lparr>tx_cqDbrec := b\<rparr>) es = tx_abs t es" "tx_abs (t\<lparr>tx_uar := b\<rparr>) es = tx_abs t es"
  "tx_abs (t\<lparr>tx_failed := f\<rparr>) es = tx_abs t es" "tx_abs (t\<lparr>tx_ci := w\<rparr>) es = tx_abs t es"
  by (simp_all add: tx_abs_def)

lemma tx_abs_sq:
  "sq_ok q \<Longrightarrow> length (sq_buf q) = length (sq_buf (tx_sq t)) \<Longrightarrow> tx_abs t es \<Longrightarrow> tx_abs (t\<lparr>tx_sq := q\<rparr>) es"
  by (auto simp: tx_abs_def tx_geom_def sender_ok_def sq_ok_def)

lemma tx_abs_cq:
  "length b = length (cq_buf (tx_cq t)) \<Longrightarrow> tx_abs t es \<Longrightarrow> tx_abs (t\<lparr>tx_cq := (tx_cq t)\<lparr>cq_buf := b\<rparr>\<rparr>) es"
  by (auto simp: tx_abs_def tx_geom_def cq_ok_def)

lemma publish_abs [simp]: "tx_abs (tx_publish t) es = tx_abs t es" "tx_abs (tx_tick t) es = tx_abs t es"
  "tx_abs (count_tx f t) es = tx_abs t es"
  by (simp_all add: tx_publish_def tx_tick_def count_tx_def Let_def)

section \<open>Recording an entry\<close>

lemma push_entry:
  assumes "tx_abs t es" "0 < b" "b \<le> 15" "bsum es + b \<le> length (tx_meta t)" "ds \<noteq> []"
    and "length (dsum es) + length ds \<le> length (tx_slots t)" "tx_mpw t = None \<longrightarrow> length ds = 1"
  shows "\<exists>t1 t'. push_slots ds t = Some t1 \<and> push_meta (of_nat b) t1 = Some t' \<and> tx_abs t' (es @ [(b, ds)])
     \<and> (\<exists>sl st me. length me = length (tx_meta t) \<and> length sl = length (tx_slots t)
          \<and> t' = t\<lparr>tx_slots := sl, tx_slotTail := st, tx_meta := me, tx_pi := tx_pi t + of_nat b\<rparr>)"
proof -
  let ?m = "tx_meta t" let ?i = "rslot ?m (tx_head t + of_nat (bsum es))"
  have g: "tx_geom t" and sl: "slot_abs t (dsum es)" and all: "\<forall>e \<in> set es. 0 < fst e"
    using assms(1) by (auto simp: tx_abs_def)
  have ok: "ring_ok ?m" and mask: "tx_bbMask t = of_nat (length ?m - 1)" using g by (simp_all add: tx_geom_def)
  have pi: "tx_pi t = tx_head t + of_nat (bsum es)" using assms(1) by (rule tx_abs_pi)
  from push_slots_abs [OF sl assms(6)] obtain s where
    s: "push_slots ds t = Some (t\<lparr>tx_slots := s, tx_slotTail := tx_slotTail t + of_nat (length ds)\<rparr>)"
      "length s = length (tx_slots t)"
      "slot_abs (t\<lparr>tx_slots := s, tx_slotTail := tx_slotTail t + of_nat (length ds)\<rparr>) (dsum es @ ds)" by blast
  let ?st = "tx_slotTail t + of_nat (length ds)"
  let ?e = "\<lparr>em_slotTail = ?st, em_bbs = of_nat b\<rparr>"
  let ?t = "t\<lparr>tx_slots := s, tx_slotTail := ?st, tx_meta := ?m[?i := ?e], tx_pi := tx_pi t + of_nat b\<rparr>"
  have i: "unat (tx_pi t AND tx_bbMask t) = ?i" "?i < length ?m"
    using pi mask rslot_less [OF ok] by (simp_all add: rslot_def)
  have "(ucast (of_nat b :: u32) :: u16) = of_nat b"
    using assms(3) by (simp add: unsigned_of_nat take_bit_nat_eq_self)
  then have meta: "push_meta (of_nat b) (t\<lparr>tx_slots := s, tx_slotTail := ?st\<rparr>) = Some ?t"
    using i by (simp add: push_meta_def Let_def)
  have st: "?st = tx_slotHead t + of_nat (length (dsum (es @ [(b, ds)])))"
    using slot_abs_tail [OF sl] by simp
  have "unat (of_nat (bsum es + b) :: u32) = bsum es + b" using ok assms(4) by (rule unat_of_nat_ring)
  then have u: "unat (tx_pi ?t - tx_head ?t) = bsum (es @ [(b, ds)])" by (simp add: pi)
  have recs: "tx_meta ?t ! rslot (tx_meta ?t) (tx_head ?t + of_nat (bsum (take j (es @ [(b, ds)]))))
      = \<lparr>em_slotTail = tx_slotHead ?t + of_nat (length (dsum (take (Suc j) (es @ [(b, ds)])))),
         em_bbs = of_nat (fst ((es @ [(b, ds)]) ! j))\<rparr>" if j: "j < length (es @ [(b, ds)])" for j
  proof (cases "j < length es")
    case True
    have lt: "bsum (take j es) < bsum es" using all True by (rule bsum_take_less)
    have "?i \<noteq> rslot ?m (tx_head t + of_nat (bsum (take j es)))"
    proof
      assume "?i = rslot ?m (tx_head t + of_nat (bsum (take j es)))"
      from rslot_inj [OF ok this] lt assms(2,4) show False by simp
    qed
    then show ?thesis using True assms(1) by (simp add: tx_abs_def nth_append)
  next
    case False
    then have "j = length es" using j by simp
    then show ?thesis using i(2) st by simp
  qed
  have "tx_geom ?t" using g s(2) by (simp add: tx_geom_def)
  moreover have "slot_abs ?t (dsum (es @ [(b, ds)]))" using s(3) by (simp add: slot_abs_def)
  ultimately have "tx_abs ?t (es @ [(b, ds)])"
    unfolding tx_abs_def using u recs assms by (simp add: tx_abs_def)
  then show ?thesis using s meta
    by (intro exI [of _ "t\<lparr>tx_slots := s, tx_slotTail := ?st\<rparr>"] exI [of _ ?t] conjI
          exI [of _ s] exI [of _ ?st] exI [of _ "?m[?i := ?e]"]) simp_all
qed

section \<open>Completions\<close>

text \<open>The first blocks of the entries in flight, read off the ring itself.\<close>

fun starts_from :: "nat \<Rightarrow> tx \<Rightarrow> u32 \<Rightarrow> u32 list" where
  "starts_from 0 t p = []"
| "starts_from (Suc n) t p =
     (if p = tx_pi t then []
      else p # starts_from n t (p + ucast (em_bbs (tx_meta t ! rslot (tx_meta t) p))))"

definition entry_starts :: "tx \<Rightarrow> u32 list" where
  "entry_starts t = starts_from (length (tx_meta t)) t (tx_head t)"

text \<open>The device's side of the contract, at one position of the completion queue: a send completion
  names the first block of an entry in flight, or a block that is not in flight at all, such as one of an
  earlier lap. \<open>tx_hw_ok\<close> asks it of the lap ahead of the consumer.\<close>

definition tx_cqe_ok :: "tx \<Rightarrow> u32 \<Rightarrow> bool" where
  "tx_cqe_ok t ci \<longleftrightarrow> (case cq_header (tx_cq t) ci of None \<Rightarrow> True | Some h \<Rightarrow>
     Owned (tx_cq t) ci h \<and> (Opcode h = CQEReq \<or> Opcode h = CQEReqErr) \<longrightarrow>
     WQECounter h \<in> ucast ` set (entry_starts t)
     \<or> unat (WQECounter h - ucast (tx_head t)) \<ge> unat (tx_pi t - tx_head t))"

definition tx_hw_ok :: "tx \<Rightarrow> bool" where
  "tx_hw_ok t \<longleftrightarrow> (\<forall>j < unat (cq_entries (tx_cq t)). tx_cqe_ok t (tx_ci t + of_nat j))"

definition names :: "tx \<Rightarrow> entry list \<Rightarrow> u32 \<Rightarrow> nat \<Rightarrow> bool" where
  "names t es h i \<longleftrightarrow> i < length es \<and> WQECounter h = ucast (tx_head t + of_nat (bsum (take i es)))"

lemma starts_from_entries:
  assumes "tx_abs t es" "i \<le> length es" "bsum es - bsum (take i es) \<le> n"
  shows "starts_from n t (tx_head t + of_nat (bsum (take i es)))
    = map (\<lambda>j. tx_head t + of_nat (bsum (take j es))) [i..<length es]"
  using assms(2,3)
proof (induction n arbitrary: i)
  case 0
  have "\<forall>e \<in> set es. 0 < fst e" using assms(1) by (simp add: tx_abs_def)
  from bsum_take_less [OF this, of i] 0 have "\<not> i < length es" by linarith
  then show ?case by simp
next
  case (Suc n)
  have ok: "ring_ok (tx_meta t)" and le: "bsum es \<le> length (tx_meta t)"
    using assms(1) by (simp_all add: tx_abs_def tx_geom_def)
  show ?case
  proof (cases "i < length es")
    case True
    have lt: "bsum (take i es) < bsum es" using bsum_take_less [OF _ True] assms(1) by (auto simp: tx_abs_def)
    have "unat (of_nat (bsum es) :: u32) = bsum es" "unat (of_nat (bsum (take i es)) :: u32) = bsum (take i es)"
      using ok le lt by (auto intro!: unat_of_nat_ring)
    then have ne: "tx_head t + of_nat (bsum (take i es)) \<noteq> tx_pi t" using tx_abs_pi [OF assms(1)] lt by auto
    have e: "0 < fst (es ! i)" "fst (es ! i) \<le> 15" using assms(1) True by (auto simp: tx_abs_def)
    have "(ucast (of_nat (fst (es ! i)) :: u16) :: u32) = of_nat (fst (es ! i))"
      using e by (simp add: unsigned_of_nat take_bit_nat_eq_self)
    moreover have "bsum (take (Suc i) es) = bsum (take i es) + fst (es ! i)"
      using True by (simp add: take_Suc_conv_app_nth)
    ultimately have nx: "tx_head t + of_nat (bsum (take i es))
        + ucast (em_bbs (tx_meta t ! rslot (tx_meta t) (tx_head t + of_nat (bsum (take i es)))))
        = tx_head t + of_nat (bsum (take (Suc i) es))"
      using assms(1) True by (simp add: tx_abs_def add.assoc)
    have "starts_from n t (tx_head t + of_nat (bsum (take (Suc i) es)))
        = map (\<lambda>j. tx_head t + of_nat (bsum (take j es))) [Suc i..<length es]"
      using Suc.prems True e lt \<open>bsum (take (Suc i) es) = bsum (take i es) + fst (es ! i)\<close>
      by (intro Suc.IH) simp_all
    then show ?thesis using ne True by (simp add: upt_conv_Cons nx)
  next
    case False
    then have "take i es = es" "[i..<length es] = []" by simp_all
    then show ?thesis using tx_abs_pi [OF assms(1)] by simp
  qed
qed

lemma entry_starts_eq:
  "tx_abs t es \<Longrightarrow> entry_starts t = map (\<lambda>j. tx_head t + of_nat (bsum (take j es))) [0..<length es]"
  using starts_from_entries [of t es 0 "length (tx_meta t)"] by (simp add: entry_starts_def tx_abs_def)

lemma tx_cqe_names:
  assumes "tx_abs t es" "tx_cqe_ok t ci" "cq_header (tx_cq t) ci = Some h" "Owned (tx_cq t) ci h"
    "Opcode h = CQEReq \<or> Opcode h = CQEReqErr"
  shows "(\<exists>i. names t es h i) \<or> unat (WQECounter h - ucast (tx_head t)) \<ge> unat (tx_pi t - tx_head t)"
proof -
  have "WQECounter h \<in> ucast ` (\<lambda>j. tx_head t + of_nat (bsum (take j es))) ` {0..<length es}
      \<or> unat (WQECounter h - ucast (tx_head t)) \<ge> unat (tx_pi t - tx_head t)"
    using assms(2-5) unfolding tx_cqe_ok_def entry_starts_eq [OF assms(1)] by simp
  then show ?thesis
  proof
    assume "WQECounter h \<in> ucast ` (\<lambda>j. tx_head t + of_nat (bsum (take j es))) ` {0..<length es}"
    then obtain j where "j < length es" "WQECounter h = ucast (tx_head t + of_nat (bsum (take j es)))"
      by (elim imageE) simp
    then show ?thesis unfolding names_def by blast
  qed simp
qed

lemma delta_ucast: "unat (ucast (c - ucast (h :: u32) :: u16) :: u32) = unat (c - ucast h)"
  by (rule unat_ucast_up) simp

lemma ucast16_add: "(ucast (a + b :: u32) :: u16) = ucast a + ucast b"
proof transfer
  fix a b :: int
  have "take_bit 16 (take_bit 32 a + take_bit 32 b)
      = take_bit 16 (take_bit 16 (take_bit 32 a) + take_bit 16 (take_bit 32 b))" by (simp only: take_bit_add)
  also have "\<dots> = take_bit 16 (a + b)" by (simp add: take_bit_add)
  finally show "take_bit LENGTH(16) (take_bit LENGTH(32) (a + b))
      = take_bit LENGTH(16) (take_bit LENGTH(32) a + take_bit LENGTH(32) b)" by simp
qed

lemma entryFor_named:
  assumes "tx_abs t es" "names t es h i"
  shows "entryFor t h = Some (Some (tx_slotHead t + of_nat (length (dsum (take (Suc i) es))),
                                    tx_head t + of_nat (bsum (take (Suc i) es))))"
proof -
  let ?m = "tx_meta t" let ?d = "bsum (take i es)" let ?n = "length (dsum (take (Suc i) es))"
  have g: "tx_geom t" and sl: "slot_abs t (dsum es)" using assms(1) by (simp_all add: tx_abs_def)
  have ok: "ring_ok ?m" and mask: "tx_bbMask t = of_nat (length ?m - 1)" and m16: "length ?m \<le> 65536"
    using g by (simp_all add: tx_geom_def)
  have i: "i < length es" and c: "WQECounter h = ucast (tx_head t + of_nat ?d)" using assms(2) by (simp_all add: names_def)
  have le: "bsum es \<le> length ?m" using assms(1) by (simp add: tx_abs_def)
  have lt: "?d < bsum es" using bsum_take_less [OF _ i] assms(1) by (auto simp: tx_abs_def)
  have "WQECounter h - ucast (tx_head t) = (ucast (of_nat ?d :: u32) :: u16)"
    unfolding c by (simp add: ucast16_add)
  also have "\<dots> = of_nat ?d" using lt le m16 by (simp add: unsigned_of_nat take_bit_nat_eq_self)
  finally have d16: "WQECounter h - ucast (tx_head t) = of_nat ?d" .
  have "?d < 2 ^ 16" using lt le m16 by simp
  then have d: "(ucast (WQECounter h - ucast (tx_head t)) :: u32) = of_nat ?d"
    unfolding d16 by (simp add: unsigned_of_nat take_bit_nat_eq_self)
  have ud: "unat (of_nat ?d :: u32) = ?d" by (rule unat_of_nat_ring [OF ok]) (use lt le in linarith)
  have inr: "\<not> of_nat ?d \<ge> tx_pi t - tx_head t"
    unfolding word_le_nat_alt ud using assms(1) lt by (simp add: tx_abs_def)
  have slot: "unat ((tx_head t + of_nat ?d) AND tx_bbMask t) = rslot ?m (tx_head t + of_nat ?d)"
    using mask by (simp add: rslot_def)
  have e: "?m ! rslot ?m (tx_head t + of_nat ?d)
      = \<lparr>em_slotTail = tx_slotHead t + of_nat ?n, em_bbs = of_nat (fst (es ! i))\<rparr>"
    using assms(1) i by (simp add: tx_abs_def)
  have mem: "es ! i \<in> set es" using i by simp
  then have b: "0 < fst (es ! i)" "fst (es ! i) \<le> 15" "snd (es ! i) \<noteq> []" using assms(1) by (auto simp: tx_abs_def)
  then have ub: "unat (of_nat (fst (es ! i)) :: u16) = fst (es ! i)"
    by (simp add: unat_of_nat take_bit_nat_eq_self)
  have bb: "(of_nat (fst (es ! i)) :: u16) \<noteq> 0"
  proof
    assume "(of_nat (fst (es ! i)) :: u16) = 0"
    then have "unat (of_nat (fst (es ! i)) :: u16) = 0" by (simp only: unat_0)
    then show False using ub b by linarith
  qed
  have bu: "(ucast (of_nat (fst (es ! i)) :: u16) :: u32) = of_nat (fst (es ! i))"
    using b by (simp add: unsigned_of_nat take_bit_nat_eq_self)
  have n: "0 < ?n" using b(3) i by (simp add: take_Suc_conv_app_nth)
  have nd: "?n \<le> length (dsum es)" by (rule dsum_take_le)
  have nl: "?n \<le> length (tx_slots t)" "ring_ok (tx_slots t)" using nd sl by (auto simp: slot_abs_def)
  have un: "unat (of_nat ?n :: u32) = ?n" by (rule unat_of_nat_ring [OF nl(2,1)])
  have used: "tx_slotHead t + of_nat ?n - tx_slotHead t = (of_nat ?n :: u32)" by simp
  have "(of_nat ?n :: u32) \<noteq> 0" using un n by (metis unat_0 less_irrefl)
  moreover have "\<not> of_nat ?n > tx_slotTail t - tx_slotHead t"
    unfolding word_less_nat_alt un using sl nd by (simp add: slot_abs_def)
  moreover have "tx_head t + of_nat ?d + of_nat (fst (es ! i)) = tx_head t + of_nat (bsum (take (Suc i) es))"
    using i by (simp add: take_Suc_conv_app_nth add.assoc)
  ultimately show ?thesis
    unfolding entryFor_def Let_def d slot e
    using inr rslot_less [OF ok] bb bu by (simp add: used del: of_nat_add)
qed

lemma entryFor_stale:
  "unat (WQECounter h - ucast (tx_head t)) \<ge> unat (tx_pi t - tx_head t) \<Longrightarrow> entryFor t h = Some None"
  using delta_ucast [of "WQECounter h" "tx_head t"]
  by (simp add: entryFor_def Let_def word_le_nat_alt)

text \<open>What the scan has found: an entry a completion named, and what the entries up to it hold.\<close>

definition reported :: "tx \<Rightarrow> entry list \<Rightarrow> u32 \<Rightarrow> nat \<Rightarrow> bool" where
  "reported t es ci i \<longleftrightarrow> (\<exists>h. cq_header (tx_cq t) ci = Some h \<and> Owned (tx_cq t) ci h
     \<and> (Opcode h = CQEReq \<or> Opcode h = CQEReqErr) \<and> names t es h i)"

definition found :: "tx \<Rightarrow> entry list \<Rightarrow> u32 set \<Rightarrow> comp_acc \<Rightarrow> bool" where
  "found t es cis a \<longleftrightarrow> (ca_haveAny a \<longrightarrow> ca_completed a \<noteq> 0 \<and> (\<exists>ci \<in> cis. \<exists>i. reported t es ci i
     \<and> ca_release a = tx_slotHead t + of_nat (length (dsum (take (Suc i) es)))
     \<and> ca_newHead a = tx_head t + of_nat (bsum (take (Suc i) es))))"

lemma cqe_Error_some: "cq_ok c k \<Longrightarrow> cq_Entry c ci = Some e \<Longrightarrow> \<exists>i. cqe_Error e = Some i"
  using slot_bound(1) [of c k ci]
  by (auto simp: cq_Entry_some cqe_Error_def get_byte_def peek_def cqeSyndrome_def cqeVendorSyndrom_def
        cqeSWQEOpcodeQPN_def cqeHeader_def split: option.splits)

lemma latch_error_some:
  assumes "cq_ok (tx_cq t) k"
  shows "\<exists>c f. latch_error t = Some (t\<lparr>tx_c := c, tx_failed := Some f\<rparr>)
     \<and> (tx_failed t \<noteq> None \<longrightarrow> Some f = tx_failed t)"
proof -
  obtain e where e: "cq_Entry (tx_cq t) (tx_ci t - 1) = Some e" using cq_Entry_some [OF assms] by blast
  obtain i where i: "cqe_Error e = Some i" using cqe_Error_some [OF assms e] by blast
  show ?thesis using e i
    by (auto simp: latch_error_def count_error_def count_tx_def split: option.splits)
qed

text \<open>The scan changes nothing but the consumer index, the counters and the latched error.\<close>

definition scanned :: "tx \<Rightarrow> tx \<Rightarrow> bool" where
  "scanned t t' \<longleftrightarrow> t' = t\<lparr>tx_ci := tx_ci t', tx_c := tx_c t', tx_failed := tx_failed t'\<rparr>
     \<and> (tx_failed t \<noteq> None \<longrightarrow> tx_failed t' = tx_failed t)"

lemma scanned_frame [simp]:
  "scanned t t" "scanned t (count_error t)" "scanned t (consume_cqe t)"
  by (simp_all add: scanned_def count_error_def count_tx_def consume_cqe_def)

lemma consume_ci [simp]: "tx_ci (consume_cqe t) = tx_ci t + 1"
  by (simp add: consume_cqe_def)

lemma scanned_trans:
  assumes "scanned t u" "scanned u v"
  shows "scanned t v"
proof -
  from assms obtain ci c f where u: "u = t\<lparr>tx_ci := ci, tx_c := c, tx_failed := f\<rparr>" unfolding scanned_def by blast
  from assms obtain ci' c' f' where v: "v = u\<lparr>tx_ci := ci', tx_c := c', tx_failed := f'\<rparr>"
    unfolding scanned_def by blast
  show ?thesis using assms unfolding scanned_def u v by simp
qed

lemma scanned_latch:
  assumes "cq_ok (tx_cq t) k"
  shows "\<exists>t'. latch_error t = Some t' \<and> scanned t t' \<and> tx_ci t' = tx_ci t \<and> tx_failed t' \<noteq> None"
proof -
  from latch_error_some [OF assms] obtain c f where
    l: "latch_error t = Some (t\<lparr>tx_c := c, tx_failed := Some f\<rparr>)" "tx_failed t \<noteq> None \<longrightarrow> Some f = tx_failed t" by blast
  then show ?thesis by (intro exI [of _ "t\<lparr>tx_c := c, tx_failed := Some f\<rparr>"]) (simp add: scanned_def)
qed

lemma scanned_same:
  assumes "scanned t u"
  shows "tx_cq u = tx_cq t" "tx_head u = tx_head t" "tx_pi u = tx_pi t" "tx_slotHead u = tx_slotHead t"
    "tx_slotTail u = tx_slotTail t" "tx_meta u = tx_meta t" "tx_abs u es = tx_abs t es"
    "entryFor u h = entryFor t h" "names u es h i = names t es h i" "reported u es ci i = reported t es ci i"
    "found u es cis a = found t es cis a" "starts_from n u p = starts_from n t p" "tx_cqe_ok u ci = tx_cqe_ok t ci"
    "tx_sq u = tx_sq t" "tx_failed t \<noteq> None \<Longrightarrow> tx_failed u = tx_failed t"
    "tx_region u = tx_region t" "tx_regionVA u = tx_regionVA t"
proof -
  from assms obtain x y z where u: "u = t\<lparr>tx_ci := x, tx_c := y, tx_failed := z\<rparr>" unfolding scanned_def by blast
  show c: "tx_cq u = tx_cq t" "tx_head u = tx_head t" "tx_pi u = tx_pi t" "tx_slotHead u = tx_slotHead t"
    "tx_slotTail u = tx_slotTail t" "tx_meta u = tx_meta t" "tx_abs u es = tx_abs t es"
    unfolding u by simp_all
  show e: "entryFor u h = entryFor t h" unfolding entryFor_def u by (simp add: Let_def)
  show n: "names u es h i = names t es h i" for h i by (simp add: names_def c)
  show r: "reported u es ci i = reported t es ci i" for ci i by (simp add: reported_def c n)
  show "found u es cis a = found t es cis a" by (simp add: found_def c r)
  show s: "starts_from n u p = starts_from n t p" for n p by (induction n arbitrary: p) (simp_all add: c)
  show "tx_cqe_ok u ci = tx_cqe_ok t ci" by (simp only: tx_cqe_ok_def entry_starts_def c s)
  show "tx_sq u = tx_sq t" "tx_region u = tx_region t" "tx_regionVA u = tx_regionVA t" unfolding u by simp_all
  show "tx_failed t \<noteq> None \<Longrightarrow> tx_failed u = tx_failed t" using assms by (simp add: scanned_def)
qed

lemma range_Suc: "{(c :: u32) + 1 + of_nat j | j. j < n} \<subseteq> {c + of_nat j | j. j < Suc n}"
proof
  fix x
  assume "x \<in> {c + 1 + of_nat j | j. j < n}"
  then obtain j where "x = c + of_nat (Suc j)" "Suc j < Suc n" by (auto simp: algebra_simps)
  then show "x \<in> {c + of_nat j | j. j < Suc n}" by blast
qed

lemma found_mono: "found t es A a \<Longrightarrow> A \<subseteq> B \<Longrightarrow> found t es B a"
  unfolding found_def by blast

text \<open>One lap of the scan: it never fails, and what it ends with is an entry that was reported.\<close>

lemma complete_loop_found:
  assumes "tx_abs t es" "\<forall>j < n. tx_cqe_ok t (tx_ci t + of_nat j)" "unat (ca_completed a) + n < 2 ^ 64"
    "found t es A a" "{tx_ci t + of_nat j | j. j < n} \<subseteq> A"
  shows "\<exists>t' a'. complete_loop n mx t a = Some (t', a') \<and> scanned t t' \<and> found t es A a'
     \<and> (ca_haveAny a \<longrightarrow> ca_haveAny a')"
  using assms
proof (induction n arbitrary: t a)
  case 0
  then show ?case by simp
next
  case (Suc n)
  obtain k where k: "cq_ok (tx_cq t) k" using Suc.prems(1) by (auto simp: tx_abs_def tx_geom_def)
  obtain h where h: "cq_header (tx_cq t) (tx_ci t) = Some h" using cq_header_some [OF k] by blast
  let ?a = "a\<lparr>ca_completed := ca_completed a + 1\<rparr>"
  have inc: "unat (ca_completed a + 1) = Suc (unat (ca_completed a))"
    using Suc.prems(3) by (simp add: unat_plus_exact [of _ 1])
  then have nz: "ca_completed a + 1 \<noteq> 0" by (metis unat_0 nat.distinct(1))
  have fa: "found t es A ?a" using Suc.prems(4) nz by (simp add: found_def)
  have step: "\<exists>t' a'. complete_loop n mx u b = Some (t', a') \<and> scanned t t' \<and> found t es A a'
     \<and> (ca_haveAny b \<longrightarrow> ca_haveAny a')"
    if u: "scanned t u" "tx_ci u = tx_ci t + 1" and b: "found t es A b" "ca_completed b = ca_completed a + 1" for u b
  proof -
    have "\<forall>j < n. tx_cqe_ok u (tx_ci u + of_nat j)"
    proof (intro allI impI)
      fix j assume "j < n"
      then have "tx_cqe_ok t (tx_ci t + of_nat (Suc j))" using Suc.prems(2) by blast
      then show "tx_cqe_ok u (tx_ci u + of_nat j)" using scanned_same(13) [OF u(1)] u(2) by (simp add: algebra_simps)
    qed
    moreover have "{tx_ci u + of_nat j | j. j < n} \<subseteq> A" using range_Suc [of "tx_ci t" n] Suc.prems(5) u(2) by auto
    moreover have "unat (ca_completed b) + n < 2 ^ 64" using b(2) inc Suc.prems(3) by simp
    ultimately have "\<exists>t' a'. complete_loop n mx u b = Some (t', a') \<and> scanned u t' \<and> found u es A a'
       \<and> (ca_haveAny b \<longrightarrow> ca_haveAny a')"
      using Suc.prems(1) b(1) scanned_same [OF u(1)] by (intro Suc.IH) simp_all
    then show ?thesis using scanned_trans [OF u(1)] scanned_same(11) [OF u(1)] by blast
  qed
  consider "\<not> Owned (tx_cq t) (tx_ci t) h" | "Owned (tx_cq t) (tx_ci t) h" "Format h \<noteq> CQEFormatNoData"
    | "Owned (tx_cq t) (tx_ci t) h" "Format h = CQEFormatNoData" "Opcode h \<noteq> CQEReq" "Opcode h \<noteq> CQEReqErr"
    | (send) "Owned (tx_cq t) (tx_ci t) h" "Format h = CQEFormatNoData" "Opcode h = CQEReq \<or> Opcode h = CQEReqErr"
    by blast
  then show ?case
  proof cases
    case 1
    then show ?thesis using h Suc.prems(4) by simp
  next
    case 2
    then show ?thesis using h Suc.prems(4) by simp
  next
    case 3
    have "scanned t (count_error (consume_cqe t))" by (rule scanned_trans [of _ "consume_cqe t"]) simp_all
    from step [OF this _ fa] show ?thesis
      using 3 h by (simp add: count_error_def count_tx_def consume_cqe_def)
  next
    case send
    obtain t1 where t1: "(if Opcode h = CQEReqErr then latch_error (consume_cqe t) else Some (consume_cqe t)) = Some t1"
      "scanned t t1" "tx_ci t1 = tx_ci t + 1"
    proof (cases "Opcode h = CQEReqErr")
      case True
      have "cq_ok (tx_cq (consume_cqe t)) k" using k by (simp add: consume_cqe_def)
      from scanned_latch [OF this] obtain u where u: "latch_error (consume_cqe t) = Some u"
        "scanned (consume_cqe t) u" "tx_ci u = tx_ci (consume_cqe t)" by blast
      from u(2) have "scanned t u" by (rule scanned_trans [rotated]) simp
      then show ?thesis using that [of u] True u by simp
    next
      case False
      then show ?thesis using that [of "consume_cqe t"] by simp
    qed
    have op: "(Opcode h \<noteq> CQEReq \<and> Opcode h \<noteq> CQEReqErr) = False" using send(3) by blast
    have ok: "tx_cqe_ok t (tx_ci t)" using spec [OF Suc.prems(2), of 0] by simp
    from tx_cqe_names [OF Suc.prems(1) ok h send(1,3)] show ?thesis
    proof
      assume "\<exists>i. names t es h i"
      then obtain i where i: "names t es h i" by blast
      let ?a2 = "?a\<lparr>ca_release := tx_slotHead t + of_nat (length (dsum (take (Suc i) es))),
          ca_newHead := tx_head t + of_nat (bsum (take (Suc i) es)), ca_haveAny := True\<rparr>"
      have e: "entryFor t h = Some (Some (tx_slotHead t + of_nat (length (dsum (take (Suc i) es))),
                  tx_head t + of_nat (bsum (take (Suc i) es))))" using entryFor_named [OF Suc.prems(1) i] .
      have "tx_ci t + of_nat 0 \<in> {tx_ci t + of_nat j | j. j < Suc n}" by blast
      then have "tx_ci t \<in> A" using Suc.prems(5) by auto
      moreover have "reported t es (tx_ci t) i" using h send(1,3) i by (auto simp: reported_def)
      ultimately have f2: "found t es A ?a2" using nz unfolding found_def by auto
      from step [OF t1(2,3) f2] obtain t' a' where "complete_loop n mx t1 ?a2 = Some (t', a')" "scanned t t'" "found t es A a'"
        "ca_haveAny a'" by auto
      moreover have "complete_loop (Suc n) mx t a
          = (if ca_haveAny a \<and> ca_release ?a2 - tx_slotHead t > of_int mx then Some (t, a)
             else if ca_release ?a2 - tx_slotHead t1 \<ge> of_int mx then Some (t1, ?a2) else complete_loop n mx t1 ?a2)"
        by (simp split del: if_split cong: if_cong add: Let_def h send(1,2) e t1(1) op)
      ultimately show ?thesis using t1(2) f2 Suc.prems(4) by auto
    next
      assume "unat (tx_pi t - tx_head t) \<le> unat (WQECounter h - ucast (tx_head t))"
      then have e: "entryFor t h = Some None" by (rule entryFor_stale)
      have "scanned t (count_error t1)" using t1(2) by (rule scanned_trans) simp
      from step [OF this _ fa] have "\<exists>t' a'. complete_loop n mx (count_error t1) ?a = Some (t', a') \<and> scanned t t' \<and> found t es A a'
         \<and> (ca_haveAny a \<longrightarrow> ca_haveAny a')" using t1(3) by (simp add: count_error_def count_tx_def)
      moreover have "complete_loop (Suc n) mx t a = complete_loop n mx (count_error t1) ?a"
        by (simp split del: if_split cong: if_cong add: Let_def h send(1,2) e t1(1) op)
      ultimately show ?thesis by simp
    qed
  qed
qed

text \<open>Dropping the first entries.\<close>

lemma drop_entries:
  assumes "tx_abs t es"
  shows "tx_abs (t\<lparr>tx_slotHead := tx_slotHead t + of_nat (length (dsum (take j es))),
                   tx_head := tx_head t + of_nat (bsum (take j es))\<rparr>) (drop j es)"
    (is "tx_abs ?t _")
proof -
  have g: "tx_geom t" and sl: "slot_abs t (dsum es)" and u: "unat (tx_pi t - tx_head t) = bsum es"
    and le: "bsum es \<le> length (tx_meta t)" using assms by (simp_all add: tx_abs_def)
  have ok: "ring_ok (tx_meta t)" using g by (simp add: tx_geom_def)
  have sums: "bsum (take j es) + bsum (drop j es) = bsum es" "dsum (take j es) @ dsum (drop j es) = dsum es"
    by (rule bsum_take_drop, rule dsum_take_drop)
  then have "slot_abs (t\<lparr>tx_slotHead := tx_slotHead t + of_nat (length (dsum (take j es)))\<rparr>)
      (drop (length (dsum (take j es))) (dsum es))" by (intro release_slots_abs(2) [OF sl] dsum_take_le)
  moreover have "drop (length (dsum (take j es))) (dsum es) = dsum (drop j es)"
    using sums(2) by (metis append_eq_conv_conj)
  ultimately have sl': "slot_abs ?t (dsum (drop j es))" by simp
  have "tx_pi t - (tx_head t + of_nat (bsum (take j es))) = of_nat (bsum (drop j es))"
    using tx_abs_pi [OF assms] sums(1) [symmetric] by simp
  moreover have "unat (of_nat (bsum (drop j es)) :: u32) = bsum (drop j es)"
    by (rule unat_of_nat_ring [OF ok]) (use sums(1) le in linarith)
  ultimately have u': "unat (tx_pi ?t - tx_head ?t) = bsum (drop j es)" by simp
  have m: "tx_meta ?t ! rslot (tx_meta ?t) (tx_head ?t + of_nat (bsum (take i (drop j es))))
      = \<lparr>em_slotTail = tx_slotHead ?t + of_nat (length (dsum (take (Suc i) (drop j es)))),
         em_bbs = of_nat (fst (drop j es ! i))\<rparr>" if i: "i < length (drop j es)" for i
  proof -
    have tk: "take (j + n) es = take j es @ take n (drop j es)" for n by (simp add: take_add)
    have "j + i < length es" using i by simp
    then have "tx_meta t ! rslot (tx_meta t) (tx_head t + of_nat (bsum (take (j + i) es)))
      = \<lparr>em_slotTail = tx_slotHead t + of_nat (length (dsum (take (j + Suc i) es))), em_bbs = of_nat (fst (es ! (j + i)))\<rparr>"
      using assms by (simp add: tx_abs_def)
    then show ?thesis using i tk [of "Suc i"] by (simp add: tk add.assoc)
  qed
  have all: "\<forall>e \<in> set (drop j es). 0 < fst e \<and> fst e \<le> 15 \<and> snd e \<noteq> [] \<and> (tx_mpw t = None \<longrightarrow> length (snd e) = 1)"
    using assms set_drop_subset [of j es] unfolding tx_abs_def by blast
  have "bsum (drop j es) \<le> length (tx_meta t)" using sums(1) le by linarith
  with g sl' u' m all show ?thesis unfolding tx_abs_def by simp
qed

text \<open>\<open>Complete\<close> hands back the descriptors of a prefix of the entries in flight, in the order they were
  posted; the prefix ends at an entry a completion reported, and is empty when none did.\<close>

definition cq_window :: "tx \<Rightarrow> u32 set" where
  "cq_window t = {tx_ci t + of_nat j | j. j < unat (cq_entries (tx_cq t))}"

lemma tx_Complete_prefix:
  assumes "tx_abs t es" "tx_hw_ok t"
  shows "\<exists>j t'. tx_Complete mx out t = Some (out @ dsum (take j es), t') \<and> tx_abs t' (drop j es) \<and> j \<le> length es
     \<and> (j > 0 \<longrightarrow> (\<exists>ci \<in> cq_window t. reported t es ci (j - 1)))
     \<and> tx_sq t' = tx_sq t \<and> tx_cq t' = tx_cq t \<and> tx_pi t' = tx_pi t \<and> tx_head t' = tx_head t + of_nat (bsum (take j es))
     \<and> tx_region t' = tx_region t \<and> tx_regionVA t' = tx_regionVA t
     \<and> (tx_failed t \<noteq> None \<longrightarrow> tx_failed t' = tx_failed t)"
proof (cases "mx \<le> 0")
  case True
  then show ?thesis using assms by (intro exI [of _ 0] exI [of _ t]) (simp add: tx_Complete_def)
next
  case False
  let ?a = "\<lparr>ca_release = 0, ca_newHead = 0, ca_haveAny = False, ca_completed = 0\<rparr>"
  have "unat (ca_completed ?a) + unat (cq_entries (tx_cq t)) < 2 ^ 64"
    using unat_bound [of "cq_entries (tx_cq t)"] by simp
  from complete_loop_found [OF assms(1) assms(2) [unfolded tx_hw_ok_def] this, of "cq_window t" mx] obtain t1 a where
    l: "complete_loop (unat (cq_entries (tx_cq t))) mx t ?a = Some (t1, a)" "scanned t t1" "found t es (cq_window t) a"
    by (auto simp: found_def cq_window_def)
  note same = scanned_same [OF l(2)]
  have fs: "tx_sq t1 = tx_sq t" "tx_failed t \<noteq> None \<longrightarrow> tx_failed t1 = tx_failed t" "tx_abs t1 es"
    using same assms(1) by simp_all
  show ?thesis
  proof (cases "ca_completed a = 0 \<or> \<not> ca_haveAny a")
    case True
    show ?thesis
    proof (cases "ca_completed a = 0")
      case True
      then show ?thesis using False l(1) fs same
        by (intro exI [of _ 0] exI [of _ t1]) (simp add: tx_Complete_def)
    next
      case c: False
      then have "\<not> ca_haveAny a" using True by blast
      then show ?thesis using False c l(1) fs same
        by (intro exI [of _ 0]) (simp add: tx_Complete_def Let_def count_tx_def)
    qed
  next
    case True: False
    then obtain ci i where ci: "ci \<in> cq_window t" "reported t es ci i"
      "ca_release a = tx_slotHead t + of_nat (length (dsum (take (Suc i) es)))"
      "ca_newHead a = tx_head t + of_nat (bsum (take (Suc i) es))" using l(3) by (auto simp: found_def)
    let ?j = "Suc i" and ?t2 = "count_tx (\<lambda>c. c\<lparr>c_completions := c_completions c + ca_completed a\<rparr>) t1"
    let ?d = "length (dsum (take ?j es))"
    have a2: "tx_abs ?t2 es" using fs(3) by simp
    then have s2: "slot_abs ?t2 (dsum es)" by (simp add: tx_abs_def)
    have h2: "tx_slotHead ?t2 = tx_slotHead t" "tx_head ?t2 = tx_head t" using same by (simp_all add: count_tx_def)
    have "take ?d (dsum es) = dsum (take ?j es)" using dsum_take_drop [of ?j es] by (metis append_eq_conv_conj)
    then have rel: "release_slots (ca_release a) ?t2 out
        = Some (out @ dsum (take ?j es), ?t2\<lparr>tx_slotHead := tx_slotHead ?t2 + of_nat ?d\<rparr>)"
      using release_slots_abs(1) [OF s2 dsum_take_le [of ?j es], of out] ci(3) h2 by simp
    let ?u = "?t2\<lparr>tx_slotHead := tx_slotHead ?t2 + of_nat ?d\<rparr>"
    let ?u1 = "(count_tx (\<lambda>c. c\<lparr>c_completed := c_completed c + ucast (ca_release a - tx_slotHead ?t2)\<rparr>) ?u)\<lparr>tx_head := ca_newHead a\<rparr>"
    define u1 where "u1 = ?u1"
    define u2 where "u2 = (if tx_slotTail u1 = tx_slotHead u1 then tx_publish u1 else u1)"
    have "tx_abs (?u\<lparr>tx_head := ca_newHead a\<rparr>) (drop ?j es)" using drop_entries [OF a2, of ?j] h2 ci(4) by simp
    then have u1: "tx_abs u1 (drop ?j es)" unfolding u1_def count_tx_def by (simp add: tx_abs_def slot_abs_def)
    then have u2: "tx_abs u2 (drop ?j es)" by (simp add: u2_def)
    have same2: "tx_sq u2 = tx_sq t" "tx_cq u2 = tx_cq t" "tx_pi u2 = tx_pi t" "tx_head u2 = ca_newHead a"
      "tx_failed u2 = tx_failed t1" "tx_region u2 = tx_region t" "tx_regionVA u2 = tx_regionVA t"
      using fs same by (simp_all add: u2_def u1_def count_tx_def tx_publish_def Let_def)
    have "tx_Complete mx out t = Some (out @ dsum (take ?j es), u2\<lparr>tx_cqDbrec := be32 (tx_ci u2 AND 0xffffff)\<rparr>)"
      using False True l(1) rel by (simp add: tx_Complete_def Let_def u2_def u1_def)
    moreover have "?j \<le> length es" using ci(2) by (simp add: reported_def names_def) linarith
    ultimately show ?thesis using u2 same2 fs(2) ci
      by (intro exI [of _ ?j] exI [of _ "u2\<lparr>tx_cqDbrec := be32 (tx_ci u2 AND 0xffffff)\<rparr>"]) auto
  qed
qed

end
