(* ===== verification/Mlx5_Tx_Post.thy ===== *)
theory Mlx5_Tx_Post
  imports Mlx5_Tx_Inv Wqe_Device
begin

text \<open>
  What posting does to the queue of entries. \<open>loaded lo mem t es\<close> says that a device reading the blocks of
  every entry in flight from the \<open>lo\<close>-th on, through the DMA map \<open>mem\<close>, gets exactly the frames of that entry's descriptors.
  \<open>Post\<close> appends entries for a prefix of the descriptors it is given, keeps every entry in flight loaded,
  and never fails.
\<close>

section \<open>Descriptors\<close>

definition frame_of :: "tx \<Rightarrow> desc \<Rightarrow> bytes" where
  "frame_of t d = take (unat (d_len d)) (drop (unat (d_addr d)) (tx_region t))"

text \<open>The one comparison of \<open>descOK\<close> refuses empty descriptors and those that leave their frame.\<close>

lemma descOK_iff:
  assumes "is_pow2 fs" "fs < 2 ^ 63" "tx_frameMask t = of_nat (fs - 1)" "length (tx_region t) < 2 ^ 63"
  shows "tx_descOK t d \<longleftrightarrow> unat (d_addr d) < length (tx_region t) \<and> 0 < d_len d
     \<and> unat (d_addr d) mod fs + unat (d_len d) \<le> fs"
proof -
  let ?a = "d_addr d" and ?n = "d_len d"
  have pos: "0 < fs" using assms(1) by (rule is_pow2_pos)
  have L: "unat (of_nat (length (tx_region t)) :: u64) = length (tx_region t)"
    using assms(4) by (simp add: unat_of_nat take_bit_nat_eq_self)
  have m: "unat (?a AND tx_frameMask t) = unat ?a mod fs"
    unfolding assms(3) using assms(1,2) by (intro unat_and_pow2_mask) simp_all
  have f: "tx_frameMask t + 1 = of_nat fs" unfolding assms(3) using pos by (simp add: of_nat_diff)
  have uf: "unat (of_nat fs :: u64) = fs" using assms(2) by (simp add: unat_of_nat take_bit_nat_eq_self)
  have lt: "unat ?a mod fs < fs" using pos by simp
  then have le: "(?a AND tx_frameMask t) \<le> of_nat fs" unfolding word_le_nat_alt m uf by simp
  have room: "unat (tx_frameMask t + 1 - (?a AND tx_frameMask t)) = fs - unat ?a mod fs"
    unfolding f using unat_sub [OF le] by (simp add: m uf)
  have n: "unat (ucast ?n :: u64) = unat ?n" by (rule unat_ucast_up) simp
  have len: "(ucast ?n - 1 < tx_frameMask t + 1 - (?a AND tx_frameMask t))
      \<longleftrightarrow> 0 < ?n \<and> unat ?a mod fs + unat ?n \<le> fs"
  proof (cases "?n = 0")
    case True
    have "\<not> (- 1 :: u64) < tx_frameMask t + 1 - (?a AND tx_frameMask t)" by simp
    then show ?thesis using True by simp
  next
    case False
    then have n0: "0 < unat ?n" by (simp add: unat_gt_0)
    then have "ucast ?n \<noteq> (0 :: u64)" using n by auto
    then have "unat (ucast ?n - 1 :: u64) = unat ?n - 1" using unat_minus_one n by metis
    then show ?thesis unfolding word_less_nat_alt room using n0 lt by (auto simp: unat_gt_0)
  qed
  show ?thesis unfolding tx_descOK_def len by (simp only: word_less_nat_alt L)
qed

lemma frame_end:
  fixes a n fs L :: nat
  assumes "fs dvd L" "a < L" "a mod fs + n \<le> fs"
  shows "a + n \<le> L"
proof -
  obtain m where m: "L = fs * m" using assms(1) by (elim dvdE)
  have d: "a = fs * (a div fs) + a mod fs" by simp
  have "a div fs < m" using assms(2) m by (simp add: less_mult_imp_div_less mult.commute)
  then have "fs * (a div fs) + fs \<le> fs * m" by (metis Suc_leI mult_Suc_right mult_le_mono2 add.commute)
  then show ?thesis using d assms(3) m by linarith
qed

lemma descOK_slice:
  assumes "tx_geom t" "tx_descOK t d"
  shows "region_slice t d = Some (frame_of t d)" "unat (d_addr d) + unat (d_len d) \<le> length (tx_region t)"
    "0 < unat (d_len d)" "unat (d_len d) < 2 ^ 31"
proof -
  from assms(1) obtain fs where fs: "is_pow2 fs" "fs < 2 ^ 63" "tx_frameMask t = of_nat (fs - 1)" "fs dvd length (tx_region t)"
      and fs31: "fs < 2 ^ 31"
    by (force simp: tx_geom_def)
  have L: "length (tx_region t) < 2 ^ 63" using assms(1) by (simp add: tx_geom_def)
  have ok: "unat (d_addr d) < length (tx_region t)" "0 < d_len d" "unat (d_addr d) mod fs + unat (d_len d) \<le> fs"
    using assms(2) descOK_iff [OF fs(1-3) L] by simp_all
  show le: "unat (d_addr d) + unat (d_len d) \<le> length (tx_region t)" by (rule frame_end [OF fs(4) ok(1,3)])
  show "0 < unat (d_len d)" using ok(2) by (simp add: unat_gt_0)
  show "unat (d_len d) < 2 ^ 31" using ok(3) fs31 by linarith
  have n: "unat (ucast (d_len d) :: u64) = unat (d_len d)" by (rule unat_ucast_up) simp
  have e: "unat (d_addr d + ucast (d_len d)) = unat (d_addr d) + unat (d_len d)"
    using le L n by (subst unat_plus_exact) simp_all
  have a: "d_addr d \<le> d_addr d + ucast (d_len d)" unfolding word_le_nat_alt e by simp
  show "region_slice t d = Some (frame_of t d)"
    using e a n le by (simp add: region_slice_def frame_of_def Let_def)
qed

lemma length_frame_of: "tx_geom t \<Longrightarrow> tx_descOK t d \<Longrightarrow> length (frame_of t d) = unat (d_len d)"
  using descOK_slice(2) [of t d] by (simp add: frame_of_def)

section \<open>What the device reads in the ring\<close>

definition nic_opcode :: "bytes \<Rightarrow> u32" where
  "nic_opcode e = be_word (take 4 e) AND 0xff"

definition nic_entry :: "(u64 \<Rightarrow> nat \<Rightarrow> bytes) \<Rightarrow> bytes \<Rightarrow> bytes list" where
  "nic_entry mem e = (if nic_opcode e = OpcodeEnhancedMPSW then nic_mpw mem e else [nic_send mem e])"

lemma opcode_field: "(push_bit 8 x OR w :: u32) AND 0xff = w AND 0xff"
proof -
  have "push_bit 8 x AND mask 8 = (0 :: u32)" by (rule bit_eqI) (auto simp: bit_simps)
  then have "push_bit 8 x AND 0xff = (0 :: u32)" by (simp add: mask_eq_exp_minus_1)
  then show ?thesis by (simp add: bit.conj_disj_distrib2)
qed

lemma nic_opcode_hdr: "nic_opcode (hdr_bytes opcode idx qpn ds signaled cs @ rest) = opcode AND 0xff"
  by (simp add: nic_opcode_def hdr_bytes_def opcode_field)

lemma nic_entry_send:
  "nic_entry mem (send_entry qpn lkey cs il idx frame addr signaled @ rest)
     = [nic_send mem (send_entry qpn lkey cs il idx frame addr signaled @ rest)]"
  by (simp add: nic_entry_def send_entry_def Let_def nic_opcode_hdr OpcodeSend_def OpcodeEnhancedMPSW_def)

lemma nic_entry_mpw:
  "nic_entry mem ((hdr_bytes OpcodeEnhancedMPSW idx qpn ds signaled cs @ xs) @ rest)
     = nic_mpw mem ((hdr_bytes OpcodeEnhancedMPSW idx qpn ds signaled cs @ xs) @ rest)"
  by (simp add: nic_entry_def nic_opcode_hdr OpcodeEnhancedMPSW_def)

text \<open>Asking for a completion on an entry does not change what it carries.\<close>

lemma nic_entry_signal: "nic_entry mem (e[11 := x]) = nic_entry mem e"
proof -
  have d: "drop n (e[11 := x]) = drop n e" if "11 < n" for n using that by (rule drop_update_cancel)
  have t4: "take 4 (e[11 := x]) = take 4 e" by (rule take_update_cancel) simp
  have t8: "take 4 (drop 4 (e[11 := x])) = take 4 (drop 4 e)"
    by (simp add: drop_update_swap take_update_cancel)
  have ds: "nic_ds (e[11 := x]) = nic_ds e" unfolding nic_ds_def t8 ..
  have "nic_send mem (e[11 := x]) = nic_send mem e" unfolding nic_send_def Let_def ds by (simp add: d)
  moreover have "nic_mpw mem (e[11 := x]) = nic_mpw mem e" unfolding nic_mpw_def ds by (simp add: d)
  ultimately show ?thesis unfolding nic_entry_def nic_opcode_def t4 by simp
qed

section \<open>Positions in the ring\<close>

lemma tx_geom_len:
  assumes "tx_geom t"
  obtains k where "k \<le> 16" "length (tx_meta t) = 2 ^ k" "length (sq_buf (tx_sq t)) = 64 * 2 ^ k"
proof -
  have "is_pow2 (length (tx_meta t))" "length (tx_meta t) \<le> 2 ^ 16"
    using assms by (simp_all add: tx_geom_def ring_ok_def)
  then obtain k where k: "length (tx_meta t) = 2 ^ k" using is_pow2_iff by blast
  then have "k \<le> 16" using \<open>length (tx_meta t) \<le> 2 ^ 16\<close> power_le_imp_le_exp [of 2 k 16] by simp
  then show ?thesis using that k assms by (simp add: tx_geom_def)
qed

lemma pos16:
  assumes "k \<le> 16"
  shows "(64 * unat (ucast (w :: u32) :: u16)) mod (64 * 2 ^ k) = (64 * unat w) mod (64 * 2 ^ k)"
proof -
  have "unat (ucast w :: u16) = unat w mod 2 ^ 16" by (simp add: unsigned_ucast_eq take_bit_eq_mod)
  moreover have "unat w mod 2 ^ 16 mod 2 ^ k = unat w mod 2 ^ k"
    by (rule mod_mod_cancel) (rule le_imp_power_dvd [OF assms])
  ultimately show ?thesis by (simp only: mult_mod_right [symmetric])
qed

lemma pos_plus:
  assumes "k \<le> 16"
  shows "(64 * unat (w + of_nat n :: u32)) mod (64 * 2 ^ k) = (64 * unat w + 64 * n) mod (64 * 2 ^ k)"
proof -
  have "unat (w + of_nat n) = (unat w + n) mod 2 ^ 32" by (simp add: unat_word_ariths unat_of_nat mod_simps take_bit_eq_mod)
  moreover have "(unat w + n) mod 2 ^ 32 mod 2 ^ k = (unat w + n) mod 2 ^ k"
    by (rule mod_mod_cancel) (rule le_imp_power_dvd, use assms in linarith)
  ultimately have "unat (w + of_nat n) mod 2 ^ k = (unat w + n) mod 2 ^ k" by simp
  then show ?thesis by (simp only: mult_mod_right [symmetric] distrib_left [symmetric])
qed

lemma cyc_read_cong: "p mod length b = p' mod length b \<Longrightarrow> cyc_read b p n = cyc_read b p' n"
  by (metis cyc_read_mod)

section \<open>Entries a device can read\<close>

definition entry_bytes :: "tx \<Rightarrow> entry list \<Rightarrow> nat \<Rightarrow> bytes" where
  "entry_bytes t es i = cyc_read (sq_buf (tx_sq t)) (64 * unat (tx_head t + of_nat (bsum (take i es)))) (64 * fst (es ! i))"

definition loaded :: "nat \<Rightarrow> (u64 \<Rightarrow> nat \<Rightarrow> bytes) \<Rightarrow> tx \<Rightarrow> entry list \<Rightarrow> bool" where
  "loaded lo mem t es \<longleftrightarrow> (\<forall>i < length es. lo \<le> i \<longrightarrow> nic_entry mem (entry_bytes t es i) = map (frame_of t) (snd (es ! i)))"

text \<open>What no posting changes.\<close>

definition kept :: "tx \<Rightarrow> tx \<Rightarrow> bool" where
  "kept t t' \<longleftrightarrow> t' = t\<lparr>tx_sq := tx_sq t', tx_slots := tx_slots t', tx_slotTail := tx_slotTail t', tx_meta := tx_meta t',
     tx_pi := tx_pi t', tx_sinceSignal := tx_sinceSignal t', tx_c := tx_c t', tx_Stats := tx_Stats t',
     tx_sqDbrec := tx_sqDbrec t', tx_uar := tx_uar t'\<rparr>
   \<and> length (tx_slots t') = length (tx_slots t) \<and> length (tx_meta t') = length (tx_meta t)"

lemma kept_refl [simp]: "kept t t"
  by (simp add: kept_def)

lemma kept_trans:
  assumes "kept t u" "kept u v"
  shows "kept t v"
proof -
  from assms(1) obtain a b c d e f g h i j where u: "u = t\<lparr>tx_sq := a, tx_slots := b, tx_slotTail := c, tx_meta := d, tx_pi := e,
     tx_sinceSignal := f, tx_c := g, tx_Stats := h, tx_sqDbrec := i, tx_uar := j\<rparr>"
    "length b = length (tx_slots t)" "length d = length (tx_meta t)"
    unfolding kept_def by metis
  from assms(2) obtain a' b' c' d' e' f' g' h' i' j' where v: "v = u\<lparr>tx_sq := a', tx_slots := b', tx_slotTail := c', tx_meta := d', tx_pi := e',
     tx_sinceSignal := f', tx_c := g', tx_Stats := h', tx_sqDbrec := i', tx_uar := j'\<rparr>"
    "length b' = length (tx_slots u)" "length d' = length (tx_meta u)"
    unfolding kept_def by metis
  show ?thesis using u(2,3) v(2,3) unfolding kept_def v(1) u(1) by simp
qed

lemma kept_same:
  assumes "kept t u"
  shows "tx_cq u = tx_cq t" "tx_head u = tx_head t" "tx_slotHead u = tx_slotHead t" "tx_region u = tx_region t"
    "tx_regionVA u = tx_regionVA t" "tx_mpw u = tx_mpw t" "tx_sender u = tx_sender t" "tx_failed u = tx_failed t"
    "tx_ci u = tx_ci t" "tx_bbs u = tx_bbs t" "tx_maxBBs u = tx_maxBBs t" "tx_signalEvery u = tx_signalEvery t"
    "frame_of u d = frame_of t d" "tx_descOK u d = tx_descOK t d" "tx_frameMask u = tx_frameMask t"
proof -
  from assms obtain a b c m e f g h i j where u: "u = t\<lparr>tx_sq := a, tx_slots := b, tx_slotTail := c, tx_meta := m, tx_pi := e,
     tx_sinceSignal := f, tx_c := g, tx_Stats := h, tx_sqDbrec := i, tx_uar := j\<rparr>"
    unfolding kept_def by metis
  show "tx_cq u = tx_cq t" "tx_head u = tx_head t" "tx_slotHead u = tx_slotHead t" "tx_region u = tx_region t"
    "tx_regionVA u = tx_regionVA t" "tx_mpw u = tx_mpw t" "tx_sender u = tx_sender t" "tx_failed u = tx_failed t"
    "tx_ci u = tx_ci t" "tx_bbs u = tx_bbs t" "tx_maxBBs u = tx_maxBBs t" "tx_signalEvery u = tx_signalEvery t"
    "frame_of u d = frame_of t d" "tx_descOK u d = tx_descOK t d" "tx_frameMask u = tx_frameMask t"
    unfolding u by (simp_all add: frame_of_def tx_descOK_def)
qed

lemma entry_before:
  assumes "tx_abs t es" "i < length es"
  shows "bsum (take i es) + fst (es ! i) \<le> bsum es" "0 < fst (es ! i)" "bsum es \<le> length (tx_meta t)"
proof -
  show "bsum (take i es) + fst (es ! i) \<le> bsum es"
    using bsum_take_drop [of "Suc i" es] assms(2) by (simp add: take_Suc_conv_app_nth)
  show "0 < fst (es ! i)" "bsum es \<le> length (tx_meta t)" using assms by (auto simp: tx_abs_def)
qed

text \<open>A write of \<open>b\<close> blocks at the producer leaves every entry in flight as it was.\<close>

lemma entry_bytes_kept:
  assumes "tx_abs t es" "i < length es" "bsum es + b \<le> length (tx_meta t)"
    and "length (sq_buf q) = length (sq_buf (tx_sq t))"
    and "\<And>d k. 64 * b \<le> d \<Longrightarrow> d + k \<le> length (sq_buf (tx_sq t)) \<Longrightarrow>
      cyc_read (sq_buf q) (64 * unat (ucast (tx_pi t) :: u16) + d) k
        = cyc_read (sq_buf (tx_sq t)) (64 * unat (ucast (tx_pi t) :: u16) + d) k"
  shows "cyc_read (sq_buf q) (64 * unat (tx_head t + of_nat (bsum (take i es)))) (64 * fst (es ! i)) = entry_bytes t es i"
proof -
  have "tx_geom t" using assms(1) by (simp add: tx_abs_def)
  then obtain k where k: "k \<le> 16" "length (tx_meta t) = 2 ^ k" "length (sq_buf (tx_sq t)) = 64 * 2 ^ k"
    by (rule tx_geom_len)
  let ?p = "64 * unat (ucast (tx_pi t) :: u16)" let ?L = "64 * 2 ^ k :: nat"
  let ?e = "64 * unat (tx_head t + of_nat (bsum (take i es)))"
  define d where "d = ?L - 64 * bsum es + 64 * bsum (take i es)"
  note le = entry_before [OF assms(1,2)]
  have B: "64 * bsum es + 64 * b \<le> ?L" using assms(3) k(2) by simp
  have d: "64 * b \<le> d" "d + 64 * fst (es ! i) \<le> ?L" using B le by (simp_all add: d_def)
  have "?p mod ?L = (64 * unat (tx_head t) + 64 * bsum es) mod ?L"
    using pos16 [OF k(1), of "tx_pi t"] pos_plus [OF k(1), of "tx_head t" "bsum es"] tx_abs_pi [OF assms(1)] by simp
  then have "(?p + d) mod ?L = (64 * unat (tx_head t) + 64 * bsum es + d) mod ?L"
    by (rule mod_add_cong) (rule refl)
  also have "64 * unat (tx_head t) + 64 * bsum es + d = 64 * unat (tx_head t) + 64 * bsum (take i es) + ?L"
    using B by (simp add: d_def)
  also have "\<dots> mod ?L = ?e mod ?L" using pos_plus [OF k(1), of "tx_head t" "bsum (take i es)"] by simp
  finally have pos: "(?p + d) mod ?L = ?e mod ?L" .
  have "cyc_read (sq_buf q) ?e (64 * fst (es ! i)) = cyc_read (sq_buf q) (?p + d) (64 * fst (es ! i))"
    by (rule cyc_read_cong) (use pos k(3) assms(4) in simp)
  also have "\<dots> = cyc_read (sq_buf (tx_sq t)) (?p + d) (64 * fst (es ! i))"
    using assms(5) [OF d(1)] d(2) k(3) by simp
  also have "\<dots> = entry_bytes t es i" unfolding entry_bytes_def
    by (rule cyc_read_cong) (use pos k(3) in simp)
  finally show ?thesis .
qed

text \<open>Writing an entry and recording it.\<close>

lemma write_entry:
  assumes "tx_abs t es" "loaded lo mem t es" "0 < b" "b \<le> 15" "bsum es + b \<le> length (tx_meta t)" "ds \<noteq> []"
    and "length (dsum es) + length ds \<le> length (tx_slots t)" "tx_mpw t = None \<longrightarrow> length ds = 1"
    and "sq_ok q" "length (sq_buf q) = length (sq_buf (tx_sq t))"
    and "nic_entry mem (cyc_read (sq_buf q) (64 * unat (ucast (tx_pi t) :: u16)) (64 * b)) = map (frame_of t) ds"
    and "\<And>d k. 64 * b \<le> d \<Longrightarrow> d + k \<le> length (sq_buf (tx_sq t)) \<Longrightarrow>
      cyc_read (sq_buf q) (64 * unat (ucast (tx_pi t) :: u16) + d) k
        = cyc_read (sq_buf (tx_sq t)) (64 * unat (ucast (tx_pi t) :: u16) + d) k"
  shows "\<exists>t1 t'. push_slots ds (t\<lparr>tx_sq := q\<rparr>) = Some t1 \<and> push_meta (of_nat b) t1 = Some t'
     \<and> tx_abs t' (es @ [(b, ds)]) \<and> loaded lo mem t' (es @ [(b, ds)]) \<and> kept t t' \<and> tx_pi t' = tx_pi t + of_nat b
     \<and> entry_bytes t' (es @ [(b, ds)]) (length es) = cyc_read (sq_buf q) (64 * unat (ucast (tx_pi t) :: u16)) (64 * b)"
proof -
  have "tx_abs (t\<lparr>tx_sq := q\<rparr>) es" using assms(9,10,1) by (rule tx_abs_sq)
  then have "tx_abs (t\<lparr>tx_sq := q\<rparr>) es" "bsum es + b \<le> length (tx_meta (t\<lparr>tx_sq := q\<rparr>))"
    "length (dsum es) + length ds \<le> length (tx_slots (t\<lparr>tx_sq := q\<rparr>))" "tx_mpw (t\<lparr>tx_sq := q\<rparr>) = None \<longrightarrow> length ds = 1"
    using assms(5,7,8) by simp_all
  from push_entry [OF this(1) assms(3,4) this(2) assms(6) this(3,4)] obtain t1 t' sl st me where
    p: "push_slots ds (t\<lparr>tx_sq := q\<rparr>) = Some t1" "push_meta (of_nat b) t1 = Some t'" "tx_abs t' (es @ [(b, ds)])"
      "length me = length (tx_meta t)" "length sl = length (tx_slots t)"
      "t' = t\<lparr>tx_sq := q, tx_slots := sl, tx_slotTail := st, tx_meta := me, tx_pi := tx_pi t + of_nat b\<rparr>"
    by (elim exE conjE) simp
  have kt: "kept t t'" unfolding kept_def p(6) using p(4,5) by simp
  have "tx_geom t" using assms(1) by (simp add: tx_abs_def)
  then obtain k where k: "k \<le> 16" "length (sq_buf (tx_sq t)) = 64 * 2 ^ k" by (rule tx_geom_len)
  have "entry_bytes t' (es @ [(b, ds)]) (length es) = cyc_read (sq_buf q) (64 * unat (tx_pi t)) (64 * b)"
    by (simp add: entry_bytes_def p(6) tx_abs_pi [OF assms(1)])
  also have "\<dots> = cyc_read (sq_buf q) (64 * unat (ucast (tx_pi t) :: u16)) (64 * b)"
    by (rule cyc_read_cong) (use pos16 [OF k(1), of "tx_pi t"] k(2) assms(10) in simp)
  finally have last: "entry_bytes t' (es @ [(b, ds)]) (length es) = cyc_read (sq_buf q) (64 * unat (ucast (tx_pi t) :: u16)) (64 * b)" .
  have "loaded lo mem t' (es @ [(b, ds)])" unfolding loaded_def
  proof (intro allI impI)
    fix i assume i: "i < length (es @ [(b, ds)])" "lo \<le> i"
    have f: "frame_of t' = frame_of t" using kept_same(13) [OF kt] by blast
    show "nic_entry mem (entry_bytes t' (es @ [(b, ds)]) i) = map (frame_of t') (snd ((es @ [(b, ds)]) ! i))"
    proof (cases "i < length es")
      case True
      have "entry_bytes t' (es @ [(b, ds)]) i = entry_bytes t es i"
        using entry_bytes_kept [OF assms(1) True assms(5,10,12)] True
        by (simp add: entry_bytes_def p(6) nth_append)
      then show ?thesis using True i(2) assms(2) f by (simp add: loaded_def nth_append)
    next
      case False
      then have "i = length es" using i(1) by simp
      then show ?thesis using assms(11) f last by simp
    qed
  qed
  then show ?thesis using p kt last by auto
qed

section \<open>The builders, on the ring\<close>

text \<open>The device's view of the packet region: what it fetches at an address of the region is what the
  region holds there.\<close>

definition dma :: "(u64 \<Rightarrow> nat \<Rightarrow> bytes) \<Rightarrow> tx \<Rightarrow> bool" where
  "dma mem t \<longleftrightarrow> (\<forall>a n. a + n \<le> length (tx_region t) \<longrightarrow> mem (tx_regionVA t + of_nat a) n = take n (drop a (tx_region t)))"

lemma dma_frame:
  assumes "dma mem t" "tx_geom t" "tx_descOK t d" "k \<le> unat (d_len d)"
  shows "mem (tx_regionVA t + d_addr d + of_nat k) (unat (d_len d) - k) = drop k (frame_of t d)"
proof -
  have le: "unat (d_addr d) + unat (d_len d) \<le> length (tx_region t)" by (rule descOK_slice(2) [OF assms(2,3)])
  have "mem (tx_regionVA t + of_nat (unat (d_addr d) + k)) (unat (d_len d) - k)
      = take (unat (d_len d) - k) (drop (unat (d_addr d) + k) (tx_region t))"
    using assms(1)[unfolded dma_def] assms(4) le by (simp del: of_nat_add)
  then show ?thesis by (simp add: frame_of_def drop_take ac_simps)
qed

text \<open>An entry of \<open>b\<close> blocks carrying \<open>fs\<close>, written at the producer; \<open>sg\<close> is whether it asks for a
  completion.\<close>

definition entry_written :: "(u64 \<Rightarrow> nat \<Rightarrow> bytes) \<Rightarrow> tx \<Rightarrow> sq \<Rightarrow> nat \<Rightarrow> bytes list \<Rightarrow> bool \<Rightarrow> bool" where
  "entry_written mem t q b fs sg \<longleftrightarrow> sq_ok q \<and> length (sq_buf q) = length (sq_buf (tx_sq t))
     \<and> nic_entry mem (cyc_read (sq_buf q) (64 * unat (ucast (tx_pi t) :: u16)) (64 * b)) = fs
     \<and> nic_signaled (cyc_read (sq_buf q) (64 * unat (ucast (tx_pi t) :: u16)) (64 * b)) = sg
     \<and> (\<forall>d k. 64 * b \<le> d \<and> d + k \<le> length (sq_buf (tx_sq t)) \<longrightarrow>
          cyc_read (sq_buf q) (64 * unat (ucast (tx_pi t) :: u16) + d) k
            = cyc_read (sq_buf (tx_sq t)) (64 * unat (ucast (tx_pi t) :: u16) + d) k)"

lemma record_entry:
  assumes "tx_abs t es" "loaded lo mem t es" "0 < b" "b \<le> 15" "bsum es + b \<le> length (tx_meta t)" "ds \<noteq> []"
    and "length (dsum es) + length ds \<le> length (tx_slots t)" "tx_mpw t = None \<longrightarrow> length ds = 1"
    and "entry_written mem t q b (map (frame_of t) ds) sg"
  shows "\<exists>t1 t'. push_slots ds (t\<lparr>tx_sq := q\<rparr>) = Some t1 \<and> push_meta (of_nat b) t1 = Some t'
     \<and> tx_abs t' (es @ [(b, ds)]) \<and> loaded lo mem t' (es @ [(b, ds)]) \<and> kept t t' \<and> tx_pi t' = tx_pi t + of_nat b
     \<and> nic_signaled (entry_bytes t' (es @ [(b, ds)]) (length es)) = sg"
proof -
  have w: "sq_ok q" "length (sq_buf q) = length (sq_buf (tx_sq t))"
    "nic_entry mem (cyc_read (sq_buf q) (64 * unat (ucast (tx_pi t) :: u16)) (64 * b)) = map (frame_of t) ds"
    "nic_signaled (cyc_read (sq_buf q) (64 * unat (ucast (tx_pi t) :: u16)) (64 * b)) = sg"
    "\<And>d k. 64 * b \<le> d \<Longrightarrow> d + k \<le> length (sq_buf (tx_sq t)) \<Longrightarrow>
      cyc_read (sq_buf q) (64 * unat (ucast (tx_pi t) :: u16) + d) k
        = cyc_read (sq_buf (tx_sq t)) (64 * unat (ucast (tx_pi t) :: u16) + d) k"
    using assms(9) by (simp_all add: entry_written_def)
  have "\<exists>t1 t'. push_slots ds (t\<lparr>tx_sq := q\<rparr>) = Some t1 \<and> push_meta (of_nat b) t1 = Some t'
     \<and> tx_abs t' (es @ [(b, ds)]) \<and> loaded lo mem t' (es @ [(b, ds)]) \<and> kept t t' \<and> tx_pi t' = tx_pi t + of_nat b
     \<and> entry_bytes t' (es @ [(b, ds)]) (length es) = cyc_read (sq_buf q) (64 * unat (ucast (tx_pi t) :: u16)) (64 * b)"
    by (rule write_entry [OF assms(1-8) w(1-3)]) (rule w(5))
  then show ?thesis unfolding w(4) [symmetric] by (elim exE conjE) (intro exI conjI, assumption+, simp)
qed

lemma blocks_bounds:
  assumes "2 \<le> ds" "ds \<le> MaxDS"
  shows "blocks_of (of_nat ds) = of_nat ((ds + 3) div 4)" "0 < (ds + 3) div 4" "(ds + 3) div 4 \<le> 15"
proof -
  have "unat (of_nat ((ds + 3) div 4) :: u32) = (ds + 3) div 4"
    by (rule unat_of_nat_small) (use assms(2) in \<open>simp add: MaxDS_def\<close>)
  then show "blocks_of (of_nat ds) = of_nat ((ds + 3) div 4)"
    using unat_blocks_of [OF assms(2)] by (simp only: word_unat_eq_iff)
  show "0 < (ds + 3) div 4" "(ds + 3) div 4 \<le> 15" using assms by (simp_all add: MaxDS_def div_greater_zero_iff)
qed

lemma single_written:
  assumes "tx_geom t" "dma mem t" "tx_descOK t d"
  shows "\<exists>b q. tx_Put t (ucast (tx_pi t)) (frame_of t d) (tx_regionVA t + d_addr d) signal = Some (of_nat b, t\<lparr>tx_sq := q\<rparr>)
     \<and> 0 < b \<and> b \<le> 15 \<and> b \<le> unat (tx_maxBBs t) \<and> entry_written mem t q b [frame_of t d] signal"
proof -
  let ?s = "(tx_sender t)\<lparr>s_sq := tx_sq t\<rparr>" let ?f = "frame_of t d" let ?a = "tx_regionVA t + d_addr d"
  let ?il = "unat (s_inlineLen ?s)" let ?ds = "send_ds ?il ?f"
  have s: "sender_ok ?s" and mx: "tx_maxBBs t = s_maxBBs ?s" using assms(1) by (simp_all add: tx_geom_def)
  have lf: "length ?f = unat (d_len d)" by (rule length_frame_of [OF assms(1,3)])
  then have lf31: "length ?f < 2 ^ 31" using descOK_slice(4) [OF assms(1,3)] by simp
  then have "send_ready ?s (?f, ?a, signal)" using s by (simp add: send_ready_def)
  from send.put_reads_back [OF this, of "ucast (tx_pi t)"] obtain n s' rest where
    p: "Sender_Put ?s (ucast (tx_pi t)) ?f ?a signal = Some (n, s')" "n = blocks_of (of_nat ?ds)"
      "sq_ok (s_sq s')" "length (sq_buf (s_sq s')) = length (sq_buf (tx_sq t))"
      "cyc_read (sq_buf (s_sq s')) (64 * unat (ucast (tx_pi t) :: u16)) (64 * unat n)
         = send_entry (s_qpn ?s) (s_lkey ?s) (s_csFlags ?s) ?il (ucast (tx_pi t)) ?f ?a signal @ rest"
      "\<forall>d k. 64 * unat n \<le> d \<and> d + k \<le> length (sq_buf (tx_sq t)) \<longrightarrow>
          cyc_read (sq_buf (s_sq s')) (64 * unat (ucast (tx_pi t) :: u16) + d) k
            = cyc_read (sq_buf (tx_sq t)) (64 * unat (ucast (tx_pi t) :: u16) + d) k"
    by auto
  have max: "2 + eth_octs ?il \<le> MaxDS" using s unfolding sender_ok_def by blast
  then have ds: "?ds \<le> MaxDS" using send_ds_le [of ?il ?f] by simp
  have "0 < eth_octs (min (length ?f) ?il)" by (simp add: eth_octs_def div_greater_zero_iff)
  then have ds2: "2 \<le> ?ds" by (simp add: send_ds_def)
  let ?b = "(?ds + 3) div 4"
  note b = blocks_bounds [OF ds2 ds]
  have un: "unat n = ?b" using p(2) unat_blocks_of [OF ds] by simp
  have bm: "?b \<le> unat (tx_maxBBs t)"
    unfolding mx sender_room(2) [OF s] using send_ds_le [of ?il ?f] by (intro div_le_mono) simp
  have il: "?il \<le> 914" using s by (rule sender_ok_inline)
  have "nic_entry mem (cyc_read (sq_buf (s_sq s')) (64 * unat (ucast (tx_pi t) :: u16)) (64 * unat n)) = [?f]"
    unfolding p(5) nic_entry_send
    using nic_send_entry [OF il lf31, of mem ?a] dma_frame [OF assms(2,1,3)] lf by simp
  moreover have "nic_signaled (cyc_read (sq_buf (s_sq s')) (64 * unat (ucast (tx_pi t) :: u16)) (64 * unat n)) = signal"
    unfolding p(5) send_entry_def Let_def by (simp add: nic_signaled_hdr)
  ultimately have "entry_written mem t (s_sq s') ?b [?f] signal" using p(3,4,6) un by (simp add: entry_written_def)
  moreover have "tx_Put t (ucast (tx_pi t)) ?f ?a signal = Some (of_nat ?b, t\<lparr>tx_sq := s_sq s'\<rparr>)"
    using p(1,2) b(1) by (simp add: tx_Put_def)
  ultimately show ?thesis using b bm by blast
qed

section \<open>One descriptor per entry\<close>

lemma loaded_cong:
  "tx_sq u = tx_sq t \<Longrightarrow> tx_head u = tx_head t \<Longrightarrow> tx_region u = tx_region t \<Longrightarrow> loaded lo mem u es = loaded lo mem t es"
  by (simp add: loaded_def entry_bytes_def frame_of_def [abs_def])

lemma dma_kept: "kept t u \<Longrightarrow> dma mem u = dma mem t"
  by (simp add: dma_def kept_same)

lemma single_descs:
  assumes "tx_abs t es" "tx_mpw t = None"
  shows "length (dsum es) \<le> bsum es"
proof -
  have "\<forall>e \<in> set es. 0 < fst e \<and> length (snd e) = 1" using assms by (auto simp: tx_abs_def)
  then show ?thesis by (induction es) auto
qed

lemma dsum_Nil: "tx_abs t (es @ fs) \<Longrightarrow> dsum fs = [] \<Longrightarrow> fs = []"
  by (cases fs) (auto simp: tx_abs_def)

lemma post_each_mono: "post_each i n ds t a = Some (t', a') \<Longrightarrow> pa_posted a \<le> pa_posted a'"
proof (induction ds arbitrary: i t a)
  case (Cons d ds)
  show ?case
  proof (cases "tx_descOK t d")
    case True
    then obtain u b where "post_each (Suc i) n ds u b = Some (t', a')" "pa_posted b = Suc (pa_posted a)"
      using Cons.prems by (auto simp: Let_def bind_eq_Some_conv split: prod.splits)
    then show ?thesis using Cons.IH by fastforce
  qed (use Cons.prems in auto)
qed simp

lemma post_each_none:
  assumes "post_each i n ds t a = Some (t', a')" "pa_posted a' = pa_posted a"
  shows "tx_sq t' = tx_sq t" "tx_head t' = tx_head t"
proof -
  have "t' = t \<or> t' = count_tx (\<lambda>c. c\<lparr>c_badDesc := c_badDesc c + 1\<rparr>) t"
  proof (cases ds)
    case Nil
    then show ?thesis using assms(1) by simp
  next
    case (Cons d ds')
    show ?thesis
    proof (cases "tx_descOK t d")
      case True
      then have False using assms unfolding Cons
        by (auto simp: Let_def bind_eq_Some_conv dest!: post_each_mono)
      then show ?thesis ..
    next
      case False
      then show ?thesis using assms(1) Cons by simp
    qed
  qed
  then show "tx_sq t' = tx_sq t" "tx_head t' = tx_head t" by (auto simp: count_tx_def)
qed

lemma post_each_spec:
  assumes "tx_abs t es" "loaded lo mem t es" "dma mem t" "tx_mpw t = None"
    and "bsum es + length ds * unat (tx_maxBBs t) \<le> length (tx_meta t)"
  shows "\<exists>t' a' m fs. post_each i n ds t a = Some (t', a') \<and> m \<le> length ds \<and> dsum fs = take m ds
     \<and> tx_abs t' (es @ fs) \<and> loaded lo mem t' (es @ fs) \<and> kept t t' \<and> pa_posted a' = pa_posted a + m
     \<and> (\<forall>d \<in> set (take m ds). tx_descOK t d) \<and> (m < length ds \<longrightarrow> \<not> tx_descOK t (ds ! m))
     \<and> (0 < m \<longrightarrow> fs \<noteq> [] \<and> (i + m = n \<or> tx_signalEvery t = 0 \<longrightarrow>
          nic_signaled (entry_bytes t' (es @ fs) (length (es @ fs) - 1)) = (i + m = n)))"
  using assms
proof (induction ds arbitrary: i t es a)
  case Nil
  then show ?case by (auto intro!: exI [of _ "[]"])
next
  case (Cons d ds)
  show ?case
  proof (cases "tx_descOK t d")
    case False
    have "kept t (count_tx (\<lambda>c. c\<lparr>c_badDesc := c_badDesc c + 1\<rparr>) t)" by (simp add: kept_def count_tx_def)
    moreover have "loaded lo mem (count_tx (\<lambda>c. c\<lparr>c_badDesc := c_badDesc c + 1\<rparr>) t) es"
      using Cons.prems(2) loaded_cong [of "count_tx (\<lambda>c. c\<lparr>c_badDesc := c_badDesc c + 1\<rparr>) t" t] by (simp add: count_tx_def)
    ultimately show ?thesis using False Cons.prems(1)
      by (intro exI [of _ "count_tx (\<lambda>c. c\<lparr>c_badDesc := c_badDesc c + 1\<rparr>) t"] exI [of _ a] exI [of _ 0] exI [of _ "[]"]) simp
  next
    case True
    define sg where "sg = (Suc i = n \<or> (tx_signalEvery t \<noteq> 0 \<and> tx_sinceSignal t + 1 \<ge> tx_signalEvery t))"
    define t0 where "t0 = t\<lparr>tx_sinceSignal := (if sg then 0 else tx_sinceSignal t + 1)\<rparr>"
    have k0: "kept t t0" by (simp add: kept_def t0_def)
    have a0: "tx_abs t0 es" using Cons.prems(1) by (simp add: t0_def)
    have l0: "loaded lo mem t0 es" using Cons.prems(2) loaded_cong [of t0 t] by (simp add: t0_def)
    have g0: "tx_geom t0" using a0 by (simp add: tx_abs_def)
    have pi0: "tx_pi t0 = tx_pi t" "tx_meta t0 = tx_meta t" "tx_slots t0 = tx_slots t" by (simp_all add: t0_def)
    note same0 = kept_same [OF k0]
    have dma0: "dma mem t0" using Cons.prems(3) dma_kept [OF k0] by simp
    have ok0: "tx_descOK t0 d" using True same0 by simp
    from single_written [OF g0 dma0 ok0, of sg] obtain b q where
      w: "tx_Put t0 (ucast (tx_pi t0)) (frame_of t0 d) (tx_regionVA t0 + d_addr d) sg = Some (of_nat b, t0\<lparr>tx_sq := q\<rparr>)"
        "0 < b" "b \<le> 15" "b \<le> unat (tx_maxBBs t0)" "entry_written mem t0 q b [frame_of t0 d] sg" by blast
    have room: "bsum es + b \<le> length (tx_meta t0)" using Cons.prems(5) w(4) pi0 same0 by simp
    have slots: "length (dsum es) + length [d] \<le> length (tx_slots t0)"
      using single_descs [OF a0] Cons.prems(4) room w(2) same0 g0 by (simp add: tx_geom_def)
    from record_entry [OF a0 l0 w(2,3) room _ slots, of q sg] w(5) obtain t1 t2 where
      r: "push_slots [d] (t0\<lparr>tx_sq := q\<rparr>) = Some t1" "push_meta (of_nat b) t1 = Some t2"
        "tx_abs t2 (es @ [(b, [d])])" "loaded lo mem t2 (es @ [(b, [d])])" "kept t0 t2"
        "nic_signaled (entry_bytes t2 (es @ [(b, [d])]) (length es)) = sg" by auto
    have k2: "kept t t2" by (rule kept_trans [OF k0 r(5)])
    note same2 = kept_same [OF k2]
    have p1: "push_slot d (t0\<lparr>tx_sq := q\<rparr>) = Some t1" using r(1) by (simp add: bind_eq_Some_conv)
    let ?a = "\<lparr>pa_bytes = pa_bytes a + ucast (d_len d), pa_lastIdx = ucast (tx_pi t), pa_posted = Suc (pa_posted a)\<rparr>"
    have eq: "post_each i n (d # ds) t a = post_each (Suc i) n ds t2 ?a"
      using True w(1) descOK_slice(1) [OF g0 ok0] p1 r(2) pi0 same0(5)
      by (simp add: Let_def sg_def [symmetric] t0_def [symmetric])
    have "bsum (es @ [(b, [d])]) + length ds * unat (tx_maxBBs t2) \<le> length (tx_meta t2)"
      using Cons.prems(5) w(4) same2 k2 same0 by (simp add: kept_def)
    from Cons.IH [OF r(3,4) _ _ this, of "Suc i" ?a] Cons.prems(3,4) dma_kept [OF k2] same2 obtain t' a' m fs where
      ih: "post_each (Suc i) n ds t2 ?a = Some (t', a')" "m \<le> length ds" "dsum fs = take m ds"
        "tx_abs t' ((es @ [(b, [d])]) @ fs)" "loaded lo mem t' ((es @ [(b, [d])]) @ fs)" "kept t2 t'"
        "pa_posted a' = Suc (pa_posted a) + m" "\<forall>d \<in> set (take m ds). tx_descOK t d"
        "m < length ds \<longrightarrow> \<not> tx_descOK t (ds ! m)"
        "0 < m \<longrightarrow> fs \<noteq> [] \<and> (Suc i + m = n \<or> tx_signalEvery t = 0 \<longrightarrow>
           nic_signaled (entry_bytes t' ((es @ [(b, [d])]) @ fs) (length ((es @ [(b, [d])]) @ fs) - 1)) = (Suc i + m = n))" by auto
    have sig: "nic_signaled (entry_bytes t' (es @ (b, [d]) # fs) (length (es @ (b, [d]) # fs) - 1)) = (i + Suc m = n)"
      if m: "i + Suc m = n \<or> tx_signalEvery t = 0"
    proof (cases "m = 0")
      case True
      then have fs: "fs = []" using dsum_Nil [OF ih(4)] ih(3) by simp
      have "tx_sq t' = tx_sq t2" "tx_head t' = tx_head t2"
        using post_each_none [OF ih(1)] ih(7) True by simp_all
      then have "entry_bytes t' (es @ [(b, [d])]) (length es) = entry_bytes t2 (es @ [(b, [d])]) (length es)"
        by (simp add: entry_bytes_def)
      moreover have "sg = (i + Suc m = n)" using True m by (auto simp: sg_def)
      ultimately show ?thesis using r(6) fs by simp
    next
      case False
      then show ?thesis using ih(10) m by auto
    qed
    have "kept t t'" by (rule kept_trans [OF k2 ih(6)])
    then show ?thesis unfolding eq
      using ih sig True
      by (intro exI [of _ t'] exI [of _ a'] exI [of _ "Suc m"] exI [of _ "(b, [d]) # fs"]) simp
  qed
qed

section \<open>Several descriptors per entry\<close>

definition checked_ok :: "tx \<Rightarrow> desc list \<Rightarrow> multi \<Rightarrow> bool" where
  "checked_ok t descs m \<longleftrightarrow> (\<forall>j < mu_checked m. j < length descs \<longrightarrow> tx_descOK t (descs ! j))"

definition dma_addr :: "tx \<Rightarrow> desc \<Rightarrow> u64" where
  "dma_addr t d = tx_regionVA t + d_addr d"

text \<open>What gathering returns: frames and addresses of accepted descriptors from \<open>i\<close> on.\<close>

lemma gather_spec:
  assumes "tx_geom t" "i \<le> limit" "limit \<le> length descs" "checked_ok t descs m" "i \<le> mu_checked m"
  shows "\<exists>t1 m1 l. gather p descs i limit t m fs ps = Some (t1, m1, fs @ map (frame_of t) (take l (drop i descs)),
       if p then ps @ map (dma_addr t) (take l (drop i descs)) else ps)
     \<and> t1 = t\<lparr>tx_c := tx_c t1\<rparr> \<and> m1 = m\<lparr>mu_bad := mu_bad m1, mu_checked := mu_checked m1\<rparr>
     \<and> checked_ok t descs m1 \<and> l \<le> limit - i \<and> i + l \<le> mu_checked m1 \<and> (\<forall>d \<in> set (take l (drop i descs)). tx_descOK t d)"
  using assms(2,4,5)
proof (induction "limit - i" arbitrary: i m fs ps)
  case 0
  then show ?case by (subst gather.simps) (intro exI [of _ t] exI [of _ m] exI [of _ 0], simp)
next
  case (Suc n)
  have i: "i < limit" "i < length descs" "n = limit - Suc i" "Suc i \<le> limit" using Suc assms(3) by auto
  show ?case
  proof (cases "mu_checked m \<le> i \<and> \<not> tx_descOK t (descs ! i)")
    case True
    have "gather p descs i limit t m fs ps
        = Some (count_tx (\<lambda>c. c\<lparr>c_badDesc := c_badDesc c + 1\<rparr>) t, m\<lparr>mu_bad := True\<rparr>, fs, ps)"
      using True i by (subst gather.simps) (simp add: Let_def)
    then show ?thesis using Suc.prems(2,3)
      by (intro exI [of _ "count_tx (\<lambda>c. c\<lparr>c_badDesc := c_badDesc c + 1\<rparr>) t"] exI [of _ "m\<lparr>mu_bad := True\<rparr>"] exI [of _ 0])
         (simp add: count_tx_def checked_ok_def)
  next
    case False
    let ?d = "descs ! i"
    have ok: "tx_descOK t ?d" using False Suc.prems(2) i(2) by (auto simp: checked_ok_def not_le)
    define m' where "m' = (if mu_checked m \<le> i then m\<lparr>mu_checked := Suc i\<rparr> else m)"
    have c': "checked_ok t descs m'"
      using Suc.prems(2,3) ok False by (auto simp: checked_ok_def m'_def less_Suc_eq)
    have "Suc i \<le> mu_checked m'" using Suc.prems(3) by (simp add: m'_def)
    from Suc.hyps(1) [OF i(3,4) c' this, of "fs @ [frame_of t ?d]" "if p then ps @ [dma_addr t ?d] else ps"] obtain t1 m1 l where
      ih: "gather p descs (Suc i) limit t m' (fs @ [frame_of t ?d]) (if p then ps @ [dma_addr t ?d] else ps)
        = Some (t1, m1, (fs @ [frame_of t ?d]) @ map (frame_of t) (take l (drop (Suc i) descs)),
            if p then (if p then ps @ [dma_addr t ?d] else ps) @ map (dma_addr t) (take l (drop (Suc i) descs))
            else (if p then ps @ [dma_addr t ?d] else ps))"
        "t1 = t\<lparr>tx_c := tx_c t1\<rparr>" "m1 = m'\<lparr>mu_bad := mu_bad m1, mu_checked := mu_checked m1\<rparr>"
        "checked_ok t descs m1" "l \<le> limit - Suc i" "Suc i + l \<le> mu_checked m1" "\<forall>d \<in> set (take l (drop (Suc i) descs)). tx_descOK t d" by blast
    have eq: "gather p descs i limit t m fs ps
        = gather p descs (Suc i) limit t m' (fs @ [frame_of t ?d]) (if p then ps @ [dma_addr t ?d] else ps)"
      using i ok descOK_slice(1) [OF assms(1) ok]
      by (subst gather.simps) (simp add: Let_def m'_def [symmetric] dma_addr_def)
    have tk: "take (Suc l) (drop i descs) = ?d # take l (drop (Suc i) descs)"
      using i(2) by (simp add: Cons_nth_drop_Suc [symmetric])
    have m1: "m1 = m\<lparr>mu_bad := mu_bad m1, mu_checked := mu_checked m1\<rparr>"
      using ih(3) by (simp add: m'_def split: if_splits)
    have "Suc l \<le> limit - i" using ih(5) i by linarith
    then show ?thesis unfolding eq
      using ih(1,2,4,6,7) m1 ok by (intro exI [of _ t1] exI [of _ m1] exI [of _ "Suc l"]) (simp add: tk)
  qed
qed

lemma unat_free:
  assumes "tx_abs t es"
  shows "unat (tx_bbs t - (tx_pi t - tx_head t)) = length (tx_meta t) - bsum es"
proof -
  have ok: "ring_ok (tx_meta t)" and b: "tx_bbs t = of_nat (length (tx_meta t))" and le: "bsum es \<le> length (tx_meta t)"
    using assms by (simp_all add: tx_abs_def tx_geom_def)
  have u: "unat (tx_bbs t) = length (tx_meta t)" unfolding b by (rule unat_of_nat_ring [OF ok]) simp
  have "unat (tx_pi t - tx_head t) = bsum es" using assms by (simp add: tx_abs_def)
  moreover have "tx_pi t - tx_head t \<le> tx_bbs t" unfolding word_le_nat_alt calculation u by (rule le)
  ultimately show ?thesis using unat_sub u by metis
qed

text \<open>The two multi-packet builders, on the ring.\<close>

lemma Fits_le:
  assumes "tx_geom t" "tx_mpw t = Some mpw"
  shows "MPWSender_Fits mpw frames \<le> length frames" "m_pointer mpw \<Longrightarrow> MPWSender_Fits mpw frames \<le> 58"
proof -
  have m: "m_maxPackets mpw \<le> 58" "m_maxLen mpw < 2 ^ 31" using assms by (simp_all add: tx_geom_def)
  let ?n = "if int (length frames) > m_maxPackets mpw then nat (m_maxPackets mpw) else length frames"
  have p: "MPWSender_Fits mpw frames \<le> length (take ?n frames)" if "m_pointer mpw"
    using that by (simp add: MPWSender_Fits_def Let_def length_takeWhile_le del: length_take)
  show "MPWSender_Fits mpw frames \<le> length frames"
  proof (cases "m_pointer mpw")
    case True
    then show ?thesis using p by auto
  next
    case False
    then show ?thesis using mpw_fits_copy_spec [OF m(2), of 2 frames] by (simp add: MPWSender_Fits_def MaxDS_def)
  qed
  show "m_pointer mpw \<Longrightarrow> MPWSender_Fits mpw frames \<le> 58" using p m(1) by (auto split: if_splits)
qed

lemma room_of:
  assumes "tx_abs t es" "\<not> (of_nat b :: u32) > tx_bbs t - (tx_pi t - tx_head t)" "b < 2 ^ 32"
  shows "bsum es + b \<le> length (tx_meta t)" "64 * b \<le> length (sq_buf (tx_sq t))"
proof -
  have "unat (of_nat b :: u32) = b" using assms(3) by (rule unat_of_nat_small)
  then have "b \<le> length (tx_meta t) - bsum es"
    using assms(2) unfolding word_less_nat_alt unat_free [OF assms(1)] by simp
  moreover have "bsum es \<le> length (tx_meta t)" "length (sq_buf (tx_sq t)) = 64 * length (tx_meta t)"
    using assms(1) by (simp_all add: tx_abs_def tx_geom_def)
  ultimately show "bsum es + b \<le> length (tx_meta t)" "64 * b \<le> length (sq_buf (tx_sq t))" by simp_all
qed

lemma tx_sq_ok: "tx_geom t \<Longrightarrow> sq_ok (tx_sq t)"
  by (simp add: tx_geom_def sender_ok_def)

lemma pointers_written:
  assumes "tx_geom t" "dma mem t" "\<forall>d \<in> set ds. tx_descOK t d" "length ds \<le> 58"
    and "64 * ((2 + length ds + 3) div 4) \<le> length (sq_buf (tx_sq t))"
  shows "\<exists>q. tx_PutPointers t mpw (ucast (tx_pi t)) (map (frame_of t) ds) (map (dma_addr t) ds) = Some (t\<lparr>tx_sq := q\<rparr>)
     \<and> entry_written mem t q ((2 + length ds + 3) div 4) (map (frame_of t) ds) False"
proof -
  let ?s = "mpw\<lparr>m_sq := tx_sq t\<rparr>" let ?fs = "map (frame_of t) ds" let ?as = "map (dma_addr t) ds"
  let ?n = "2 + length ds" let ?b = "(?n + 3) div 4"
  have nds: "?n \<le> MaxDS" using assms(4) by (simp add: MaxDS_def)
  have "16 * ?n \<le> 64 * ?b" using blocks_hold [of ?n] by simp
  then have "pointer_ready ?s (?fs, ?as, False)"
    using tx_sq_ok [OF assms(1)] nds assms(5) by (simp add: pointer_ready_def)
  from pointers.put_reads_back [OF this, of "ucast (tx_pi t)"] obtain n s' rest where
    p: "MPWSender_PutPointers ?s (ucast (tx_pi t)) ?fs ?as False = Some (n, s')" "n = blocks_of (of_nat ?n)"
      "sq_ok (m_sq s')" "length (sq_buf (m_sq s')) = length (sq_buf (tx_sq t))"
      "cyc_read (sq_buf (m_sq s')) (64 * unat (ucast (tx_pi t) :: u16)) (64 * unat n)
        = mpw_ptr_entry (m_qpn ?s) (m_lkey ?s) (m_csFlags ?s) (ucast (tx_pi t)) ?fs ?as False @ rest"
      "\<forall>d k. 64 * unat n \<le> d \<and> d + k \<le> length (sq_buf (tx_sq t)) \<longrightarrow>
          cyc_read (sq_buf (m_sq s')) (64 * unat (ucast (tx_pi t) :: u16) + d) k
            = cyc_read (sq_buf (tx_sq t)) (64 * unat (ucast (tx_pi t) :: u16) + d) k"
    by auto
  have un: "unat n = ?b" using p(2) unat_blocks_of [OF nds] by simp
  have short: "\<forall>f \<in> set ?fs. length f < 2 ^ 31"
    using assms(1,3) descOK_slice(4) by (auto simp: length_frame_of)
  have "nic_entry mem (mpw_ptr_entry (m_qpn ?s) (m_lkey ?s) (m_csFlags ?s) (ucast (tx_pi t)) ?fs ?as False @ rest)
      = nic_segments mem (concat (map2 (\<lambda>f a. dseg_bytes (of_nat (length f)) (m_lkey ?s) a) ?fs ?as))"
    unfolding mpw_ptr_entry_def nic_entry_mpw
    by (rule nic_mpw_entry) (use nds in \<open>simp_all add: length_pointers MaxDS_def\<close>)
  also have "\<dots> = map2 (\<lambda>f a. mem a (length f)) ?fs ?as" by (rule nic_segments_pointed [OF short]) simp
  also have "\<dots> = ?fs"
  proof (rule nth_equalityI)
    fix i assume "i < length (map2 (\<lambda>f a. mem a (length f)) ?fs ?as)"
    then have i: "i < length ds" by simp
    then have "tx_descOK t (ds ! i)" using assms(3) by simp
    then show "map2 (\<lambda>f a. mem a (length f)) ?fs ?as ! i = ?fs ! i"
      using dma_frame [OF assms(2,1), of "ds ! i" 0] i length_frame_of [OF assms(1)] by (simp add: dma_addr_def)
  qed simp
  finally have e: "nic_entry mem (cyc_read (sq_buf (m_sq s')) (64 * unat (ucast (tx_pi t) :: u16)) (64 * ?b)) = ?fs"
    using p(5) un by simp
  have sg: "\<not> nic_signaled (cyc_read (sq_buf (m_sq s')) (64 * unat (ucast (tx_pi t) :: u16)) (64 * ?b))"
    using p(5) un by (simp add: mpw_ptr_entry_def nic_signaled_hdr)
  have "entry_written mem t (m_sq s') ?b ?fs False" unfolding entry_written_def using p(3,4,6) un e sg by simp
  moreover have "tx_PutPointers t mpw (ucast (tx_pi t)) ?fs ?as = Some (t\<lparr>tx_sq := m_sq s'\<rparr>)"
    using p(1) by (simp add: tx_PutPointers_def)
  ultimately show ?thesis by blast
qed

lemma copies_written:
  assumes "tx_geom t" "\<forall>f \<in> set fs. length f < 2 ^ 31" "mpw_ds fs \<le> MaxDS"
    and "64 * ((mpw_ds fs + 3) div 4) \<le> length (sq_buf (tx_sq t))"
  shows "\<exists>q. tx_PutMulti t mpw (ucast (tx_pi t)) fs = Some (t\<lparr>tx_sq := q\<rparr>)
     \<and> entry_written mem t q ((mpw_ds fs + 3) div 4) fs False"
proof -
  let ?s = "mpw\<lparr>m_sq := tx_sq t\<rparr>" let ?n = "mpw_ds fs" let ?b = "(?n + 3) div 4"
  have "16 * ?n \<le> 64 * ?b" using blocks_hold [of ?n] by simp
  then have "copy_ready ?s (fs, False)" using tx_sq_ok [OF assms(1)] assms(3,4) by (simp add: copy_ready_def)
  from copy.put_reads_back [OF this, of "ucast (tx_pi t)"] obtain n s' rest where
    p: "MPWSender_Put ?s (ucast (tx_pi t)) fs False = Some (n, s')" "n = blocks_of (of_nat ?n)"
      "sq_ok (m_sq s')" "length (sq_buf (m_sq s')) = length (sq_buf (tx_sq t))"
      "cyc_read (sq_buf (m_sq s')) (64 * unat (ucast (tx_pi t) :: u16)) (64 * unat n)
        = mpw_entry (m_qpn ?s) (m_csFlags ?s) (ucast (tx_pi t)) fs False @ rest"
      "\<forall>d k. 64 * unat n \<le> d \<and> d + k \<le> length (sq_buf (tx_sq t)) \<longrightarrow>
          cyc_read (sq_buf (m_sq s')) (64 * unat (ucast (tx_pi t) :: u16) + d) k
            = cyc_read (sq_buf (tx_sq t)) (64 * unat (ucast (tx_pi t) :: u16) + d) k"
    by auto
  have un: "unat n = ?b" using p(2) unat_blocks_of [OF assms(3)] by simp
  have "nic_entry mem (mpw_entry (m_qpn ?s) (m_csFlags ?s) (ucast (tx_pi t)) fs False @ rest)
      = nic_segments mem (concat (map mpw_packet fs))"
    unfolding mpw_entry_def nic_entry_mpw
    by (rule nic_mpw_entry) (use assms(3) in \<open>simp_all add: length_mpw_packets mpw_ds_def MaxDS_def\<close>)
  also have "\<dots> = fs" using assms(2) by (rule nic_segments_copied)
  finally have e: "nic_entry mem (cyc_read (sq_buf (m_sq s')) (64 * unat (ucast (tx_pi t) :: u16)) (64 * ?b)) = fs"
    using p(5) un by simp
  have sg: "\<not> nic_signaled (cyc_read (sq_buf (m_sq s')) (64 * unat (ucast (tx_pi t) :: u16)) (64 * ?b))"
    using p(5) un by (simp add: mpw_entry_def nic_signaled_hdr)
  have "entry_written mem t (m_sq s') ?b fs False" unfolding entry_written_def using p(3,4,6) un e sg by simp
  moreover have "tx_PutMulti t mpw (ucast (tx_pi t)) fs = Some (t\<lparr>tx_sq := m_sq s'\<rparr>)"
    using p(1) by (simp add: tx_PutMulti_def)
  ultimately show ?thesis by blast
qed

lemma mpwBlocks_eq:
  assumes "\<forall>f \<in> set fs. length f < 2 ^ 31"
  shows "mpwBlocks fs = blocks_of (of_nat (mpw_ds fs))"
proof -
  have o: "(4 + of_nat (length f) + of_nat Octoword - 1) div of_nat Octoword = (of_nat (mpw_octs (length f)) :: u32)"
    if "f \<in> set fs" for f
  proof -
    have "unat (mpwPacketOctowords (of_nat (length f))) = mpw_octs (length f)"
      using assms that by (intro unat_mpwPacketOctowords) blast
    then show ?thesis unfolding mpwPacketOctowords_def [symmetric] by (metis of_nat_unat ucast_id)
  qed
  have "fold (\<lambda>f ds. ds + (4 + of_nat (length f) + of_nat Octoword - 1) div of_nat Octoword) fs w
      = w + (of_nat (\<Sum>f\<leftarrow>fs. mpw_octs (length f)) :: u32)" for w
    using o
  proof (induction fs arbitrary: w)
    case (Cons f fs)
    then show ?case by (simp add: add.assoc)
  qed simp
  then show ?thesis unfolding mpwBlocks_def blocks_of_def mpw_ds_def Let_def by simp
qed

text \<open>One entry of the loop: either nothing was written, or an entry carrying the first \<open>k\<close> gathered
  descriptors was.\<close>

definition wrote :: "(u64 \<Rightarrow> nat \<Rightarrow> bytes) \<Rightarrow> tx \<Rightarrow> entry list \<Rightarrow> desc list \<Rightarrow> u32 \<Rightarrow> nat \<Rightarrow> tx \<Rightarrow> bool" where
  "wrote mem t es ds bbs k t2 \<longleftrightarrow> (\<exists>b q. bbs = of_nat b \<and> t2 = t\<lparr>tx_sq := q\<rparr> \<and> 0 < b \<and> b \<le> 15
     \<and> bsum es + b \<le> length (tx_meta t) \<and> 0 < k \<and> k \<le> length ds
     \<and> entry_written mem t q b (map (frame_of t) (take k ds)) False)"

lemma multi_write_pointers:
  assumes "tx_abs t es" "dma mem t" "tx_mpw t = Some mpw" "\<forall>d \<in> set ds. tx_descOK t d" "m_pointer mpw"
    and k: "k = MPWSender_Fits mpw (map (frame_of t) ds)" "2 \<le> k"
  shows "\<exists>bbs t2. multi_write t mpw d (tx_bbs t - (tx_pi t - tx_head t)) (map (frame_of t) ds) (map (dma_addr t) ds)
      = Some (bbs, k, t2) \<and> (if bbs > tx_bbs t - (tx_pi t - tx_head t) then t2 = t else wrote mem t es ds bbs k t2)"
proof -
  have g: "tx_geom t" using assms(1) by (simp add: tx_abs_def)
  let ?free = "tx_bbs t - (tx_pi t - tx_head t)" let ?b = "(2 + k + 3) div 4"
  have kl: "k \<le> length ds" "k \<le> 58" using Fits_le [OF g assms(3), of "map (frame_of t) ds"] assms(5) k(1) by auto
  have "2 + k \<le> MaxDS" "2 \<le> 2 + k" using kl by (simp_all add: MaxDS_def)
  note b = blocks_bounds [OF this(2,1)]
  have bbs: "(of_nat (2 + k) * of_nat Octoword + of_nat WQEBB - 1) div of_nat WQEBB = (of_nat ?b :: u32)"
    using b(1) unfolding blocks_of_def .
  show ?thesis
  proof (cases "(of_nat ?b :: u32) > ?free")
    case True
    then show ?thesis
      unfolding multi_write_def Let_def k(1) [symmetric] bbs using assms(5) k(2) by auto
  next
    case False
    have "?b < 2 ^ 32" using b(3) by simp
    note room = room_of [OF assms(1) False this]
    have lt: "length (take k ds) = k" using kl(1) by simp
    have all: "\<forall>d \<in> set (take k ds). tx_descOK t d" using assms(4) by (auto dest: in_set_takeD)
    from pointers_written [OF g assms(2) all] lt kl(2) room(2) obtain q where
      q: "tx_PutPointers t mpw (ucast (tx_pi t)) (map (frame_of t) (take k ds)) (map (dma_addr t) (take k ds)) = Some (t\<lparr>tx_sq := q\<rparr>)"
        "entry_written mem t q ?b (map (frame_of t) (take k ds)) False" by auto
    have "wrote mem t es ds (of_nat ?b) k (t\<lparr>tx_sq := q\<rparr>)"
      unfolding wrote_def using b(2,3) room(1) kl(1) k(2) q(2) by (intro exI [of _ ?b] exI [of _ q]) simp
    moreover have "multi_write t mpw d ?free (map (frame_of t) ds) (map (dma_addr t) ds) = Some (of_nat ?b, k, t\<lparr>tx_sq := q\<rparr>)"
      unfolding multi_write_def Let_def k(1) [symmetric] bbs using assms(5) k(2) False q(1) by (simp add: take_map)
    ultimately show ?thesis using False by auto
  qed
qed

lemma multi_write_copies:
  assumes "tx_abs t es" "tx_mpw t = Some mpw" "\<forall>d \<in> set ds. tx_descOK t d" "\<not> m_pointer mpw"
    and k: "k = MPWSender_Fits mpw (map (frame_of t) ds)" "2 \<le> k"
  shows "\<exists>bbs t2. multi_write t mpw d (tx_bbs t - (tx_pi t - tx_head t)) (map (frame_of t) ds) ps
      = Some (bbs, k, t2) \<and> (if bbs > tx_bbs t - (tx_pi t - tx_head t) then t2 = t else wrote mem t es ds bbs k t2)"
proof -
  have g: "tx_geom t" using assms(1) by (simp add: tx_abs_def)
  let ?fs = "map (frame_of t) (take k ds)"
  let ?free = "tx_bbs t - (tx_pi t - tx_head t)" let ?b = "(mpw_ds ?fs + 3) div 4"
  have kl: "k \<le> length ds" using Fits_le(1) [OF g assms(2), of "map (frame_of t) ds"] k(1) by auto
  have ml: "m_maxLen mpw < 2 ^ 31" using g assms(2) by (simp add: tx_geom_def)
  have kf: "k = mpw_fits_copy (m_maxLen mpw) (of_nat 2) (map (frame_of t) ds)"
    using k(1) assms(4) by (simp add: MPWSender_Fits_def)
  have ds: "mpw_ds ?fs \<le> MaxDS" "2 \<le> mpw_ds ?fs"
    using mpw_fits_copy_spec [OF ml, of 2 "map (frame_of t) ds", folded kf]
    by (simp_all add: mpw_ds_def MaxDS_def take_map)
  note b = blocks_bounds [OF ds(2,1)]
  have short: "\<forall>f \<in> set ?fs. length f < 2 ^ 31"
    using g assms(3) descOK_slice(4) by (auto simp: length_frame_of dest!: in_set_takeD)
  have bbs: "mpwBlocks ?fs = of_nat ?b" using mpwBlocks_eq [OF short] b(1) by simp
  show ?thesis
  proof (cases "(of_nat ?b :: u32) > ?free")
    case True
    then show ?thesis
      unfolding multi_write_def Let_def k(1) [symmetric] take_map bbs using assms(4) k(2) by auto
  next
    case False
    have "?b < 2 ^ 32" using b(3) by simp
    note room = room_of [OF assms(1) False this]
    from copies_written [OF g short ds(1) room(2), of mpw mem] obtain q where
      q: "tx_PutMulti t mpw (ucast (tx_pi t)) ?fs = Some (t\<lparr>tx_sq := q\<rparr>)" "entry_written mem t q ?b ?fs False" by blast
    have "wrote mem t es ds (of_nat ?b) k (t\<lparr>tx_sq := q\<rparr>)"
      unfolding wrote_def using b(2,3) room(1) kl k(2) q(2) by (intro exI [of _ ?b] exI [of _ q]) simp
    moreover have "multi_write t mpw d ?free (map (frame_of t) ds) ps = Some (of_nat ?b, k, t\<lparr>tx_sq := q\<rparr>)"
      unfolding multi_write_def Let_def k(1) [symmetric] take_map bbs using assms(4) k(2) False q(1) by simp
    ultimately show ?thesis using False by auto
  qed
qed

lemma multi_write_single:
  assumes "tx_abs t es" "dma mem t" "\<forall>d \<in> set ds. tx_descOK t d" "ds \<noteq> []" "d = ds ! 0"
    and k: "MPWSender_Fits mpw (map (frame_of t) ds) < 2"
  shows "\<exists>bbs t2. multi_write t mpw d (tx_bbs t - (tx_pi t - tx_head t)) (map (frame_of t) ds) ps = Some (bbs, 1, t2)
     \<and> (if bbs = 0 then t2 = t else wrote mem t es ds bbs 1 t2)"
proof -
  have g: "tx_geom t" using assms(1) by (simp add: tx_abs_def)
  let ?free = "tx_bbs t - (tx_pi t - tx_head t)"
  have d: "tx_descOK t d" "take 1 ds = [d]" using assms(3-5) by (cases ds; simp)+
  show ?thesis
  proof (cases "tx_maxBBs t > ?free")
    case True
    then show ?thesis using k by (simp add: multi_write_def Let_def)
  next
    case False
    from single_written [OF g assms(2) d(1), of False] obtain b q where
      w: "tx_Put t (ucast (tx_pi t)) (frame_of t d) (tx_regionVA t + d_addr d) False = Some (of_nat b, t\<lparr>tx_sq := q\<rparr>)"
        "0 < b" "b \<le> 15" "b \<le> unat (tx_maxBBs t)" "entry_written mem t q b [frame_of t d] False" by blast
    have ub: "unat (of_nat b :: u32) = b" using w(3) by (intro unat_of_nat_small) simp
    then have "\<not> (of_nat b :: u32) > ?free" using False w(4) by (simp add: word_less_nat_alt)
    note room = room_of [OF assms(1) this]
    have "wrote mem t es ds (of_nat b) 1 (t\<lparr>tx_sq := q\<rparr>)"
      unfolding wrote_def using w room assms(4) d(2) by (intro exI [of _ b] exI [of _ q]) (simp add: Suc_le_eq)
    moreover have "(of_nat b :: u32) \<noteq> 0" using ub w(2) by (metis unat_0 less_irrefl)
    moreover have "multi_write t mpw d ?free (map (frame_of t) ds) ps = Some (of_nat b, 1, t\<lparr>tx_sq := q\<rparr>)"
      using k False descOK_slice(1) [OF g d(1)] w(1) by (simp add: multi_write_def Let_def)
    ultimately show ?thesis by auto
  qed
qed

lemma small_nonzero: "0 < b \<Longrightarrow> b \<le> 15 \<Longrightarrow> (of_nat b :: u32) \<noteq> 0"
proof
  assume b: "0 < b" "b \<le> 15" "(of_nat b :: u32) = 0"
  have "unat (of_nat b :: u32) = b" by (rule unat_of_nat_small) (use b(2) in simp)
  then show False using b by simp
qed

lemma room_free:
  assumes "tx_abs t es" "bsum es + b \<le> length (tx_meta t)" "b \<le> 15"
  shows "\<not> (of_nat b :: u32) > tx_bbs t - (tx_pi t - tx_head t)"
proof -
  have "unat (of_nat b :: u32) = b" using assms(3) by (intro unat_of_nat_small) simp
  then show ?thesis unfolding word_less_nat_alt unat_free [OF assms(1)] using assms(2) by simp
qed

lemma multi_write_spec:
  assumes "tx_abs t es" "dma mem t" "tx_mpw t = Some mpw" "\<forall>d \<in> set ds. tx_descOK t d" "ds \<noteq> []" "d = ds ! 0"
    and "m_pointer mpw \<Longrightarrow> ps = map (dma_addr t) ds"
  shows "\<exists>bbs k t2. multi_write t mpw d (tx_bbs t - (tx_pi t - tx_head t)) (map (frame_of t) ds) ps = Some (bbs, k, t2)
     \<and> (if bbs = 0 \<or> bbs > tx_bbs t - (tx_pi t - tx_head t) then t2 = t else wrote mem t es ds bbs k t2)"
proof (cases "MPWSender_Fits mpw (map (frame_of t) ds) < 2")
  case True
  from multi_write_single [OF assms(1,2,4-6) True, of ps] obtain bbs t2 where
    w: "multi_write t mpw d (tx_bbs t - (tx_pi t - tx_head t)) (map (frame_of t) ds) ps = Some (bbs, 1, t2)"
      "if bbs = 0 then t2 = t else wrote mem t es ds bbs 1 t2" by blast
  have "\<not> bbs > tx_bbs t - (tx_pi t - tx_head t)" if "wrote mem t es ds bbs 1 t2"
    using that room_free [OF assms(1)] unfolding wrote_def by blast
  then show ?thesis using w by (intro exI [of _ bbs] exI [of _ 1] exI [of _ t2]) (simp split: if_splits)
next
  case False
  then have k: "2 \<le> MPWSender_Fits mpw (map (frame_of t) ds)" by simp
  have nz: "bbs \<noteq> 0" if "wrote mem t es ds bbs k' t2" for bbs k' t2
    using that unfolding wrote_def by (elim exE conjE) (auto dest: small_nonzero)
  show ?thesis
  proof (cases "m_pointer mpw")
    case True
    from multi_write_pointers [OF assms(1-4) True refl k, of d] assms(7) [OF True] show ?thesis by (fastforce dest: nz)
  next
    case False
    from multi_write_copies [OF assms(1,3,4) False refl k, of d ps mem] show ?thesis by (fastforce dest: nz)
  qed
qed

text \<open>One turn. What it can change of the loop's state besides the ring.\<close>

definition stopped :: "multi \<Rightarrow> multi \<Rightarrow> bool" where
  "stopped m m1 \<longleftrightarrow> m1 = m\<lparr>mu_bad := mu_bad m1, mu_checked := mu_checked m1\<rparr>"

definition turn_ok :: "tx \<Rightarrow> desc list \<Rightarrow> multi \<Rightarrow> bool" where
  "turn_ok t descs m \<longleftrightarrow> checked_ok t descs m \<and> mu_posted m \<le> mu_checked m \<and> mu_posted m \<le> length descs"

lemma multi_turn_spec:
  assumes "tx_abs t es" "loaded lo mem t es" "dma mem t" "tx_mpw t = Some mpw" "turn_ok t descs m" "mu_posted m < length descs"
  shows "(\<exists>t1 m1. multi_turn mpw descs t m = Some (Inl (t1, m1)) \<and> tx_abs t1 es \<and> loaded lo mem t1 es \<and> kept t t1
       \<and> stopped m m1)
     \<or> (\<exists>t1 m1 b k. multi_turn mpw descs t m = Some (Inr (t1, m1)) \<and> 0 < k
       \<and> tx_abs t1 (es @ [(b, take k (drop (mu_posted m) descs))]) \<and> loaded lo mem t1 (es @ [(b, take k (drop (mu_posted m) descs))])
       \<and> kept t t1 \<and> turn_ok t1 descs m1 \<and> mu_posted m1 = mu_posted m + k \<and> mu_posted m1 \<le> length descs \<and> mu_anyPut m1
       \<and> mu_lastIdx m1 = ucast (tx_head t + of_nat (bsum es)) \<and> (\<forall>d \<in> set (take k (drop (mu_posted m) descs)). tx_descOK t d))"
proof -
  let ?free = "tx_bbs t - (tx_pi t - tx_head t)" let ?p = "mu_posted m" let ?S = "length (tx_slots t)"
  have g: "tx_geom t" and sl: "slot_abs t (dsum es)" using assms(1) by (simp_all add: tx_abs_def)
  define room where "room = unat (tx_slotTail t - tx_slotHead t)"
  have room: "room = length (dsum es)" "room \<le> ?S" using sl by (simp_all add: slot_abs_def room_def)
  define limit0 where "limit0 = (if ?p + MaxDS - 2 > length descs then length descs else ?p + MaxDS - 2)"
  define limit where "limit = (if int limit0 - int ?p > int ?S - int room then nat (int ?p + int ?S - int room) else limit0)"
  have l0: "?p \<le> limit0" "limit0 \<le> length descs" using assms(6) by (simp_all add: limit0_def MaxDS_def)
  have lim: "?p \<le> limit" "limit \<le> length descs" "limit - ?p \<le> ?S - room"
    using l0 room(2) by (auto simp: limit_def)
  show ?thesis
  proof (cases "?free = 0 \<or> tx_slotTail t - tx_slotHead t = of_nat ?S")
    case True
    have "multi_turn mpw descs t m = Some (Inl (t, m))" unfolding multi_turn_def Let_def using True by simp
    then show ?thesis using assms(1,2) by (intro disjI1 exI [of _ t] exI [of _ m]) (simp add: stopped_def)
  next
    case go: False
    have c: "checked_ok t descs m" "?p \<le> mu_checked m" using assms(5) by (simp_all add: turn_ok_def)
    from gather_spec [OF g lim(1,2) c, of "m_pointer mpw" "[]" "[]", unfolded append_Nil] obtain t1 m1 l where
      ga: "gather (m_pointer mpw) descs ?p limit t m [] [] = Some (t1, m1, map (frame_of t) (take l (drop ?p descs)),
          if m_pointer mpw then map (dma_addr t) (take l (drop ?p descs)) else [])"
        "t1 = t\<lparr>tx_c := tx_c t1\<rparr>" "m1 = m\<lparr>mu_bad := mu_bad m1, mu_checked := mu_checked m1\<rparr>"
        "checked_ok t descs m1" "l \<le> limit - ?p" "?p + l \<le> mu_checked m1"
        "\<forall>d \<in> set (take l (drop ?p descs)). tx_descOK t d" by blast
    let ?ds = "take l (drop ?p descs)"
    obtain c1 where t1: "t1 = t\<lparr>tx_c := c1\<rparr>" using ga(2) by blast
    have k1: "kept t t1" by (simp add: t1 kept_def)
    have st1: "stopped m m1" using ga(3) by (simp add: stopped_def)
    have a1: "tx_abs t1 es" "loaded lo mem t1 es" "dma mem t1"
      using assms(1-3) loaded_cong [of t1 t lo mem es] dma_kept [OF k1] by (simp_all add: t1)
    have f1: "frame_of t1 = frame_of t" "dma_addr t1 = dma_addr t" by (simp_all add: t1 frame_of_def [abs_def] dma_addr_def [abs_def])
    have pi1: "tx_bbs t1 - (tx_pi t1 - tx_head t1) = ?free" "tx_pi t1 = tx_pi t" by (simp_all add: t1)
    have mt: "multi_turn mpw descs t m = (if map (frame_of t) ?ds = [] then Some (Inl (t1, m1)) else
        do { (bbs, k, t2) \<leftarrow> multi_write t1 mpw (descs ! ?p) ?free (map (frame_of t) ?ds)
               (if m_pointer mpw then map (dma_addr t) ?ds else []);
             if bbs = 0 \<or> bbs > ?free then Some (Inl (t2, m1))
             else if ?p + k > length descs then None
             else let ds = take k (drop ?p descs)
                  in do { t3 \<leftarrow> push_slots ds t2; t4 \<leftarrow> push_meta bbs t3;
                          Some (Inr (t4, m1\<lparr>mu_bytes := mu_bytes m1 + (\<Sum>d\<leftarrow>ds. ucast (d_len d)),
                            mu_lastIdx := ucast (tx_pi t2), mu_posted := ?p + k, mu_anyPut := True\<rparr>)) } })"
      unfolding multi_turn_def Let_def limit0_def [symmetric] room_def [symmetric] limit_def [symmetric]
      using go ga(1) by simp
    show ?thesis
    proof (cases "?ds = []")
      case True
      then have "multi_turn mpw descs t m = Some (Inl (t1, m1))" using mt by simp
      then show ?thesis using a1(1,2) k1 st1 by blast
    next
      case False
      have d0: "descs ! ?p = ?ds ! 0" using False by (cases l) auto
      have ok1: "\<forall>d \<in> set ?ds. tx_descOK t1 d" using ga(7) kept_same(14) [OF k1] by simp
      from multi_write_spec [OF a1(1,3) _ ok1 False d0, of mpw "if m_pointer mpw then map (dma_addr t) ?ds else []"] assms(4)
      obtain bbs k t2 where w: "multi_write t1 mpw (descs ! ?p) ?free (map (frame_of t) ?ds)
            (if m_pointer mpw then map (dma_addr t) ?ds else []) = Some (bbs, k, t2)"
          "if bbs = 0 \<or> bbs > ?free then t2 = t1 else wrote mem t1 es ?ds bbs k t2"
        unfolding pi1 f1 by (auto simp: t1)
      show ?thesis
      proof (cases "bbs = 0 \<or> bbs > ?free")
        case True
        then have "t2 = t1" using w(2) by (simp only: if_True)
        then have "multi_turn mpw descs t m = Some (Inl (t1, m1))" unfolding mt w(1) using True False by simp
        then show ?thesis using a1(1,2) k1 st1 by blast
      next
        case put: False
        then have "wrote mem t1 es ?ds bbs k t2" using w(2) by (simp only: if_False)
        then obtain b q where
          wr: "bbs = of_nat b" "t2 = t1\<lparr>tx_sq := q\<rparr>" "0 < b" "b \<le> 15" "bsum es + b \<le> length (tx_meta t1)"
            "0 < k" "k \<le> length ?ds" "entry_written mem t1 q b (map (frame_of t1) (take k ?ds)) False"
          unfolding wrote_def by blast
        have kl: "k \<le> l" "?p + k \<le> length descs" using wr(7) assms(6) by auto
        have tk: "take k ?ds = take k (drop ?p descs)" using kl(1) by (simp add: min_absorb1)
        have len: "length (take k ?ds) = k" using wr(7) by simp
        have sl: "length (dsum es) + length (take k ?ds) \<le> length (tx_slots t1)"
          unfolding len using kl(1) ga(5) lim(3) room by (simp add: t1)
        have ne: "take k ?ds \<noteq> []" using len wr(6) by (metis list.size(3) less_irrefl)
        have nm: "tx_mpw t1 = None \<longrightarrow> length (take k ?ds) = 1" using assms(4) by (simp add: t1)
        from record_entry [OF a1(1,2) wr(3-5) ne sl nm wr(8)] obtain t3 t4 where
          r: "push_slots (take k ?ds) t2 = Some t3" "push_meta bbs t3 = Some t4"
            "tx_abs t4 (es @ [(b, take k ?ds)])" "loaded lo mem t4 (es @ [(b, take k ?ds)])" "kept t1 t4"
          unfolding wr(1,2) by blast
        define m4 where "m4 = m1\<lparr>mu_bytes := mu_bytes m1 + (\<Sum>d\<leftarrow>take k (drop ?p descs). ucast (d_len d)),
            mu_lastIdx := ucast (tx_pi t2), mu_posted := ?p + k, mu_anyPut := True\<rparr>"
        have k4: "kept t t4" by (rule kept_trans [OF k1 r(5)])
        have mt': "multi_turn mpw descs t m = Some (Inr (t4, m4))"
          unfolding mt m4_def using w(1) put kl(2) False r(1,2) unfolding tk by (simp add: Let_def)
        have "turn_ok t4 descs m4" using ga(4,6) kl kept_same(14) [OF k4]
          by (simp add: turn_ok_def checked_ok_def m4_def)
        moreover have "mu_lastIdx m4 = ucast (tx_head t + of_nat (bsum es))"
          using tx_abs_pi [OF assms(1)] by (simp add: m4_def wr(2) t1)
        moreover have "\<forall>d \<in> set (take k (drop ?p descs)). tx_descOK t d" 
          using ga(7) set_take_subset [of k ?ds] unfolding tk [symmetric] by blast
        moreover have "mu_posted m4 = ?p + k" "mu_anyPut m4" by (simp_all add: m4_def)
        ultimately show ?thesis using mt' r(3,4) k4 wr(6) kl(2) unfolding tk
          by (intro disjI2 exI [of _ t4] exI [of _ m4] exI [of _ b] exI [of _ k] conjI) simp_all
      qed
    qed
  qed
qed

lemma multi_loop_spec:
  assumes "tx_abs t es" "loaded lo mem t es" "dma mem t" "tx_mpw t = Some mpw" "turn_ok t descs m"
  shows "\<exists>t' m' fs. multi_loop mpw descs t m = Some (t', m') \<and> tx_abs t' (es @ fs) \<and> loaded lo mem t' (es @ fs) \<and> kept t t'
     \<and> mu_posted m' \<le> length descs \<and> mu_posted m' = mu_posted m + length (dsum fs)
     \<and> dsum fs = take (length (dsum fs)) (drop (mu_posted m) descs) \<and> mu_anyPut m' = (mu_anyPut m \<or> fs \<noteq> [])
     \<and> (fs = [] \<longrightarrow> mu_lastIdx m' = mu_lastIdx m)
     \<and> (fs \<noteq> [] \<longrightarrow> mu_lastIdx m' = ucast (tx_head t + of_nat (bsum (butlast (es @ fs)))))
     \<and> (\<forall>d \<in> set (dsum fs). tx_descOK t d)"
  using assms
proof (induction "length descs - mu_posted m" arbitrary: t es m rule: less_induct)
  case less
  have le: "mu_posted m \<le> length descs" using less.prems(5) by (simp add: turn_ok_def)
  show ?case
  proof (cases "mu_posted m < length descs \<and> \<not> mu_bad m")
    case False
    then have "multi_loop mpw descs t m = Some (t, m)" by (subst multi_loop.simps) simp
    then show ?thesis using less.prems le by (intro exI [of _ t] exI [of _ m] exI [of _ "[]"]) simp
  next
    case True
    then have lt: "mu_posted m < length descs" by simp
    from multi_turn_spec [OF less.prems lt] show ?thesis
    proof (elim disjE exE conjE)
      fix t1 m1
      assume i: "multi_turn mpw descs t m = Some (Inl (t1, m1))" "tx_abs t1 es" "loaded lo mem t1 es" "kept t t1" "stopped m m1"
      have "multi_loop mpw descs t m = Some (t1, m1)" using True i(1) by (subst multi_loop.simps) simp
      moreover obtain x y where "m1 = m\<lparr>mu_bad := x, mu_checked := y\<rparr>" using i(5) unfolding stopped_def by blast
      ultimately show ?thesis using i le by (intro exI [of _ t1] exI [of _ m1] exI [of _ "[]"]) simp
    next
      fix t1 m1 b k
      let ?ds = "take k (drop (mu_posted m) descs)"
      assume i: "multi_turn mpw descs t m = Some (Inr (t1, m1))" "0 < k" "tx_abs t1 (es @ [(b, ?ds)])"
        "loaded lo mem t1 (es @ [(b, ?ds)])" "kept t t1" "turn_ok t1 descs m1" "mu_posted m1 = mu_posted m + k"
        "mu_posted m1 \<le> length descs" "mu_anyPut m1" "mu_lastIdx m1 = ucast (tx_head t + of_nat (bsum es))"
        "\<forall>d \<in> set ?ds. tx_descOK t d"
      have eq: "multi_loop mpw descs t m = multi_loop mpw descs t1 m1" using True i(1) by (subst multi_loop.simps) simp
      have lk: "length ?ds = k" using i(7,8) by simp
      note same = kept_same [OF i(5)]
      have "length descs - mu_posted m1 < length descs - mu_posted m" using i(2,7) lt by linarith
      note dec = this
      have env: "dma mem t1" "tx_mpw t1 = Some mpw" using less.prems(3,4) same dma_kept [OF i(5)] by simp_all
      from less.hyps [OF dec i(3,4) env i(6)] obtain t' m' fs where
        ih: "multi_loop mpw descs t1 m1 = Some (t', m')" "tx_abs t' ((es @ [(b, ?ds)]) @ fs)" "loaded lo mem t' ((es @ [(b, ?ds)]) @ fs)"
          "kept t1 t'" "mu_posted m' \<le> length descs" "mu_posted m' = mu_posted m1 + length (dsum fs)"
          "dsum fs = take (length (dsum fs)) (drop (mu_posted m1) descs)" "mu_anyPut m' = (mu_anyPut m1 \<or> fs \<noteq> [])"
          "fs = [] \<longrightarrow> mu_lastIdx m' = mu_lastIdx m1"
          "fs \<noteq> [] \<longrightarrow> mu_lastIdx m' = ucast (tx_head t1 + of_nat (bsum (butlast ((es @ [(b, ?ds)]) @ fs))))"
          "\<forall>d \<in> set (dsum fs). tx_descOK t1 d" by blast
      have "dsum ((b, ?ds) # fs) = take (k + length (dsum fs)) (drop (mu_posted m) descs)"
        using ih(7) i(7) by (simp add: take_add add.commute)
      moreover have "length (dsum ((b, ?ds) # fs)) = k + length (dsum fs)" using lk by simp
      ultimately have d: "dsum ((b, ?ds) # fs) = take (length (dsum ((b, ?ds) # fs))) (drop (mu_posted m) descs)" by simp
      have okd: "\<forall>d \<in> set (dsum ((b, ?ds) # fs)). tx_descOK t d" using ih(11) i(11) same(14) by auto
      have last: "mu_lastIdx m' = ucast (tx_head t + of_nat (bsum (butlast (es @ (b, ?ds) # fs))))"
      proof (cases "fs = []")
        case True
        then show ?thesis using ih(9) i(10) by simp
      next
        case False
        then show ?thesis using ih(10) same by simp
      qed
      have "kept t t'" by (rule kept_trans [OF i(5) ih(4)])
      then show ?thesis unfolding eq
        using ih(1-3,5,6,8) d last i(7,9) lk okd
        by (intro exI [of _ t'] exI [of _ m'] exI [of _ "(b, ?ds) # fs"] conjI) (simp_all only: append_assoc append_Cons append_Nil, simp_all)
    qed
  qed
qed

section \<open>Asking for a completion\<close>

lemma cyc_read_update:
  assumes "i = (p + j) mod length b" "j < n" "n \<le> length b"
  shows "cyc_read (b[i := v]) p n = (cyc_read b p n)[j := v]"
proof (rule nth_equalityI)
  fix k assume "k < length (cyc_read (b[i := v]) p n)"
  then have k: "k < n" by simp
  have i: "i < length b" unfolding assms(1) using assms(2,3) by (intro mod_less_divisor) linarith
  have "(p + k) mod length b = i \<longleftrightarrow> k = j" using mod_add_inj [of p k "length b" j] k assms by auto
  then show "cyc_read (b[i := v]) p n ! k = (cyc_read b p n)[j := v] ! k"
    using k i by (cases "k = j") (simp_all add: cyc_read_def)
qed simp

lemma nic_signaled_set:
  assumes "12 \<le> length e"
  shows "nic_signaled (e[11 := e ! 11 OR ucast CtrlCQUpdate])"
proof -
  let ?x = "e ! 11 OR ucast CtrlCQUpdate"
  have "take 4 (drop 8 (e[11 := ?x])) = [e ! 8, e ! 9, e ! 10, ?x]"
    using assms by (intro nth_equalityI) (auto simp: nth_list_update less_Suc_eq numeral_eq_Suc)
  then have "(be_word (take 4 (drop 8 (e[11 := ?x]))) :: u32) = le_word [?x, e ! 10, e ! 9, e ! 8]" by (simp add: be_word_def)
  moreover have "bit (le_word [?x, e ! 10, e ! 9, e ! 8] AND CtrlCQUpdate :: u32) 3"
    by (simp add: CtrlCQUpdate_def bit_simps)
  ultimately show ?thesis unfolding nic_signaled_def by (metis bit_0_eq bot_apply bot_bool_def)
qed

lemma block_offset:
  assumes "sq_ok q" "length (sq_buf q) = 64 * 2 ^ k" "k \<le> 16"
  shows "unat (sq_offset q (ucast (idx :: u16))) = (64 * unat idx) mod (64 * 2 ^ k)"
    and "(64 * unat idx) mod (64 * 2 ^ k) + 64 \<le> (64 * 2 ^ k :: nat)"
proof -
  have u: "unat (ucast idx :: u32) = unat idx" by (rule unat_ucast_up) simp
  have lt: "unat (sq_offset q (ucast idx)) < length (sq_buf q)"
  proof -
    have "is_pow2 (length (sq_buf q))" "length (sq_buf q) \<le> 2 ^ LENGTH(32)" "0 < length (sq_buf q)"
      using assms(1,2) by (auto simp: sq_ok_def)
    then show ?thesis using assms(1) unat_and_pow2_mask [of "length (sq_buf q)" "ucast idx * of_nat WQEBB :: u32"]
      by (simp add: sq_offset_def sq_ok_def)
  qed
  show "unat (sq_offset q (ucast idx)) = (64 * unat idx) mod (64 * 2 ^ k)"
    using at_pos_offset [OF assms(1), of "ucast idx"] lt assms(2) u by (simp add: at_pos_def)
  show "(64 * unat idx) mod (64 * 2 ^ k) + 64 \<le> (64 * 2 ^ k :: nat)" by (rule aligned_fits) simp_all
qed

lemma setSignaled_spec:
  assumes "tx_abs t es" "loaded lo mem t es" "es \<noteq> []" "idx = ucast (tx_head t + of_nat (bsum (butlast es)))"
  shows "\<exists>q. setSignaled idx t = Some (t\<lparr>tx_sq := q\<rparr>) \<and> tx_abs (t\<lparr>tx_sq := q\<rparr>) es \<and> loaded lo mem (t\<lparr>tx_sq := q\<rparr>) es
     \<and> nic_signaled (entry_bytes (t\<lparr>tx_sq := q\<rparr>) es (length es - 1))"
proof -
  have g: "tx_geom t" using assms(1) by (simp add: tx_abs_def)
  then obtain k where k: "k \<le> 16" "length (tx_meta t) = 2 ^ k" "length (sq_buf (tx_sq t)) = 64 * 2 ^ k" by (rule tx_geom_len)
  let ?b = "sq_buf (tx_sq t)" let ?L = "64 * 2 ^ k :: nat" let ?l = "length es - 1"
  have q: "sq_ok (tx_sq t)" using g by (rule tx_sq_ok)
  note off = block_offset [OF q k(3,1), of idx]
  define i where "i = (64 * unat idx) mod ?L + 11"
  define v where "v = ?b ! i OR ucast CtrlCQUpdate"
  define q' where "q' = (tx_sq t)\<lparr>sq_buf := ?b[i := v]\<rparr>"
  have iL: "i < ?L" unfolding i_def using off(2) by linarith
  then have "i mod ?L = i" by (rule mod_less)
  then have i: "i < ?L" "i = (64 * unat idx + 11) mod ?L" using iL unfolding i_def mod_add_left_eq by simp_all
  have "?L \<le> 64 * 65536" using power_increasing [OF k(1), of "2 :: nat"] by simp
  then have L22: "(64 * unat idx) mod ?L < 64 * 65536" using off(2) by linarith
  have "sq_mask (tx_sq t) = of_nat (length ?b) - 1" using q k(3) by (simp add: sq_ok_def of_nat_diff)
  then have "(ucast idx * of_nat WQEBB) AND (of_nat (length ?b) - 1) = sq_offset (tx_sq t) (ucast idx)" by (simp add: sq_offset_def)
  moreover have "unat (sq_offset (tx_sq t) (ucast idx) + 11) = i"
    unfolding i_def off(1) [symmetric] using off L22 by (subst unat_plus_exact) simp_all
  ultimately have eq: "setSignaled idx t = Some (t\<lparr>tx_sq := q'\<rparr>)"
    using i(1) k(3) by (simp add: setSignaled_def Let_def q'_def v_def)
  have q': "sq_ok q'" "length (sq_buf q') = length ?b" using q by (simp_all add: q'_def sq_ok_def)
  have abs: "tx_abs (t\<lparr>tx_sq := q'\<rparr>) es" using tx_abs_sq [OF q' assms(1)] .
  have take_l: "take ?l es = butlast es" using assms(3) by (simp add: butlast_conv_take)
  have ll: "?l < length es" using assms(3) by simp
  note le = entry_before [OF assms(1) ll]
  let ?P = "64 * unat (tx_head t + of_nat (bsum (take ?l es)))"
  have P: "?P mod ?L = (64 * unat idx) mod ?L" unfolding assms(4) take_l using pos16 [OF k(1)] by simp
  have iP: "i = (?P + 11) mod ?L" unfolding i(2) by (rule mod_add_cong [OF P [symmetric] refl])
  have last: "entry_bytes (t\<lparr>tx_sq := q'\<rparr>) es ?l = (entry_bytes t es ?l)[11 := entry_bytes t es ?l ! 11 OR ucast CtrlCQUpdate]"
  proof -
    have n: "11 < 64 * fst (es ! ?l)" "64 * fst (es ! ?l) \<le> length ?b" using le k by simp_all
    have "entry_bytes t es ?l ! 11 = ?b ! i" using n(1) iP k(3) by (simp add: entry_bytes_def cyc_read_def)
    then show ?thesis using cyc_read_update [of i ?P 11 ?b, OF _ n] iP k(3) by (simp add: entry_bytes_def q'_def v_def)
  qed
  have other: "entry_bytes (t\<lparr>tx_sq := q'\<rparr>) es j = entry_bytes t es j" if j: "j < ?l" for j
  proof -
    let ?E = "64 * unat (tx_head t + of_nat (bsum (take j es)))" let ?n = "64 * fst (es ! j)"
    have jl: "bsum (take j es) + fst (es ! j) \<le> bsum (take ?l es)"
    proof -
      have "take (Suc j) (take ?l es) = take (Suc j) es" using j by simp
      then have "bsum (take (Suc j) es) + bsum (drop (Suc j) (take ?l es)) = bsum (take ?l es)" by (metis bsum_take_drop)
      then show ?thesis using j by (simp add: take_Suc_conv_app_nth)
    qed
    define d where "d = ?L - 11 - 64 * bsum (take ?l es) + 64 * bsum (take j es)"
    have B: "64 * bsum (take ?l es) + 64 \<le> ?L" using le k(2) by simp
    have d: "1 \<le> d" "d + ?n \<le> ?L" using B jl by (simp_all add: d_def)
    have "(?P + (11 + d)) mod ?L = (64 * unat (tx_head t) + 64 * bsum (take ?l es) + (11 + d)) mod ?L"
      by (rule mod_add_cong [OF _ refl]) (rule pos_plus [OF k(1)])
    also have "64 * unat (tx_head t) + 64 * bsum (take ?l es) + (11 + d) = 64 * unat (tx_head t) + 64 * bsum (take j es) + ?L"
      using B by (simp add: d_def)
    also have "\<dots> mod ?L = ?E mod ?L" using pos_plus [OF k(1), of "tx_head t" "bsum (take j es)"] by simp
    finally have pos: "(?P + 11 + d) mod ?L = ?E mod ?L" by (simp only: add.assoc)
    have w: "?b[i := v] = cyc_write ?b (?P + 11) [v]" using iP k(3) by simp
    have "cyc_read (?b[i := v]) ?E ?n = cyc_read (?b[i := v]) (?P + 11 + d) ?n" by (rule cyc_read_cong) (use pos k(3) in simp)
    also have "\<dots> = cyc_read ?b (?P + 11 + d) ?n" unfolding w by (rule cyc_read_write_later) (use d k(3) in simp_all)
    also have "\<dots> = cyc_read ?b ?E ?n" by (rule cyc_read_cong) (use pos k(3) in simp)
    finally show ?thesis by (simp add: entry_bytes_def q'_def)
  qed
  have f: "frame_of (t\<lparr>tx_sq := q'\<rparr>) = frame_of t" by (simp add: frame_of_def [abs_def])
  have "loaded lo mem (t\<lparr>tx_sq := q'\<rparr>) es" unfolding loaded_def f
  proof (intro allI impI)
    fix j assume j: "j < length es" "lo \<le> j"
    show "nic_entry mem (entry_bytes (t\<lparr>tx_sq := q'\<rparr>) es j) = map (frame_of t) (snd (es ! j))"
    proof (cases "j < ?l")
      case True
      then show ?thesis using other assms(2) j by (simp add: loaded_def)
    next
      case False
      then have "j = ?l" using j(1) by simp
      then show ?thesis using last nic_entry_signal assms(2) j unfolding loaded_def by metis
    qed
  qed
  moreover have "nic_signaled (entry_bytes (t\<lparr>tx_sq := q'\<rparr>) es ?l)"
    unfolding last by (rule nic_signaled_set) (use le(2) in \<open>simp add: entry_bytes_def\<close>)
  ultimately show ?thesis using eq abs by blast
qed

lemma tx_doorbell_some:
  assumes "tx_geom t"
  shows "\<exists>o8. tx_doorbell idx t = Some (t\<lparr>tx_sqDbrec := be32 (tx_pi t AND 0xffff), tx_uar := o8\<rparr>)"
proof -
  obtain k where k: "k \<le> 16" "length (sq_buf (tx_sq t)) = 64 * 2 ^ k" using tx_geom_len [OF assms] by metis
  note off = block_offset [OF tx_sq_ok [OF assms] k(2,1), of idx]
  show ?thesis using off k(2)
    by (intro exI [of _ "take 8 (drop (unat (sq_offset (tx_sq t) (ucast idx))) (sq_buf (tx_sq t)))"])
       (simp add: tx_doorbell_def FirstOctoword_def peek_def)
qed

section \<open>\<open>Post\<close>\<close>

lemma count_kept [simp]:
  "kept t (count_tx f t)" "kept t (tx_publish t)" "kept t (tx_tick t)" "kept t (t\<lparr>tx_sqDbrec := x, tx_uar := y\<rparr>)"
  "kept t (t\<lparr>tx_sq := q\<rparr>)"
  by (simp_all add: kept_def count_tx_def tx_publish_def tx_tick_def Let_def)

lemma count_loaded [simp]:
  "loaded lo mem (count_tx f t) es = loaded lo mem t es" "loaded lo mem (tx_publish t) es = loaded lo mem t es"
  "loaded lo mem (tx_tick t) es = loaded lo mem t es" "loaded lo mem (t\<lparr>tx_sqDbrec := x, tx_uar := y\<rparr>) es = loaded lo mem t es"
  by (rule loaded_cong; simp add: count_tx_def tx_publish_def tx_tick_def Let_def)+

lemma count_bytes [simp]:
  "entry_bytes (count_tx f t) es i = entry_bytes t es i" "entry_bytes (tx_tick t) es i = entry_bytes t es i"
  "entry_bytes (t\<lparr>tx_sqDbrec := x, tx_uar := y\<rparr>) es i = entry_bytes t es i"
  by (simp_all add: entry_bytes_def count_tx_def tx_publish_def tx_tick_def Let_def)

definition last_signaled :: "tx \<Rightarrow> entry list \<Rightarrow> bool" where
  "last_signaled t es \<longleftrightarrow> nic_signaled (entry_bytes t es (length es - 1))"

text \<open>The tail both modes share: ring the doorbell for what was posted.\<close>

lemma publish_posted:
  assumes "tx_abs t es" "loaded lo mem t es"
  shows "\<exists>u. tx_doorbell idx t = Some u \<and> tx_abs (tx_tick (count_tx f u)) es \<and> loaded lo mem (tx_tick (count_tx f u)) es
     \<and> kept t (tx_tick (count_tx f u)) \<and> last_signaled (tx_tick (count_tx f u)) es = last_signaled t es"
proof -
  have "tx_geom t" using assms(1) by (simp add: tx_abs_def)
  from tx_doorbell_some [OF this, of idx] obtain o8 where
    u: "tx_doorbell idx t = Some (t\<lparr>tx_sqDbrec := be32 (tx_pi t AND 0xffff), tx_uar := o8\<rparr>)" by blast
  let ?u = "t\<lparr>tx_sqDbrec := be32 (tx_pi t AND 0xffff), tx_uar := o8\<rparr>"
  have "kept t (tx_tick (count_tx f ?u))"
    by (rule kept_trans [OF count_kept(4) kept_trans [OF count_kept(1) count_kept(3)]])
  then show ?thesis using u assms by (intro exI [of _ ?u]) (simp add: last_signaled_def)
qed

text \<open>What the caller sees of a call that posted the first \<open>n\<close> descriptors.\<close>

definition posted :: "nat \<Rightarrow> (u64 \<Rightarrow> nat \<Rightarrow> bytes) \<Rightarrow> tx \<Rightarrow> entry list \<Rightarrow> desc list \<Rightarrow> nat \<Rightarrow> tx \<Rightarrow> bool" where
  "posted lo mem t es descs n t' \<longleftrightarrow> n \<le> length descs \<and> kept t t' \<and> (\<forall>d \<in> set (take n descs). tx_descOK t d)
     \<and> (\<exists>fs. dsum fs = take n descs \<and> tx_abs t' (es @ fs) \<and> loaded lo mem t' (es @ fs)
          \<and> (0 < n \<and> (tx_mpw t \<noteq> None \<or> (\<forall>d \<in> set descs. tx_descOK t d)) \<longrightarrow> last_signaled t' (es @ fs)))"

lemma posted_none: "tx_abs t' es \<Longrightarrow> loaded lo mem t' es \<Longrightarrow> kept t t' \<Longrightarrow> posted lo mem t es descs 0 t'"
  unfolding posted_def by (simp add: exI [of _ "[]"])

lemma posted_take:
  assumes "posted lo mem t es (take m descs) n t'"
  shows "posted lo mem t es descs n t'"
proof -
  have "n \<le> m \<or> n \<le> length descs \<and> length descs \<le> m" using assms by (auto simp: posted_def)
  then have "take n (take m descs) = take n descs" by auto
  moreover have "set (take m descs) \<subseteq> set descs" by (rule set_take_subset)
  ultimately show ?thesis using assms unfolding posted_def by (simp) blast
qed

lemma postMulti_spec:
  assumes "tx_abs t es" "loaded lo mem t es" "dma mem t" "tx_mpw t = Some mpw"
  shows "\<exists>n t'. postMulti mpw descs t = Some (n, t') \<and> posted lo mem t es descs n t'"
proof -
  let ?m = "\<lparr>mu_bytes = 0, mu_lastIdx = 0, mu_posted = 0, mu_anyPut = False, mu_bad = False, mu_checked = 0\<rparr>"
  have "turn_ok t descs ?m" by (simp add: turn_ok_def checked_ok_def)
  from multi_loop_spec [OF assms this] obtain t1 m fs where
    l0: "multi_loop mpw descs t ?m = Some (t1, m)" "tx_abs t1 (es @ fs)" "loaded lo mem t1 (es @ fs)" "kept t t1"
      "mu_posted m \<le> length descs" "mu_posted m = mu_posted ?m + length (dsum fs)"
      "dsum fs = take (length (dsum fs)) (drop (mu_posted ?m) descs)" "mu_anyPut m = (mu_anyPut ?m \<or> fs \<noteq> [])"
      "fs \<noteq> [] \<longrightarrow> mu_lastIdx m = ucast (tx_head t + of_nat (bsum (butlast (es @ fs))))"
      "\<forall>d \<in> set (dsum fs). tx_descOK t d" by blast
  then have l: "multi_loop mpw descs t ?m = Some (t1, m)" "tx_abs t1 (es @ fs)" "loaded lo mem t1 (es @ fs)" "kept t t1"
      "mu_posted m \<le> length descs" "mu_posted m = length (dsum fs)" "dsum fs = take (length (dsum fs)) descs"
      "mu_anyPut m = (fs \<noteq> [])" "fs \<noteq> [] \<longrightarrow> mu_lastIdx m = ucast (tx_head t + of_nat (bsum (butlast (es @ fs))))"
      "\<forall>d \<in> set (dsum fs). tx_descOK t d" by simp_all
  show ?thesis
  proof (cases "fs = []")
    case True
    let ?t = "tx_publish (count_tx (\<lambda>c. c\<lparr>c_ringFull := c_ringFull c + 1\<rparr>) t1)"
    have "kept t ?t" by (rule kept_trans [OF l(4) kept_trans [OF count_kept(1,2)]])
    then have "posted lo mem t es descs 0 ?t" using l(2,3) True by (intro posted_none) simp_all
    moreover have "postMulti mpw descs t = Some (0, ?t)" using l(1,8) True by (simp add: postMulti_def)
    ultimately show ?thesis by blast
  next
    case False
    have "mu_lastIdx m = ucast (tx_head t1 + of_nat (bsum (butlast (es @ fs))))" using l(9) False kept_same(2) [OF l(4)] by simp
    from setSignaled_spec [OF l(2,3) _ this] False obtain q where
      s: "setSignaled (mu_lastIdx m) t1 = Some (t1\<lparr>tx_sq := q\<rparr>)" "tx_abs (t1\<lparr>tx_sq := q\<rparr>) (es @ fs)"
        "loaded lo mem (t1\<lparr>tx_sq := q\<rparr>) (es @ fs)" "last_signaled (t1\<lparr>tx_sq := q\<rparr>) (es @ fs)"
      unfolding last_signaled_def by auto
    let ?f = "post_counts (mu_posted m) (mu_bytes m)"
    from publish_posted [OF s(2,3), of "mu_lastIdx m" ?f] obtain u where
      u: "tx_doorbell (mu_lastIdx m) (t1\<lparr>tx_sq := q\<rparr>) = Some u" "tx_abs (tx_tick (count_tx ?f u)) (es @ fs)"
        "loaded lo mem (tx_tick (count_tx ?f u)) (es @ fs)" "kept (t1\<lparr>tx_sq := q\<rparr>) (tx_tick (count_tx ?f u))"
        "last_signaled (tx_tick (count_tx ?f u)) (es @ fs)" using s(4) by blast
    have "kept t (tx_tick (count_tx ?f u))" by (rule kept_trans [OF l(4) kept_trans [OF count_kept(5) u(4)]])
    then have "posted lo mem t es descs (mu_posted m) (tx_tick (count_tx ?f u))"
      unfolding posted_def using u(2,3,5) l(5-7,10) by (simp add: exI [of _ fs])
    moreover have "postMulti mpw descs t = Some (mu_posted m, tx_tick (count_tx ?f u))"
      using l(1,8) False s(1) u(1) by (simp add: postMulti_def)
    ultimately show ?thesis by blast
  qed
qed

lemma tx_Post_go:
  assumes "tx_failed t = None" "\<not> (int (length descs) > tx_FreeSlots t \<and> tx_FreeSlots t = 0)" "n \<noteq> 0"
    and "n = (if int (length descs) > tx_FreeSlots t then nat (tx_FreeSlots t) else length descs)"
  shows "tx_Post descs t = (case tx_mpw t of
      Some mpw \<Rightarrow> postMulti mpw (take n descs) t
    | None \<Rightarrow>
        do { (t1, a) \<leftarrow> post_each 0 n (take n descs) t \<lparr>pa_bytes = 0, pa_lastIdx = 0, pa_posted = 0\<rparr>;
             if pa_posted a = 0 then Some (0, tx_publish t1)
             else do { t2 \<leftarrow> tx_doorbell (pa_lastIdx a) t1;
                       Some (pa_posted a, tx_tick (count_tx (post_counts (pa_posted a) (pa_bytes a)) t2)) } })"
  unfolding tx_Post_def Let_def assms(4) [symmetric]
  by (simp only: assms(1-3) simp_thms if_False)

lemma tx_Post_single:
  assumes "tx_abs t es" "loaded lo mem t es" "dma mem t"
    and single: "tx_failed t = None" "\<not> (int (length descs) > tx_FreeSlots t \<and> tx_FreeSlots t = 0)" "n \<noteq> 0" "tx_mpw t = None"
    and nd: "n = (if int (length descs) > tx_FreeSlots t then nat (tx_FreeSlots t) else length descs)"
  shows "\<exists>i t'. tx_Post descs t = Some (i, t') \<and> posted lo mem t es (take n descs) i t'
     \<and> ((\<forall>d \<in> set (take n descs). tx_descOK t d) \<longrightarrow> i = n)
     \<and> (0 < i \<and> i < n \<and> tx_signalEvery t = 0 \<longrightarrow> (\<exists>fs. fs \<noteq> [] \<and> tx_abs t' (es @ fs) \<and> \<not> last_signaled t' (es @ fs)))"
proof -
  let ?a = "\<lparr>pa_bytes = 0, pa_lastIdx = 0, pa_posted = 0\<rparr>"
  define F where "F = unat ((tx_bbs t - (tx_pi t - tx_head t)) div tx_maxBBs t)"
  have free: "tx_FreeSlots t = int F" using single(1,4) by (simp add: tx_FreeSlots_def Let_def F_def)
  have "length (take n descs) \<le> F" unfolding nd free by simp
  also have "\<dots> = (length (tx_meta t) - bsum es) div unat (tx_maxBBs t)"
    by (simp add: F_def unat_div_distrib unat_free [OF assms(1)])
  finally have "length (take n descs) * unat (tx_maxBBs t) \<le> length (tx_meta t) - bsum es"
    by (metis div_times_less_eq_dividend le_trans mult_le_mono1)
  moreover have "bsum es \<le> length (tx_meta t)" using assms(1) by (simp add: tx_abs_def)
  ultimately have room: "bsum es + length (take n descs) * unat (tx_maxBBs t) \<le> length (tx_meta t)" by linarith
  from post_each_spec [OF assms(1-3) single(4) room, of 0 n ?a] obtain t1 a m fs where
    p0: "post_each 0 n (take n descs) t ?a = Some (t1, a)" "m \<le> length (take n descs)" "dsum fs = take m (take n descs)"
      "tx_abs t1 (es @ fs)" "loaded lo mem t1 (es @ fs)" "kept t t1" "pa_posted a = pa_posted ?a + m"
      "\<forall>d \<in> set (take m (take n descs)). tx_descOK t d" "m < length (take n descs) \<longrightarrow> \<not> tx_descOK t (take n descs ! m)"
      "0 < m \<longrightarrow> fs \<noteq> [] \<and> (0 + m = n \<or> tx_signalEvery t = 0 \<longrightarrow>
         nic_signaled (entry_bytes t1 (es @ fs) (length (es @ fs) - 1)) = (0 + m = n))" by blast
  note p = p0(1-6) p0(7) [simplified] p0(8,9) p0(10) [folded last_signaled_def]
  have post: "tx_Post descs t = (if m = 0 then Some (0, tx_publish t1) else
      do { t2 \<leftarrow> tx_doorbell (pa_lastIdx a) t1; Some (m, tx_tick (count_tx (post_counts m (pa_bytes a)) t2)) })"
    using tx_Post_go [OF single(1-3) nd] single(4) p(1,7) by simp
  have ln: "length (take n descs) = n" unfolding nd by auto
  have all: "m = length (take n descs)" if "\<forall>d \<in> set (take n descs). tx_descOK t d"
    using that p(2,9) by (metis le_neq_implies_less nth_mem)
  show ?thesis
  proof (cases "m = 0")
    case True
    then have "fs = []" using dsum_Nil [OF p(4)] p(3) by simp
    then have "posted lo mem t es (take n descs) 0 (tx_publish t1)"
      using p(4,5) kept_trans [OF p(6) count_kept(2)] by (intro posted_none) simp_all
    moreover have "tx_Post descs t = Some (0, tx_publish t1)" using post True by simp
    ultimately show ?thesis using all ln True by auto
  next
    case False
    let ?f = "post_counts m (pa_bytes a)"
    from publish_posted [OF p(4,5), of "pa_lastIdx a" ?f] obtain u where
      u: "tx_doorbell (pa_lastIdx a) t1 = Some u" "tx_abs (tx_tick (count_tx ?f u)) (es @ fs)"
        "loaded lo mem (tx_tick (count_tx ?f u)) (es @ fs)" "kept t1 (tx_tick (count_tx ?f u))"
        "last_signaled (tx_tick (count_tx ?f u)) (es @ fs) = last_signaled t1 (es @ fs)" by blast
    have "last_signaled t1 (es @ fs)" if "\<forall>d \<in> set (take n descs). tx_descOK t d"
      using p(10) all [OF that] ln False by (simp only: add_0 simp_thms neq0_conv)
    then have "posted lo mem t es (take n descs) m (tx_tick (count_tx ?f u))"
      unfolding posted_def using u(2,3,5) p(2,3,8) single(4) kept_trans [OF p(6) u(4)] by (auto intro!: exI [of _ fs])
    moreover have "tx_Post descs t = Some (m, tx_tick (count_tx ?f u))" using post False u(1) by simp
    moreover have "fs \<noteq> [] \<and> tx_abs (tx_tick (count_tx ?f u)) (es @ fs) \<and> \<not> last_signaled (tx_tick (count_tx ?f u)) (es @ fs)"
      if "m < n" "tx_signalEvery t = 0" using p(10) False that u(2,5) by simp
    ultimately show ?thesis using all ln by (intro exI [of _ m] exI [of _ "tx_tick (count_tx ?f u)"]) auto
  qed
qed

lemma tx_Post_spec:
  assumes "tx_abs t es" "loaded lo mem t es" "dma mem t"
  shows "\<exists>n t'. tx_Post descs t = Some (n, t') \<and> posted lo mem t es descs n t'"
proof -
  let ?free = "tx_FreeSlots t"
  define n where "n = (if int (length descs) > ?free then nat ?free else length descs)"
  let ?full = "tx_publish (count_tx (\<lambda>c. c\<lparr>c_ringFull := c_ringFull c + 1\<rparr>) t)"
  have none: "posted lo mem t es descs 0 t" using assms by (intro posted_none) simp_all
  have full: "posted lo mem t es descs 0 ?full"
    by (rule posted_none) (use assms kept_trans [OF count_kept(1,2)] in simp_all)
  consider (failed) "tx_failed t \<noteq> None" | (ringfull) "tx_failed t = None" "int (length descs) > ?free \<and> ?free = 0"
    | (empty) "tx_failed t = None" "\<not> (int (length descs) > ?free \<and> ?free = 0)" "n = 0"
    | (multi) mpw where "tx_failed t = None" "\<not> (int (length descs) > ?free \<and> ?free = 0)" "n \<noteq> 0" "tx_mpw t = Some mpw"
    | (single) "tx_failed t = None" "\<not> (int (length descs) > ?free \<and> ?free = 0)" "n \<noteq> 0" "tx_mpw t = None"
    by fastforce
  then show ?thesis
  proof cases
    case failed
    then have "tx_Post descs t = Some (0, t)" by (simp add: tx_Post_def)
    with none show ?thesis by blast
  next
    case ringfull
    then have "descs \<noteq> []" "?free = 0" by auto
    then have "tx_Post descs t = Some (0, ?full)" using ringfull(1) by (simp add: tx_Post_def)
    with full show ?thesis by blast
  next
    case empty
    then have "tx_Post descs t = Some (0, t)"
      unfolding tx_Post_def Let_def n_def [symmetric] by (simp only: simp_thms if_False if_True)
    with none show ?thesis by blast
  next
    case (multi mpw)
    have "tx_Post descs t = postMulti mpw (take n descs) t"
      using tx_Post_go [OF multi(1-3) n_def] multi(4) by simp
    then show ?thesis using postMulti_spec [OF assms multi(4), of "take n descs"] posted_take [of lo mem t es n descs] by metis
  next
    case single
    from tx_Post_single [OF assms single n_def] show ?thesis using posted_take by blast
  qed
qed

end
