(* ===== verification/Tx_Contract.thy ===== *)
theory Tx_Contract
  imports Packetio_Prelude
begin

text \<open>
  What a transmit queue promises its caller, whatever the backend: descriptors are taken from the front
  of the batch and come back, once each, in the order they were taken. A run is any interleaving of posts,
  completions and moves of the device.
\<close>

inductive tx_run :: "('d list \<Rightarrow> 's \<Rightarrow> (nat \<times> 's) option) \<Rightarrow> (int \<Rightarrow> 's \<Rightarrow> ('d list \<times> 's) option)
    \<Rightarrow> ('s \<Rightarrow> bool) \<Rightarrow> ('s \<Rightarrow> 's \<Rightarrow> bool) \<Rightarrow> 's \<Rightarrow> 'd list \<Rightarrow> 'd list \<Rightarrow> 's \<Rightarrow> bool"
  for post complete device_ok device s0 where
  start: "tx_run post complete device_ok device s0 [] [] s0"
| post: "tx_run post complete device_ok device s0 acc ret s \<Longrightarrow> post ds s = Some (n, s')
    \<Longrightarrow> tx_run post complete device_ok device s0 (acc @ take n ds) ret s'"
| complete: "tx_run post complete device_ok device s0 acc ret s \<Longrightarrow> device_ok s \<Longrightarrow> complete mx s = Some (out, s')
    \<Longrightarrow> tx_run post complete device_ok device s0 acc (ret @ out) s'"
| device: "tx_run post complete device_ok device s0 acc ret s \<Longrightarrow> device s s'
    \<Longrightarrow> tx_run post complete device_ok device s0 acc ret s'"

locale tx_contract =
  fixes inflight :: "'s \<Rightarrow> 'd list \<Rightarrow> bool"
    and post :: "'d list \<Rightarrow> 's \<Rightarrow> (nat \<times> 's) option"
    and complete :: "int \<Rightarrow> 's \<Rightarrow> ('d list \<times> 's) option"
    and device_ok :: "'s \<Rightarrow> bool"
    and device :: "'s \<Rightarrow> 's \<Rightarrow> bool"
  assumes post_law: "inflight s q \<Longrightarrow> \<exists>n s'. post ds s = Some (n, s') \<and> n \<le> length ds \<and> inflight s' (q @ take n ds)"
    and complete_law: "inflight s q \<Longrightarrow> device_ok s \<Longrightarrow> \<exists>k s'. complete mx s = Some (take k q, s') \<and> inflight s' (drop k q)"
    and device_law: "inflight s q \<Longrightarrow> device s s' \<Longrightarrow> inflight s' q"
begin

lemma run_conserves:
  assumes "tx_run post complete device_ok device s0 acc ret s" "inflight s0 []"
  shows "\<exists>q. inflight s q \<and> acc = ret @ q"
  using assms
proof induction
  case start
  then show ?case by simp
next
  case (post acc ret s ds n s')
  then obtain q where "inflight s q" "acc = ret @ q" by blast
  then show ?case using post_law [of s q ds] post.hyps(2) by auto
next
  case (complete acc ret s mx out s')
  then obtain q where q: "inflight s q" "acc = ret @ q" by blast
  from complete_law [OF q(1) complete.hyps(2), of mx] complete.hyps(3) obtain k where
    "out = take k q" "inflight s' (drop k q)" by auto
  then show ?case using q(2) by (intro exI [of _ "drop k q"]) simp
next
  case (device acc ret s s')
  then show ?case using device_law by blast
qed

lemma run_total:
  assumes "tx_run post complete device_ok device s0 acc ret s" "inflight s0 []"
  shows "post ds s \<noteq> None" "device_ok s \<Longrightarrow> complete mx s \<noteq> None"
proof -
  from run_conserves [OF assms] obtain q where q: "inflight s q" by blast
  from post_law [OF q, of ds] show "post ds s \<noteq> None" by auto
  from complete_law [OF q] show "device_ok s \<Longrightarrow> complete mx s \<noteq> None" by fastforce
qed

end

end
