(* ===== verification/Mlx5_Tx_Run.thy ===== *)
theory Mlx5_Tx_Run
  imports Mlx5_Tx_Post Tx_Contract
begin

text \<open>
  The send ring as its caller sees it. A ring made by \<open>NewTx\<close> satisfies the transmit contract of
  \<open>Tx_Contract\<close>: descriptors come back from \<open>Complete\<close> once each, in the order \<open>Post\<close> took them, whatever
  the device writes into the completion queue as long as its completions name entries in flight.
\<close>

section \<open>Construction\<close>

text \<open>The sizes for which the 32-bit arithmetic of the constructor is exact. The code checks none of
  them; the 16-bit block counter of a completion is why the queue has at most \<open>2 ^ 16\<close> blocks.\<close>

definition tx_cfg_ok :: "tx_config \<Rightarrow> bool" where
  "tx_cfg_ok cfg \<longleftrightarrow> length (tc_SQ cfg) \<le> 64 * 65536 \<and> length (tc_CQ cfg) \<le> 2 ^ 32 \<and> length (tc_Region cfg) < 2 ^ 63
     \<and> tc_FrameSize cfg < 2 ^ 31 \<and> tc_InlineLen cfg < 2 ^ 31 \<and> tc_MultiPacketMaxLen cfg < 2 ^ 31"

lemma nextPow2_from_step:
  "nextPow2_from 0 p n = (if p < n then None else Some p)"
  "nextPow2_from (Suc f) p n = (if p < n then nextPow2_from f (push_bit 1 p) n else Some p)"
  by (subst nextPow2_from.simps, simp)+

lemma unat_exp32: "i < 32 \<Longrightarrow> unat (2 ^ i :: u32) = 2 ^ i"
proof -
  assume "i < 32"
  then have "(2 :: nat) ^ i < 2 ^ 32" by (rule power_strict_increasing) simp
  then show ?thesis using unat_of_nat_small [of "2 ^ i"] by simp
qed

lemma nextPow2_from_spec:
  assumes "nextPow2_from f (2 ^ j) n = Some w" "j < 32"
  shows "\<exists>i. i < 32 \<and> w = 2 ^ i \<and> n \<le> w \<or> n > 2 ^ 31"
  using assms
proof (induction f arbitrary: j)
  case 0
  then show ?case by (auto split: if_splits simp: not_less nextPow2_from_step simp del: nextPow2_from.simps)
next
  case (Suc f)
  show ?case
  proof (cases "(2 ^ j :: u32) < n")
    case True
    show ?thesis
    proof (cases "j = 31")
      case True
      then show ?thesis using \<open>(2 ^ j :: u32) < n\<close> by auto
    next
      case False
      then have j: "Suc j < 32" using Suc.prems(2) by simp
      have "push_bit 1 (2 ^ j :: u32) = 2 ^ Suc j" by (simp add: push_bit_eq_mult)
      then have "nextPow2_from f (2 ^ Suc j) n = Some w"
        using Suc.prems(1) True by (simp only: nextPow2_from_step if_True)
      from Suc.IH [OF this j] show ?thesis .
    qed
  next
    case False
    then have "w = 2 ^ j" using Suc.prems(1) by (simp add: nextPow2_from_step del: nextPow2_from.simps)
    then show ?thesis using Suc.prems(2) False by (auto simp: not_less)
  qed
qed

lemma nextPow2_spec:
  assumes "nextPow2 n = Some w" "unat n \<le> 2 ^ 31"
  shows "is_pow2 (unat w)" "unat w \<le> 2 ^ 31" "unat n \<le> unat w"
proof -
  have "nextPow2_from 32 (2 ^ 0) n = Some w" using assms(1) by (simp add: nextPow2_def)
  from nextPow2_from_spec [OF this] have "\<exists>i. i < 32 \<and> w = 2 ^ i \<and> n \<le> w \<or> n > 2 ^ 31" by simp
  moreover note u = unat_exp32
  then have "\<not> n > 2 ^ 31" using assms(2) u [of 31] by (simp add: word_less_nat_alt)
  ultimately obtain i where i: "i < 32" "w = 2 ^ i" "n \<le> w" by blast
  then show "is_pow2 (unat w)" "unat n \<le> unat w" using u [of i] by (simp_all add: word_le_nat_alt)
  show "unat w \<le> 2 ^ 31" using i(1,2) u [of i] power_increasing [of i 31 "2 :: nat"] by simp
qed

lemma NewMPWSender_bounds:
  "NewMPWSender q cfg = Some (Inr m) \<Longrightarrow> mc_MaxLen cfg < 2 ^ 31 \<Longrightarrow> m_maxPackets m \<le> 58 \<and> m_maxLen m < 2 ^ 31"
proof -
  assume a: "NewMPWSender q cfg = Some (Inr m)" "mc_MaxLen cfg < 2 ^ 31"
  have "unat ((of_nat MaxDS - 2 :: u32) div w) \<le> 58" for w
  proof -
    have "unat (of_nat MaxDS - 2 :: u32) = 58" by (simp add: MaxDS_def)
    then show ?thesis unfolding unat_div_distrib by (metis div_le_dividend)
  qed
  then have "int (unat ((of_nat MaxDS - 2 :: u32) div w)) \<le> 58" for w by (metis of_nat_le_iff of_nat_numeral)
  then show ?thesis using a by (auto simp: NewMPWSender_def Let_def MaxDS_def split: if_splits)
qed

text \<open>What a successful construction went through.\<close>

lemma NewTx_mpw_parts:
  assumes "NewTx_mpw cfg q = Some (Inr (mpw, spb))"
  shows "spb = 1 \<or> spb = 4"
    and "mpw = Some m \<Longrightarrow> tc_InlineLen cfg = 0 \<and> (\<exists>mcfg. NewMPWSender q mcfg = Some (Inr m) \<and> mc_MaxLen mcfg = tc_MultiPacketMaxLen cfg)"
proof -
  have four: "((of_nat MaxDS - 2 :: u32) + ((2 + (of_nat MaxDS - 2)) * of_nat Octoword) div of_nat WQEBB - 1)
      div (((2 + (of_nat MaxDS - 2)) * of_nat Octoword) div of_nat WQEBB) = 4"
    by (simp add: MaxDS_def Octoword_def WQEBB_def)
  show "spb = 1 \<or> spb = 4"
    using assms unfolding NewTx_mpw_def Let_def four
    by (auto simp: bind_eq_Some_conv split: if_splits sum.splits) (metis sum.exhaust)+
  show "mpw = Some m \<Longrightarrow> tc_InlineLen cfg = 0 \<and> (\<exists>mcfg. NewMPWSender q mcfg = Some (Inr m) \<and> mc_MaxLen mcfg = tc_MultiPacketMaxLen cfg)"
    using assms unfolding NewTx_mpw_def Let_def four
    by (auto simp: bind_eq_Some_conv split: if_splits sum.splits) (metis sum.exhaust mpw_config.select_convs(3))+
qed

lemma NewTx_parts:
  assumes "NewTx cfg = Some (Inr t)"
  obtains q c s mpw spb slots sqdb cqdb uar where "NewSQ (tc_SQ cfg) = Inr q" "NewCQ (tc_CQ cfg) (int CQESize) = Inr c"
    "NewSender q \<lparr>sc_QPN = tc_QPN cfg, sc_LKey = tc_LKey cfg, sc_InlineLen = tc_InlineLen cfg, sc_CSFlags = tc_CSFlags cfg\<rparr> = Inr s"
    "NewTx_mpw cfg q = Some (Inr (mpw, spb))" "nextPow2 (sq_bbs q * spb) = Some slots"
    "t = tx_fresh cfg q c s mpw slots sqdb cqdb uar" "tc_FrameSize cfg > 0"
    "ones_count (unat (of_int (tc_FrameSize cfg) :: u64)) = 1" "int (length (tc_Region cfg)) mod tc_FrameSize cfg = 0"
proof -
  obtain q where q: "NewSQ (tc_SQ cfg) = Inr q" using assms by (cases "NewSQ (tc_SQ cfg)") (simp_all add: NewTx_def)
  obtain c where c: "NewCQ (tc_CQ cfg) (int CQESize) = Inr c"
    using assms q by (cases "NewCQ (tc_CQ cfg) (int CQESize)") (simp_all add: NewTx_def)
  let ?sc = "\<lparr>sc_QPN = tc_QPN cfg, sc_LKey = tc_LKey cfg, sc_InlineLen = tc_InlineLen cfg, sc_CSFlags = tc_CSFlags cfg\<rparr>"
  obtain s where s: "NewSender q ?sc = Inr s" using assms q c by (cases "NewSender q ?sc") (simp_all add: NewTx_def)
  obtain sqdb cqdb uar where d: "tc_SQDbrec cfg = Some sqdb" "tc_CQDbrec cfg = Some cqdb" "tc_UAR cfg = Some uar"
    using assms q c s
    by (cases "tc_SQDbrec cfg"; cases "tc_CQDbrec cfg"; cases "tc_UAR cfg") (simp_all add: NewTx_def)
  have sz: "\<not> cq_entries c < sq_BBs q" using assms q c s d by (auto simp: NewTx_def)
  obtain r where r: "NewTx_mpw cfg q = Some r" using assms q c s d sz by (cases "NewTx_mpw cfg q") (simp_all add: NewTx_def)
  obtain mpw spb where m: "r = Inr (mpw, spb)" using assms q c s d sz r by (cases r) (auto simp: NewTx_def)
  obtain slots where sl: "nextPow2 (sq_BBs q * spb) = Some slots"
    using assms q c s d sz r m by (cases "nextPow2 (sq_BBs q * spb)") (simp_all add: NewTx_def)
  show ?thesis
    using that [of q c s mpw spb slots sqdb cqdb uar] assms q c s d sz r m sl
    by (simp add: NewTx_def Let_def sq_BBs_def not_le split: if_split_asm)
qed

lemma NewTx_abs:
  assumes "NewTx cfg = Some (Inr t)" "tx_cfg_ok cfg"
  shows "tx_abs t []" "tx_failed t = None"
proof -
  from assms(1) obtain q c s mpw spb slots sqdb cqdb uar where
    p: "NewSQ (tc_SQ cfg) = Inr q" "NewCQ (tc_CQ cfg) (int CQESize) = Inr c"
      "NewSender q \<lparr>sc_QPN = tc_QPN cfg, sc_LKey = tc_LKey cfg, sc_InlineLen = tc_InlineLen cfg, sc_CSFlags = tc_CSFlags cfg\<rparr> = Inr s"
      "NewTx_mpw cfg q = Some (Inr (mpw, spb))" "nextPow2 (sq_bbs q * spb) = Some slots"
      "t = tx_fresh cfg q c s mpw slots sqdb cqdb uar" "tc_FrameSize cfg > 0"
      "ones_count (unat (of_int (tc_FrameSize cfg) :: u64)) = 1" "int (length (tc_Region cfg)) mod tc_FrameSize cfg = 0"
    by (rule NewTx_parts)
  let ?L = "length (tc_SQ cfg)"
  have L: "?L \<le> 64 * 65536" "?L \<le> 2 ^ 31" using assms(2) by (simp_all add: tx_cfg_ok_def)
  have q: "sq_ok q" "sq_buf q = tc_SQ cfg" using NewSQ_ok [OF p(1) L(2)] by simp_all
  obtain k where c: "cq_ok c k" using NewCQ_ok [OF p(2)] assms(2) by (auto simp: tx_cfg_ok_def)
  have s: "sender_ok s" "s_sq s = q" "int (unat (s_inlineLen s)) = tc_InlineLen cfg"
    using NewSender_ok [OF p(3) q(1)] assms(2) by (simp_all add: tx_cfg_ok_def)
  have "is_pow2 ?L" "64 dvd ?L" using q by (simp_all add: sq_ok_def WQEBB_def)
  then obtain j where j: "?L = 64 * 2 ^ j"
  proof -
    obtain i where i: "?L = 2 ^ i" using \<open>is_pow2 ?L\<close> is_pow2_iff by blast
    have "(2 :: nat) ^ 6 dvd 2 ^ i" using \<open>64 dvd ?L\<close> i by simp
    then have "6 \<le> i" by (rule power_dvd_imp_le) simp
    then have "?L = 2 ^ 6 * 2 ^ (i - 6)" unfolding i by (metis le_add_diff_inverse power_add)
    then show ?thesis using that by simp
  qed
  have bb: "sq_bbs q = of_nat (2 ^ j)" using q j by (simp add: sq_ok_def WQEBB_def)
  have j16: "2 ^ j \<le> (65536 :: nat)" using L(1) j by simp
  have ub: "unat (sq_bbs q) = 2 ^ j" unfolding bb using j16 by (intro unat_of_nat_small) simp
  have "unat (sq_bbs q * spb) \<le> 2 ^ 31 \<and> 2 ^ j \<le> unat (sq_bbs q * spb)"
    using NewTx_mpw_parts(1) [OF p(4)]
  proof
    assume "spb = 1" then show ?thesis using ub j16 by simp
  next
    assume "spb = 4"
    moreover have "unat (sq_bbs q * 4) = 4 * 2 ^ j" using ub j16 by (simp add: unat_word_ariths)
    ultimately show ?thesis using j16 by simp
  qed
  then have sl: "is_pow2 (unat slots)" "unat slots \<le> 2 ^ 31" "2 ^ j \<le> unat slots"
    using nextPow2_spec [OF p(5)] by auto
  then have sm: "slots - 1 = of_nat (unat slots - 1)" by (simp add: of_nat_diff is_pow2_pos Suc_le_eq)
  define fs where "fs = nat (tc_FrameSize cfg)"
  have fi: "tc_FrameSize cfg = int fs" using p(7) by (simp add: fs_def)
  have f31: "fs < 2 ^ 31" using assms(2) p(7) by (simp add: tx_cfg_ok_def fs_def nat_less_iff)
  have "unat (of_int (tc_FrameSize cfg) :: u64) = fs" unfolding fi using f31 by (simp add: unat_of_nat take_bit_nat_eq_self)
  then have fp: "is_pow2 fs" using p(8) ones_count_one by simp
  have fm: "of_int (tc_FrameSize cfg) - 1 = (of_nat (fs - 1) :: u64)" unfolding fi using is_pow2_pos [OF fp] by (simp add: of_nat_diff)
  have fd: "fs dvd length (tc_Region cfg)" using p(9) unfolding fi by (simp add: mod_eq_0_iff_dvd)
  have mp: "m_maxPackets m \<le> 58 \<and> m_maxLen m < 2 ^ 31 \<and> s_inlineLen s = 0" if "mpw = Some m" for m
  proof -
    from NewTx_mpw_parts(2) [OF p(4) that] obtain mcfg where
      m: "tc_InlineLen cfg = 0" "NewMPWSender q mcfg = Some (Inr m)" "mc_MaxLen mcfg = tc_MultiPacketMaxLen cfg" by blast
    have "int (unat (s_inlineLen s)) = 0" using s(3) m(1) by (simp only:)
    then have "unat (s_inlineLen s) = 0" by (simp only: of_nat_eq_0_iff)
    then show ?thesis using NewMPWSender_bounds [OF m(2)] m(3) assms(2) by (simp add: tx_cfg_ok_def unat_eq_zero)
  qed
  have so: "sender_ok (s\<lparr>s_sq := q\<rparr>)" using s(1,2) by (metis sender.surjective sender.update_convs(1))
  have mk: "sq_bbs q - 1 = of_nat (2 ^ j - 1)" unfolding bb by (simp add: of_nat_diff)
  have ex: "\<exists>k. cq_ok c k"
    "\<exists>f. is_pow2 f \<and> f < 2 ^ 31 \<and> of_int (tc_FrameSize cfg) - 1 = (of_nat (f - 1) :: u64) \<and> f dvd length (tc_Region cfg)"
    using c fp f31 fm fd by blast+
  have "tx_geom t" unfolding tx_geom_def p(6)
    using so q(2) j ub j16 bb mk sl(3) ex mp assms(2)
    by (simp add: tx_fresh_def ring_ok_def sq_BBs_def tx_cfg_ok_def)
  moreover have "slot_abs t []" unfolding slot_abs_def p(6) using sl sm by (simp add: tx_fresh_def ring_ok_def ring_list_def)
  ultimately show "tx_abs t []" unfolding tx_abs_def p(6) by (simp add: tx_fresh_def)
  show "tx_failed t = None" by (simp add: p(6) tx_fresh_def)
qed

section \<open>What is in flight\<close>

text \<open>The descriptors in the slot ring, and what a device reads from the head to the producer.\<close>

definition tx_queue :: "tx \<Rightarrow> desc list" where
  "tx_queue t = ring_list (tx_slots t) (tx_slotHead t) (tx_InFlight t)"

definition ring_entry :: "tx \<Rightarrow> u32 \<Rightarrow> bytes" where
  "ring_entry t p = cyc_read (sq_buf (tx_sq t)) (64 * unat p) (64 * unat (em_bbs (tx_meta t ! rslot (tx_meta t) p)))"

definition nic_ring :: "(u64 \<Rightarrow> nat \<Rightarrow> bytes) \<Rightarrow> tx \<Rightarrow> bytes list" where
  "nic_ring mem t = concat (map (\<lambda>p. nic_entry mem (ring_entry t p)) (entry_starts t))"

definition tx_inv :: "(u64 \<Rightarrow> nat \<Rightarrow> bytes) \<Rightarrow> tx \<Rightarrow> bool" where
  "tx_inv mem t \<longleftrightarrow> dma mem t \<and> (\<exists>es. tx_abs t es \<and> loaded 0 mem t es)"

lemma tx_queue_abs: "tx_abs t es \<Longrightarrow> tx_queue t = dsum es \<and> tx_InFlight t = length (dsum es)"
  by (simp add: tx_queue_def tx_InFlight_def tx_abs_def slot_abs_def)

lemma ring_entry_abs:
  assumes "tx_abs t es" "i < length es"
  shows "ring_entry t (tx_head t + of_nat (bsum (take i es))) = entry_bytes t es i"
proof -
  have m: "tx_meta t ! rslot (tx_meta t) (tx_head t + of_nat (bsum (take i es)))
      = \<lparr>em_slotTail = tx_slotHead t + of_nat (length (dsum (take (Suc i) es))), em_bbs = of_nat (fst (es ! i))\<rparr>"
    and "es ! i \<in> set es" using assms by (simp_all add: tx_abs_def)
  then have "fst (es ! i) \<le> 15" using assms(1) by (auto simp: tx_abs_def)
  then have "unat (of_nat (fst (es ! i)) :: u16) = fst (es ! i)" by (simp add: unat_of_nat take_bit_nat_eq_self)
  then show ?thesis unfolding ring_entry_def entry_bytes_def m by simp
qed

lemma nic_ring_abs:
  assumes "tx_abs t es" "loaded 0 mem t es"
  shows "nic_ring mem t = map (frame_of t) (tx_queue t)"
proof -
  have "map (\<lambda>p. nic_entry mem (ring_entry t p)) (entry_starts t)
      = map (\<lambda>i. map (frame_of t) (snd (es ! i))) [0..<length es]"
    unfolding entry_starts_eq [OF assms(1)]
    using assms(2) by (simp add: ring_entry_abs [OF assms(1)] loaded_def)
  also have "\<dots> = map (\<lambda>e. map (frame_of t) (snd e)) es" by (rule nth_equalityI) simp_all
  finally have "nic_ring mem t = concat (map (\<lambda>e. map (frame_of t) (snd e)) es)" by (simp add: nic_ring_def)
  also have "\<dots> = map (frame_of t) (dsum es)" by (simp add: dsum_def map_concat comp_def)
  finally show ?thesis using tx_queue_abs [OF assms(1)] by simp
qed

lemma last_entry_signaled:
  assumes "tx_abs t es" "es \<noteq> []"
  shows "nic_signaled (ring_entry t (last (entry_starts t))) = last_signaled t es"
proof -
  have "last (entry_starts t) = tx_head t + of_nat (bsum (take (length es - 1) es))"
    unfolding entry_starts_eq [OF assms(1)] using assms(2) by (simp add: last_map)
  then show ?thesis using ring_entry_abs [OF assms(1), of "length es - 1"] assms(2) by (simp add: last_signaled_def)
qed

section \<open>The contract\<close>

text \<open>The device writes the completion queue as it likes.\<close>

definition cq_rewrite :: "tx \<Rightarrow> tx \<Rightarrow> bool" where
  "cq_rewrite t t' \<longleftrightarrow> length (cq_buf (tx_cq t')) = length (cq_buf (tx_cq t))
     \<and> t' = t\<lparr>tx_cq := (tx_cq t)\<lparr>cq_buf := cq_buf (tx_cq t')\<rparr>\<rparr>"

definition tx_complete :: "int \<Rightarrow> tx \<Rightarrow> (desc list \<times> tx) option" where
  "tx_complete mx t = tx_Complete mx [] t"

lemma Post_step:
  assumes "tx_inv mem t"
  shows "\<exists>n t'. tx_Post descs t = Some (n, t') \<and> n \<le> length descs \<and> tx_inv mem t' \<and> kept t t'
     \<and> tx_queue t' = tx_queue t @ take n descs \<and> (\<forall>d \<in> set (take n descs). tx_descOK t d)
     \<and> (0 < n \<and> (tx_mpw t \<noteq> None \<or> (\<forall>d \<in> set descs. tx_descOK t d)) \<longrightarrow>
          nic_signaled (ring_entry t' (last (entry_starts t'))))"
proof -
  from assms obtain es where es: "tx_abs t es" "loaded 0 mem t es" "dma mem t" by (auto simp: tx_inv_def)
  from tx_Post_spec [OF es, of descs] obtain n t' where p: "tx_Post descs t = Some (n, t')" "posted 0 mem t es descs n t'" by blast
  from p(2) obtain fs where f: "n \<le> length descs" "kept t t'" "\<forall>d \<in> set (take n descs). tx_descOK t d"
    "dsum fs = take n descs" "tx_abs t' (es @ fs)" "loaded 0 mem t' (es @ fs)"
    "0 < n \<and> (tx_mpw t \<noteq> None \<or> (\<forall>d \<in> set descs. tx_descOK t d)) \<longrightarrow> last_signaled t' (es @ fs)"
    by (auto simp: posted_def)
  have "nic_signaled (ring_entry t' (last (entry_starts t')))"
    if a: "0 < n \<and> (tx_mpw t \<noteq> None \<or> (\<forall>d \<in> set descs. tx_descOK t d))"
  proof -
    have "fs \<noteq> []" using a f(1,4) by auto
    then show ?thesis using last_entry_signaled [OF f(5)] f(7) a by blast
  qed
  moreover have "tx_inv mem t'" using f(5,6) es(3) dma_kept [OF f(2)] by (auto simp: tx_inv_def)
  moreover have "tx_queue t' = tx_queue t @ take n descs"
    using tx_queue_abs [OF f(5)] tx_queue_abs [OF es(1)] f(4) by simp
  ultimately show ?thesis using p(1) f(1-3) by blast
qed

lemma loaded_drop:
  assumes "loaded 0 mem t es" "tx_sq t' = tx_sq t" "tx_region t' = tx_region t" "tx_head t' = tx_head t + of_nat (bsum (take j es))"
  shows "loaded 0 mem t' (drop j es)"
  unfolding loaded_def
proof (intro allI impI)
  fix i assume i: "i < length (drop j es)"
  have "take (j + i) es = take j es @ take i (drop j es)" by (simp add: take_add)
  then have "entry_bytes t' (drop j es) i = entry_bytes t es (j + i)"
    using i assms(2,4) by (simp add: entry_bytes_def add.assoc)
  moreover have "frame_of t' = frame_of t" using assms(3) by (simp add: frame_of_def [abs_def])
  ultimately show "nic_entry mem (entry_bytes t' (drop j es) i) = map (frame_of t') (snd (drop j es ! i))"
    using assms(1) i by (simp add: loaded_def)
qed

lemma Complete_step:
  assumes "tx_inv mem t" "tx_hw_ok t"
  shows "\<exists>k t'. tx_Complete mx out t = Some (out @ take k (tx_queue t), t') \<and> tx_inv mem t' \<and> k \<le> tx_InFlight t
     \<and> tx_queue t' = drop k (tx_queue t) \<and> tx_region t' = tx_region t
     \<and> (tx_failed t \<noteq> None \<longrightarrow> tx_failed t' = tx_failed t)"
proof -
  from assms(1) obtain es where es: "tx_abs t es" "loaded 0 mem t es" "dma mem t" by (auto simp: tx_inv_def)
  from tx_Complete_prefix [OF es(1) assms(2), of mx out] obtain j t' where
    c: "tx_Complete mx out t = Some (out @ dsum (take j es), t')" "tx_abs t' (drop j es)"
      "tx_sq t' = tx_sq t" "tx_head t' = tx_head t + of_nat (bsum (take j es))"
      "tx_region t' = tx_region t" "tx_regionVA t' = tx_regionVA t" "tx_failed t \<noteq> None \<longrightarrow> tx_failed t' = tx_failed t"
    by blast
  let ?k = "length (dsum (take j es))"
  have q: "tx_queue t = dsum es" "tx_InFlight t = length (dsum es)" "tx_queue t' = dsum (drop j es)"
    using tx_queue_abs [OF es(1)] tx_queue_abs [OF c(2)] by simp_all
  have "take ?k (dsum es) = dsum (take j es)" "drop ?k (dsum es) = dsum (drop j es)"
    using dsum_take_drop [of j es] by (metis append_eq_conv_conj)+
  moreover have "tx_inv mem t'" using c(2) loaded_drop [OF es(2) c(3,5,4)] es(3) c(5,6) by (auto simp: tx_inv_def dma_def)
  ultimately show ?thesis using c(1,5,7) q dsum_take_le [of j es] by (intro exI [of _ ?k] exI [of _ t']) simp
qed

lemma cq_rewrite_step:
  assumes "tx_inv mem t" "cq_rewrite t t'"
  shows "tx_inv mem t' \<and> tx_queue t' = tx_queue t"
proof -
  from assms obtain es b where e: "tx_abs t es" "loaded 0 mem t es" "dma mem t" "length b = length (cq_buf (tx_cq t))"
    "t' = t\<lparr>tx_cq := (tx_cq t)\<lparr>cq_buf := b\<rparr>\<rparr>" by (auto simp: tx_inv_def cq_rewrite_def)
  have "loaded 0 mem t' es" using e(2) loaded_cong [of t' t 0 mem es] by (simp add: e(5))
  then show ?thesis using e tx_abs_cq [OF e(4,1)] by (auto simp: tx_inv_def dma_def tx_queue_def tx_InFlight_def)
qed

interpretation mlx5_tx: tx_contract "\<lambda>t q. tx_inv mem t \<and> tx_queue t = q" tx_Post tx_complete tx_hw_ok cq_rewrite
  for mem
proof (unfold_locales, goal_cases)
  case (1 t q ds)
  then show ?case using Post_step [of mem t ds] by blast
next
  case (2 t q mx)
  then show ?case using Complete_step [of mem t mx "[]"] by (auto simp: tx_complete_def)
next
  case (3 t q t')
  then show ?case using cq_rewrite_step by blast
qed

section \<open>\<open>Completable\<close>\<close>

definition ca_found :: "comp_acc \<Rightarrow> u32 option" where
  "ca_found a = (if ca_haveAny a then Some (ca_release a) else None)"

lemma completable_scanned:
  assumes "scanned t u"
  shows "completable_loop n ci u r = completable_loop n ci t r"
  by (induction n arbitrary: ci r) (simp_all only: completable_loop.simps scanned_same(1,8) [OF assms])

lemma ca_found_completed [simp]: "ca_found (a\<lparr>ca_completed := x\<rparr>) = ca_found a"
  by (simp add: ca_found_def)

lemma count_error_ci [simp]: "tx_ci (count_error t) = tx_ci t"
  by (simp add: count_error_def count_tx_def)

lemma latched:
  assumes "tx_geom t" "Opcode h = CQEReq \<or> Opcode h = CQEReqErr"
  obtains t1 where "(if Opcode h = CQEReqErr then latch_error (consume_cqe t) else Some (consume_cqe t)) = Some t1"
    "scanned t t1" "tx_ci t1 = tx_ci t + 1" "Opcode h = CQEReqErr \<Longrightarrow> tx_failed t1 \<noteq> None"
proof (cases "Opcode h = CQEReqErr")
  case True
  obtain k where "cq_ok (tx_cq (consume_cqe t)) k" using assms(1) by (auto simp: tx_geom_def consume_cqe_def)
  from scanned_latch [OF this] obtain u where u: "latch_error (consume_cqe t) = Some u"
    "scanned (consume_cqe t) u" "tx_ci u = tx_ci (consume_cqe t)" "tx_failed u \<noteq> None" by blast
  from u(2) have "scanned t u" by (rule scanned_trans [rotated]) simp
  then show ?thesis using that [of u] True u by simp
next
  case False
  then show ?thesis using that [of "consume_cqe t"] by simp
qed

lemma complete_finds_completable:
  assumes "tx_abs t es" "\<forall>j < n. tx_cqe_ok t (tx_ci t + of_nat j)" "int (length (dsum es)) < mx" "mx < 2 ^ 32"
    and "complete_loop n mx t a = Some (t', a')"
  shows "completable_loop n (tx_ci t) t (ca_found a) = Some (ca_found a')"
  using assms
proof (induction n arbitrary: t a)
  case 0
  then show ?case by simp
next
  case (Suc n)
  have g: "tx_geom t" using Suc.prems(1) by (simp add: tx_abs_def)
  then obtain k where k: "cq_ok (tx_cq t) k" by (auto simp: tx_geom_def)
  obtain h where h: "cq_header (tx_cq t) (tx_ci t) = Some h" using cq_header_some [OF k] by blast
  have step: "completable_loop n (tx_ci t + 1) t (ca_found b) = Some (ca_found a')"
    if u: "scanned t u" "tx_ci u = tx_ci t + 1" and l: "complete_loop n mx u b = Some (t', a')" for u b
  proof -
    have "\<forall>j < n. tx_cqe_ok u (tx_ci u + of_nat j)"
    proof (intro allI impI)
      fix j assume "j < n"
      then have "tx_cqe_ok t (tx_ci t + of_nat (Suc j))" using Suc.prems(2) by blast
      then show "tx_cqe_ok u (tx_ci u + of_nat j)" using scanned_same(13) [OF u(1)] u(2) by (simp add: algebra_simps)
    qed
    then have "completable_loop n (tx_ci u) u (ca_found b) = Some (ca_found a')"
      using Suc.prems(1,3,4) l scanned_same(7) [OF u(1)] by (intro Suc.IH) simp_all
    then show ?thesis using completable_scanned [OF u(1)] u(2) by simp
  qed
  consider "\<not> Owned (tx_cq t) (tx_ci t) h \<or> Format h \<noteq> CQEFormatNoData"
    | (other) "Owned (tx_cq t) (tx_ci t) h" "Format h = CQEFormatNoData" "Opcode h \<noteq> CQEReq" "Opcode h \<noteq> CQEReqErr"
    | (send) "Owned (tx_cq t) (tx_ci t) h" "Format h = CQEFormatNoData" "Opcode h = CQEReq \<or> Opcode h = CQEReqErr"
    by blast
  then show ?case
  proof cases
    case 1
    then show ?thesis using h Suc.prems(5) by (auto split: if_splits)
  next
    case other
    have "scanned t (count_error (consume_cqe t))" by (rule scanned_trans [of _ "consume_cqe t"]) simp_all
    from step [OF this, of "a\<lparr>ca_completed := ca_completed a + 1\<rparr>"] show ?thesis
      using other h Suc.prems(5) by simp
  next
    case send
    have op: "(Opcode h \<noteq> CQEReq \<and> Opcode h \<noteq> CQEReqErr) = False" using send(3) by blast
    from latched [OF g send(3)] obtain t1 where
      t1: "(if Opcode h = CQEReqErr then latch_error (consume_cqe t) else Some (consume_cqe t)) = Some t1"
        "scanned t t1" "tx_ci t1 = tx_ci t + 1" by blast
    let ?a = "a\<lparr>ca_completed := ca_completed a + 1\<rparr>"
    have ok: "tx_cqe_ok t (tx_ci t)" using spec [OF Suc.prems(2), of 0] by simp
    from tx_cqe_names [OF Suc.prems(1) ok h send(1,3)] show ?thesis
    proof
      assume "\<exists>i. names t es h i"
      then obtain i where i: "names t es h i" by blast
      let ?L = "length (dsum (take (Suc i) es))"
      let ?a2 = "?a\<lparr>ca_release := tx_slotHead t + of_nat ?L, ca_newHead := tx_head t + of_nat (bsum (take (Suc i) es)), ca_haveAny := True\<rparr>"
      have e: "entryFor t h = Some (Some (tx_slotHead t + of_nat ?L, tx_head t + of_nat (bsum (take (Suc i) es))))"
        using entryFor_named [OF Suc.prems(1) i] .
      have "int ?L < mx" using dsum_take_le [of "Suc i" es] Suc.prems(3) by linarith
      then have "?L < nat mx" "nat mx < 2 ^ 32" using Suc.prems(4) by (simp_all add: zless_nat_eq_int_zless nat_less_iff)
      moreover have "(of_int mx :: u32) = of_nat (nat mx)" using Suc.prems(3) by simp
      ultimately have lt: "(of_nat ?L :: u32) < of_int mx"
        unfolding word_less_nat_alt using unat_of_nat_small [of ?L] unat_of_nat_small [of "nat mx"] by simp
      then have nlt: "\<not> of_int mx < (of_nat ?L :: u32)" "\<not> of_int mx \<le> (of_nat ?L :: u32)" by auto
      have sh: "tx_slotHead t1 = tx_slotHead t" using scanned_same(4) [OF t1(2)] .
      have "complete_loop (Suc n) mx t a = complete_loop n mx t1 ?a2"
        by (simp split del: if_split cong: if_cong add: Let_def h send(1,2) e t1(1) op sh nlt)
      then have "complete_loop n mx t1 ?a2 = Some (t', a')" using Suc.prems(5) by simp
      from step [OF t1(2,3) this] show ?thesis using h send e by (auto simp: ca_found_def)
    next
      assume "unat (tx_pi t - tx_head t) \<le> unat (WQECounter h - ucast (tx_head t))"
      then have e: "entryFor t h = Some None" by (rule entryFor_stale)
      have "complete_loop (Suc n) mx t a = complete_loop n mx (count_error t1) ?a"
        by (simp split del: if_split cong: if_cong add: Let_def h send(1,2) e t1(1) op)
      then have l: "complete_loop n mx (count_error t1) ?a = Some (t', a')" using Suc.prems(5) by simp
      have s: "scanned t (count_error t1)" "tx_ci (count_error t1) = tx_ci t + 1"
        using scanned_trans [OF t1(2)] t1(3) by simp_all
      from step [OF s l] show ?thesis using h send e by (auto simp: ca_found_def)
    qed
  qed
qed

end
