(* ===== verification/Mlx5_Tx_Props.thy ===== *)
theory Mlx5_Tx_Props
  imports Mlx5_Tx_Run
begin

text \<open>
  The properties of the send ring, stated over what its caller and the device can see: the queue of
  descriptors in flight, the packets the device reads, and the completions it has written.
\<close>

section \<open>The errors a completion latches\<close>

lemma scanned_cq: "scanned t u \<Longrightarrow> tx_cq u = tx_cq t"
  by (rule scanned_same(1))

lemma complete_loop_scanned:
  "cq_ok (tx_cq t) k \<Longrightarrow> complete_loop n mx t a = Some (t', a') \<Longrightarrow> scanned t t'"
proof (induction n arbitrary: t a)
  case (Suc n)
  obtain h where h: "cq_header (tx_cq t) (tx_ci t) = Some h" using cq_header_some [OF Suc.prems(1)] by blast
  have step: "scanned t t'" if "scanned t u" "complete_loop n mx u b = Some (t', a')" for u b
    using Suc.IH [of u b] that Suc.prems(1) scanned_cq [OF that(1)] scanned_trans by metis
  show ?case
  proof (cases "\<not> Owned (tx_cq t) (tx_ci t) h \<or> Format h \<noteq> CQEFormatNoData \<or> (Opcode h \<noteq> CQEReq \<and> Opcode h \<noteq> CQEReqErr)")
    case True
    have "scanned t (count_error (consume_cqe t))" by (rule scanned_trans [of _ "consume_cqe t"]) simp_all
    then show ?thesis using True Suc.prems(2) h step by (auto split: if_splits)
  next
    case False
    then obtain r where r: "entryFor t h = Some r" using Suc.prems(2) h by (auto simp: bind_eq_Some_conv)
    have "cq_ok (tx_cq (consume_cqe t)) k" using Suc.prems(1) by (simp add: consume_cqe_def)
    from scanned_latch [OF this] obtain u where u: "latch_error (consume_cqe t) = Some u" "scanned (consume_cqe t) u" by blast
    define t1 where "t1 = (if Opcode h = CQEReqErr then u else consume_cqe t)"
    have t1: "scanned t t1" "(if Opcode h = CQEReqErr then latch_error (consume_cqe t) else Some (consume_cqe t)) = Some t1"
      using u scanned_trans [OF _ u(2), of t] by (simp_all add: t1_def)
    have e: "scanned t (count_error t1)" using scanned_trans [OF t1(1)] by simp
    show ?thesis using Suc.prems(2) False h r t1 e step
      by (cases r) (auto simp: Let_def simp del: complete_loop.simps(2) simp: complete_loop.simps(2) [of n mx t a] split: if_splits prod.splits)
  qed
qed simp

lemma release_slots_failed: "release_slots rel t out = Some (out', u) \<Longrightarrow> tx_failed u = tx_failed t"
proof (induction rel t out rule: release_slots.induct)
  case (1 rel t out)
  then show ?case by (subst (asm) (2) release_slots.simps) (auto simp: Let_def split: if_splits)
qed

lemma tx_Complete_failed:
  assumes "tx_Complete mx out t = Some (out', t')" "0 < mx"
  obtains t1 a where "complete_loop (unat (cq_entries (tx_cq t))) mx t
      \<lparr>ca_release = 0, ca_newHead = 0, ca_haveAny = False, ca_completed = 0\<rparr> = Some (t1, a)" "tx_failed t' = tx_failed t1"
proof -
  let ?l = "complete_loop (unat (cq_entries (tx_cq t))) mx t
      \<lparr>ca_release = 0, ca_newHead = 0, ca_haveAny = False, ca_completed = 0\<rparr>"
  obtain t1 a where l: "?l = Some (t1, a)" using assms by (cases ?l) (auto simp: tx_Complete_def)
  show ?thesis
  proof (cases "ca_completed a = 0 \<or> \<not> ca_haveAny a")
    case True
    then have "tx_failed t' = tx_failed t1"
      using assms l by (auto simp: tx_Complete_def Let_def count_tx_def split: if_splits)
    then show ?thesis using that l by blast
  next
    case False
    let ?t2 = "count_tx (\<lambda>c. c\<lparr>c_completions := c_completions c + ca_completed a\<rparr>) t1"
    obtain o1 u where r: "release_slots (ca_release a) ?t2 out = Some (o1, u)"
      using assms l False by (cases "release_slots (ca_release a) ?t2 out") (auto simp: tx_Complete_def Let_def)
    have "tx_failed t' = tx_failed u"
      using assms l False r by (auto simp: tx_Complete_def Let_def count_tx_def tx_publish_def split: if_splits)
    also have "\<dots> = tx_failed t1" using release_slots_failed [OF r] by (simp add: count_tx_def)
    finally show ?thesis using that l by blast
  qed
qed

lemma Complete_latches:
  assumes "tx_geom t" "tx_Complete mx out t = Some (out', t')" "0 < mx"
    and "cq_header (tx_cq t) (tx_ci t) = Some h" "Owned (tx_cq t) (tx_ci t) h" "Format h = CQEFormatNoData" "Opcode h = CQEReqErr"
  shows "tx_failed t' \<noteq> None"
proof -
  let ?a = "\<lparr>ca_release = 0, ca_newHead = 0, ca_haveAny = False, ca_completed = 0\<rparr>"
  obtain k where k: "cq_ok (tx_cq t) k" using assms(1) by (auto simp: tx_geom_def)
  from assms(2,3) obtain t1 a where l: "complete_loop (unat (cq_entries (tx_cq t))) mx t ?a = Some (t1, a)"
    "tx_failed t' = tx_failed t1" by (rule tx_Complete_failed)
  have "0 < unat (cq_entries (tx_cq t))" using k unat_exp32 [of k] by (simp add: cq_ok_def)
  then obtain n where n: "unat (cq_entries (tx_cq t)) = Suc n" using gr0_implies_Suc by blast
  have op: "(Opcode h \<noteq> CQEReq \<and> Opcode h \<noteq> CQEReqErr) = False" "Opcode h = CQEReq \<or> Opcode h = CQEReqErr" using assms(7) by auto
  from latched [OF assms(1) op(2)] obtain u where
    u: "(if Opcode h = CQEReqErr then latch_error (consume_cqe t) else Some (consume_cqe t)) = Some u"
      "scanned t u" "tx_failed u \<noteq> None" using assms(7) by blast
  have keep: "tx_failed t1 \<noteq> None" if "complete_loop n mx v b = Some (t1, a)" "scanned u v" for v b
  proof -
    have "cq_ok (tx_cq v) k" using k scanned_cq [OF u(2)] scanned_cq [OF that(2)] by simp
    from complete_loop_scanned [OF this that(1)] have "scanned u t1" by (rule scanned_trans [OF that(2)])
    then show ?thesis using u(3) by (simp add: scanned_def)
  qed
  obtain r where r: "entryFor t h = Some r"
    using l(1) assms(4-7) by (auto simp: n bind_eq_Some_conv)
  have "tx_failed t1 \<noteq> None"
  proof (cases r)
    case None
    then have "complete_loop n mx (count_error u) (?a\<lparr>ca_completed := ca_completed ?a + 1\<rparr>) = Some (t1, a)"
      using l(1) by (simp split del: if_split cong: if_cong add: n Let_def assms(4-6) r u(1) op(1))
    then show ?thesis by (rule keep) simp
  next
    case (Some p)
    then obtain x y where p: "r = Some (x, y)" by (cases p) simp
    let ?a2 = "?a\<lparr>ca_completed := ca_completed ?a + 1, ca_release := x, ca_newHead := y, ca_haveAny := True\<rparr>"
    have "(if x - tx_slotHead u \<ge> of_int mx then Some (u, ?a2) else complete_loop n mx u ?a2) = Some (t1, a)"
      using l(1) by (simp split del: if_split cong: if_cong add: n Let_def assms(4-6) r p u(1) op(1))
    then show ?thesis using u(3) keep [of u ?a2] by (auto split: if_splits)
  qed
  then show ?thesis using l(2) by simp
qed

section \<open>A ring to evaluate on\<close>

definition demo_cfg :: tx_config where
  "demo_cfg = \<lparr>tc_SQ = replicate 64 0, tc_CQ = replicate 64 0, tc_SQDbrec = Some [], tc_CQDbrec = Some [], tc_UAR = Some [],
     tc_QPN = 5, tc_LKey = 6, tc_Region = [1, 2, 3, 4], tc_RegionVA = 0, tc_FrameSize = 4, tc_InlineLen = 0, tc_CSFlags = 0,
     tc_MultiPacket = False, tc_MultiPacketMaxLen = 0, tc_MultiPacketPointer = False, tc_SignalEvery = 0\<rparr>"

definition demo_mem :: "u64 \<Rightarrow> nat \<Rightarrow> bytes" where
  "demo_mem a n = take n (drop (unat a) [1, 2, 3, 4])"

definition demo_desc :: desc where
  "demo_desc = \<lparr>d_addr = 1, d_len = 2, d_options = 0\<rparr>"

lemma demo_ring:
  obtains t where "NewTx demo_cfg = Some (Inr t)" "tx_cfg_ok demo_cfg" "dma demo_mem t" "tx_inv demo_mem t"
    "tx_descOK t demo_desc" "tx_FreeSlots t = 1" "tx_mpw t = None" "tx_failed t = None" "tx_hw_ok t" "tx_queue t = []"
    "tx_signalEvery t = 0"
proof -
  have "case NewTx demo_cfg of Some (Inr t) \<Rightarrow> tx_region t = [1, 2, 3, 4] \<and> tx_regionVA t = 0 \<and> tx_descOK t demo_desc
      \<and> tx_FreeSlots t = 1 \<and> tx_mpw t = None \<and> tx_failed t = None \<and> tx_pi t = tx_head t \<and> tx_InFlight t = 0 \<and> tx_signalEvery t = 0
    | _ \<Rightarrow> False"
    by code_simp
  then obtain t where t: "NewTx demo_cfg = Some (Inr t)" "tx_region t = [1, 2, 3, 4]" "tx_regionVA t = 0" "tx_descOK t demo_desc"
      "tx_FreeSlots t = 1" "tx_mpw t = None" "tx_failed t = None" "tx_pi t = tx_head t" "tx_InFlight t = 0" "tx_signalEvery t = 0"
    by (auto split: option.split_asm sum.split_asm)
  have c: "tx_cfg_ok demo_cfg" by (simp add: tx_cfg_ok_def demo_cfg_def)
  have "dma demo_mem t" unfolding dma_def t(2,3) demo_mem_def
    by (auto simp: unat_of_nat take_bit_nat_eq_self)
  moreover have "tx_abs t []" by (rule NewTx_abs(1) [OF t(1) c])
  moreover have "loaded 0 demo_mem t []" by (simp add: loaded_def)
  moreover have "tx_hw_ok t" using t(8) by (simp add: tx_hw_ok_def tx_cqe_ok_def split: option.split)
  moreover have "tx_queue t = []" using t(9) by (simp add: tx_queue_def ring_list_def)
  ultimately show ?thesis using that t c unfolding tx_inv_def by blast
qed

section \<open>Properties\<close>













text \<open>The guard on descriptors. For a ring accepted by \<open>NewTx\<close>, \<open>descOK\<close> accepts exactly the descriptors
  that name at least one byte and stay within one frame of the region, whatever 64-bit address and
  32-bit length they carry.\<close>

theorem tx_descOK_iff:
  assumes "NewTx cfg = Some (Inr t)" "tx_cfg_ok cfg"
  shows "tx_descOK t d \<longleftrightarrow> unat (d_addr d) < length (tx_region t) \<and> 0 < unat (d_len d)
     \<and> unat (d_addr d) mod nat (tc_FrameSize cfg) + unat (d_len d) \<le> nat (tc_FrameSize cfg)"
proof -
  from assms(1) obtain q c s mpw slots sqdb cqdb uar where
    p: "t = tx_fresh cfg q c s mpw slots sqdb cqdb uar" "tc_FrameSize cfg > 0"
      "ones_count (unat (of_int (tc_FrameSize cfg) :: u64)) = 1" by (rule NewTx_parts)
  define fs where "fs = nat (tc_FrameSize cfg)"
  have fi: "tc_FrameSize cfg = int fs" using p(2) by (simp add: fs_def)
  have f31: "fs < 2 ^ 31" using assms(2) p(2) by (simp add: tx_cfg_ok_def fs_def nat_less_iff)
  have "unat (of_int (tc_FrameSize cfg) :: u64) = fs" unfolding fi using f31 by (simp add: unat_of_nat take_bit_nat_eq_self)
  then have fp: "is_pow2 fs" using p(3) ones_count_one by simp
  have fm: "tx_frameMask t = of_nat (fs - 1)"
    using is_pow2_pos [OF fp] by (simp add: p(1) tx_fresh_def fi of_nat_diff)
  have "length (tx_region t) < 2 ^ 63" using assms(2) by (simp add: p(1) tx_fresh_def tx_cfg_ok_def)
  from descOK_iff [OF fp _ fm this] f31 show ?thesis by (simp add: fs_def word_gt_0 unat_gt_0)
qed

theorem tx_descOK_iff_witness:
  "\<exists>t. NewTx demo_cfg = Some (Inr t) \<and> tx_descOK t demo_desc
     \<and> \<not> tx_descOK t \<lparr>d_addr = 3, d_len = 2, d_options = 0\<rparr>"
proof -
  obtain t where t: "NewTx demo_cfg = Some (Inr t)" "tx_cfg_ok demo_cfg" "tx_descOK t demo_desc" by (rule demo_ring)
  from tx_descOK_iff [OF t(1,2), of "\<lparr>d_addr = 3, d_len = 2, d_options = 0\<rparr>"] show ?thesis
    using t(1,3) by (simp add: demo_cfg_def)
qed

text \<open>With one completion per batch, a refused descriptor in the middle of a batch leaves the last entry
  published without a completion of its own: nothing in flight after the last signaled entry comes back
  until a later batch asks for one.\<close>

theorem tx_Post_refused_tail_unsignaled:
  assumes "tx_inv mem t" "tx_mpw t = None" "tx_failed t = None" "tx_signalEvery t = 0"
    and "tx_Post descs t = Some (n, t')" "0 < n" "n < length descs" "int n < tx_FreeSlots t"
  shows "\<not> nic_signaled (ring_entry t' (last (entry_starts t')))"
proof -
  define m where "m = (if int (length descs) > tx_FreeSlots t then nat (tx_FreeSlots t) else length descs)"
  from assms(1) obtain es where es: "tx_abs t es" "loaded 0 mem t es" "dma mem t" by (auto simp: tx_inv_def)
  have m: "n < m" "m \<noteq> 0" using assms(6-8) by (auto simp: m_def)
  have go: "\<not> (int (length descs) > tx_FreeSlots t \<and> tx_FreeSlots t = 0)" using assms(8) by simp
  from tx_Post_single [OF es assms(3) go m(2) assms(2) m_def] obtain i u where
    "tx_Post descs t = Some (i, u)"
    "0 < i \<and> i < m \<and> tx_signalEvery t = 0 \<longrightarrow> (\<exists>fs. fs \<noteq> [] \<and> tx_abs u (es @ fs) \<and> \<not> last_signaled u (es @ fs))" by blast
  then obtain fs where "fs \<noteq> []" "tx_abs t' (es @ fs)" "\<not> last_signaled t' (es @ fs)" using assms(4-6) m by auto
  then show ?thesis using last_entry_signaled [of t' "es @ fs"] by simp
qed

end
