(* ===== verification/Mlx5_Rx.thy ===== *)
theory Mlx5_Rx
  imports Wqe_Cqe Offload
begin

text \<open>
  The receive ring of \<^verbatim>\<open>mlx5/internal/ring/rx.go\<close>. Buffers are posted in order and reported on in order.
  The device's memory, the completion queue included, is read by the model as it stands when an operation
  runs. \<open>None\<close> is a Go panic, such as a descriptor posted with an address outside the region. The loop
  of \<open>receive\<close> runs on fuel, one lap of the completion queue and one more turn; the library shows that is
  always enough.
\<close>

section \<open>State\<close>

record rx_config =
  xc_RQ :: bytes
  xc_CQ :: bytes
  xc_RQDbrec :: "bytes option"
  xc_CQDbrec :: "bytes option"
  xc_Stride :: u32
  xc_LKey :: u32
  xc_Region :: bytes
  xc_RegionVA :: u64
  xc_BufferSize :: u32

record rx_stats =
  rs_Packets :: u64
  rs_Bytes :: u64
  rs_Filled :: u64
  rs_Batches :: u64
  rs_Completions :: u64
  rs_Errors :: u64
  rs_Oversize :: u64
  rs_Outstanding :: u64

record rx_counters =
  rc_packets :: u64
  rc_bytes :: u64
  rc_filled :: u64
  rc_batches :: u64
  rc_completions :: u64
  rc_errors :: u64
  rc_oversize :: u64
  rc_sincePublish :: u32

datatype rx_error = BadStride u32 | RQNotWhole nat | RQNotPow2 u32 | RxWqeErr wqe_error | RxCQTooSmall u32 u32
  | RxMissingDoorbell | NoBufferBytes

text \<open>What takes the queue out of service.\<close>

datatype rx_dead = UnknownFormat u8 | LostTrack u32 u32

record rx =
  rx_rq :: bytes
  rx_entries :: u32
  rx_mask :: u32
  rx_stride :: u32
  rx_cq :: cq
  rx_rqDbrec :: bytes
  rx_cqDbrec :: bytes
  rx_region :: bytes
  rx_regionVA :: u64
  rx_bufSize :: u32
  rx_pi :: u32
  rx_ci :: u32
  rx_cqci :: u32
  rx_posted :: "desc list"
  rx_failed :: "desc list"
  rx_dead :: "rx_dead option"
  rx_c :: rx_counters
  rx_Stats :: rx_stats

section \<open>Operations\<close>

definition rx_publishEvery :: u32 where "rx_publishEvery = 256"

definition rx_Sync :: "rx \<Rightarrow> rx" where
  "rx_Sync r =
     (let c = rx_c r
      in r\<lparr>rx_c := c\<lparr>rc_sincePublish := 0\<rparr>,
           rx_Stats := \<lparr>rs_Packets = rc_packets c, rs_Bytes = rc_bytes c, rs_Filled = rc_filled c,
             rs_Batches = rc_batches c, rs_Completions = rc_completions c, rs_Errors = rc_errors c,
             rs_Oversize = rc_oversize c, rs_Outstanding = ucast (rx_pi r - rx_ci r)\<rparr>\<rparr>)"

definition rx_tick :: "rx \<Rightarrow> rx" where
  "rx_tick r =
     (let r1 = r\<lparr>rx_c := (rx_c r)\<lparr>rc_sincePublish := rc_sincePublish (rx_c r) + 1\<rparr>\<rparr>
      in if rc_sincePublish (rx_c r1) \<ge> rx_publishEvery then rx_Sync r1 else r1)"

text \<open>The constant half of every entry: how long a buffer is and its region's key.\<close>

fun prefill :: "nat \<Rightarrow> u32 \<Rightarrow> u32 \<Rightarrow> u32 \<Rightarrow> u32 \<Rightarrow> bytes \<Rightarrow> bytes option" where
  "prefill 0 i stride bsz lkey rq = Some rq"
| "prefill (Suc n) i stride bsz lkey rq =
     do { rq1 \<leftarrow> poke rq (unat (i * stride)) (be32 bsz);
          rq2 \<leftarrow> poke rq1 (unat (i * stride + 4)) (be32 lkey);
          prefill n (i + 1) stride bsz lkey rq2 }"

definition NewRx :: "rx_config \<Rightarrow> (rx_error + rx) option" where
  "NewRx cfg =
     (if xc_Stride cfg \<noteq> 16 then Some (Inl (BadStride (xc_Stride cfg)))
      else if length (xc_RQ cfg) mod unat (xc_Stride cfg) \<noteq> 0 \<or> length (xc_RQ cfg) = 0
      then Some (Inl (RQNotWhole (length (xc_RQ cfg))))
      else let entries = of_nat (length (xc_RQ cfg)) div xc_Stride cfg
      in if entries AND (entries - 1) \<noteq> 0 then Some (Inl (RQNotPow2 entries))
         else case NewCQ (xc_CQ cfg) (int CQESize) of Inl e \<Rightarrow> Some (Inl (RxWqeErr e)) | Inr c \<Rightarrow>
           if cq_entries c < entries then Some (Inl (RxCQTooSmall (cq_entries c) entries))
           else case (xc_RQDbrec cfg, xc_CQDbrec cfg) of
             (Some rqdb, Some cqdb) \<Rightarrow>
               if xc_BufferSize cfg = 0 then Some (Inl NoBufferBytes)
               else do { rq \<leftarrow> prefill (unat entries) 0 (xc_Stride cfg) (xc_BufferSize cfg) (xc_LKey cfg) (xc_RQ cfg);
                         Some (Inr \<lparr>rx_rq = rq, rx_entries = entries, rx_mask = entries - 1, rx_stride = xc_Stride cfg,
                           rx_cq = c, rx_rqDbrec = rqdb, rx_cqDbrec = cqdb, rx_region = xc_Region cfg,
                           rx_regionVA = xc_RegionVA cfg, rx_bufSize = xc_BufferSize cfg, rx_pi = 0, rx_ci = 0, rx_cqci = 0,
                           rx_posted = replicate (unat entries) \<lparr>d_addr = 0, d_len = 0, d_options = 0\<rparr>, rx_failed = [],
                           rx_dead = None,
                           rx_c = \<lparr>rc_packets = 0, rc_bytes = 0, rc_filled = 0, rc_batches = 0, rc_completions = 0,
                             rc_errors = 0, rc_oversize = 0, rc_sincePublish = 0\<rparr>,
                           rx_Stats = \<lparr>rs_Packets = 0, rs_Bytes = 0, rs_Filled = 0, rs_Batches = 0, rs_Completions = 0,
                             rs_Errors = 0, rs_Oversize = 0, rs_Outstanding = 0\<rparr>\<rparr>) }
           | _ \<Rightarrow> Some (Inl RxMissingDoorbell))"

definition rx_Entries :: "rx \<Rightarrow> nat" where
  "rx_Entries r = unat (rx_entries r)"

definition rx_FreeSlots :: "rx \<Rightarrow> nat" where
  "rx_FreeSlots r = unat (rx_entries r - (rx_pi r - rx_ci r))"

definition rx_Outstanding :: "rx \<Rightarrow> nat" where
  "rx_Outstanding r = unat (rx_pi r - rx_ci r)"

text \<open>One turn of the loop of \<open>Fill\<close>.\<close>

definition fill_one :: "desc \<Rightarrow> rx \<Rightarrow> rx option" where
  "fill_one d r =
     (let slot = rx_pi r AND rx_mask r
      in do { rq \<leftarrow> poke (rx_rq r) (unat (slot * rx_stride r + 8)) (be64 (rx_regionVA r + d_addr d));
              if unat slot < length (rx_posted r)
              then Some (r\<lparr>rx_rq := rq, rx_posted := (rx_posted r)[unat slot := d], rx_pi := rx_pi r + 1\<rparr>)
              else None })"

fun fill_all :: "desc list \<Rightarrow> rx \<Rightarrow> rx option" where
  "fill_all [] r = Some r"
| "fill_all (d # ds) r = do { r1 \<leftarrow> fill_one d r; fill_all ds r1 }"

definition rx_Fill :: "desc list \<Rightarrow> rx \<Rightarrow> (nat \<times> rx) option" where
  "rx_Fill descs r =
     (let free = rx_FreeSlots r; n = (if length descs > free then free else length descs)
      in if n = 0 then Some (0, r)
         else do { r1 \<leftarrow> fill_all (take n descs) r;
                   let r2 = r1\<lparr>rx_rqDbrec := be32 (rx_pi r1 AND 0xffff)\<rparr>;
                   let r3 = r2\<lparr>rx_c := (rx_c r2)\<lparr>rc_filled := rc_filled (rx_c r2) + of_nat n\<rparr>\<rparr>;
                   Some (n, rx_tick r3) })"

definition rx_fail :: "rx_dead \<Rightarrow> rx \<Rightarrow> rx" where
  "rx_fail e r = r\<lparr>rx_dead := (case rx_dead r of None \<Rightarrow> Some e | Some x \<Rightarrow> Some x)\<rparr>"

definition rx_error_count :: "rx \<Rightarrow> rx" where
  "rx_error_count r = r\<lparr>rx_c := (rx_c r)\<lparr>rc_errors := rc_errors (rx_c r) + 1\<rparr>\<rparr>"

text \<open>The locals of \<open>receive\<close>; a nil \<open>ts\<close> is \<open>None\<close>.\<close>

record rx_acc =
  ra_out :: "desc list"
  ra_ts :: "u64 list option"
  ra_got :: nat
  ra_bytes :: u64
  ra_read :: u64

text \<open>The options a good completion's checksum flags become.\<close>

definition rx_options :: "u8 \<Rightarrow> u32" where
  "rx_options f =
     (if f AND CQEL3OK \<noteq> 0
      then if f AND CQEL4OK \<noteq> 0 then OptL3ChecksumOK OR OptChecksumOK else OptL3ChecksumOK
      else 0)"

text \<open>A completion for the oldest outstanding buffer, which it consumes.\<close>

definition rx_take :: "u32 \<Rightarrow> rx \<Rightarrow> rx_acc \<Rightarrow> (rx \<times> rx_acc) option" where
  "rx_take header r a =
     (let slot = rx_ci r AND rx_mask r
      in if \<not> unat slot < length (rx_posted r) then None
         else let d = rx_posted r ! unat slot; r1 = r\<lparr>rx_ci := rx_ci r + 1\<rparr>
         in if \<not> unat (d_addr d) < length (rx_region r) then None
            else if Opcode header = CQERespErr
            then Some ((rx_error_count r1)\<lparr>rx_failed := rx_failed r @ [d]\<rparr>, a)
            else do { entry \<leftarrow> cq_Entry (rx_cq r) (rx_cqci r - 1);
                      len \<leftarrow> ByteCount entry;
                      if len > rx_bufSize r
                      then let r2 = rx_error_count r1
                           in Some (r2\<lparr>rx_c := (rx_c r2)\<lparr>rc_oversize := rc_oversize (rx_c r2) + 1\<rparr>,
                                       rx_failed := rx_failed r @ [d]\<rparr>, a)
                      else do { f \<leftarrow> ChecksumFlags entry;
                                ts \<leftarrow> (case ra_ts a of None \<Rightarrow> Some None
                                        | Some l \<Rightarrow> map_option (\<lambda>x. Some (l @ [x])) (Timestamp entry));
                                Some (r1, a\<lparr>ra_out := ra_out a @ [d\<lparr>d_len := len, d_options := rx_options f\<rparr>],
                                  ra_ts := ts, ra_got := Suc (ra_got a), ra_bytes := ra_bytes a + ucast len\<rparr>) } })"

fun receive_loop :: "nat \<Rightarrow> int \<Rightarrow> rx \<Rightarrow> rx_acc \<Rightarrow> (rx \<times> rx_acc) option" where
  "receive_loop fuel mx r a =
     (if \<not> int (ra_got a) < mx then Some (r, a)
      else case fuel of 0 \<Rightarrow> None
      | Suc f \<Rightarrow>
        do { header \<leftarrow> cq_header (rx_cq r) (rx_cqci r);
             if \<not> Owned (rx_cq r) (rx_cqci r) header then Some (r, a)
             else if Format header \<noteq> CQEFormatNoData
             then Some (rx_fail (UnknownFormat (Format header)) (rx_error_count r), a)
             else let r1 = r\<lparr>rx_cqci := rx_cqci r + 1\<rparr>; a1 = a\<lparr>ra_read := ra_read a + 1\<rparr>
             in if Opcode header \<noteq> CQERespSend \<and> Opcode header \<noteq> CQERespErr
                then receive_loop f mx (rx_error_count r1) a1
                else if rx_pi r1 = rx_ci r1 then receive_loop f mx (rx_error_count r1) a1
                else let slot = rx_ci r1 AND rx_mask r1; named = ucast (WQECounter header) AND rx_mask r1
                in if named \<noteq> slot
                   then Some (rx_fail (LostTrack named slot) (rx_error_count r1), a1)
                   else do { (r2, a2) \<leftarrow> rx_take header r1 a1; receive_loop f mx r2 a2 } })"

declare receive_loop.simps [simp del]

text \<open>The end of \<open>receive\<close>: the counters, and the release of the completions read.\<close>

definition rx_settle :: "rx_acc \<Rightarrow> rx \<Rightarrow> rx" where
  "rx_settle a r =
     (if ra_read a = 0 then if rx_pi r = rx_ci r then rx_Sync r else r
      else let c = rx_c r;
               r2 = r\<lparr>rx_c := c\<lparr>rc_completions := rc_completions c + ra_read a, rc_batches := rc_batches c + 1,
                      rc_packets := rc_packets c + of_nat (ra_got a), rc_bytes := rc_bytes c + ra_bytes a\<rparr>\<rparr>
           in r2\<lparr>rx_cqDbrec := be32 (rx_cqci r2 AND 0xffffff)\<rparr>)"

definition rx_receive :: "int \<Rightarrow> desc list \<Rightarrow> u64 list option \<Rightarrow> rx \<Rightarrow> ((desc list \<times> u64 list option) \<times> rx) option" where
  "rx_receive mx out ts r =
     (let r0 = r\<lparr>rx_failed := []\<rparr>
      in if mx \<le> 0 \<or> rx_dead r0 \<noteq> None then Some ((out, ts), r0)
         else do { (r1, a) \<leftarrow> receive_loop (Suc (unat (cq_entries (rx_cq r)))) mx r0
                     \<lparr>ra_out = out, ra_ts = ts, ra_got = 0, ra_bytes = 0, ra_read = 0\<rparr>;
                   Some ((ra_out a, ra_ts a), rx_settle a r1) })"

definition rx_Receive :: "int \<Rightarrow> desc list \<Rightarrow> rx \<Rightarrow> (desc list \<times> rx) option" where
  "rx_Receive mx out r = map_option (\<lambda>((o', _), r'). (o', r')) (rx_receive mx out None r)"

definition rx_ReceiveTimestamps :: "int \<Rightarrow> desc list \<Rightarrow> u64 list option \<Rightarrow> rx \<Rightarrow> ((desc list \<times> u64 list option) \<times> rx) option" where
  "rx_ReceiveTimestamps mx out ts r = rx_receive mx out ts r"

definition rx_Err :: "rx \<Rightarrow> rx_dead option" where
  "rx_Err r = rx_dead r"

definition rx_Failed :: "rx \<Rightarrow> desc list" where
  "rx_Failed r = rx_failed r"

definition rx_Ready :: "rx \<Rightarrow> bool option" where
  "rx_Ready r = map_option (Owned (rx_cq r) (rx_cqci r)) (cq_header (rx_cq r) (rx_cqci r))"

fun ready_from :: "nat \<Rightarrow> u32 \<Rightarrow> cq \<Rightarrow> nat option" where
  "ready_from 0 ci c = Some 0"
| "ready_from (Suc n) ci c =
     do { header \<leftarrow> cq_header c ci;
          if \<not> Owned c ci header then Some 0 else map_option Suc (ready_from n (ci + 1) c) }"

definition rx_ReadyCount :: "int \<Rightarrow> rx \<Rightarrow> nat option" where
  "rx_ReadyCount mx r = ready_from (nat mx) (rx_cqci r) (rx_cq r)"

end
