(* ===== verification/Rx_Contract.thy ===== *)
theory Rx_Contract
  imports Packetio_Prelude "HOL-Library.Multiset"
begin

text \<open>
  What a receive queue promises its caller, whatever the backend: the buffers it took come back, once each,
  some with a packet and some put aside, and all others stay with the device. A run is any interleaving of
  fills, receives and moves of the device; \<open>key\<close> is what identifies a buffer.
\<close>

inductive rx_run :: "('d list \<Rightarrow> 's \<Rightarrow> (nat \<times> 's) option) \<Rightarrow> (int \<Rightarrow> 's \<Rightarrow> (('d list \<times> 'd list) \<times> 's) option)
    \<Rightarrow> ('d \<Rightarrow> bool) \<Rightarrow> ('s \<Rightarrow> 's \<Rightarrow> bool) \<Rightarrow> 's \<Rightarrow> 'd list \<Rightarrow> 'd list \<Rightarrow> 'd list \<Rightarrow> 's \<Rightarrow> bool"
  for fill receive buffer device s0 where
  start: "rx_run fill receive buffer device s0 [] [] [] s0"
| fill: "rx_run fill receive buffer device s0 acc ret bad s \<Longrightarrow> \<forall>d \<in> set ds. buffer d \<Longrightarrow> fill ds s = Some (n, s')
    \<Longrightarrow> rx_run fill receive buffer device s0 (acc @ take n ds) ret bad s'"
| receive: "rx_run fill receive buffer device s0 acc ret bad s \<Longrightarrow> receive mx s = Some ((out, failed), s')
    \<Longrightarrow> rx_run fill receive buffer device s0 acc (ret @ out) (bad @ failed) s'"
| device: "rx_run fill receive buffer device s0 acc ret bad s \<Longrightarrow> device s s'
    \<Longrightarrow> rx_run fill receive buffer device s0 acc ret bad s'"

lemma mset_shuffles: "zs \<in> shuffles xs ys \<Longrightarrow> mset zs = mset xs + mset ys"
proof (induction zs arbitrary: xs ys)
  case (Cons z zs)
  from Cons.prems consider xs' where "xs = z # xs'" "zs \<in> shuffles xs' ys" | ys' where "ys = z # ys'" "zs \<in> shuffles xs ys'"
    by (cases xs; cases ys) auto
  then show ?case using Cons.IH by cases auto
qed auto

locale rx_contract =
  fixes held :: "'s \<Rightarrow> 'd list \<Rightarrow> bool"
    and key :: "'d \<Rightarrow> 'k"
    and fill :: "'d list \<Rightarrow> 's \<Rightarrow> (nat \<times> 's) option"
    and receive :: "int \<Rightarrow> 's \<Rightarrow> (('d list \<times> 'd list) \<times> 's) option"
    and buffer :: "'d \<Rightarrow> bool"
    and device :: "'s \<Rightarrow> 's \<Rightarrow> bool"
  assumes fill_law: "held s q \<Longrightarrow> \<forall>d \<in> set ds. buffer d \<Longrightarrow>
      \<exists>n s'. fill ds s = Some (n, s') \<and> n \<le> length ds \<and> held s' (q @ take n ds)"
    and receive_law: "held s q \<Longrightarrow> \<exists>k out failed s'. receive mx s = Some ((out, failed), s') \<and> held s' (drop k q)
      \<and> map key (take k q) \<in> shuffles (map key out) (map key failed)"
    and device_law: "held s q \<Longrightarrow> device s s' \<Longrightarrow> held s' q"
begin

lemma run_conserves:
  assumes "rx_run fill receive buffer device s0 acc ret bad s" "held s0 []"
  shows "\<exists>q. held s q \<and> mset (map key acc) = mset (map key ret) + mset (map key bad) + mset (map key q)"
  using assms
proof induction
  case start
  then show ?case by auto
next
  case (fill acc ret bad s ds n s')
  then obtain q where "held s q" "mset (map key acc) = mset (map key ret) + mset (map key bad) + mset (map key q)" by blast
  then show ?case using fill_law [of s q ds] fill.hyps(2,3) by auto
next
  case (receive acc ret bad s mx out failed s')
  then obtain q where q: "held s q" "mset (map key acc) = mset (map key ret) + mset (map key bad) + mset (map key q)" by blast
  from receive_law [OF q(1), of mx] receive.hyps(2) obtain k where
    k: "held s' (drop k q)" "map key (take k q) \<in> shuffles (map key out) (map key failed)" by auto
  have "mset (map key q) = mset (map key (take k q)) + mset (map key (drop k q))"
    by (simp only: mset_append [symmetric] map_append [symmetric] append_take_drop_id)
  then show ?case using q(2) k(1) mset_shuffles [OF k(2)] by (intro exI [of _ "drop k q"]) simp
next
  case (device acc ret bad s s')
  then show ?case using device_law by blast
qed

lemma run_total:
  assumes "rx_run fill receive buffer device s0 acc ret bad s" "held s0 []"
  shows "\<forall>d \<in> set ds. buffer d \<Longrightarrow> fill ds s \<noteq> None" "receive mx s \<noteq> None"
proof -
  from run_conserves [OF assms] obtain q where q: "held s q" by blast
  from fill_law [OF q, of ds] show "\<forall>d \<in> set ds. buffer d \<Longrightarrow> fill ds s \<noteq> None" by auto
  from receive_law [OF q] show "receive mx s \<noteq> None" by fastforce
qed

end

end
