(* ===== verification/Mlx5_Rx_Run.thy ===== *)
theory Mlx5_Rx_Run
  imports Mlx5_Rx Rx_Contract
begin

text \<open>
  The receive ring's invariant, that every operation keeps it, and what \<open>Fill\<close> and \<open>Receive\<close> do to the
  buffers outstanding.
\<close>

section \<open>The invariant\<close>

text \<open>The shape of the queue: sizes that agree, and every entry carrying the buffer size and the key.\<close>

definition rx_geom :: "u32 \<Rightarrow> rx \<Rightarrow> bool" where
  "rx_geom lkey r \<longleftrightarrow> ring_ok (rx_posted r) \<and> length (rx_posted r) \<le> 2 ^ 28 \<and> rx_entries r = of_nat (length (rx_posted r))
     \<and> rx_mask r = rx_entries r - 1 \<and> rx_stride r = 16 \<and> length (rx_rq r) = 16 * length (rx_posted r)
     \<and> (\<forall>i < length (rx_posted r). peek (rx_rq r) (16 * i) 8 = Some (be32 (rx_bufSize r) @ be32 lkey))
     \<and> (\<exists>k. cq_ok (rx_cq r) k \<and> length (rx_posted r) \<le> 2 ^ k) \<and> unat (rx_pi r - rx_ci r) \<le> length (rx_posted r)"

text \<open>The slot a position of the queue uses, the descriptors outstanding, oldest first, and the buffer
  addresses the device reads in their entries.\<close>

definition rx_slot :: "rx \<Rightarrow> nat \<Rightarrow> nat" where
  "rx_slot r j = rslot (rx_posted r) (rx_ci r + of_nat j)"

definition rx_queue :: "rx \<Rightarrow> desc list" where
  "rx_queue r = ring_list (rx_posted r) (rx_ci r) (rx_Outstanding r)"

definition rx_nic :: "rx \<Rightarrow> bytes option list" where
  "rx_nic r = map (\<lambda>j. peek (rx_rq r) (16 * rx_slot r j) 16) [0..<rx_Outstanding r]"

definition rx_entry_bytes :: "u32 \<Rightarrow> rx \<Rightarrow> desc \<Rightarrow> bytes" where
  "rx_entry_bytes lkey r d = be32 (rx_bufSize r) @ be32 lkey @ be64 (rx_regionVA r + d_addr d)"

definition rx_buffer :: "rx \<Rightarrow> desc \<Rightarrow> bool" where
  "rx_buffer r d \<longleftrightarrow> unat (d_addr d) < length (rx_region r)"

definition rx_inv :: "u32 \<Rightarrow> rx \<Rightarrow> bool" where
  "rx_inv lkey r \<longleftrightarrow> rx_geom lkey r \<and> (\<forall>d \<in> set (rx_queue r). rx_buffer r d)
     \<and> (\<forall>j < rx_Outstanding r. peek (rx_rq r) (16 * rx_slot r j + 8) 8
          = Some (be64 (rx_regionVA r + d_addr (rx_posted r ! rx_slot r j))))"

lemma rx_queue_nth: "j < rx_Outstanding r \<Longrightarrow> rx_queue r ! j = rx_posted r ! rx_slot r j"
  by (simp add: rx_queue_def rx_slot_def ring_list_nth)

lemma length_rx_queue [simp]: "length (rx_queue r) = rx_Outstanding r"
  by (simp add: rx_queue_def)

lemma rx_slot_less: "rx_geom lkey r \<Longrightarrow> rx_slot r j < length (rx_posted r)"
  by (simp add: rx_slot_def rx_geom_def rslot_less)

lemma rx_mask_slot:
  assumes "rx_geom lkey r"
  shows "unat (w AND rx_mask r) = rslot (rx_posted r) w"
proof -
  have "0 < length (rx_posted r)" using assms ring_ok_pos by (auto simp: rx_geom_def)
  then have "of_nat (length (rx_posted r) - 1) = (of_nat (length (rx_posted r)) - 1 :: u32)" by (simp add: of_nat_diff Suc_le_eq)
  then have "rx_mask r = of_nat (length (rx_posted r) - 1)" using assms by (simp add: rx_geom_def)
  then show ?thesis by (simp add: rslot_def)
qed

lemma rx_pi_slot: "rx_geom lkey r \<Longrightarrow> unat (rx_pi r AND rx_mask r) = rx_slot r (rx_Outstanding r)"
  by (simp add: rx_mask_slot rx_slot_def rx_Outstanding_def)

lemma unat_rx_entries: "rx_geom lkey r \<Longrightarrow> unat (rx_entries r) = length (rx_posted r)"
  by (simp add: rx_geom_def unsigned_of_nat take_bit_nat_eq_self)

lemma rx_FreeSlots_eq:
  assumes "rx_geom lkey r"
  shows "rx_FreeSlots r = length (rx_posted r) - rx_Outstanding r"
proof -
  have "rx_pi r - rx_ci r \<le> rx_entries r"
    using assms unat_rx_entries [OF assms] by (simp add: word_le_nat_alt rx_geom_def)
  then show ?thesis using unat_rx_entries [OF assms] by (simp add: rx_FreeSlots_def rx_Outstanding_def unat_sub)
qed

lemma peek_split: "peek b i m = Some x \<Longrightarrow> peek b (i + m) n = Some y \<Longrightarrow> peek b i (m + n) = Some (x @ y)"
  by (auto simp: peek_def take_add add.commute [of m i] split: if_splits)

lemma rx_nic_queue:
  assumes "rx_inv lkey r"
  shows "rx_nic r = map (\<lambda>d. Some (rx_entry_bytes lkey r d)) (rx_queue r)"
proof (rule nth_equalityI)
  show "length (rx_nic r) = length (map (\<lambda>d. Some (rx_entry_bytes lkey r d)) (rx_queue r))" by (simp add: rx_nic_def)
  fix j assume "j < length (rx_nic r)"
  then have j: "j < rx_Outstanding r" by (simp add: rx_nic_def)
  let ?i = "rx_slot r j"
  have "?i < length (rx_posted r)" using assms rx_slot_less by (auto simp: rx_inv_def)
  then have "peek (rx_rq r) (16 * ?i) 8 = Some (be32 (rx_bufSize r) @ be32 lkey)"
    using assms by (auto simp: rx_inv_def rx_geom_def)
  moreover have "peek (rx_rq r) (16 * ?i + 8) 8 = Some (be64 (rx_regionVA r + d_addr (rx_posted r ! ?i)))"
    using assms j by (simp add: rx_inv_def)
  ultimately have "peek (rx_rq r) (16 * ?i) 16 = Some (rx_entry_bytes lkey r (rx_posted r ! ?i))"
    using peek_split [of _ _ 8 _ 8] by (fastforce simp: rx_entry_bytes_def)
  then show "rx_nic r ! j = map (\<lambda>d. Some (rx_entry_bytes lkey r d)) (rx_queue r) ! j"
    using j by (simp add: rx_nic_def rx_queue_nth)
qed

text \<open>The counters and the doorbells are no part of the invariant.\<close>

lemma rx_Sync_eq: "\<exists>c s. rx_Sync r = r\<lparr>rx_c := c, rx_Stats := s\<rparr>"
  by (auto simp: rx_Sync_def Let_def)

lemma rx_tick_eq: "\<exists>c s. rx_tick r = r\<lparr>rx_c := c, rx_Stats := s\<rparr>"
proof (cases "rc_sincePublish (rx_c r) + 1 \<ge> rx_publishEvery")
  case True
  then show ?thesis
    using rx_Sync_eq [of "r\<lparr>rx_c := (rx_c r)\<lparr>rc_sincePublish := rc_sincePublish (rx_c r) + 1\<rparr>\<rparr>"] by (auto simp: rx_tick_def Let_def)
next
  case False
  then have "rx_tick r = r\<lparr>rx_c := (rx_c r)\<lparr>rc_sincePublish := rc_sincePublish (rx_c r) + 1\<rparr>, rx_Stats := rx_Stats r\<rparr>"
    by (simp add: rx_tick_def Let_def)
  then show ?thesis by blast
qed

lemmas rx_state_defs = rx_inv_def rx_geom_def rx_queue_def rx_slot_def rx_buffer_def rx_Outstanding_def

lemma rx_inv_same:
  "rx_inv lkey (r\<lparr>rx_c := c\<rparr>) = rx_inv lkey r" "rx_inv lkey (r\<lparr>rx_Stats := s\<rparr>) = rx_inv lkey r"
  "rx_inv lkey (r\<lparr>rx_rqDbrec := db\<rparr>) = rx_inv lkey r" "rx_inv lkey (r\<lparr>rx_cqDbrec := db\<rparr>) = rx_inv lkey r"
  "rx_inv lkey (r\<lparr>rx_failed := f\<rparr>) = rx_inv lkey r" "rx_inv lkey (r\<lparr>rx_dead := e\<rparr>) = rx_inv lkey r"
  "rx_inv lkey (r\<lparr>rx_cqci := ci\<rparr>) = rx_inv lkey r"
  by (simp_all add: rx_state_defs)

lemma rx_queue_same:
  "rx_queue (r\<lparr>rx_c := c\<rparr>) = rx_queue r" "rx_queue (r\<lparr>rx_Stats := s\<rparr>) = rx_queue r"
  "rx_queue (r\<lparr>rx_rqDbrec := db\<rparr>) = rx_queue r" "rx_queue (r\<lparr>rx_cqDbrec := db\<rparr>) = rx_queue r"
  "rx_queue (r\<lparr>rx_failed := f\<rparr>) = rx_queue r" "rx_queue (r\<lparr>rx_dead := e\<rparr>) = rx_queue r"
  "rx_queue (r\<lparr>rx_cqci := ci\<rparr>) = rx_queue r"
  by (simp_all add: rx_state_defs)

lemmas rx_same = rx_inv_same rx_queue_same

section \<open>Fill\<close>

text \<open>Everything \<open>fill_one\<close> and \<open>fill_all\<close> leave alone.\<close>

definition rx_filled :: "rx \<Rightarrow> rx \<Rightarrow> bool" where
  "rx_filled r r' \<longleftrightarrow> r' = r\<lparr>rx_rq := rx_rq r', rx_posted := rx_posted r', rx_pi := rx_pi r'\<rparr>"

lemma fill_one_step:
  assumes inv: "rx_inv lkey r" and room: "rx_Outstanding r < length (rx_posted r)" and buf: "rx_buffer r d"
  shows "\<exists>r'. fill_one d r = Some r' \<and> rx_filled r r' \<and> rx_inv lkey r' \<and> rx_queue r' = rx_queue r @ [d]
     \<and> length (rx_posted r') = length (rx_posted r)"
proof -
  let ?n = "rx_Outstanding r" and ?p = "rx_posted r"
  define i where "i = rx_slot r ?n"
  have g: "rx_geom lkey r" using inv by (simp add: rx_inv_def)
  have ok: "ring_ok ?p" and L: "length (rx_rq r) = 16 * length ?p" "length ?p \<le> 2 ^ 28" "rx_stride r = 16"
    using g by (simp_all add: rx_geom_def)
  have i: "i < length ?p" unfolding i_def by (rule rx_slot_less [OF g])
  have slot: "unat (rx_pi r AND rx_mask r) = i" unfolding i_def by (rule rx_pi_slot [OF g])
  have m: "unat ((rx_pi r AND rx_mask r) * 16) = 16 * i"
    using i L(2) slot by (simp add: unat_word_ariths)
  have off: "unat ((rx_pi r AND rx_mask r) * rx_stride r + 8) = 16 * i + 8"
    unfolding L(3) using i L(2) m by (subst unat_plus_exact) simp_all
  obtain rq where rq: "poke (rx_rq r) (16 * i + 8) (be64 (rx_regionVA r + d_addr d)) = Some rq"
    using poke_defined [of "16 * i + 8" "be64 (rx_regionVA r + d_addr d)" "rx_rq r"] i L(1) by auto
  define r' where "r' = r\<lparr>rx_rq := rq, rx_posted := ?p[i := d], rx_pi := rx_pi r + 1\<rparr>"
  have f: "fill_one d r = Some r'"
    using i by (simp add: fill_one_def Let_def off slot rq r'_def)
  have out: "rx_Outstanding r' = Suc ?n"
  proof -
    have "rx_pi r' - rx_ci r' = (rx_pi r - rx_ci r) + 1" by (simp add: r'_def)
    moreover have "unat (rx_pi r - rx_ci r) < 2 ^ 28" using room L(2) by (simp add: rx_Outstanding_def)
    ultimately show ?thesis by (simp add: rx_Outstanding_def unat_plus_exact)
  qed
  have sl: "rx_slot r' j = rx_slot r j" for j by (simp add: rx_slot_def r'_def)
  have i': "i = rslot ?p (rx_ci r + of_nat ?n)" by (simp add: i_def rx_slot_def)
  have q: "rx_queue r' = rx_queue r @ [d]"
    unfolding rx_queue_def out using ring_list_push [OF ok room, of "rx_ci r" d] by (simp add: r'_def i')
  have hd: "peek rq (16 * j) 8 = peek (rx_rq r) (16 * j) 8" for j
    by (rule peek_poke_other [OF rq]) auto
  have same: "peek rq (16 * i + 8) 8 = Some (be64 (rx_regionVA r + d_addr d))"
    using peek_poke_same [OF rq] by simp
  have ad: "peek rq (16 * rx_slot r j + 8) 8 = Some (be64 (rx_regionVA r + d_addr (?p[i := d] ! rx_slot r j)))"
    if "j < Suc ?n" for j
  proof (cases "j = ?n")
    case True
    then show ?thesis using same i by (simp add: i_def)
  next
    case False
    then have j: "j < ?n" using that by simp
    then have ne: "rx_slot r j \<noteq> i"
      using rslot_inj [OF ok, of "rx_ci r" j ?n] room by (auto simp: rx_slot_def i_def)
    then have "16 * rx_slot r j + 8 + 8 \<le> 16 * i + 8 \<or> 16 * i + 8 + 8 \<le> 16 * rx_slot r j + 8" by arith
    then have "peek rq (16 * rx_slot r j + 8) 8 = peek (rx_rq r) (16 * rx_slot r j + 8) 8"
      using peek_poke_other [OF rq, of "16 * rx_slot r j + 8" 8] by simp
    then show ?thesis using inv j ne by (simp add: rx_inv_def)
  qed
  have "unat (rx_pi r' - rx_ci r') \<le> length ?p" using out room by (simp add: rx_Outstanding_def)
  moreover have "length rq = 16 * length ?p" using poke_length [OF rq] L(1) by simp
  ultimately have g': "rx_geom lkey r'" using g hd by (simp add: rx_geom_def r'_def)
  have "\<forall>x \<in> set (rx_queue r'). rx_buffer r' x" using inv buf q by (auto simp: rx_inv_def rx_buffer_def r'_def)
  then have "rx_inv lkey r'"
    using g' ad unfolding rx_inv_def out sl by (simp add: r'_def)
  moreover have "rx_filled r r'" by (simp add: rx_filled_def r'_def)
  ultimately show ?thesis using f q by (auto simp: r'_def)
qed

lemma rx_filled_keeps:
  assumes "rx_filled r r'"
  shows "rx_region r' = rx_region r" "rx_ci r' = rx_ci r" "rx_cq r' = rx_cq r" "rx_failed r' = rx_failed r"
    "rx_regionVA r' = rx_regionVA r" "rx_bufSize r' = rx_bufSize r" "rx_cqci r' = rx_cqci r" "rx_dead r' = rx_dead r"
    "rx_entries r' = rx_entries r"
proof -
  have eq: "r' = r\<lparr>rx_rq := rx_rq r', rx_posted := rx_posted r', rx_pi := rx_pi r'\<rparr>" using assms by (simp only: rx_filled_def)
  show "rx_region r' = rx_region r" "rx_ci r' = rx_ci r" "rx_cq r' = rx_cq r" "rx_failed r' = rx_failed r"
    "rx_regionVA r' = rx_regionVA r" "rx_bufSize r' = rx_bufSize r" "rx_cqci r' = rx_cqci r" "rx_dead r' = rx_dead r"
    "rx_entries r' = rx_entries r"
    by (subst eq, simp)+
qed

lemma rx_filled_iff: "rx_filled r r' \<longleftrightarrow> (\<exists>a b c. r' = r\<lparr>rx_rq := a, rx_posted := b, rx_pi := c\<rparr>)"
  unfolding rx_filled_def by (rule iffI, blast, elim exE) simp

lemma rx_filled_trans: "rx_filled r r1 \<Longrightarrow> rx_filled r1 r2 \<Longrightarrow> rx_filled r r2"
  unfolding rx_filled_iff by (elim exE, intro exI [of _ "rx_rq r2"] exI [of _ "rx_posted r2"] exI [of _ "rx_pi r2"], simp)

lemma fill_all_step:
  assumes "rx_inv lkey r" "rx_Outstanding r + length ds \<le> length (rx_posted r)" "\<forall>d \<in> set ds. rx_buffer r d"
  shows "\<exists>r'. fill_all ds r = Some r' \<and> rx_filled r r' \<and> rx_inv lkey r' \<and> rx_queue r' = rx_queue r @ ds"
  using assms
proof (induction ds arbitrary: r)
  case Nil
  then show ?case by (simp add: rx_filled_def)
next
  case (Cons d ds)
  then obtain r1 where r1: "fill_one d r = Some r1" "rx_filled r r1" "rx_inv lkey r1" "rx_queue r1 = rx_queue r @ [d]"
    "length (rx_posted r1) = length (rx_posted r)"
    using fill_one_step [OF Cons.prems(1), of d] by auto
  have "rx_Outstanding r1 = Suc (rx_Outstanding r)" using r1(4) length_rx_queue [of r1] by simp
  moreover have "\<forall>x \<in> set ds. rx_buffer r1 x" using Cons.prems(3) rx_filled_keeps(1) [OF r1(2)] by (simp add: rx_buffer_def)
  ultimately obtain r' where "fill_all ds r1 = Some r'" "rx_filled r1 r'" "rx_inv lkey r'" "rx_queue r' = rx_queue r1 @ ds"
    using Cons.IH [OF r1(3)] Cons.prems(2) r1(5) by auto
  then show ?case using r1 rx_filled_trans by (intro exI [of _ r']) auto
qed

lemma rx_Fill_step:
  assumes inv: "rx_inv lkey r" and buf: "\<forall>d \<in> set descs. rx_buffer r d"
  shows "\<exists>r'. rx_Fill descs r = Some (min (length descs) (rx_FreeSlots r), r') \<and> rx_inv lkey r'
     \<and> rx_queue r' = rx_queue r @ take (rx_FreeSlots r) descs \<and> rx_region r' = rx_region r \<and> rx_bufSize r' = rx_bufSize r
     \<and> rx_entries r' = rx_entries r \<and> (min (length descs) (rx_FreeSlots r) \<noteq> 0 \<longrightarrow> rx_rqDbrec r' = be32 (rx_pi r' AND 0xffff))"
proof -
  define n where "n = min (length descs) (rx_FreeSlots r)"
  have t: "take (rx_FreeSlots r) descs = take n descs" by (simp add: n_def min_def)
  have nn: "(if length descs > rx_FreeSlots r then rx_FreeSlots r else length descs) = n" by (simp add: n_def)
  show ?thesis
  proof (cases "n = 0")
    case True
    then show ?thesis unfolding t n_def [symmetric] by (simp add: rx_Fill_def Let_def nn inv)
  next
    case False
    have g: "rx_geom lkey r" using inv by (simp add: rx_inv_def)
    have "rx_Outstanding r \<le> length (rx_posted r)" using g by (simp add: rx_geom_def rx_Outstanding_def)
    then have "rx_Outstanding r + length (take n descs) \<le> length (rx_posted r)" using rx_FreeSlots_eq [OF g] n_def by simp
    then obtain r1 where r1: "fill_all (take n descs) r = Some r1" "rx_filled r r1" "rx_inv lkey r1"
      "rx_queue r1 = rx_queue r @ take n descs"
      using fill_all_step [OF inv] buf by (meson in_set_takeD)
    define r3 where "r3 = r1\<lparr>rx_rqDbrec := be32 (rx_pi r1 AND 0xffff),
      rx_c := (rx_c r1)\<lparr>rc_filled := rc_filled (rx_c r1) + of_nat n\<rparr>\<rparr>"
    have e: "rx_Fill descs r = Some (n, rx_tick r3)" using False r1(1) by (simp add: rx_Fill_def Let_def nn r3_def)
    obtain c s where "rx_tick r3 = r3\<lparr>rx_c := c, rx_Stats := s\<rparr>" using rx_tick_eq by blast
    then show ?thesis
      unfolding t n_def [symmetric] using e r1(3,4) rx_filled_keeps [OF r1(2)]
      by (intro exI [of _ "rx_tick r3"]) (simp add: r3_def rx_same)
  qed
qed

section \<open>Receive\<close>

text \<open>Everything the loop of \<open>receive\<close> leaves alone.\<close>

definition rx_scanned :: "rx \<Rightarrow> rx \<Rightarrow> bool" where
  "rx_scanned r r' \<longleftrightarrow> (\<exists>cqci ci f e c. r' = r\<lparr>rx_cqci := cqci, rx_ci := ci, rx_failed := f, rx_dead := e, rx_c := c\<rparr>)"

lemma rx_scanned_trans: "rx_scanned r r1 \<Longrightarrow> rx_scanned r1 r2 \<Longrightarrow> rx_scanned r r2"
  unfolding rx_scanned_def by (elim exE, intro exI [of _ "rx_cqci r2"] exI [of _ "rx_ci r2"] exI [of _ "rx_failed r2"] exI [of _ "rx_dead r2"]
      exI [of _ "rx_c r2"], simp)

lemma rx_scanned_keeps:
  assumes "rx_scanned r r'"
  shows "rx_region r' = rx_region r" "rx_cq r' = rx_cq r" "rx_bufSize r' = rx_bufSize r" "rx_pi r' = rx_pi r"
    "rx_posted r' = rx_posted r" "rx_mask r' = rx_mask r"
  using assms unfolding rx_scanned_def by auto

text \<open>What a stretch of the loop gives back: the oldest buffers, each as a packet or put aside.\<close>

definition rx_gave :: "rx \<Rightarrow> rx_acc \<Rightarrow> rx \<Rightarrow> rx_acc \<Rightarrow> bool" where
  "rx_gave r a r' a' \<longleftrightarrow> (\<exists>k os fs. k \<le> length (rx_queue r) \<and> rx_queue r' = drop k (rx_queue r)
     \<and> rx_failed r' = rx_failed r @ fs \<and> ra_out a' = ra_out a @ os
     \<and> map d_addr (take k (rx_queue r)) \<in> shuffles (map d_addr os) (map d_addr fs)
     \<and> (\<forall>d \<in> set os. d_len d \<le> rx_bufSize r) \<and> ra_got a' = ra_got a + length os
     \<and> ra_bytes a' = ra_bytes a + sum_list (map (ucast \<circ> d_len) os)
     \<and> map_option length (ra_ts a') = map_option (\<lambda>l. length l + length os) (ra_ts a))"

lemma shuffles_append:
  "xs \<in> shuffles as bs \<Longrightarrow> ys \<in> shuffles cs ds \<Longrightarrow> xs @ ys \<in> shuffles (as @ cs) (bs @ ds)"
proof (induction xs arbitrary: as bs)
  case (Cons x xs)
  from Cons.prems(1) consider as' where "as = x # as'" "xs \<in> shuffles as' bs" | bs' where "bs = x # bs'" "xs \<in> shuffles as bs'"
    by (cases as; cases bs) auto
  then show ?case using Cons.IH [OF _ Cons.prems(2)] by cases (auto intro: Cons_in_shuffles_leftI Cons_in_shuffles_rightI)
qed auto

lemma rx_gave_refl: "rx_queue r' = rx_queue r \<Longrightarrow> rx_failed r' = rx_failed r \<Longrightarrow> rx_gave r a r' (a\<lparr>ra_read := n\<rparr>)"
  unfolding rx_gave_def by (intro exI [of _ 0] exI [of _ "[]"]) (simp add: option.map_ident)

lemma rx_gave_trans:
  assumes "rx_gave r a r1 a1" "rx_gave r1 a1 r2 a2" "rx_bufSize r1 = rx_bufSize r"
  shows "rx_gave r a r2 a2"
proof -
  from assms(1) obtain k os fs where
    1: "k \<le> length (rx_queue r)" "rx_queue r1 = drop k (rx_queue r)" "rx_failed r1 = rx_failed r @ fs" "ra_out a1 = ra_out a @ os"
      "map d_addr (take k (rx_queue r)) \<in> shuffles (map d_addr os) (map d_addr fs)"
      "\<forall>d \<in> set os. d_len d \<le> rx_bufSize r" "ra_got a1 = ra_got a + length os"
      "ra_bytes a1 = ra_bytes a + sum_list (map (ucast \<circ> d_len) os)"
      "map_option length (ra_ts a1) = map_option (\<lambda>l. length l + length os) (ra_ts a)"
    unfolding rx_gave_def by blast
  from assms(2) obtain k' os' fs' where
    2: "k' \<le> length (rx_queue r1)" "rx_queue r2 = drop k' (rx_queue r1)" "rx_failed r2 = rx_failed r1 @ fs'" "ra_out a2 = ra_out a1 @ os'"
      "map d_addr (take k' (rx_queue r1)) \<in> shuffles (map d_addr os') (map d_addr fs')"
      "\<forall>d \<in> set os'. d_len d \<le> rx_bufSize r1" "ra_got a2 = ra_got a1 + length os'"
      "ra_bytes a2 = ra_bytes a1 + sum_list (map (ucast \<circ> d_len) os')"
      "map_option length (ra_ts a2) = map_option (\<lambda>l. length l + length os') (ra_ts a1)"
    unfolding rx_gave_def by blast
  have q: "take (k + k') (rx_queue r) = take k (rx_queue r) @ take k' (rx_queue r1)" using 1(2) by (simp add: take_add)
  have s: "map d_addr (take (k + k') (rx_queue r)) \<in> shuffles (map d_addr (os @ os')) (map d_addr (fs @ fs'))"
    unfolding q map_append by (rule shuffles_append [OF 1(5) 2(5)])
  have t: "map_option length (ra_ts a2) = map_option (\<lambda>l. length l + length (os @ os')) (ra_ts a)"
    using 1(9) 2(9) by (cases "ra_ts a"; cases "ra_ts a1"; cases "ra_ts a2") auto
  have "k + k' \<le> length (rx_queue r)" "rx_queue r2 = drop (k + k') (rx_queue r)" using 1(1,2) 2(1,2) by (simp_all add: add.commute)
  then show ?thesis unfolding rx_gave_def
    using 1 2 s t assms(3) by (intro exI [of _ "k + k'"] exI [of _ "os @ os'"] exI [of _ "fs @ fs'"]) auto
qed

lemma rx_consume:
  assumes "rx_inv lkey r" "rx_pi r \<noteq> rx_ci r"
  defines "r' \<equiv> r\<lparr>rx_ci := rx_ci r + 1\<rparr>"
  shows "rx_inv lkey r'" "rx_queue r' = drop 1 (rx_queue r)" "rx_queue r \<noteq> []" "hd (rx_queue r) = rx_posted r ! rx_slot r 0"
proof -
  have nz: "rx_pi r - rx_ci r \<noteq> 0" using assms(2) by simp
  have out: "rx_Outstanding r' = rx_Outstanding r - 1" "0 < rx_Outstanding r"
    using unat_minus_one [OF nz] nz by (simp_all add: rx_Outstanding_def r'_def diff_diff_eq unat_gt_0)
  have sl: "rx_slot r' j = rx_slot r (Suc j)" for j by (simp add: rx_slot_def r'_def add.assoc)
  show q: "rx_queue r' = drop 1 (rx_queue r)"
    unfolding rx_queue_def out(1) using ring_list_drop [of 1 "rx_Outstanding r" "rx_posted r" "rx_ci r"] out(2) by (simp add: r'_def)
  show ne: "rx_queue r \<noteq> []" using out(2) length_rx_queue [of r] by (metis list.size(3) less_irrefl)
  show "hd (rx_queue r) = rx_posted r ! rx_slot r 0" using ne rx_queue_nth [OF out(2)] by (simp add: hd_conv_nth)
  have g: "rx_geom lkey r'" using assms(1) out(1) by (auto simp: rx_inv_def rx_geom_def r'_def rx_Outstanding_def)
  have "\<forall>d \<in> set (rx_queue r'). rx_buffer r' d" using assms(1) q by (auto simp: rx_inv_def rx_buffer_def r'_def dest: in_set_dropD)
  then show "rx_inv lkey r'" using assms(1) g out sl unfolding rx_inv_def by (auto simp: r'_def)
qed

lemma cqe_fields:
  assumes "cq_ok c k"
  shows "\<exists>e len f ts. cq_Entry c ci = Some e \<and> ByteCount e = Some len \<and> ChecksumFlags e = Some f \<and> Timestamp e = Some ts"
proof -
  have "length (take 64 (drop (unat ci mod 2 ^ k * 64) (cq_buf c))) = 64" using slot_bound(1) [OF assms, of ci] by simp
  then show ?thesis using cq_Entry_some [OF assms, of ci]
    by (simp add: ByteCount_def ChecksumFlags_def Timestamp_def get_byte_def peek_def cqeByteCount_def cqeHDSIPExt_def cqeTimestamp_def)
qed

lemma rx_take_step:
  assumes inv: "rx_inv lkey r" and ne: "rx_pi r \<noteq> rx_ci r"
  shows "\<exists>r' a'. rx_take h r a = Some (r', a') \<and> rx_inv lkey r' \<and> rx_scanned r r' \<and> rx_gave r a r' a'
     \<and> rx_cqci r' = rx_cqci r \<and> rx_dead r' = rx_dead r \<and> ra_read a' = ra_read a \<and> ra_got a' \<le> Suc (ra_got a)"
proof -
  define r1 where "r1 = r\<lparr>rx_ci := rx_ci r + 1\<rparr>"
  define d where "d = rx_posted r ! rx_slot r 0"
  note c = rx_consume [OF inv ne, folded r1_def d_def]
  have g: "rx_geom lkey r" using inv by (simp add: rx_inv_def)
  obtain k where k: "cq_ok (rx_cq r) k" using g by (auto simp: rx_geom_def)
  have slot: "unat (rx_ci r AND rx_mask r) = rx_slot r 0" using rx_mask_slot [OF g] by (simp add: rx_slot_def)
  have sl: "rx_slot r 0 < length (rx_posted r)" by (rule rx_slot_less [OF g])
  obtain q where q: "rx_queue r = d # q" using c(3,4) by (cases "rx_queue r") auto
  then have "rx_buffer r d" using inv by (simp add: rx_inv_def)
  then have ad: "unat (d_addr d) < length (rx_region r)" by (simp add: rx_buffer_def)
  obtain e len f t where e: "cq_Entry (rx_cq r) (rx_cqci r - 1) = Some e" "ByteCount e = Some len" "ChecksumFlags e = Some f"
    "Timestamp e = Some t" using cqe_fields [OF k] by blast
  have aside: "rx_gave r a (r1\<lparr>rx_c := x, rx_failed := rx_failed r @ [d]\<rparr>) a" for x
    unfolding rx_gave_def using c(2) q
    by (intro exI [of _ 1] exI [of _ "[]"] exI [of _ "[d]"]) (simp add: rx_queue_same option.map_ident)
  have sc: "rx_scanned r (r1\<lparr>rx_c := x, rx_failed := y\<rparr>)" for x y
    unfolding rx_scanned_def r1_def
    by (intro exI [of _ "rx_cqci r"] exI [of _ "rx_ci r + 1"] exI [of _ y] exI [of _ "rx_dead r"] exI [of _ x]) simp
  consider "Opcode h = CQERespErr" | "Opcode h \<noteq> CQERespErr" "len > rx_bufSize r" | "Opcode h \<noteq> CQERespErr" "\<not> len > rx_bufSize r" by blast
  then show ?thesis
  proof cases
    case 1
    then have "rx_take h r a = Some (r1\<lparr>rx_c := rx_c (rx_error_count r1), rx_failed := rx_failed r @ [d]\<rparr>, a)"
      using sl ad by (simp add: rx_take_def Let_def slot d_def [symmetric] r1_def rx_error_count_def)
    then show ?thesis using aside sc c(1) by (simp add: rx_inv_same r1_def)
  next
    case 2
    then have "\<exists>x. rx_take h r a = Some (r1\<lparr>rx_c := x, rx_failed := rx_failed r @ [d]\<rparr>, a)"
      using sl ad e
      by (intro exI [of _ "(rx_c r)\<lparr>rc_errors := rc_errors (rx_c r) + 1, rc_oversize := rc_oversize (rx_c r) + 1\<rparr>"])
        (simp add: rx_take_def Let_def slot d_def [symmetric] r1_def rx_error_count_def)
    then show ?thesis using aside sc c(1) by (auto simp: rx_inv_same r1_def)
  next
    case 3
    define a' where "a' = a\<lparr>ra_out := ra_out a @ [d\<lparr>d_len := len, d_options := rx_options f\<rparr>],
      ra_ts := map_option (\<lambda>l. l @ [t]) (ra_ts a), ra_got := Suc (ra_got a), ra_bytes := ra_bytes a + ucast len\<rparr>"
    have "rx_take h r a = Some (r1, a')"
      using 3 sl ad e by (cases "ra_ts a") (simp_all add: rx_take_def Let_def slot d_def [symmetric] r1_def a'_def)
    moreover have "rx_gave r a r1 a'"
      unfolding rx_gave_def using c(2) q 3(2)
      by (intro exI [of _ 1] exI [of _ "[d\<lparr>d_len := len, d_options := rx_options f\<rparr>]"] exI [of _ "[]"])
        (simp add: r1_def a'_def option.map_comp comp_def not_less)
    moreover have "rx_scanned r r1" using sc [of "rx_failed r" "rx_c r"] by (simp add: r1_def)
    ultimately show ?thesis using c(1) by (simp add: r1_def a'_def)
  qed
qed

text \<open>Counting an error, stepping over a completion and going out of service give nothing back.\<close>

lemma rx_pass:
  assumes "rx_inv lkey r" "r' = r\<lparr>rx_cqci := ci, rx_c := c, rx_dead := e\<rparr>"
  shows "rx_inv lkey r'" "rx_scanned r r'" "rx_gave r a r' (a\<lparr>ra_read := n\<rparr>)"
proof -
  show "rx_inv lkey r'" using assms by (simp add: rx_same)
  show "rx_scanned r r'" unfolding rx_scanned_def assms(2)
    by (intro exI [of _ ci] exI [of _ "rx_ci r"] exI [of _ "rx_failed r"] exI [of _ e] exI [of _ c]) simp
  show "rx_gave r a r' (a\<lparr>ra_read := n\<rparr>)" by (rule rx_gave_refl) (simp_all add: assms(2) rx_same)
qed

text \<open>All that a stretch of the loop which reads \<open>n\<close> completions does.\<close>

definition rx_ran :: "u32 \<Rightarrow> nat \<Rightarrow> rx \<Rightarrow> rx_acc \<Rightarrow> rx \<Rightarrow> rx_acc \<Rightarrow> bool" where
  "rx_ran lkey n r a r' a' \<longleftrightarrow> rx_inv lkey r' \<and> rx_scanned r r' \<and> rx_gave r a r' a' \<and> rx_cqci r' = rx_cqci r + of_nat n
     \<and> ra_read a' = ra_read a + of_nat n"

lemma rx_ran_pass:
  assumes "rx_inv lkey r"
  shows "rx_ran lkey 0 r a r a" "rx_ran lkey 0 r a (rx_fail e (rx_error_count r)) a"
    "rx_ran lkey 1 r a (rx_error_count (r\<lparr>rx_cqci := rx_cqci r + 1\<rparr>)) (a\<lparr>ra_read := ra_read a + 1\<rparr>)"
    "rx_ran lkey 1 r a (r\<lparr>rx_cqci := rx_cqci r + 1\<rparr>) (a\<lparr>ra_read := ra_read a + 1\<rparr>)"
    "rx_ran lkey 1 r a (rx_fail e (rx_error_count (r\<lparr>rx_cqci := rx_cqci r + 1\<rparr>))) (a\<lparr>ra_read := ra_read a + 1\<rparr>)"
proof -
  have *: "rx_ran lkey n r a r' (a\<lparr>ra_read := ra_read a + of_nat n\<rparr>)"
    if "r' = r\<lparr>rx_cqci := rx_cqci r + of_nat n, rx_c := rx_c r', rx_dead := rx_dead r'\<rparr>" for n r'
    using rx_pass [OF assms that] arg_cong [OF that, of rx_cqci] by (simp add: rx_ran_def)
  show "rx_ran lkey 0 r a r a" using * [of r 0] by simp
  show "rx_ran lkey 0 r a (rx_fail e (rx_error_count r)) a"
    using * [of "rx_fail e (rx_error_count r)" 0] by (simp add: rx_fail_def rx_error_count_def)
  show "rx_ran lkey 1 r a (rx_error_count (r\<lparr>rx_cqci := rx_cqci r + 1\<rparr>)) (a\<lparr>ra_read := ra_read a + 1\<rparr>)"
    using * [of "rx_error_count (r\<lparr>rx_cqci := rx_cqci r + 1\<rparr>)" 1] by (simp add: rx_error_count_def)
  show "rx_ran lkey 1 r a (r\<lparr>rx_cqci := rx_cqci r + 1\<rparr>) (a\<lparr>ra_read := ra_read a + 1\<rparr>)"
    using * [of "r\<lparr>rx_cqci := rx_cqci r + 1\<rparr>" 1] by simp
  show "rx_ran lkey 1 r a (rx_fail e (rx_error_count (r\<lparr>rx_cqci := rx_cqci r + 1\<rparr>))) (a\<lparr>ra_read := ra_read a + 1\<rparr>)"
    using * [of "rx_fail e (rx_error_count (r\<lparr>rx_cqci := rx_cqci r + 1\<rparr>))" 1] by (simp add: rx_fail_def rx_error_count_def)
qed

lemma rx_ran_trans:
  assumes "rx_ran lkey m r a r1 a1" "rx_ran lkey n r1 a1 r2 a2"
  shows "rx_ran lkey (m + n) r a r2 a2"
proof -
  have 1: "rx_scanned r r1" "rx_gave r a r1 a1" "rx_cqci r1 = rx_cqci r + of_nat m" "ra_read a1 = ra_read a + of_nat m"
    using assms(1) by (auto simp: rx_ran_def)
  have 2: "rx_inv lkey r2" "rx_scanned r1 r2" "rx_gave r1 a1 r2 a2" "rx_cqci r2 = rx_cqci r1 + of_nat n"
    "ra_read a2 = ra_read a1 + of_nat n"
    using assms(2) by (auto simp: rx_ran_def)
  have "rx_scanned r r2" by (rule rx_scanned_trans [OF 1(1) 2(2)])
  moreover have "rx_gave r a r2 a2" using rx_gave_trans [OF 1(2) 2(3)] rx_scanned_keeps(3) [OF 1(1)] by simp
  ultimately show ?thesis using 1(3,4) 2 by (simp add: rx_ran_def add.assoc)
qed

lemma receive_loop_step:
  assumes "rx_inv lkey r" "cq_ok (rx_cq r) k" "rx_cqci r = ci0 + of_nat t" "t + m = 2 ^ k"
    and "\<forall>j < t. \<exists>h. cq_header (rx_cq r) (ci0 + of_nat j) = Some h \<and> Owned (rx_cq r) (ci0 + of_nat j) h"
    and "int (ra_got a) \<le> mx"
  shows "\<exists>r' a' n. receive_loop (Suc m) mx r a = Some (r', a') \<and> n \<le> m \<and> rx_ran lkey n r a r' a' \<and> int (ra_got a') \<le> mx"
  using assms
proof (induction m arbitrary: r a t)
  case 0
  have e: "cq_entries (rx_cq r) = of_nat t" using 0(2,4) by (simp add: cq_ok_def)
  have "0 < t" using 0(4) by simp
  then obtain h where h: "cq_header (rx_cq r) ci0 = Some h" "Owned (rx_cq r) ci0 h" using 0(5) by force
  then have "cq_header (rx_cq r) (rx_cqci r) = Some h" "\<not> Owned (rx_cq r) (rx_cqci r) h"
    using slot_lap(2) [OF 0(2), of ci0] Owned_lap [OF 0(2), of ci0 h] 0(3) e by simp_all
  then have "receive_loop (Suc 0) mx r a = Some (r, a)" by (subst receive_loop.simps) simp
  then show ?case using rx_ran_pass(1) [OF 0(1)] 0(6) by blast
next
  case (Suc m)
  define r1 where "r1 = r\<lparr>rx_cqci := rx_cqci r + 1\<rparr>"
  define a1 where "a1 = a\<lparr>ra_read := ra_read a + 1\<rparr>"
  note run = receive_loop.simps [of "Suc (Suc m)" mx r a]
  obtain h where h: "cq_header (rx_cq r) (rx_cqci r) = Some h" using cq_header_some [OF Suc.prems(2)] by blast
  note pass = rx_ran_pass [OF Suc.prems(1), of a, folded r1_def a1_def]
  show ?case
  proof (cases "int (ra_got a) < mx \<and> Owned (rx_cq r) (rx_cqci r) h \<and> Format h = CQEFormatNoData")
    case False
    then have "receive_loop (Suc (Suc m)) mx r a = Some (r, a) \<or>
        receive_loop (Suc (Suc m)) mx r a = Some (rx_fail (UnknownFormat (Format h)) (rx_error_count r), a)"
      using h by (subst (1 2) run) auto
    then show ?thesis using pass(1,2) Suc.prems(6) by blast
  next
    case go: True
    then have own: "\<forall>j < Suc t. \<exists>h. cq_header (rx_cq r) (ci0 + of_nat j) = Some h \<and> Owned (rx_cq r) (ci0 + of_nat j) h"
      using Suc.prems(3,5) h by (auto simp: less_Suc_eq)
    have IH: "\<exists>r' a' n. receive_loop (Suc m) mx r2 a2 = Some (r', a') \<and> n \<le> m \<and> rx_ran lkey n r2 a2 r' a' \<and> int (ra_got a') \<le> mx"
      if "rx_ran lkey 1 r a r2 a2" "int (ra_got a2) \<le> mx" for r2 a2
    proof (rule Suc.IH [of r2 "Suc t" a2])
      have "rx_scanned r r2" "rx_cqci r2 = rx_cqci r + 1" "rx_inv lkey r2" using that(1) by (simp_all add: rx_ran_def)
      then show "rx_inv lkey r2" "cq_ok (rx_cq r2) k" "rx_cqci r2 = ci0 + of_nat (Suc t)" "Suc t + m = 2 ^ k"
        "\<forall>j < Suc t. \<exists>h. cq_header (rx_cq r2) (ci0 + of_nat j) = Some h \<and> Owned (rx_cq r2) (ci0 + of_nat j) h" "int (ra_got a2) \<le> mx"
        using rx_scanned_keeps(2) [of r r2] Suc.prems(2-4) own that(2) by simp_all
    qed
    have cont: ?thesis if cc: "receive_loop (Suc (Suc m)) mx r a = receive_loop (Suc m) mx r2 a2" "rx_ran lkey 1 r a r2 a2"
      "int (ra_got a2) \<le> mx" for r2 a2
    proof -
      obtain r' a' n where "receive_loop (Suc m) mx r2 a2 = Some (r', a')" "n \<le> m" "rx_ran lkey n r2 a2 r' a'" "int (ra_got a') \<le> mx"
        using IH [OF cc(2,3)] by blast
      then show ?thesis using rx_ran_trans [OF cc(2), of n r' a'] cc(1) by (intro exI [of _ r'] exI [of _ a'] exI [of _ "Suc n"]) simp
    qed
    have keep: "rx_pi r1 = rx_pi r" "rx_ci r1 = rx_ci r" "rx_mask r1 = rx_mask r" "ra_got a1 = ra_got a" by (simp_all add: r1_def a1_def)
    let ?skip = "(Opcode h \<noteq> CQERespSend \<and> Opcode h \<noteq> CQERespErr) \<or> rx_pi r = rx_ci r"
    consider ?skip | "\<not> ?skip" "ucast (WQECounter h) AND rx_mask r \<noteq> rx_ci r AND rx_mask r"
      | "\<not> ?skip" "ucast (WQECounter h) AND rx_mask r = rx_ci r AND rx_mask r" by blast
    then show ?thesis
    proof cases
      case 1
      then have "receive_loop (Suc (Suc m)) mx r a = receive_loop (Suc m) mx (rx_error_count r1) a1"
        using go h keep by (subst run) (auto simp: Let_def r1_def a1_def)
      then show ?thesis using cont pass(3) Suc.prems(6) keep by simp
    next
      case 2
      define e where "e = LostTrack (ucast (WQECounter h) AND rx_mask r) (rx_ci r AND rx_mask r)"
      have "receive_loop (Suc (Suc m)) mx r a = Some (rx_fail e (rx_error_count r1), a1)"
        using 2 go h keep by (subst run) (auto simp: Let_def r1_def a1_def e_def)
      then show ?thesis using pass(5) [of e] Suc.prems(6) keep by (intro exI [of _ "rx_fail e (rx_error_count r1)"] exI [of _ a1] exI [of _ 1]) simp
    next
      case 3
      have i1: "rx_inv lkey r1" using pass(4) by (simp add: rx_ran_def)
      obtain r2 a2 where t: "rx_take h r1 a1 = Some (r2, a2)" "rx_inv lkey r2" "rx_scanned r1 r2" "rx_gave r1 a1 r2 a2"
        "rx_cqci r2 = rx_cqci r1" "ra_read a2 = ra_read a1" "ra_got a2 \<le> Suc (ra_got a1)"
        using rx_take_step [OF i1, of h a1] 3(1) keep by auto
      then have "rx_ran lkey 0 r1 a1 r2 a2" by (simp add: rx_ran_def)
      then have "rx_ran lkey 1 r a r2 a2" using rx_ran_trans [OF pass(4)] by fastforce
      moreover have "receive_loop (Suc (Suc m)) mx r a = receive_loop (Suc m) mx r2 a2"
        using go h keep 3 t(1) by (subst run) (auto simp: Let_def r1_def a1_def)
      ultimately show ?thesis using cont t(7) keep go by force
    qed
  qed
qed

lemma unat_cq_entries:
  assumes "cq_ok c k"
  shows "unat (cq_entries c) = 2 ^ k"
proof -
  have "k \<le> 26" using assms by (simp add: cq_ok_def)
  then have "(2 :: nat) ^ k \<le> 2 ^ 26" by (simp only: power_increasing_iff)
  then have "(2 :: nat) ^ k < 2 ^ LENGTH(32)" by simp
  then have "unat (of_nat (2 ^ k) :: u32) = 2 ^ k" by (simp only: unsigned_of_nat take_bit_nat_eq_self of_nat_id)
  then show ?thesis using assms by (simp add: cq_ok_def)
qed

lemma rx_receive_go:
  "\<not> (mx \<le> 0 \<or> rx_dead r \<noteq> None) \<Longrightarrow> rx_receive mx out ts r =
     map_option (\<lambda>(r1, a). ((ra_out a, ra_ts a), rx_settle a r1)) (receive_loop (Suc (unat (cq_entries (rx_cq r)))) mx (r\<lparr>rx_failed := []\<rparr>)
       \<lparr>ra_out = out, ra_ts = ts, ra_got = 0, ra_bytes = 0, ra_read = 0\<rparr>)"
  by (simp add: rx_receive_def Let_def map_conv_bind_option split_def comp_def)

lemma rx_settle_keeps:
  "rx_inv lkey (rx_settle a r) = rx_inv lkey r" "rx_queue (rx_settle a r) = rx_queue r" "rx_failed (rx_settle a r) = rx_failed r"
  "rx_region (rx_settle a r) = rx_region r" "rx_bufSize (rx_settle a r) = rx_bufSize r" "rx_cqci (rx_settle a r) = rx_cqci r"
  "rx_dead (rx_settle a r) = rx_dead r"
proof -
  have "\<exists>c s db. rx_settle a r = r\<lparr>rx_c := c, rx_Stats := s, rx_cqDbrec := db\<rparr>"
  proof (cases "ra_read a = 0")
    case True
    obtain c s where cs: "rx_Sync r = r\<lparr>rx_c := c, rx_Stats := s\<rparr>" using rx_Sync_eq by blast
    have "rx_settle a r = r\<lparr>rx_c := if rx_pi r = rx_ci r then c else rx_c r, rx_Stats := if rx_pi r = rx_ci r then s else rx_Stats r,
        rx_cqDbrec := rx_cqDbrec r\<rparr>" by (simp add: rx_settle_def True cs)
    then show ?thesis by (intro exI)
  next
    case False
    then have "rx_settle a r = r\<lparr>rx_c := (rx_c r)\<lparr>rc_completions := rc_completions (rx_c r) + ra_read a, rc_batches := rc_batches (rx_c r) + 1,
      rc_packets := rc_packets (rx_c r) + of_nat (ra_got a), rc_bytes := rc_bytes (rx_c r) + ra_bytes a\<rparr>,
      rx_Stats := rx_Stats r, rx_cqDbrec := be32 (rx_cqci r AND 0xffffff)\<rparr>" by (simp add: rx_settle_def Let_def)
    then show ?thesis by (intro exI)
  qed
  then obtain c s db where "rx_settle a r = r\<lparr>rx_c := c, rx_Stats := s, rx_cqDbrec := db\<rparr>" by (elim exE)
  then show "rx_inv lkey (rx_settle a r) = rx_inv lkey r" "rx_queue (rx_settle a r) = rx_queue r" "rx_failed (rx_settle a r) = rx_failed r"
    "rx_region (rx_settle a r) = rx_region r" "rx_bufSize (rx_settle a r) = rx_bufSize r" "rx_cqci (rx_settle a r) = rx_cqci r"
    "rx_dead (rx_settle a r) = rx_dead r" by (simp_all add: rx_same)
qed

lemma rx_receive_step:
  assumes inv: "rx_inv lkey r"
  shows "\<exists>os ts' k r'. rx_receive mx out ts r = Some ((out @ os, ts'), r') \<and> rx_inv lkey r'
     \<and> k \<le> length (rx_queue r) \<and> rx_queue r' = drop k (rx_queue r)
     \<and> map d_addr (take k (rx_queue r)) \<in> shuffles (map d_addr os) (map d_addr (rx_Failed r'))
     \<and> (\<forall>d \<in> set os. d_len d \<le> rx_bufSize r) \<and> length os \<le> nat mx
     \<and> map_option length ts' = map_option (\<lambda>l. length l + length os) ts
     \<and> rx_region r' = rx_region r \<and> rx_bufSize r' = rx_bufSize r
     \<and> unat (rx_cqci r' - rx_cqci r) \<le> unat (cq_entries (rx_cq r))"
proof (cases "mx \<le> 0 \<or> rx_dead r \<noteq> None")
  case True
  have "map_option length ts = map_option (\<lambda>l. length l + length ([] :: desc list)) ts" by simp
  then show ?thesis using True inv
    by (intro exI [of _ "[]"] exI [of _ ts] exI [of _ 0] exI [of _ "r\<lparr>rx_failed := []\<rparr>"])
      (auto simp: rx_receive_def Let_def rx_same rx_Failed_def)
next
  case False
  define r0 where "r0 = r\<lparr>rx_failed := []\<rparr>"
  define a0 where "a0 = \<lparr>ra_out = out, ra_ts = ts, ra_got = 0, ra_bytes = 0, ra_read = 0\<rparr>"
  have i0: "rx_inv lkey r0" "rx_queue r0 = rx_queue r" using inv by (simp_all add: r0_def rx_same)
  have "rx_geom lkey r0" using i0(1) by (simp add: rx_inv_def)
  then obtain k where k: "cq_ok (rx_cq r0) k" by (auto simp: rx_geom_def)
  then have e: "unat (cq_entries (rx_cq r0)) = 2 ^ k" by (rule unat_cq_entries)
  obtain r1 a1 n where l: "receive_loop (Suc (2 ^ k)) mx r0 a0 = Some (r1, a1)" "n \<le> 2 ^ k" "rx_ran lkey n r0 a0 r1 a1" "int (ra_got a1) \<le> mx"
    using receive_loop_step [OF i0(1) k, of "rx_cqci r0" 0 "2 ^ k" a0 mx] False by (auto simp: a0_def)
  have l1: "rx_inv lkey r1" "rx_scanned r0 r1" "rx_gave r0 a0 r1 a1" "rx_cqci r1 = rx_cqci r + of_nat n"
    using l(3) by (simp_all add: rx_ran_def r0_def)
  from l1(3) obtain j os fs where
    g: "j \<le> length (rx_queue r)" "rx_queue r1 = drop j (rx_queue r)" "rx_failed r1 = fs" "ra_out a1 = out @ os"
      "map d_addr (take j (rx_queue r)) \<in> shuffles (map d_addr os) (map d_addr fs)"
      "\<forall>d \<in> set os. d_len d \<le> rx_bufSize r" "ra_got a1 = length os"
      "map_option length (ra_ts a1) = map_option (\<lambda>l. length l + length os) ts"
    unfolding rx_gave_def i0(2) by (auto simp: r0_def a0_def)
  define r' where "r' = rx_settle a1 r1"
  have ev: "rx_receive mx out ts r = Some ((ra_out a1, ra_ts a1), r')"
    using False l(1) e rx_receive_go [of mx r out ts] by (simp add: r0_def a0_def r'_def)
  have r': "rx_inv lkey r'" "rx_queue r' = rx_queue r1" "rx_failed r' = rx_failed r1" "rx_region r' = rx_region r1"
    "rx_bufSize r' = rx_bufSize r1" "rx_cqci r' = rx_cqci r1"
    using l1(1) rx_settle_keeps by (simp_all add: r'_def)
  have "unat (of_nat n :: u32) \<le> n" by (simp add: unsigned_of_nat)
  then have "unat (rx_cqci r' - rx_cqci r) \<le> unat (cq_entries (rx_cq r))" using l1(4) r'(6) l(2) e by (simp add: r0_def)
  moreover have "rx_region r' = rx_region r" "rx_bufSize r' = rx_bufSize r"
    using r'(4,5) rx_scanned_keeps [OF l1(2)] by (simp_all add: r0_def)
  moreover have "length os \<le> nat mx" using l(4) g(7) by simp
  ultimately show ?thesis using ev g r'(1-3)
    by (intro exI [of _ os] exI [of _ "ra_ts a1"] exI [of _ j] exI [of _ r']) (simp add: rx_Failed_def)
qed

section \<open>The contract\<close>

text \<open>A call of \<open>Receive\<close> together with the frames \<open>Failed\<close> then reports.\<close>

definition rx_collect :: "int \<Rightarrow> rx \<Rightarrow> ((desc list \<times> desc list) \<times> rx) option" where
  "rx_collect mx r = map_option (\<lambda>(os, r'). ((os, rx_Failed r'), r')) (rx_Receive mx [] r)"

text \<open>The device may write anything into the completion queue.\<close>

definition rx_device :: "rx \<Rightarrow> rx \<Rightarrow> bool" where
  "rx_device r r' \<longleftrightarrow> (\<exists>buf. length buf = length (cq_buf (rx_cq r)) \<and> r' = r\<lparr>rx_cq := (rx_cq r)\<lparr>cq_buf := buf\<rparr>\<rparr>)"

definition rx_holds :: "u32 \<Rightarrow> nat \<Rightarrow> rx \<Rightarrow> desc list \<Rightarrow> bool" where
  "rx_holds lkey n r q \<longleftrightarrow> rx_inv lkey r \<and> rx_queue r = q \<and> length (rx_region r) = n"

lemma rx_collect_step:
  assumes "rx_inv lkey r"
  shows "\<exists>k os fs r'. rx_collect mx r = Some ((os, fs), r') \<and> rx_inv lkey r' \<and> rx_queue r' = drop k (rx_queue r)
     \<and> rx_region r' = rx_region r \<and> map d_addr (take k (rx_queue r)) \<in> shuffles (map d_addr os) (map d_addr fs)"
proof -
  from rx_receive_step [OF assms, of mx "[]" None] obtain os ts' k r' where
    "rx_receive mx [] None r = Some ((os, ts'), r')" "rx_inv lkey r'" "rx_queue r' = drop k (rx_queue r)"
    "map d_addr (take k (rx_queue r)) \<in> shuffles (map d_addr os) (map d_addr (rx_Failed r'))" "rx_region r' = rx_region r"
    by auto
  then show ?thesis by (intro exI [of _ k] exI [of _ os] exI [of _ "rx_Failed r'"] exI [of _ r']) (simp add: rx_collect_def rx_Receive_def)
qed

lemma rx_device_step:
  assumes "rx_inv lkey r" "rx_device r r'"
  shows "rx_inv lkey r' \<and> rx_queue r' = rx_queue r \<and> rx_region r' = rx_region r"
proof -
  obtain buf where b: "length buf = length (cq_buf (rx_cq r))" "r' = r\<lparr>rx_cq := (rx_cq r)\<lparr>cq_buf := buf\<rparr>\<rparr>"
    using assms(2) by (auto simp: rx_device_def)
  have "cq_ok ((rx_cq r)\<lparr>cq_buf := buf\<rparr>) k = cq_ok (rx_cq r) k" for k using b(1) by (simp add: cq_ok_def)
  then show ?thesis using assms(1) by (simp add: rx_state_defs b(2))
qed

interpretation mlx5_rx: rx_contract "rx_holds lkey n" d_addr rx_Fill rx_collect "\<lambda>d. unat (d_addr d) < n" rx_device for lkey n
proof
  fix r q and ds :: "desc list" assume "rx_holds lkey n r q" "\<forall>d \<in> set ds. unat (d_addr d) < n"
  then obtain r' where "rx_Fill ds r = Some (min (length ds) (rx_FreeSlots r), r')" "rx_inv lkey r'"
      "rx_queue r' = rx_queue r @ take (rx_FreeSlots r) ds" "rx_region r' = rx_region r" "rx_queue r = q" "length (rx_region r) = n"
    using rx_Fill_step [of lkey r ds] by (auto simp: rx_holds_def rx_buffer_def)
  then show "\<exists>m r'. rx_Fill ds r = Some (m, r') \<and> m \<le> length ds \<and> rx_holds lkey n r' (q @ take m ds)"
    by (intro exI [of _ "min (length ds) (rx_FreeSlots r)"] exI [of _ r']) (auto simp: rx_holds_def min_def)
next
  fix r q mx assume "rx_holds lkey n r q"
  then show "\<exists>k os fs r'. rx_collect mx r = Some ((os, fs), r') \<and> rx_holds lkey n r' (drop k q)
      \<and> map d_addr (take k q) \<in> shuffles (map d_addr os) (map d_addr fs)"
    using rx_collect_step [of lkey r mx] unfolding rx_holds_def by fastforce
next
  fix r q r' assume "rx_holds lkey n r q" "rx_device r r'"
  then show "rx_holds lkey n r' q" using rx_device_step [of lkey r r'] by (auto simp: rx_holds_def)
qed

section \<open>Construction\<close>

lemma peek_poke_pair:
  assumes "poke b i x = Some b1" "poke b1 (i + length x) y = Some b2"
  shows "peek b2 i (length x + length y) = Some (x @ y)"
proof -
  have "peek b2 i (length x) = Some x" using peek_poke_other [OF assms(2), of i "length x"] peek_poke_same [OF assms(1)] by simp
  then show ?thesis using peek_split peek_poke_same [OF assms(2)] by blast
qed

lemma prefill_step:
  assumes "16 * (i + n) \<le> length rq" "length rq < 2 ^ 32"
  shows "\<exists>rq'. prefill n (of_nat i) 16 bsz lkey rq = Some rq' \<and> length rq' = length rq
     \<and> (\<forall>j < i. peek rq' (16 * j) 8 = peek rq (16 * j) 8)
     \<and> (\<forall>j. i \<le> j \<and> j < i + n \<longrightarrow> peek rq' (16 * j) 8 = Some (be32 bsz @ be32 lkey))"
  using assms
proof (induction n arbitrary: i rq)
  case (Suc n)
  have o1: "unat (of_nat i * 16 :: u32) = 16 * i"
    using Suc.prems by (simp add: unat_word_ariths unsigned_of_nat take_bit_nat_eq_self)
  have o2: "unat (of_nat i * 16 + 4 :: u32) = 16 * i + 4" using Suc.prems o1 by (subst unat_plus_exact) simp_all
  obtain rq1 where r1: "poke rq (16 * i) (be32 bsz) = Some rq1"
    using poke_defined [of "16 * i" "be32 bsz" rq] Suc.prems by auto
  have l1: "length rq1 = length rq" by (rule poke_length [OF r1])
  obtain rq2 where r2: "poke rq1 (16 * i + 4) (be32 lkey) = Some rq2"
    using poke_defined [of "16 * i + 4" "be32 lkey" rq1] Suc.prems l1 by auto
  have l2: "length rq2 = length rq" using poke_length [OF r2] l1 by simp
  have here: "peek rq2 (16 * i) 8 = Some (be32 bsz @ be32 lkey)"
    using peek_poke_pair [OF r1, of "be32 lkey" rq2] r2 by simp
  have before: "peek rq2 (16 * j) 8 = peek rq (16 * j) 8" if "j < i" for j
    using that peek_poke_other [OF r1, of "16 * j" 8] peek_poke_other [OF r2, of "16 * j" 8] by simp
  have "16 * (Suc i + n) \<le> length rq2" "length rq2 < 2 ^ 32" using Suc.prems l2 by simp_all
  from Suc.IH [OF this] obtain rq' where
    IH: "prefill n (of_nat (Suc i)) 16 bsz lkey rq2 = Some rq'" "length rq' = length rq2"
      "\<forall>j < Suc i. peek rq' (16 * j) 8 = peek rq2 (16 * j) 8"
      "\<forall>j. Suc i \<le> j \<and> j < Suc i + n \<longrightarrow> peek rq' (16 * j) 8 = Some (be32 bsz @ be32 lkey)" by blast
  have "prefill (Suc n) (of_nat i) 16 bsz lkey rq = Some rq'"
    using r1 r2 IH(1) by (simp add: o1 o2 add.commute [of 1])
  moreover have "\<forall>j. i \<le> j \<and> j < i + Suc n \<longrightarrow> peek rq' (16 * j) 8 = Some (be32 bsz @ be32 lkey)"
    using IH(3,4) here by (metis add_Suc add_Suc_right le_neq_implies_less lessI less_eq_Suc_le)
  ultimately show ?case using IH(2,3) l2 before by auto
qed auto

text \<open>Queue memory a 32-bit size describes.\<close>

definition rx_cfg_ok :: "rx_config \<Rightarrow> bool" where
  "rx_cfg_ok cfg \<longleftrightarrow> length (xc_RQ cfg) < 2 ^ 32 \<and> length (xc_CQ cfg) \<le> 2 ^ 32"

lemma NewRx_inv:
  assumes new: "NewRx cfg = Some (Inr r)" and ok: "rx_cfg_ok cfg"
  shows "rx_inv (xc_LKey cfg) r" "rx_queue r = []" "rx_region r = xc_Region cfg" "rx_dead r = None"
    "rx_bufSize r = xc_BufferSize cfg" "unat (rx_entries r) = length (xc_RQ cfg) div 16"
    "unat (rx_entries r) \<le> unat (cq_entries (rx_cq r))" "cq_buf (rx_cq r) = xc_CQ cfg" "rx_cqci r = 0" "rx_ci r = 0"
proof -
  define n where "n = length (xc_RQ cfg) div 16"
  define E where "E = (of_nat n :: u32)"
  have st: "xc_Stride cfg = 16" using new by (auto simp: NewRx_def split: if_splits)
  then have whole: "length (xc_RQ cfg) mod 16 = 0" "length (xc_RQ cfg) \<noteq> 0"
    using new by (auto simp: NewRx_def split: if_splits)
  have len: "length (xc_RQ cfg) = 16 * n" using whole by (auto simp: n_def)
  then have len: "length (xc_RQ cfg) = 16 * n" "0 < n" "n < 2 ^ 28" using whole ok by (auto simp: rx_cfg_ok_def)
  have unE: "unat E = n" using len(3) by (simp add: E_def unsigned_of_nat take_bit_nat_eq_self)
  have "unat (of_nat (length (xc_RQ cfg)) div 16 :: u32) = n"
    using ok by (simp add: unat_div unsigned_of_nat take_bit_nat_eq_self rx_cfg_ok_def n_def)
  then have E: "of_nat (length (xc_RQ cfg)) div xc_Stride cfg = E" unfolding st using unE by (simp add: word_unat_eq_iff)
  have p2: "E AND (E - 1) = 0"
    using new whole by (auto simp: NewRx_def Let_def E [unfolded st] st split: if_splits)
  obtain c where c: "NewCQ (xc_CQ cfg) (int CQESize) = Inr c" "\<not> cq_entries c < E"
    using new whole p2 by (cases "NewCQ (xc_CQ cfg) (int CQESize)") (auto simp: NewRx_def Let_def E [unfolded st] st split: if_splits)
  obtain rqdb cqdb where db: "xc_RQDbrec cfg = Some rqdb" "xc_CQDbrec cfg = Some cqdb" "xc_BufferSize cfg \<noteq> 0"
    using new whole p2 c by (auto simp: NewRx_def Let_def E [unfolded st] st split: option.splits if_splits)
  obtain rq where rq: "prefill n 0 16 (xc_BufferSize cfg) (xc_LKey cfg) (xc_RQ cfg) = Some rq" "length rq = 16 * n"
      "\<forall>j < n. peek rq (16 * j) 8 = Some (be32 (xc_BufferSize cfg) @ be32 (xc_LKey cfg))"
    using prefill_step [of 0 n "xc_RQ cfg" "xc_BufferSize cfg" "xc_LKey cfg"] len(1) ok by (auto simp: rx_cfg_ok_def)
  have r: "rx_rq r = rq" "rx_entries r = E" "rx_mask r = E - 1" "rx_stride r = 16" "rx_cq r = c" "rx_region r = xc_Region cfg"
    "rx_bufSize r = xc_BufferSize cfg" "rx_pi r = 0" "rx_ci r = 0" "rx_cqci r = 0" "rx_dead r = None" "length (rx_posted r) = n"
    using new whole p2 c db rq(1) by (auto simp: NewRx_def Let_def E [unfolded st] st unE)
  obtain k where k: "cq_ok c k" "cq_buf c = xc_CQ cfg" using NewCQ_ok [OF c(1)] ok by (auto simp: rx_cfg_ok_def)
  have "is_pow2 n" using word_pow2_nat [of n] len p2 by (simp add: E_def)
  moreover have "n \<le> 2 ^ k" using c(2) unE unat_cq_entries [OF k(1)] by (simp add: word_less_nat_alt)
  ultimately have g: "rx_geom (xc_LKey cfg) r" using rq len k unfolding rx_geom_def by (auto simp: r ring_ok_def E_def)
  have out: "rx_Outstanding r = 0" by (simp add: rx_Outstanding_def r)
  show q: "rx_queue r = []" by (simp add: rx_queue_def out)
  show "rx_inv (xc_LKey cfg) r" unfolding rx_inv_def using g q out by simp
  show "rx_region r = xc_Region cfg" "rx_dead r = None" "rx_bufSize r = xc_BufferSize cfg"
    "unat (rx_entries r) = length (xc_RQ cfg) div 16" "cq_buf (rx_cq r) = xc_CQ cfg" "rx_cqci r = 0" "rx_ci r = 0"
    using r unE k(2) by (simp_all add: n_def)
  show "unat (rx_entries r) \<le> unat (cq_entries (rx_cq r))" using c(2) r by (simp add: word_less_nat_alt)
qed

end
