(* ===== verification/Mlx5_Rx_Props.thy ===== *)
theory Mlx5_Rx_Props
  imports Mlx5_Rx_Run
begin

text \<open>
  What the receive ring promises: buffers are conserved under anything the device writes, what the device
  reports is what the caller gets, lengths stay inside the buffer, and a queue that lost track stops.
\<close>

section \<open>Well-behaved completions\<close>

text \<open>The length and checksum flags the \<open>j\<close>-th unread completion reports, when it is a good one that names
  the \<open>j\<close>-th outstanding buffer.\<close>

definition rx_reports :: "rx \<Rightarrow> nat \<Rightarrow> (u32 \<times> u8) option" where
  "rx_reports r j =
     do { h \<leftarrow> cq_header (rx_cq r) (rx_cqci r + of_nat j);
          e \<leftarrow> cq_Entry (rx_cq r) (rx_cqci r + of_nat j);
          len \<leftarrow> ByteCount e;
          f \<leftarrow> ChecksumFlags e;
          if Owned (rx_cq r) (rx_cqci r + of_nat j) h \<and> Format h = CQEFormatNoData \<and> Opcode h = CQERespSend
             \<and> ucast (WQECounter h) AND rx_mask r = (rx_ci r + of_nat j) AND rx_mask r \<and> len \<le> rx_bufSize r
          then Some (len, f) else None }"

definition rx_delivery :: "desc \<Rightarrow> u32 \<times> u8 \<Rightarrow> desc" where
  "rx_delivery d p = d\<lparr>d_len := fst p, d_options := rx_options (snd p)\<rparr>"

lemma rx_reports_some:
  assumes "rx_reports r j = Some p"
  obtains h e where "cq_header (rx_cq r) (rx_cqci r + of_nat j) = Some h" "cq_Entry (rx_cq r) (rx_cqci r + of_nat j) = Some e"
    "ByteCount e = Some (fst p)" "ChecksumFlags e = Some (snd p)" "Owned (rx_cq r) (rx_cqci r + of_nat j) h"
    "Format h = CQEFormatNoData" "Opcode h = CQERespSend" "ucast (WQECounter h) AND rx_mask r = (rx_ci r + of_nat j) AND rx_mask r"
    "fst p \<le> rx_bufSize r"
  using assms by (auto simp: rx_reports_def bind_eq_Some_conv split: if_splits)

lemma receive_loop_good:
  assumes "rx_inv lkey r" "ra_ts a = None" "n \<le> rx_Outstanding r" "n \<le> m" "int (ra_got a + n) \<le> mx"
    and "\<forall>j < n. rx_reports r j = Some (rep j)"
    and "int (ra_got a + n) = mx \<or> (\<exists>h. cq_header (rx_cq r) (rx_cqci r + of_nat n) = Some h \<and> \<not> Owned (rx_cq r) (rx_cqci r + of_nat n) h)"
  shows "\<exists>r' a'. receive_loop (Suc m) mx r a = Some (r', a') \<and> ra_out a' = ra_out a @ map (\<lambda>j. rx_delivery (rx_queue r ! j) (rep j)) [0..<n]
     \<and> rx_failed r' = rx_failed r \<and> rx_queue r' = drop n (rx_queue r) \<and> rx_dead r' = rx_dead r"
  using assms
proof (induction n arbitrary: r a m rep)
  case 0
  then have "receive_loop (Suc m) mx r a = Some (r, a)" by (subst receive_loop.simps) auto
  then show ?case by simp
next
  case (Suc n)
  obtain m' where m': "m = Suc m'" using Suc.prems(4) by (cases m) auto
  have ne: "rx_pi r \<noteq> rx_ci r" using Suc.prems(3) by (auto simp: rx_Outstanding_def)
  have "rx_reports r 0 = Some (rep 0)" using Suc.prems(6) by simp
  then obtain h e where h: "cq_header (rx_cq r) (rx_cqci r) = Some h" "cq_Entry (rx_cq r) (rx_cqci r) = Some e"
    "ByteCount e = Some (fst (rep 0))" "ChecksumFlags e = Some (snd (rep 0))" "Owned (rx_cq r) (rx_cqci r) h"
    "Format h = CQEFormatNoData" "Opcode h = CQERespSend" "ucast (WQECounter h) AND rx_mask r = rx_ci r AND rx_mask r"
    "fst (rep 0) \<le> rx_bufSize r" by (rule rx_reports_some) simp
  define r1 where "r1 = r\<lparr>rx_cqci := rx_cqci r + 1\<rparr>"
  define a1 where "a1 = a\<lparr>ra_read := ra_read a + 1\<rparr>"
  define r2 where "r2 = r\<lparr>rx_cqci := rx_cqci r + 1, rx_ci := rx_ci r + 1\<rparr>"
  define d where "d = hd (rx_queue r)"
  define a2 where "a2 = a\<lparr>ra_out := ra_out a @ [rx_delivery d (rep 0)], ra_got := Suc (ra_got a),
    ra_bytes := ra_bytes a + ucast (fst (rep 0)), ra_read := ra_read a + 1\<rparr>"
  have g: "rx_geom lkey r" using Suc.prems(1) by (simp add: rx_inv_def)
  have slot: "unat (rx_ci r AND rx_mask r) = rx_slot r 0" using rx_mask_slot [OF g] by (simp add: rx_slot_def)
  note c = rx_consume [OF Suc.prems(1) ne]
  obtain q where q: "rx_queue r = d # q" using c(3) by (cases "rx_queue r") (auto simp: d_def)
  have "rx_buffer r d" using Suc.prems(1) q by (simp add: rx_inv_def)
  moreover have dp: "rx_posted r ! rx_slot r 0 = d" using c(4) by (simp add: d_def)
  ultimately have t: "rx_take h r1 a1 = Some (r2, a2)"
    using rx_slot_less [OF g, of 0] h Suc.prems(2)
    by (simp add: rx_take_def Let_def r1_def r2_def a1_def a2_def slot rx_buffer_def CQERespSend_def CQERespErr_def rx_delivery_def)
  have lt: "int (ra_got a) < mx" using Suc.prems(5) by simp
  have run: "receive_loop (Suc m) mx r a = receive_loop (Suc m') mx r2 a2"
    using lt h ne t by (subst receive_loop.simps) (simp add: m' Let_def r1_def a1_def)
  have i2: "rx_inv lkey r2" and q2: "rx_queue r2 = drop 1 (rx_queue r)"
  proof -
    have "r2 = (r\<lparr>rx_ci := rx_ci r + 1\<rparr>)\<lparr>rx_cqci := rx_cqci r + 1\<rparr>" by (simp add: r2_def)
    then show "rx_inv lkey r2" "rx_queue r2 = drop 1 (rx_queue r)" using c(1,2) by (simp_all only: rx_same)
  qed
  have o2: "n \<le> rx_Outstanding r2" using q2 Suc.prems(3) length_rx_queue [of r2] by simp
  have rep: "rx_reports r2 j = rx_reports r (Suc j)" for j by (simp add: rx_reports_def r2_def add.assoc)
  have "\<exists>r' a'. receive_loop (Suc m') mx r2 a2 = Some (r', a')
      \<and> ra_out a' = ra_out a2 @ map (\<lambda>j. rx_delivery (rx_queue r2 ! j) (rep (Suc j))) [0..<n]
      \<and> rx_failed r' = rx_failed r2 \<and> rx_queue r' = drop n (rx_queue r2) \<and> rx_dead r' = rx_dead r2"
  proof (rule Suc.IH [OF i2 _ o2])
    show "ra_ts a2 = None" "n \<le> m'" "int (ra_got a2 + n) \<le> mx" using Suc.prems by (simp_all add: a2_def m')
    show "\<forall>j < n. rx_reports r2 j = Some (rep (Suc j))" using Suc.prems(6) by (simp add: rep)
    have "rx_cqci r2 + of_nat n = rx_cqci r + of_nat (Suc n)" "ra_got a2 + n = ra_got a + Suc n" "rx_cq r2 = rx_cq r"
      by (simp_all add: r2_def a2_def)
    then show "int (ra_got a2 + n) = mx \<or> (\<exists>h. cq_header (rx_cq r2) (rx_cqci r2 + of_nat n) = Some h
        \<and> \<not> Owned (rx_cq r2) (rx_cqci r2 + of_nat n) h)" using Suc.prems(7) by (simp only:)
  qed
  then obtain r' a' where "receive_loop (Suc m') mx r2 a2 = Some (r', a')"
      "ra_out a' = ra_out a2 @ map (\<lambda>j. rx_delivery (rx_queue r2 ! j) (rep (Suc j))) [0..<n]"
      "rx_failed r' = rx_failed r2" "rx_queue r' = drop n (rx_queue r2)" "rx_dead r' = rx_dead r2" by blast
  moreover have "map (\<lambda>j. rx_delivery (rx_queue r ! j) (rep j)) [0..<Suc n]
      = rx_delivery d (rep 0) # map (\<lambda>j. rx_delivery (rx_queue r2 ! j) (rep (Suc j))) [0..<n]"
    unfolding q2 q by (simp only: upt_conv_Cons zero_less_Suc map_Suc_upt [symmetric] list.map map_map comp_def nth_Cons_0 nth_Cons_Suc)
      (simp add: q)
  ultimately show ?case using run q2 by (intro exI [of _ r'] exI [of _ a']) (simp add: a2_def r2_def)
qed

section \<open>Small configurations\<close>

text \<open>A ring of one buffer whose completion queue already holds \<open>cqe\<close>.\<close>

definition demo_rx :: "bytes \<Rightarrow> rx_config" where
  "demo_rx cqe = \<lparr>xc_RQ = replicate 16 0, xc_CQ = cqe, xc_RQDbrec = Some [], xc_CQDbrec = Some [], xc_Stride = 16, xc_LKey = 7,
     xc_Region = [1, 2, 3, 4], xc_RegionVA = 0x100, xc_BufferSize = 4\<rparr>"

definition demo_buf :: desc where
  "demo_buf = \<lparr>d_addr = 2, d_len = 0, d_options = 0\<rparr>"

text \<open>A good completion of three bytes for buffer 0, and one in a format the queue does not decode.\<close>

definition demo_good :: bytes where
  "demo_good = replicate 44 0 @ be32 3 @ replicate 15 0 @ [0x20]"

definition demo_odd :: bytes where
  "demo_odd = replicate 63 0 @ [0x2c]"

lemma demo_new:
  assumes "cqe = demo_good \<or> cqe = demo_odd \<or> cqe = replicate 64 0"
  obtains r where "NewRx (demo_rx cqe) = Some (Inr r)" "rx_cfg_ok (demo_rx cqe)" "rx_inv 7 r" "rx_queue r = []" "rx_region r = [1, 2, 3, 4]"
    "rx_dead r = None" "rx_bufSize r = 4" "rx_FreeSlots r = 1"
proof -
  have ok: "rx_cfg_ok (demo_rx cqe)" using assms by (auto simp: rx_cfg_ok_def demo_rx_def demo_good_def demo_odd_def)
  have "case NewRx (demo_rx demo_good) of Some (Inr r) \<Rightarrow> rx_FreeSlots r = 1 | _ \<Rightarrow> False"
    "case NewRx (demo_rx demo_odd) of Some (Inr r) \<Rightarrow> rx_FreeSlots r = 1 | _ \<Rightarrow> False"
    "case NewRx (demo_rx (replicate 64 0)) of Some (Inr r) \<Rightarrow> rx_FreeSlots r = 1 | _ \<Rightarrow> False" by code_simp+
  then have "case NewRx (demo_rx cqe) of Some (Inr r) \<Rightarrow> rx_FreeSlots r = 1 | _ \<Rightarrow> False" using assms by auto
  then obtain r where "NewRx (demo_rx cqe) = Some (Inr r)" "rx_FreeSlots r = 1" by (auto split: option.splits sum.splits)
  then show ?thesis using that ok NewRx_inv [of "demo_rx cqe" r] by (simp add: demo_rx_def)
qed

lemma demo_filled:
  obtains r r' where "NewRx (demo_rx demo_good) = Some (Inr r)" "rx_Fill [demo_buf] r = Some (1, r')" "rx_inv 7 r'" "rx_queue r' = [demo_buf]"
    "rx_dead r' = None" "rx_reports r' 0 = Some (3, 0)" "rx_bufSize r' = 4"
proof -
  obtain r where r: "NewRx (demo_rx demo_good) = Some (Inr r)" "rx_inv 7 r" "rx_queue r = []" "rx_region r = [1, 2, 3, 4]" "rx_bufSize r = 4"
    "rx_FreeSlots r = 1" by (rule demo_new [of demo_good]) simp
  have "\<forall>d \<in> set [demo_buf]. rx_buffer r d" using r(4) by (simp add: rx_buffer_def demo_buf_def)
  from rx_Fill_step [OF r(2) this] r obtain r' where
    f: "rx_Fill [demo_buf] r = Some (1, r')" "rx_inv 7 r'" "rx_queue r' = [demo_buf]" "rx_bufSize r' = 4" by auto
  have "case NewRx (demo_rx demo_good) of Some (Inr r) \<Rightarrow> (case rx_Fill [demo_buf] r of Some (_, r') \<Rightarrow>
      rx_dead r' = None \<and> rx_reports r' 0 = Some (3, 0) | _ \<Rightarrow> False) | _ \<Rightarrow> False" by code_simp
  then show ?thesis using that r(1) f by simp
qed

section \<open>Properties\<close>

text \<open>C7: the receive ring conserves buffers. Over any interleaving of fills, receives and completions the device
  writes, also malformed ones, no operation panics; every buffer taken has come back once with a packet, once put
  aside as failed, or is outstanding; and the device's view of the outstanding buffers, read from the queue's
  memory, is their addresses, in order, each with the buffer size and the key of the region.\<close>

theorem rx_ring_conserves:
  assumes "NewRx cfg = Some (Inr r0)" "rx_cfg_ok cfg"
    and "rx_run rx_Fill rx_collect (\<lambda>d. unat (d_addr d) < length (xc_Region cfg)) rx_device r0 acc ret bad r"
  shows "mset (map d_addr acc) = mset (map d_addr ret) + mset (map d_addr bad) + mset (map d_addr (rx_queue r))
     \<and> rx_nic r = map (\<lambda>d. Some (rx_entry_bytes (xc_LKey cfg) r d)) (rx_queue r)
     \<and> (\<forall>ds. (\<forall>d \<in> set ds. unat (d_addr d) < length (xc_Region cfg)) \<longrightarrow> rx_Fill ds r \<noteq> None) \<and> (\<forall>mx. rx_collect mx r \<noteq> None)"
proof -
  let ?n = "length (xc_Region cfg)"
  have h: "rx_holds (xc_LKey cfg) ?n r0 []" using NewRx_inv [OF assms(1,2)] by (simp add: rx_holds_def)
  from mlx5_rx.run_conserves [OF assms(3) h] obtain q where "rx_holds (xc_LKey cfg) ?n r q"
    "mset (map d_addr acc) = mset (map d_addr ret) + mset (map d_addr bad) + mset (map d_addr q)" by blast
  then show ?thesis using mlx5_rx.run_total [OF assms(3) h] rx_nic_queue by (auto simp: rx_holds_def)
qed

theorem rx_ring_conserves_witness:
  "\<exists>r0 r. NewRx (demo_rx demo_good) = Some (Inr r0)
     \<and> rx_run rx_Fill rx_collect (\<lambda>d. unat (d_addr d) < length (xc_Region (demo_rx demo_good))) rx_device r0 [demo_buf] [] [] r
     \<and> mset (map d_addr [demo_buf]) = mset (map d_addr (rx_queue r))"
proof -
  obtain r0 r where r: "NewRx (demo_rx demo_good) = Some (Inr r0)" "rx_Fill [demo_buf] r0 = Some (1, r)" by (rule demo_filled)
  have "\<forall>d \<in> set [demo_buf]. unat (d_addr d) < length (xc_Region (demo_rx demo_good))" by (simp add: demo_rx_def demo_buf_def)
  from rx_run.fill [where fill = rx_Fill, OF rx_run.start this r(2)]
  have run: "rx_run rx_Fill rx_collect (\<lambda>d. unat (d_addr d) < length (xc_Region (demo_rx demo_good))) rx_device r0 [demo_buf] [] [] r"
    by simp
  have "rx_cfg_ok (demo_rx demo_good)" by (simp add: rx_cfg_ok_def demo_rx_def demo_good_def)
  from rx_ring_conserves [OF r(1) this run] show ?thesis using r(1) run by auto
qed

text \<open>C16: \<open>Fill\<close> takes exactly as many buffers as there is room for, as a prefix of the batch. It appends them to
  the buffers the device sees, keeps the entries of those outstanding, and publishes the new producer index when
  it took any.\<close>

theorem rx_Fill_posts:
  assumes "rx_inv lkey r" "\<forall>d \<in> set descs. rx_buffer r d"
  shows "\<exists>n r'. rx_Fill descs r = Some (n, r') \<and> n = min (length descs) (rx_FreeSlots r) \<and> rx_inv lkey r'
     \<and> rx_queue r' = rx_queue r @ take n descs
     \<and> rx_nic r' = map (\<lambda>d. Some (rx_entry_bytes lkey r' d)) (rx_queue r @ take n descs)
     \<and> (n \<noteq> 0 \<longrightarrow> rx_rqDbrec r' = be32 (rx_pi r' AND 0xffff)) \<and> rx_FreeSlots r' = rx_FreeSlots r - n"
proof -
  from rx_Fill_step [OF assms] obtain r' where
    f: "rx_Fill descs r = Some (min (length descs) (rx_FreeSlots r), r')" "rx_inv lkey r'"
      "rx_queue r' = rx_queue r @ take (rx_FreeSlots r) descs" "rx_entries r' = rx_entries r"
      "min (length descs) (rx_FreeSlots r) \<noteq> 0 \<longrightarrow> rx_rqDbrec r' = be32 (rx_pi r' AND 0xffff)" by blast
  have t: "take (rx_FreeSlots r) descs = take (min (length descs) (rx_FreeSlots r)) descs" by (simp add: min_def)
  have o': "rx_Outstanding r' = rx_Outstanding r + min (length descs) (rx_FreeSlots r)"
    using arg_cong [OF f(3), of length] by (simp add: min.commute)
  have g: "rx_geom lkey r" "rx_geom lkey r'" using assms(1) f(2) by (simp_all add: rx_inv_def)
  then have "length (rx_posted r') = length (rx_posted r)" using unat_rx_entries f(4) by metis
  then have "rx_FreeSlots r' = rx_FreeSlots r - min (length descs) (rx_FreeSlots r)" 
    using o' rx_FreeSlots_eq [OF g(1)] rx_FreeSlots_eq [OF g(2)] by simp
  then show ?thesis using f rx_nic_queue [OF f(2)] t by (intro exI [of _ "min (length descs) (rx_FreeSlots r)"] exI [of _ r']) simp
qed

theorem rx_Fill_posts_witness:
  "\<exists>r n r'. NewRx (demo_rx demo_good) = Some (Inr r) \<and> rx_Fill [demo_buf, demo_buf] r = Some (n, r') \<and> n = 1 \<and> rx_queue r' = [demo_buf]
     \<and> rx_FreeSlots r' = 0"
proof -
  obtain r where r: "NewRx (demo_rx demo_good) = Some (Inr r)" "rx_inv 7 r" "rx_queue r = []" "rx_region r = [1, 2, 3, 4]"
    "rx_FreeSlots r = 1" by (rule demo_new [of demo_good]) simp
  have "\<forall>d \<in> set [demo_buf, demo_buf]. rx_buffer r d" using r(4) by (simp add: rx_buffer_def demo_buf_def)
  from rx_Fill_posts [OF r(2) this] show ?thesis using r by auto
qed

text \<open>C17: a call of \<open>Receive\<close> always returns, whatever the device wrote. It reads at most one lap of completions,
  returns at most \<open>max\<close> packets, none longer than its buffer, and one timestamp for each when asked for them.\<close>

theorem rx_receive_bounded:
  assumes "rx_inv lkey r"
  shows "\<exists>os ts' r'. rx_ReceiveTimestamps mx out ts r = Some ((out @ os, ts'), r') \<and> rx_inv lkey r' \<and> length os \<le> nat mx
     \<and> (\<forall>d \<in> set os. d_len d \<le> rx_bufSize r) \<and> unat (rx_cqci r' - rx_cqci r) \<le> unat (cq_entries (rx_cq r))
     \<and> map_option length ts' = map_option (\<lambda>l. length l + length os) ts"
  using rx_receive_step [OF assms, of mx out ts] unfolding rx_ReceiveTimestamps_def by blast

theorem rx_receive_bounded_witness:
  "\<exists>r os ts' r'. NewRx (demo_rx demo_odd) = Some (Inr r) \<and> rx_ReceiveTimestamps 5 [demo_buf] (Some []) r = Some (([demo_buf] @ os, ts'), r')
     \<and> length os \<le> 5"
proof -
  obtain r where r: "NewRx (demo_rx demo_odd) = Some (Inr r)" "rx_inv 7 r" by (rule demo_new [of demo_odd]) simp
  from rx_receive_bounded [OF r(2), of 5 "[demo_buf]" "Some []"] show ?thesis using r(1) by auto
qed

text \<open>C15: what the device reports is what the caller gets. When the next \<open>n\<close> completions are good ones for the oldest
  \<open>n\<close> buffers and the one after is not ready, or \<open>n\<close> is the limit, \<open>Receive\<close> returns exactly those buffers, in
  order, with the reported lengths and checksum options, puts none aside and stays in service.\<close>

theorem rx_Receive_delivers:
  assumes "rx_inv lkey r" "rx_Err r = None" "n \<le> rx_Outstanding r" "int n \<le> mx" "\<forall>j < n. rx_reports r j = Some (rep j)"
    and "int n = mx \<or> (\<exists>h. cq_header (rx_cq r) (rx_cqci r + of_nat n) = Some h \<and> \<not> Owned (rx_cq r) (rx_cqci r + of_nat n) h)"
  shows "\<exists>r'. rx_Receive mx out r = Some (out @ map (\<lambda>j. rx_delivery (rx_queue r ! j) (rep j)) [0..<n], r')
     \<and> rx_Failed r' = [] \<and> rx_queue r' = drop n (rx_queue r) \<and> rx_Err r' = None"
proof (cases "mx \<le> 0")
  case True
  then have "n = 0" using assms(4) by simp
  then show ?thesis using True assms(2)
    by (intro exI [of _ "r\<lparr>rx_failed := []\<rparr>"]) (simp add: rx_Receive_def rx_receive_def Let_def rx_Failed_def rx_Err_def rx_same)
next
  case False
  define r0 where "r0 = r\<lparr>rx_failed := []\<rparr>"
  define a0 where "a0 = \<lparr>ra_out = out, ra_ts = None, ra_got = 0, ra_bytes = 0, ra_read = 0\<rparr>"
  have i0: "rx_inv lkey r0" "rx_queue r0 = rx_queue r" using assms(1) by (simp_all add: r0_def rx_same)
  have g: "rx_geom lkey r" using assms(1) by (simp add: rx_inv_def)
  then obtain k where k: "cq_ok (rx_cq r) k" "length (rx_posted r) \<le> 2 ^ k" by (auto simp: rx_geom_def)
  have "n \<le> unat (cq_entries (rx_cq r))"
    using assms(3) g k unat_cq_entries [OF k(1)] by (auto simp: rx_geom_def rx_Outstanding_def)
  moreover have "rx_reports r0 j = rx_reports r j" for j by (simp add: rx_reports_def r0_def)
  ultimately obtain r1 a1 where l: "receive_loop (Suc (unat (cq_entries (rx_cq r)))) mx r0 a0 = Some (r1, a1)"
      "ra_out a1 = out @ map (\<lambda>j. rx_delivery (rx_queue r ! j) (rep j)) [0..<n]" "rx_failed r1 = []"
      "rx_queue r1 = drop n (rx_queue r)" "rx_dead r1 = None"
    using receive_loop_good [OF i0(1), of a0 n "unat (cq_entries (rx_cq r))" mx rep] assms(2-6) i0(2)
    by (auto simp: r0_def a0_def rx_Outstanding_def rx_Err_def)
  have "rx_receive mx out None r = Some ((ra_out a1, ra_ts a1), rx_settle a1 r1)"
    using rx_receive_go [of mx r out None] False assms(2) l(1) by (simp add: r0_def a0_def rx_Err_def)
  then show ?thesis using l rx_settle_keeps by (simp add: rx_Receive_def rx_Failed_def rx_Err_def)
qed

theorem rx_Receive_delivers_witness:
  "\<exists>r r' r''. NewRx (demo_rx demo_good) = Some (Inr r) \<and> rx_Fill [demo_buf] r = Some (1, r')
     \<and> rx_Receive 1 [] r' = Some ([demo_buf\<lparr>d_len := 3\<rparr>], r'') \<and> rx_queue r'' = []"
proof -
  obtain r r' where r: "NewRx (demo_rx demo_good) = Some (Inr r)" "rx_Fill [demo_buf] r = Some (1, r')" "rx_inv 7 r'"
    "rx_queue r' = [demo_buf]" "rx_dead r' = None" "rx_reports r' 0 = Some (3, 0)" by (rule demo_filled)
  have o1: "1 \<le> rx_Outstanding r'" using r(4) length_rx_queue [of r'] by simp
  have e: "rx_Err r' = None" using r(5) by (simp add: rx_Err_def)
  from rx_Receive_delivers [OF r(3) e o1, of 1 "\<lambda>_. (3, 0)" "[]"] show ?thesis
    using r by (auto simp: rx_delivery_def rx_options_def demo_buf_def)
qed

text \<open>C18: a queue that cannot trust the device stops for good. When the next completion is in a format the queue does
  not decode, or names another buffer than the oldest, \<open>Receive\<close> hands out nothing, keeps every buffer, and records
  the error; from then on \<open>Receive\<close> returns nothing and the first error stays.\<close>

theorem rx_lost_track_stops:
  assumes "rx_inv lkey r" "rx_Err r = None" "0 < mx" "cq_header (rx_cq r) (rx_cqci r) = Some h" "Owned (rx_cq r) (rx_cqci r) h"
    and "Format h \<noteq> CQEFormatNoData \<or> (Opcode h = CQERespSend \<or> Opcode h = CQERespErr) \<and> rx_Outstanding r \<noteq> 0
       \<and> ucast (WQECounter h) AND rx_mask r \<noteq> rx_ci r AND rx_mask r"
  shows "\<exists>r'. rx_receive mx out ts r = Some ((out, ts), r') \<and> rx_Err r' \<noteq> None \<and> rx_queue r' = rx_queue r \<and> rx_Failed r' = []
     \<and> (\<forall>mx' out' ts'. \<exists>r''. rx_receive mx' out' ts' r' = Some ((out', ts'), r'') \<and> rx_Err r'' = rx_Err r' \<and> rx_queue r'' = rx_queue r)"
proof -
  define r0 where "r0 = r\<lparr>rx_failed := []\<rparr>"
  define a0 where "a0 = \<lparr>ra_out = out, ra_ts = ts, ra_got = 0, ra_bytes = 0, ra_read = 0\<rparr>"
  have "\<exists>e c ci n. receive_loop (Suc (unat (cq_entries (rx_cq r)))) mx r0 a0
      = Some (r0\<lparr>rx_cqci := ci, rx_c := c, rx_dead := Some e\<rparr>, a0\<lparr>ra_read := n\<rparr>)"
  proof (cases "Format h = CQEFormatNoData")
    case False
    then have "receive_loop (Suc (unat (cq_entries (rx_cq r)))) mx r0 a0 = Some (rx_fail (UnknownFormat (Format h)) (rx_error_count r0), a0)"
      using assms(3-5) by (subst receive_loop.simps) (simp add: r0_def a0_def)
    then show ?thesis using assms(2)
      by (intro exI [of _ "UnknownFormat (Format h)"] exI [of _ "rx_c (rx_error_count r0)"] exI [of _ "rx_cqci r0"] exI [of _ 0])
        (simp add: rx_fail_def rx_error_count_def r0_def rx_Err_def a0_def)
  next
    case True
    define e where "e = LostTrack (ucast (WQECounter h) AND rx_mask r) (rx_ci r AND rx_mask r)"
    have "rx_pi r \<noteq> rx_ci r" using True assms(6) by (auto simp: rx_Outstanding_def)
    then have "receive_loop (Suc (unat (cq_entries (rx_cq r)))) mx r0 a0
        = Some (rx_fail e (rx_error_count (r0\<lparr>rx_cqci := rx_cqci r + 1\<rparr>)), a0\<lparr>ra_read := 1\<rparr>)"
      using True assms(3-6) by (subst receive_loop.simps) (auto simp: r0_def a0_def Let_def e_def)
    then show ?thesis using assms(2)
      by (intro exI [of _ e] exI [of _ "rx_c (rx_error_count r0)"] exI [of _ "rx_cqci r + 1"] exI [of _ 1])
        (simp add: rx_fail_def rx_error_count_def r0_def rx_Err_def)
  qed
  then obtain e c ci n where l: "receive_loop (Suc (unat (cq_entries (rx_cq r)))) mx r0 a0
      = Some (r0\<lparr>rx_cqci := ci, rx_c := c, rx_dead := Some e\<rparr>, a0\<lparr>ra_read := n\<rparr>)" by blast
  define r1 where "r1 = r0\<lparr>rx_cqci := ci, rx_c := c, rx_dead := Some e\<rparr>"
  have r1: "rx_queue r1 = rx_queue r" "rx_dead r1 = Some e" "rx_failed r1 = []" by (simp_all add: r1_def r0_def rx_same)
  have "rx_receive mx out ts r = Some ((out, ts), rx_settle (a0\<lparr>ra_read := n\<rparr>) r1)"
    using rx_receive_go [of mx r out ts] assms(2,3) l [folded r1_def] by (simp add: r0_def a0_def rx_Err_def)
  then obtain r' where r': "rx_receive mx out ts r = Some ((out, ts), r')" "rx_dead r' = Some e" "rx_queue r' = rx_queue r" "rx_failed r' = []"
    using r1 rx_settle_keeps by simp
  have "rx_receive mx' out' ts' r' = Some ((out', ts'), r'\<lparr>rx_failed := []\<rparr>)" for mx' out' ts'
    using r'(2) by (simp add: rx_receive_def Let_def)
  then show ?thesis using r' by (intro exI [of _ r']) (simp add: rx_Err_def rx_Failed_def rx_same)
qed

theorem rx_lost_track_stops_witness:
  "\<exists>r r'. NewRx (demo_rx demo_odd) = Some (Inr r) \<and> rx_receive 8 [] None r = Some (([], None), r') \<and> rx_Err r' \<noteq> None"
proof -
  obtain r where r: "NewRx (demo_rx demo_odd) = Some (Inr r)" "rx_inv 7 r" "rx_dead r = None" by (rule demo_new [of demo_odd]) simp
  have "case NewRx (demo_rx demo_odd) of Some (Inr r) \<Rightarrow> (case cq_header (rx_cq r) (rx_cqci r) of Some h \<Rightarrow>
      Owned (rx_cq r) (rx_cqci r) h \<and> Format h \<noteq> CQEFormatNoData | _ \<Rightarrow> False) | _ \<Rightarrow> False" by code_simp
  then obtain h where h: "cq_header (rx_cq r) (rx_cqci r) = Some h" "Owned (rx_cq r) (rx_cqci r) h" "Format h \<noteq> CQEFormatNoData"
    using r(1) by (auto split: option.splits)
  have "rx_Err r = None" using r(3) by (simp add: rx_Err_def)
  from rx_lost_track_stops [OF r(2) this _ h(1,2), of 8 "[]" None] show ?thesis using r(1) h(3) by auto
qed

text \<open>Asking for timestamps changes nothing else.\<close>

definition no_ts :: "rx \<times> rx_acc \<Rightarrow> rx \<times> rx_acc" where
  "no_ts p = (fst p, (snd p)\<lparr>ra_ts := None\<rparr>)"

lemma no_ts_pair [simp]: "no_ts (r, a) = (r, a\<lparr>ra_ts := None\<rparr>)"
  by (simp add: no_ts_def)

lemma rx_take_no_ts:
  assumes "cq_ok (rx_cq r) k"
  shows "rx_take h r (a\<lparr>ra_ts := None\<rparr>) = map_option no_ts (rx_take h r a)"
proof -
  obtain e len f t where "cq_Entry (rx_cq r) (rx_cqci r - 1) = Some e" "ByteCount e = Some len" "ChecksumFlags e = Some f"
    "Timestamp e = Some t" using cqe_fields [OF assms] by blast
  then show ?thesis by (cases "ra_ts a") (simp_all add: rx_take_def Let_def)
qed

lemma rx_take_cq:
  assumes "cq_ok (rx_cq r) k"
  shows "case rx_take h r a of None \<Rightarrow> True | Some p \<Rightarrow> rx_cq (fst p) = rx_cq r"
proof -
  obtain e len f t where "cq_Entry (rx_cq r) (rx_cqci r - 1) = Some e" "ByteCount e = Some len" "ChecksumFlags e = Some f"
    "Timestamp e = Some t" using cqe_fields [OF assms] by blast
  then show ?thesis by (cases "ra_ts a") (simp_all add: rx_take_def Let_def rx_error_count_def)
qed

lemma receive_loop_no_ts:
  "cq_ok (rx_cq r) k \<Longrightarrow> receive_loop m mx r (a\<lparr>ra_ts := None\<rparr>) = map_option no_ts (receive_loop m mx r a)"
proof (induction m arbitrary: r a)
  case 0
  then show ?case by (subst (1 2) receive_loop.simps) simp
next
  case (Suc m)
  obtain h where h: "cq_header (rx_cq r) (rx_cqci r) = Some h" using cq_header_some [OF Suc.prems] by blast
  define r1 where "r1 = r\<lparr>rx_cqci := rx_cqci r + 1\<rparr>"
  define a1 where "a1 = a\<lparr>ra_read := ra_read a + 1\<rparr>"
  have k1: "cq_ok (rx_cq r1) k" "cq_ok (rx_cq (rx_error_count r1)) k" using Suc.prems by (simp_all add: r1_def rx_error_count_def)
  have a1: "a\<lparr>ra_ts := None, ra_read := ra_read a + 1\<rparr> = a1\<lparr>ra_ts := None\<rparr>" by (simp add: a1_def)
  have t: "rx_take h r1 (a1\<lparr>ra_ts := None\<rparr>) \<bind> (\<lambda>(r2, a2). receive_loop m mx r2 a2)
      = map_option no_ts (rx_take h r1 a1 \<bind> (\<lambda>(r2, a2). receive_loop m mx r2 a2))"
  proof (cases "rx_take h r1 a1")
    case (Some p)
    then have "cq_ok (rx_cq (fst p)) k" using rx_take_cq [OF k1(1), of h a1] k1(1) by simp
    from Suc.IH [OF this, of "snd p"] show ?thesis
      using Some rx_take_no_ts [OF k1(1)] by (simp add: split_def no_ts_def [of p])
  qed (simp add: rx_take_no_ts [OF k1(1)])
  show ?case
    using h t Suc.IH [OF k1(2), of a1]
    by (subst (1 2) receive_loop.simps) (simp add: Let_def r1_def [symmetric] a1_def [symmetric] a1)
qed

text \<open>C19: asking for timestamps returns the same packets. \<open>ReceiveTimestamps\<close> with a slice to grow returns what \<open>Receive\<close>
  returns and leaves the queue in the same state, and grows the slice by one entry per packet.\<close>

theorem rx_timestamps_same_packets:
  assumes "rx_inv lkey r"
  shows "\<exists>os ts' r'. rx_ReceiveTimestamps mx out (Some ts) r = Some ((out @ os, Some ts'), r')
     \<and> rx_Receive mx out r = Some (out @ os, r') \<and> length ts' = length ts + length os"
proof -
  from rx_receive_step [OF assms, of mx out "Some ts"] obtain os t r' where
    r: "rx_receive mx out (Some ts) r = Some ((out @ os, t), r')" "map_option length t = Some (length ts + length os)" by auto
  then obtain ts' where ts': "t = Some ts'" "length ts' = length ts + length os" by auto
  have "rx_geom lkey r" using assms by (simp add: rx_inv_def)
  then obtain k where k: "cq_ok (rx_cq r) k" by (auto simp: rx_geom_def)
  define r0 where "r0 = r\<lparr>rx_failed := []\<rparr>"
  define a0 where "a0 = \<lparr>ra_out = out, ra_ts = Some ts, ra_got = 0, ra_bytes = 0, ra_read = 0\<rparr>"
  have a0: "\<lparr>ra_out = out, ra_ts = None, ra_got = 0, ra_bytes = 0, ra_read = 0\<rparr> = a0\<lparr>ra_ts := None\<rparr>" by (simp add: a0_def)
  have "cq_ok (rx_cq r0) k" using k by (simp add: r0_def)
  note n = receive_loop_no_ts [OF this, of "Suc (unat (cq_entries (rx_cq r)))" mx a0]
  have "rx_receive mx out None r = Some ((out @ os, None), r')"
  proof (cases "mx \<le> 0 \<or> rx_dead r \<noteq> None")
    case True
    then show ?thesis using r(1) by (auto simp: rx_receive_def Let_def)
  next
    case False
    then obtain r1 a1 where l: "receive_loop (Suc (unat (cq_entries (rx_cq r)))) mx r0 a0 = Some (r1, a1)"
      using r(1) by (auto simp: rx_receive_def Let_def r0_def a0_def bind_eq_Some_conv)
    have "rx_settle (a1\<lparr>ra_ts := None\<rparr>) r1 = rx_settle a1 r1" by (simp add: rx_settle_def)
    then show ?thesis using r(1) l n rx_receive_go [of mx r out] False by (simp add: r0_def a0_def)
  qed
  then show ?thesis using r(1) ts' by (simp add: rx_ReceiveTimestamps_def rx_Receive_def)
qed

theorem rx_timestamps_same_packets_witness:
  "\<exists>r os ts' r'. NewRx (demo_rx demo_good) = Some (Inr r) \<and> rx_ReceiveTimestamps 4 [] (Some [9]) r = Some (([] @ os, Some ts'), r')
     \<and> rx_Receive 4 [] r = Some ([] @ os, r') \<and> length ts' = 1 + length os"
proof -
  obtain r where r: "NewRx (demo_rx demo_good) = Some (Inr r)" "rx_inv 7 r" by (rule demo_new [of demo_good]) simp
  from rx_timestamps_same_packets [OF r(2), of 4 "[]" "[9]"] show ?thesis using r(1) by auto
qed

lemma ready_from_spec:
  assumes "cq_ok c k"
  shows "\<exists>m. ready_from n ci c = Some m \<and> m \<le> n
     \<and> (\<forall>j < m. \<exists>h. cq_header c (ci + of_nat j) = Some h \<and> Owned c (ci + of_nat j) h)
     \<and> (m < n \<longrightarrow> (\<exists>h. cq_header c (ci + of_nat m) = Some h \<and> \<not> Owned c (ci + of_nat m) h))"
proof (induction n arbitrary: ci)
  case (Suc n)
  obtain h where h: "cq_header c ci = Some h" using cq_header_some [OF assms] by blast
  show ?case
  proof (cases "Owned c ci h")
    case True
    from Suc.IH [of "ci + 1"] obtain m where m: "ready_from n (ci + 1) c = Some m" "m \<le> n"
      "\<forall>j < m. \<exists>h. cq_header c (ci + 1 + of_nat j) = Some h \<and> Owned c (ci + 1 + of_nat j) h"
      "m < n \<longrightarrow> (\<exists>h. cq_header c (ci + 1 + of_nat m) = Some h \<and> \<not> Owned c (ci + 1 + of_nat m) h)" by blast
    have "\<exists>h. cq_header c (ci + of_nat j) = Some h \<and> Owned c (ci + of_nat j) h" if "j < Suc m" for j
      using that h True m(3) by (cases j) (simp_all add: add.assoc)
    then show ?thesis using m h True by (intro exI [of _ "Suc m"]) (simp add: add.assoc)
  qed (use h in simp)
qed simp

text \<open>\<open>ReadyCount\<close> counts the completions waiting. It returns for any limit, however large, never more than the limit
  nor than the queue holds; each of that many completions is owned, and below the limit the next is not. \<open>Ready\<close> says
  whether there is one, and with none \<open>Receive\<close> returns nothing and moves no buffer.\<close>

theorem rx_ReadyCount_counts:
  assumes "rx_inv lkey r" "0 < mx"
  shows "\<exists>m. rx_ReadyCount mx r = Some m \<and> m \<le> nat mx \<and> m \<le> unat (cq_entries (rx_cq r))
     \<and> (\<forall>j < m. \<exists>h. cq_header (rx_cq r) (rx_cqci r + of_nat j) = Some h \<and> Owned (rx_cq r) (rx_cqci r + of_nat j) h)
     \<and> (int m < mx \<longrightarrow> (\<exists>h. cq_header (rx_cq r) (rx_cqci r + of_nat m) = Some h \<and> \<not> Owned (rx_cq r) (rx_cqci r + of_nat m) h))
     \<and> rx_Ready r = Some (0 < m)
     \<and> (m = 0 \<longrightarrow> (\<exists>r'. rx_receive mx out ts r = Some ((out, ts), r') \<and> rx_queue r' = rx_queue r))"
proof -
  have "rx_geom lkey r" using assms(1) by (simp add: rx_inv_def)
  then obtain k where k: "cq_ok (rx_cq r) k" by (auto simp: rx_geom_def)
  from ready_from_spec [OF k, of "nat mx" "rx_cqci r"] obtain m where
    m: "rx_ReadyCount mx r = Some m" "m \<le> nat mx"
      "\<forall>j < m. \<exists>h. cq_header (rx_cq r) (rx_cqci r + of_nat j) = Some h \<and> Owned (rx_cq r) (rx_cqci r + of_nat j) h"
      "m < nat mx \<longrightarrow> (\<exists>h. cq_header (rx_cq r) (rx_cqci r + of_nat m) = Some h \<and> \<not> Owned (rx_cq r) (rx_cqci r + of_nat m) h)"
    unfolding rx_ReadyCount_def by blast
  let ?e = "cq_entries (rx_cq r)"
  have le: "m \<le> unat ?e"
  proof (rule ccontr)
    assume "\<not> m \<le> unat ?e"
    then obtain h where "cq_header (rx_cq r) (rx_cqci r + ?e) = Some h" "Owned (rx_cq r) (rx_cqci r + ?e) h"
      using m(3) [rule_format, of "unat ?e"] by auto
    moreover obtain h' where "cq_header (rx_cq r) (rx_cqci r) = Some h'" "Owned (rx_cq r) (rx_cqci r) h'"
      using m(3) [rule_format, of 0] \<open>\<not> m \<le> unat ?e\<close> by auto
    ultimately show False using slot_lap(2) [OF k, of "rx_cqci r"] Owned_lap [OF k, of "rx_cqci r" h'] by simp
  qed
  have rdy: "rx_Ready r = Some (0 < m)"
    using m(3) [rule_format, of 0] m(4) assms(2) by (cases "m = 0") (auto simp: rx_Ready_def)
  have "\<exists>r'. rx_receive mx out ts r = Some ((out, ts), r') \<and> rx_queue r' = rx_queue r" if "m = 0"
  proof -
    define r0 where "r0 = r\<lparr>rx_failed := []\<rparr>"
    define a0 where "a0 = \<lparr>ra_out = out, ra_ts = ts, ra_got = 0, ra_bytes = 0, ra_read = 0\<rparr>"
    have "m < nat mx" using that assms(2) by simp
    then obtain h where "cq_header (rx_cq r) (rx_cqci r) = Some h" "\<not> Owned (rx_cq r) (rx_cqci r) h" using m(4) \<open>m = 0\<close> by auto
    then have l: "receive_loop (Suc (unat ?e)) mx r0 a0 = Some (r0, a0)"
      using assms(2) by (subst receive_loop.simps) (simp add: r0_def a0_def)
    have q: "rx_queue r0 = rx_queue r" by (simp add: r0_def rx_same)
    show ?thesis
    proof (cases "rx_dead r = None")
      case True
      then show ?thesis using l q rx_receive_go [of mx r out ts] assms(2) rx_settle_keeps(2) by (simp add: r0_def a0_def)
    next
      case False
      then show ?thesis by (simp add: rx_receive_def Let_def rx_same)
    qed
  qed
  moreover have "int m < mx \<longrightarrow> (\<exists>h. cq_header (rx_cq r) (rx_cqci r + of_nat m) = Some h \<and> \<not> Owned (rx_cq r) (rx_cqci r + of_nat m) h)"
    using m(4) by auto
  ultimately show ?thesis using m le rdy by blast
qed

theorem rx_ReadyCount_counts_witness:
  "\<exists>r m. NewRx (demo_rx demo_good) = Some (Inr r) \<and> rx_ReadyCount 1000 r = Some m \<and> m \<le> unat (cq_entries (rx_cq r)) \<and> rx_Ready r = Some (0 < m)"
proof -
  obtain r where r: "NewRx (demo_rx demo_good) = Some (Inr r)" "rx_inv 7 r" by (rule demo_new [of demo_good]) simp
  from rx_ReadyCount_counts [OF r(2), of 1000 "[]" None] show ?thesis using r(1) by auto
qed

end
