(* ===== verification/Tick_Clock.thy ===== *)
theory Tick_Clock
  imports Packetio_Prelude
begin

text \<open>
  The conversion of a completion's tick counter to nanoseconds, \<^verbatim>\<open>mlx5/internal/clock/clock.go\<close>: a counter of a
  few dozen bits, extended over its wraps and scaled by \<open>Mult\<close> over \<open>2 ^ Shift\<close> in 128 bits.
\<close>

section \<open>The counter\<close>

record clock_info =
  ci_Mult :: u32
  ci_Shift :: u32
  ci_Mask :: u64

definition clock_OK :: "clock_info \<Rightarrow> bool" where
  "clock_OK i \<longleftrightarrow> ci_Mult i \<noteq> 0 \<and> ci_Mask i \<noteq> 0"

record counter =
  ck_info :: clock_info
  ck_last :: u64
  ck_wraps :: u64
  ck_begun :: bool

definition clock_New :: "clock_info \<Rightarrow> counter" where
  "clock_New i = \<lparr>ck_info = i, ck_last = 0, ck_wraps = 0, ck_begun = False\<rparr>"

text \<open>The full product of two 64-bit numbers, high word first.\<close>

definition Mul64 :: "u64 \<Rightarrow> u64 \<Rightarrow> u64 \<times> u64" where
  "Mul64 x y = (let p = unat x * unat y in (of_nat (p div 2 ^ 64), of_nat p))"

definition clock_NS :: "u64 \<Rightarrow> counter \<Rightarrow> u64 \<times> counter" where
  "clock_NS ticks c =
     (let i = ck_info c;
          raw = ticks AND ci_Mask i;
          wraps = (if ck_begun c \<and> raw < ck_last c \<and> ck_last c - raw > ci_Mask i div 2 then ck_wraps c + 1 else ck_wraps c);
          c' = c\<lparr>ck_wraps := wraps, ck_last := raw, ck_begun := True\<rparr>;
          (hi, lo) = Mul64 (wraps * (ci_Mask i + 1) + raw) (ucast (ci_Mult i))
      in if ci_Shift i = 0 then (lo, c')
         else (push_bit (unat (64 - ci_Shift i)) hi OR drop_bit (unat (ci_Shift i)) lo, c'))"

text \<open>The times of a sequence of completions.\<close>

fun clock_times :: "u64 list \<Rightarrow> counter \<Rightarrow> u64 list" where
  "clock_times [] c = []"
| "clock_times (t # ts) c = (let (ns, c') = clock_NS t c in ns # clock_times ts c')"

section \<open>Lemmas\<close>

text \<open>The two halves, shifted and joined, are the shifted product when that fits.\<close>

lemma shifted_product:
  assumes "unat x * unat y < 2 ^ (64 + s)" "s \<le> 63" "Mul64 x y = (hi, lo)"
  shows "s = 0 \<Longrightarrow> unat lo = unat x * unat y"
    and "0 < s \<Longrightarrow> unat (push_bit (64 - s) hi OR drop_bit s lo) = unat x * unat y div 2 ^ s"
proof -
  let ?p = "unat x * unat y"
  have hl: "hi = of_nat (?p div 2 ^ 64)" "lo = of_nat ?p" using assms(3) by (simp_all add: Mul64_def)
  show "unat lo = ?p" if "s = 0" using assms(1) that by (simp add: hl unat_word_ariths)
  assume s: "0 < s"
  have ph: "?p div 2 ^ 64 < 2 ^ s"
    using assms(1) by (simp add: less_mult_imp_div_less power_add mult.commute)
  have "(2 :: nat) ^ s \<le> 2 ^ 63" using assms(2) by (simp only: power_increasing_iff)
  then have uh: "unat hi = ?p div 2 ^ 64" using ph by (simp add: hl unsigned_of_nat take_bit_nat_eq_self)
  have ul: "unat lo = ?p mod 2 ^ 64" by (simp add: hl unat_word_ariths)
  have sp: "(2 :: nat) ^ s * 2 ^ (64 - s) = 2 ^ 64" using assms(2) by (simp add: power_add [symmetric])
  have a: "unat (push_bit (64 - s) hi) = ?p div 2 ^ 64 * 2 ^ (64 - s)"
  proof -
    have "?p div 2 ^ 64 * 2 ^ (64 - s) < 2 ^ s * 2 ^ (64 - s)" using ph by simp
    then have "?p div 2 ^ 64 * 2 ^ (64 - s) < 2 ^ 64" unfolding sp .
    then have "take_bit 64 (?p div 2 ^ 64 * 2 ^ (64 - s)) = ?p div 2 ^ 64 * 2 ^ (64 - s)" by (rule take_bit_nat_eq_self)
    then show ?thesis by (simp only: unsigned_push_bit_eq uh) (simp add: push_bit_eq_mult)
  qed
  have b: "unat (drop_bit s lo) = ?p mod 2 ^ 64 div 2 ^ s" by (simp add: unat_drop_bit ul)
  have lt: "?p mod 2 ^ 64 div 2 ^ s < 2 ^ (64 - s)"
    by (rule less_mult_imp_div_less) (simp only: mult.commute [of "2 ^ (64 - s)"] sp, simp)
  have "unat (push_bit (64 - s) hi OR drop_bit s lo) = push_bit (64 - s) (?p div 2 ^ 64) OR (?p mod 2 ^ 64 div 2 ^ s)"
    using a b by (simp add: unsigned_or_eq push_bit_eq_mult)
  also have "\<dots> = push_bit (64 - s) (?p div 2 ^ 64) + (?p mod 2 ^ 64 div 2 ^ s)"
  proof (rule disjunctive_add [symmetric])
    fix n
    show "\<not> bit (push_bit (64 - s) (?p div 2 ^ 64)) n \<or> \<not> bit (?p mod 2 ^ 64 div 2 ^ s) n"
    proof (cases "n < 64 - s")
      case False
      then have "(2 :: nat) ^ (64 - s) \<le> 2 ^ n" by (simp only: power_increasing_iff not_less)
      then have "?p mod 2 ^ 64 div 2 ^ s < 2 ^ n" using lt by linarith
      then show ?thesis by (simp add: bit_iff_odd)
    qed (simp add: bit_push_bit_iff)
  qed
  also have "\<dots> = ?p div 2 ^ s"
  proof -
    have "2 ^ s * (q * 2 ^ (64 - s)) = q * 2 ^ 64" for q :: nat by (simp only: mult.left_commute [of "2 ^ s"] sp)
    then have "?p = 2 ^ s * (?p div 2 ^ 64 * 2 ^ (64 - s)) + ?p mod 2 ^ 64"
      by (simp only: div_mult_mod_eq)
    then have "?p div 2 ^ s = ?p div 2 ^ 64 * 2 ^ (64 - s) + ?p mod 2 ^ 64 div 2 ^ s"
      by (metis div_mult_self2 add.commute power_not_zero zero_neq_numeral)
    then show ?thesis by (simp add: push_bit_eq_mult)
  qed
  finally show "unat (push_bit (64 - s) hi OR drop_bit s lo) = ?p div 2 ^ s" .
qed

text \<open>A clock whose mask is \<open>w\<close> ones, and the step between two readings that the counter can follow: ahead by at
  most half a period, or back by less than half a period without passing a wrap.\<close>

definition clock_width :: "nat \<Rightarrow> clock_info \<Rightarrow> bool" where
  "clock_width w i \<longleftrightarrow> 0 < w \<and> w \<le> 63 \<and> ci_Mask i = 2 ^ w - 1 \<and> unat (ci_Shift i) \<le> 63"

definition followed :: "nat \<Rightarrow> nat \<Rightarrow> nat \<Rightarrow> bool" where
  "followed w a b \<longleftrightarrow> (a \<le> b \<and> b - a \<le> 2 ^ (w - 1)) \<or> (b < a \<and> a - b < 2 ^ (w - 1) \<and> a div 2 ^ w = b div 2 ^ w)"

fun all_followed :: "nat \<Rightarrow> nat list \<Rightarrow> bool" where
  "all_followed w (a # b # ts) \<longleftrightarrow> followed w a b \<and> all_followed w (b # ts)"
| "all_followed w ts \<longleftrightarrow> True"

text \<open>What the clock should read at tick \<open>t\<close>, counted from the period of the first tick.\<close>

definition clock_ideal :: "nat \<Rightarrow> clock_info \<Rightarrow> nat \<Rightarrow> nat \<Rightarrow> nat" where
  "clock_ideal w i t0 t = (t - t0 div 2 ^ w * 2 ^ w) * unat (ci_Mult i) div 2 ^ unat (ci_Shift i)"

definition clock_at :: "nat \<Rightarrow> nat \<Rightarrow> nat \<Rightarrow> counter \<Rightarrow> bool" where
  "clock_at w t0 t c \<longleftrightarrow> ck_begun c \<and> unat (ck_last c) = t mod 2 ^ w \<and> t0 div 2 ^ w \<le> t div 2 ^ w
     \<and> unat (ck_wraps c) = t div 2 ^ w - t0 div 2 ^ w"

lemma clock_mask:
  assumes "clock_width w i"
  shows "unat (of_nat t AND ci_Mask i) = t mod 2 ^ w" "unat (ci_Mask i div 2) = 2 ^ (w - 1) - 1" "unat (ci_Mask i + 1) = 2 ^ w"
proof -
  have w: "0 < w" "w \<le> 63" "ci_Mask i = 2 ^ w - 1" using assms by (simp_all add: clock_width_def)
  have "(2 :: nat) ^ w \<le> 2 ^ 63" using w(2) by (simp only: power_increasing_iff)
  then have lt: "(2 :: nat) ^ w < 2 ^ LENGTH(64)" by simp
  have p: "unat (2 ^ w :: u64) = 2 ^ w"
  proof -
    have "unat (of_nat (2 ^ w) :: u64) = 2 ^ w" using lt by (simp only: unsigned_of_nat take_bit_nat_eq_self of_nat_id)
    then show ?thesis by simp
  qed
  have "unat (of_nat t AND ci_Mask i) = take_bit 64 t mod 2 ^ w" unfolding w(3) using w(2)
    by (subst unat_and_mask) (simp_all add: unsigned_of_nat)
  then show "unat (of_nat t AND ci_Mask i) = t mod 2 ^ w" using w(2)
    by (simp add: take_bit_eq_mod mod_mod_cancel le_imp_power_dvd del: power_numeral)
  have m: "unat (ci_Mask i) = 2 ^ w - 1" unfolding w(3) using p by (subst unat_sub) (simp_all add: word_le_nat_alt)
  obtain v where v: "w = Suc v" using w(1) by (cases w) auto
  have "(2 * 2 ^ v - 1 :: nat) div 2 = 2 ^ v - 1" by (cases "2 ^ v :: nat") auto
  then show "unat (ci_Mask i div 2) = 2 ^ (w - 1) - 1" using m by (simp add: unat_div v)
  show "unat (ci_Mask i + 1) = 2 ^ w" using p w(3) by simp
qed

text \<open>The period the next reading is in.\<close>

lemma followed_wrap:
  assumes "0 < w" "followed w a b"
  shows "b div 2 ^ w = a div 2 ^ w + (if b mod 2 ^ w < a mod 2 ^ w \<and> a mod 2 ^ w - b mod 2 ^ w > 2 ^ (w - 1) - 1 then 1 else 0)"
proof -
  define h :: nat where "h = 2 ^ (w - 1)"
  have P: "(2 :: nat) ^ w = 2 * h" using assms(1) by (cases w) (simp_all add: h_def)
  have h: "0 < h" by (simp add: h_def)
  define q r where "q = a div 2 ^ w" and "r = a mod 2 ^ w"
  have a: "a = q * (2 * h) + r" "r < 2 * h" using h unfolding q_def r_def P by (simp_all add: div_mult_mod_eq)
  define q' r' where "q' = b div 2 ^ w" and "r' = b mod 2 ^ w"
  have b: "b = q' * (2 * h) + r'" "r' < 2 * h" using h unfolding q'_def r'_def P by (simp_all add: div_mult_mod_eq)
  show ?thesis
  proof (cases "a \<le> b")
    case True
    then have d: "b \<le> a + h" using assms(2) by (auto simp: followed_def h_def)
    have "q \<le> q'" unfolding q_def q'_def using True by (rule div_le_mono)
    moreover have "q' \<le> q + 1"
    proof (rule ccontr)
      assume "\<not> q' \<le> q + 1"
      then have "(q + 2) * (2 * h) \<le> q' * (2 * h)" by (intro mult_le_mono1) simp
      then show False using a b d h by (simp add: algebra_simps)
    qed
    ultimately consider "q' = q" | "q' = q + 1" by linarith
    then show ?thesis
    proof cases
      case 1
      then have "r \<le> r'" using a b True by simp
      then show ?thesis using 1 by (simp add: q_def q'_def r_def r'_def)
    next
      case 2
      then have "b = a + (2 * h + r' - r)" using a b by (simp add: algebra_simps)
      then have "r' + h \<le> r" using d a(2) by linarith
      then have "r' < r \<and> r - r' > h - 1" using h by linarith
      then show ?thesis using 2 by (simp add: q_def q'_def r_def r'_def h_def)
    qed
  next
    case False
    then have f: "a - b < h" "q = q'" using assms(2) by (auto simp: followed_def h_def q_def q'_def)
    then have "r - r' < h" "r' < r" using a b False by simp_all
    then have "\<not> r - r' > h - 1" by linarith
    then show ?thesis using f(2) by (simp add: q_def q'_def r_def r'_def h_def)
  qed
qed

lemma clock_scale:
  assumes i: "clock_width w i" and fit: "(t - t0 div 2 ^ w * 2 ^ w) * unat (ci_Mult i) < 2 ^ (64 + unat (ci_Shift i))" "t < 2 ^ 64"
    and le: "t0 div 2 ^ w \<le> t div 2 ^ w" and wr: "unat wr = t div 2 ^ w - t0 div 2 ^ w" and raw: "unat raw = t mod 2 ^ w"
    and m: "Mul64 (wr * (ci_Mask i + 1) + raw) (ucast (ci_Mult i)) = (hi, lo)"
  shows "unat (if ci_Shift i = 0 then lo else push_bit (unat (64 - ci_Shift i)) hi OR drop_bit (unat (ci_Shift i)) lo) = clock_ideal w i t0 t"
proof -
  let ?s = "unat (ci_Shift i)"
  have s: "?s \<le> 63" using i by (simp add: clock_width_def)
  have split: "(t div 2 ^ w - t0 div 2 ^ w) * 2 ^ w + t mod 2 ^ w = t - t0 div 2 ^ w * 2 ^ w"
  proof -
    have "t0 div 2 ^ w * 2 ^ w \<le> t div 2 ^ w * 2 ^ w" using le by simp
    then show ?thesis using div_mult_mod_eq [of t "2 ^ w"] by (simp add: diff_mult_distrib)
  qed
  have "(unat wr * 2 ^ w + unat raw) < 2 ^ LENGTH(64)" unfolding wr raw split using fit(2) by simp
  then have "unat (wr * M + raw) = unat wr * unat M + unat raw" if "unat M = 2 ^ w" for M :: u64
    using that by (simp add: unat_word_ariths)
  from this [OF clock_mask(3) [OF i]] have x: "unat (wr * (ci_Mask i + 1) + raw) = t - t0 div 2 ^ w * 2 ^ w"
    unfolding split [symmetric] wr [symmetric] raw [symmetric] clock_mask(3) [OF i] .
  have y: "unat (ucast (ci_Mult i) :: u64) = unat (ci_Mult i)" by (simp add: unat_ucast_up)
  have p: "unat (wr * (ci_Mask i + 1) + raw) * unat (ucast (ci_Mult i) :: u64) < 2 ^ (64 + ?s)" using fit(1) x y by simp
  have "unat (64 - ci_Shift i) = 64 - ?s" using s by (subst unat_sub) (simp_all add: word_le_nat_alt)
  then show ?thesis using shifted_product [OF p s m] x y by (cases "?s = 0") (simp_all add: clock_ideal_def unat_eq_0 unat_gt_0)
qed

lemma clock_NS_step:
  assumes "clock_width w (ck_info c)" "ck_begun c \<longrightarrow> clock_at w t0 a c \<and> followed w a t" "\<not> ck_begun c \<longrightarrow> ck_wraps c = 0 \<and> t = t0"
    and "t < 2 ^ 64" "(t - t0 div 2 ^ w * 2 ^ w) * unat (ci_Mult (ck_info c)) < 2 ^ (64 + unat (ci_Shift (ck_info c)))"
  shows "\<exists>ns c'. clock_NS (of_nat t) c = (ns, c') \<and> unat ns = clock_ideal w (ck_info c) t0 t \<and> clock_at w t0 t c' \<and> ck_info c' = ck_info c"
proof -
  let ?i = "ck_info c"
  define raw where "raw = (of_nat t AND ci_Mask ?i :: u64)"
  have raw: "unat raw = t mod 2 ^ w" unfolding raw_def by (rule clock_mask(1) [OF assms(1)])
  define b where "b \<longleftrightarrow> ck_begun c \<and> raw < ck_last c \<and> ck_last c - raw > ci_Mask ?i div 2"
  define wr where "wr = (if b then ck_wraps c + 1 else ck_wraps c)"
  have w: "0 < w" using assms(1) by (simp add: clock_width_def)
  have wr: "unat wr = t div 2 ^ w - t0 div 2 ^ w" and le: "t0 div 2 ^ w \<le> t div 2 ^ w"
  proof -
    show "t0 div 2 ^ w \<le> t div 2 ^ w" "unat wr = t div 2 ^ w - t0 div 2 ^ w"
    proof (atomize (full), cases "ck_begun c")
      case False
      then show "t0 div 2 ^ w \<le> t div 2 ^ w \<and> unat wr = t div 2 ^ w - t0 div 2 ^ w" using assms(3) by (simp add: wr_def b_def)
    next
      case True
      then have at: "unat (ck_last c) = a mod 2 ^ w" "t0 div 2 ^ w \<le> a div 2 ^ w" "unat (ck_wraps c) = a div 2 ^ w - t0 div 2 ^ w"
        and f: "followed w a t" using assms(2) by (simp_all add: clock_at_def)
      have "b \<longleftrightarrow> t mod 2 ^ w < a mod 2 ^ w \<and> a mod 2 ^ w - t mod 2 ^ w > 2 ^ (w - 1) - 1"
        using True at(1) raw clock_mask(2) [OF assms(1)] by (auto simp: b_def word_less_nat_alt unat_sub word_le_nat_alt)
      then have d: "t div 2 ^ w = a div 2 ^ w + (if b then 1 else 0)" using followed_wrap [OF w f] by simp
      have "t div 2 ^ w < 2 ^ 64" using assms(4) by (rule le_less_trans [OF div_le_dividend])
      then have "unat (ck_wraps c) + 1 < 2 ^ 64" if b using at(3) d that w by simp
      then show "t0 div 2 ^ w \<le> t div 2 ^ w \<and> unat wr = t div 2 ^ w - t0 div 2 ^ w"
        using at(2,3) d by (auto simp: wr_def unat_plus_exact)
    qed
  qed
  define c' where "c' = c\<lparr>ck_wraps := wr, ck_last := raw, ck_begun := True\<rparr>"
  obtain hi lo where m: "Mul64 (wr * (ci_Mask ?i + 1) + raw) (ucast (ci_Mult ?i)) = (hi, lo)" by (cases "Mul64 (wr * (ci_Mask ?i + 1) + raw) (ucast (ci_Mult ?i))")
  have "clock_NS (of_nat t) c = (if ci_Shift ?i = 0 then lo else push_bit (unat (64 - ci_Shift ?i)) hi OR drop_bit (unat (ci_Shift ?i)) lo, c')"
    unfolding clock_NS_def Let_def raw_def [symmetric] b_def [symmetric] wr_def [symmetric] c'_def [symmetric] m by simp
  moreover have "clock_at w t0 t c'" using raw wr le by (simp add: clock_at_def c'_def)
  ultimately show ?thesis using clock_scale [OF assms(1,5,4) le wr raw m] by (simp add: c'_def)
qed

text \<open>What readings of one clock must stay under so that the nanoseconds fit 64 bits.\<close>

definition clock_fits :: "nat \<Rightarrow> clock_info \<Rightarrow> nat list \<Rightarrow> bool" where
  "clock_fits w i ts \<longleftrightarrow> (\<forall>t \<in> set ts. t < 2 ^ 64 \<and> t * unat (ci_Mult i) < 2 ^ (64 + unat (ci_Shift i)))"

lemma clock_fits_sub: "t * m < (x :: nat) \<Longrightarrow> (t - d) * m < x"
  by (rule le_less_trans [OF mult_le_mono1]) simp_all

lemma clock_times_follow:
  assumes "clock_width w (ck_info c)" "clock_at w t0 a c" "all_followed w (a # ts)" "clock_fits w (ck_info c) ts"
  shows "map unat (clock_times (map of_nat ts) c) = map (clock_ideal w (ck_info c) t0) ts"
  using assms
proof (induction ts arbitrary: a c)
  case (Cons t ts)
  have fit: "t < 2 ^ 64" "(t - t0 div 2 ^ w * 2 ^ w) * unat (ci_Mult (ck_info c)) < 2 ^ (64 + unat (ci_Shift (ck_info c)))"
    using Cons.prems(4) clock_fits_sub by (auto simp: clock_fits_def)
  have "ck_begun c" using Cons.prems(2) by (simp add: clock_at_def)
  then obtain ns c' where s: "clock_NS (of_nat t) c = (ns, c')" "unat ns = clock_ideal w (ck_info c) t0 t" "clock_at w t0 t c'" "ck_info c' = ck_info c"
    using clock_NS_step [OF Cons.prems(1) _ _ fit, of a] Cons.prems(2,3) by auto
  have "clock_width w (ck_info c')" "all_followed w (t # ts)" "clock_fits w (ck_info c') ts"
    using Cons.prems s(4) by (simp_all add: clock_fits_def)
  from Cons.IH [OF this(1) s(3) this(2,3)] show ?case using s by simp
qed simp

section \<open>Properties\<close>



text \<open>A packet that is late across a wrap is not followed: it reads a period early by the counter's own account, that
  is a whole period into the future, and every later packet keeps that error.\<close>

theorem clock_late_across_wrap:
  "map unat (clock_times (map of_nat [250, 257, 255, 258]) (clock_New \<lparr>ci_Mult = 1, ci_Shift = 0, ci_Mask = 255\<rparr>)) = [250, 257, 511, 514]"
  by (simp add: clock_New_def clock_NS_def Mul64_def Let_def)

end
