(* ===== verification/Steering.thy ===== *)
theory Steering
  imports Packetio_Prelude
begin

text \<open>
  Steering filters, \<^verbatim>\<open>match.go\<close>: the checks of \<open>Validate\<close> and the expansion of a filter into the rules a backend
  installs, against what a filter means on a packet.
\<close>

section \<open>Filters and rules\<close>

datatype match_kind = MatchKindDstMAC | MatchKindVLAN | MatchKindEtherType | MatchKindIPProto | MatchKindSrcIP | MatchKindDstIP
  | MatchKindSrcPort | MatchKindDstPort | MatchKindOther u8

definition IPProtoTCP :: u8 where "IPProtoTCP = 6"
definition IPProtoUDP :: u8 where "IPProtoUDP = 17"
definition MaxVLAN :: u16 where "MaxVLAN = 4095"
definition MaxRules :: nat where "MaxRules = 16"

text \<open>An address prefix of the standard library; the zero value holds no address.\<close>

datatype ip_addr = NoAddr | IPv4 "32 word" | IPv6 "128 word"

record ip_prefix =
  px_addr :: ip_addr
  px_bits :: int

definition prefix_IsValid :: "ip_prefix \<Rightarrow> bool" where
  "prefix_IsValid p = (case px_addr p of NoAddr \<Rightarrow> False | IPv4 _ \<Rightarrow> 0 \<le> px_bits p \<and> px_bits p \<le> 32 | IPv6 _ \<Rightarrow> 0 \<le> px_bits p \<and> px_bits p \<le> 128)"

definition no_prefix :: ip_prefix where
  "no_prefix = \<lparr>px_addr = NoAddr, px_bits = 0\<rparr>"

record match =
  m_Kind :: match_kind
  m_MAC :: bytes
  m_VLAN :: u16
  m_EtherType :: u16
  m_IPProto :: u8
  m_Port :: u16
  m_Prefix :: ip_prefix

definition zero_match :: "match_kind \<Rightarrow> match" where
  "zero_match k = \<lparr>m_Kind = k, m_MAC = replicate 6 0, m_VLAN = 0, m_EtherType = 0, m_IPProto = 0, m_Port = 0, m_Prefix = no_prefix\<rparr>"

definition MatchDstMAC :: "bytes \<Rightarrow> match" where
  "MatchDstMAC mac = (zero_match MatchKindDstMAC)\<lparr>m_MAC := mac\<rparr>"

definition MatchVLAN :: "u16 \<Rightarrow> match" where
  "MatchVLAN i = (zero_match MatchKindVLAN)\<lparr>m_VLAN := i\<rparr>"

definition MatchEtherType :: "u16 \<Rightarrow> match" where
  "MatchEtherType t = (zero_match MatchKindEtherType)\<lparr>m_EtherType := t\<rparr>"

definition MatchIPProto :: "u8 \<Rightarrow> match" where
  "MatchIPProto p = (zero_match MatchKindIPProto)\<lparr>m_IPProto := p\<rparr>"

definition MatchSrcIP :: "ip_prefix \<Rightarrow> match" where
  "MatchSrcIP p = (zero_match MatchKindSrcIP)\<lparr>m_Prefix := p\<rparr>"

definition MatchDstIP :: "ip_prefix \<Rightarrow> match" where
  "MatchDstIP p = (zero_match MatchKindDstIP)\<lparr>m_Prefix := p\<rparr>"

definition MatchSrcPort :: "u8 \<Rightarrow> u16 \<Rightarrow> match list" where
  "MatchSrcPort proto port = [MatchIPProto proto, (zero_match MatchKindSrcPort)\<lparr>m_IPProto := proto, m_Port := port\<rparr>]"

definition MatchDstPort :: "u8 \<Rightarrow> u16 \<Rightarrow> match list" where
  "MatchDstPort proto port = [MatchIPProto proto, (zero_match MatchKindDstPort)\<lparr>m_IPProto := proto, m_Port := port\<rparr>]"

record steering_filter =
  sf_Match :: "match list"
  sf_Promiscuous :: bool

datatype filter_error = PromiscuousMatch | TwoProtocols u8 u8 | PortProtocol u8 u8 | BadPrefix ip_prefix | BadVLAN u16 | ZeroEtherType
  | UnknownKind match_kind | PortWithoutProtocol | TooManyRules nat

text \<open>The locals of the loop of \<open>Validate\<close>: the protocol, when one is set, and whether a port is asked for.\<close>

fun validate_loop :: "match list \<Rightarrow> u8 option \<Rightarrow> bool \<Rightarrow> filter_error + u8 option \<times> bool" where
  "validate_loop [] proto wantPort = Inr (proto, wantPort)"
| "validate_loop (m # ms) proto wantPort =
     (case m_Kind m of
        MatchKindIPProto \<Rightarrow>
          (case proto of
             Some p \<Rightarrow> if p \<noteq> m_IPProto m then Inl (TwoProtocols p (m_IPProto m)) else validate_loop ms (Some (m_IPProto m)) wantPort
           | None \<Rightarrow> validate_loop ms (Some (m_IPProto m)) wantPort)
      | MatchKindSrcPort \<Rightarrow>
          (if m_IPProto m \<noteq> 0
           then case proto of
                  Some p \<Rightarrow> if p \<noteq> m_IPProto m then Inl (PortProtocol (m_IPProto m) p) else validate_loop ms (Some (m_IPProto m)) True
                | None \<Rightarrow> validate_loop ms (Some (m_IPProto m)) True
           else validate_loop ms proto True)
      | MatchKindDstPort \<Rightarrow>
          (if m_IPProto m \<noteq> 0
           then case proto of
                  Some p \<Rightarrow> if p \<noteq> m_IPProto m then Inl (PortProtocol (m_IPProto m) p) else validate_loop ms (Some (m_IPProto m)) True
                | None \<Rightarrow> validate_loop ms (Some (m_IPProto m)) True
           else validate_loop ms proto True)
      | MatchKindSrcIP \<Rightarrow> if \<not> prefix_IsValid (m_Prefix m) then Inl (BadPrefix (m_Prefix m)) else validate_loop ms proto wantPort
      | MatchKindDstIP \<Rightarrow> if \<not> prefix_IsValid (m_Prefix m) then Inl (BadPrefix (m_Prefix m)) else validate_loop ms proto wantPort
      | MatchKindVLAN \<Rightarrow> if m_VLAN m > MaxVLAN then Inl (BadVLAN (m_VLAN m)) else validate_loop ms proto wantPort
      | MatchKindDstMAC \<Rightarrow> validate_loop ms proto wantPort
      | MatchKindEtherType \<Rightarrow> if m_EtherType m = 0 then Inl ZeroEtherType else validate_loop ms proto wantPort
      | MatchKindOther k \<Rightarrow> Inl (UnknownKind (MatchKindOther k)))"

definition Validate :: "steering_filter \<Rightarrow> filter_error option" where
  "Validate f =
     (if sf_Promiscuous f \<and> length (sf_Match f) > 0 then Some PromiscuousMatch
      else case validate_loop (sf_Match f) None False of
        Inl e \<Rightarrow> Some e
      | Inr (proto, wantPort) \<Rightarrow> if wantPort \<and> proto = None then Some PortWithoutProtocol else None)"

record rule =
  r_MAC :: bytes
  r_MACSet :: bool
  r_VLAN :: u16
  r_VLANSet :: bool
  r_EtherType :: u16
  r_IPProto :: u8
  r_IPProtoSet :: bool
  r_SrcPrefix :: ip_prefix
  r_DstPrefix :: ip_prefix
  r_SrcPort :: u16
  r_DstPort :: u16
  r_SrcPortSet :: bool
  r_DstPortSet :: bool
  r_Promiscuous :: bool

definition zero_rule :: rule where
  "zero_rule = \<lparr>r_MAC = replicate 6 0, r_MACSet = False, r_VLAN = 0, r_VLANSet = False, r_EtherType = 0, r_IPProto = 0, r_IPProtoSet = False,
     r_SrcPrefix = no_prefix, r_DstPrefix = no_prefix, r_SrcPort = 0, r_DstPort = 0, r_SrcPortSet = False, r_DstPortSet = False,
     r_Promiscuous = False\<rparr>"

definition expandRules :: "rule list \<Rightarrow> nat \<Rightarrow> (rule \<Rightarrow> nat \<Rightarrow> rule) \<Rightarrow> rule list" where
  "expandRules rs n put =
     (if n = 0 \<or> length rs > MaxRules then rs
      else concat (map (\<lambda>r. map (put r) [0..<n]) rs))"

fun dedupe_from :: "u8 list \<Rightarrow> u8 list \<Rightarrow> u8 list \<Rightarrow> u8 list" where
  "dedupe_from [] seen out = out"
| "dedupe_from (v # vs) seen out =
     (if v \<notin> set seen then dedupe_from vs (v # seen) (out @ [v]) else dedupe_from vs seen out)"

definition dedupe :: "u8 list \<Rightarrow> u8 list" where
  "dedupe vs = (if length vs < 2 then vs else dedupe_from vs [] [])"

text \<open>The alternatives of each kind, in the order of the filter.\<close>

definition of_kind :: "match_kind \<Rightarrow> (match \<Rightarrow> 'a) \<Rightarrow> match list \<Rightarrow> 'a list" where
  "of_kind k get ms = map get (filter (\<lambda>m. m_Kind m = k) ms)"

definition rules_of :: "match list \<Rightarrow> rule list" where
  "rules_of ms =
     (let macs = of_kind MatchKindDstMAC m_MAC ms;
          vlans = of_kind MatchKindVLAN m_VLAN ms;
          etherTypes = of_kind MatchKindEtherType m_EtherType ms;
          protos = dedupe (of_kind MatchKindIPProto m_IPProto ms);
          dstPorts = of_kind MatchKindDstPort m_Port ms;
          srcPorts = of_kind MatchKindSrcPort m_Port ms;
          srcNets = of_kind MatchKindSrcIP m_Prefix ms;
          dstNets = of_kind MatchKindDstIP m_Prefix ms;
          rs = [zero_rule];
          rs = expandRules rs (length macs) (\<lambda>r i. r\<lparr>r_MAC := macs ! i, r_MACSet := True\<rparr>);
          rs = expandRules rs (length vlans) (\<lambda>r i. r\<lparr>r_VLAN := vlans ! i, r_VLANSet := True\<rparr>);
          rs = expandRules rs (length etherTypes) (\<lambda>r i. r\<lparr>r_EtherType := etherTypes ! i\<rparr>);
          rs = expandRules rs (length protos) (\<lambda>r i. r\<lparr>r_IPProto := protos ! i, r_IPProtoSet := True\<rparr>);
          rs = expandRules rs (length dstPorts) (\<lambda>r i. r\<lparr>r_DstPort := dstPorts ! i, r_DstPortSet := True\<rparr>);
          rs = expandRules rs (length srcPorts) (\<lambda>r i. r\<lparr>r_SrcPort := srcPorts ! i, r_SrcPortSet := True\<rparr>);
          rs = expandRules rs (length srcNets) (\<lambda>r i. r\<lparr>r_SrcPrefix := srcNets ! i\<rparr>)
      in expandRules rs (length dstNets) (\<lambda>r i. r\<lparr>r_DstPrefix := dstNets ! i\<rparr>))"

definition known_kind :: "match \<Rightarrow> bool" where
  "known_kind m = (case m_Kind m of MatchKindOther _ \<Rightarrow> False | _ \<Rightarrow> True)"

definition filter_Rules :: "steering_filter \<Rightarrow> filter_error + rule list" where
  "filter_Rules f =
     (case Validate f of
        Some e \<Rightarrow> Inl e
      | None \<Rightarrow>
        if sf_Promiscuous f then Inr [zero_rule\<lparr>r_Promiscuous := True\<rparr>]
        else case filter (\<lambda>m. \<not> known_kind m) (sf_Match f) of
          m # _ \<Rightarrow> Inl (UnknownKind (m_Kind m))
        | [] \<Rightarrow> let rs = rules_of (sf_Match f)
                in if length rs > MaxRules then Inl (TooManyRules (length rs)) else Inr rs)"

section \<open>What a filter means\<close>

text \<open>The fields of a packet that can be matched on; a field the packet does not have is \<open>None\<close>.\<close>

record packet =
  p_mac :: bytes
  p_vlan :: "u16 option"
  p_ethertype :: u16
  p_proto :: "u8 option"
  p_src :: ip_addr
  p_dst :: ip_addr
  p_sport :: "u16 option"
  p_dport :: "u16 option"

definition prefix_Contains :: "ip_prefix \<Rightarrow> ip_addr \<Rightarrow> bool" where
  "prefix_Contains p a =
     (case (px_addr p, a) of
        (IPv4 x, IPv4 y) \<Rightarrow> drop_bit (32 - nat (px_bits p)) x = drop_bit (32 - nat (px_bits p)) y
      | (IPv6 x, IPv6 y) \<Rightarrow> drop_bit (128 - nat (px_bits p)) x = drop_bit (128 - nat (px_bits p)) y
      | _ \<Rightarrow> False)"

definition match_holds :: "packet \<Rightarrow> match \<Rightarrow> bool" where
  "match_holds p m =
     (case m_Kind m of
        MatchKindDstMAC \<Rightarrow> p_mac p = m_MAC m
      | MatchKindVLAN \<Rightarrow> p_vlan p = Some (m_VLAN m)
      | MatchKindEtherType \<Rightarrow> p_ethertype p = m_EtherType m
      | MatchKindIPProto \<Rightarrow> p_proto p = Some (m_IPProto m)
      | MatchKindSrcIP \<Rightarrow> prefix_Contains (m_Prefix m) (p_src p)
      | MatchKindDstIP \<Rightarrow> prefix_Contains (m_Prefix m) (p_dst p)
      | MatchKindSrcPort \<Rightarrow> (m_IPProto m = 0 \<or> p_proto p = Some (m_IPProto m)) \<and> p_sport p = Some (m_Port m)
      | MatchKindDstPort \<Rightarrow> (m_IPProto m = 0 \<or> p_proto p = Some (m_IPProto m)) \<and> p_dport p = Some (m_Port m)
      | MatchKindOther _ \<Rightarrow> False)"

text \<open>Different kinds are conditions; repeated matches of one kind are alternatives. This is the meaning of a filter that
  says something: the zero filter, with neither matches nor \<open>Promiscuous\<close>, asks for the backend's own default.\<close>

definition zero_filter :: "steering_filter \<Rightarrow> bool" where
  "zero_filter f \<longleftrightarrow> sf_Match f = [] \<and> \<not> sf_Promiscuous f"

definition filter_takes :: "steering_filter \<Rightarrow> packet \<Rightarrow> bool" where
  "filter_takes f p \<longleftrightarrow> sf_Promiscuous f
     \<or> (\<forall>m \<in> set (sf_Match f). \<exists>m' \<in> set (sf_Match f). m_Kind m' = m_Kind m \<and> match_holds p m')"

text \<open>Every set field of a rule must hold.\<close>

definition rule_takes :: "packet \<Rightarrow> rule \<Rightarrow> bool" where
  "rule_takes p r \<longleftrightarrow> r_Promiscuous r
     \<or> ((r_MACSet r \<longrightarrow> p_mac p = r_MAC r) \<and> (r_VLANSet r \<longrightarrow> p_vlan p = Some (r_VLAN r))
        \<and> (r_EtherType r \<noteq> 0 \<longrightarrow> p_ethertype p = r_EtherType r) \<and> (r_IPProtoSet r \<longrightarrow> p_proto p = Some (r_IPProto r))
        \<and> (prefix_IsValid (r_SrcPrefix r) \<longrightarrow> prefix_Contains (r_SrcPrefix r) (p_src p))
        \<and> (prefix_IsValid (r_DstPrefix r) \<longrightarrow> prefix_Contains (r_DstPrefix r) (p_dst p))
        \<and> (r_SrcPortSet r \<longrightarrow> p_sport p = Some (r_SrcPort r)) \<and> (r_DstPortSet r \<longrightarrow> p_dport p = Some (r_DstPort r)))"

text \<open>A port match comes with a match of its protocol, as the constructors build them.\<close>

definition ports_with_proto :: "match list \<Rightarrow> bool" where
  "ports_with_proto ms \<longleftrightarrow> (\<forall>m \<in> set ms. m_Kind m = MatchKindSrcPort \<or> m_Kind m = MatchKindDstPort
     \<longrightarrow> (\<exists>m' \<in> set ms. m_Kind m' = MatchKindIPProto))"

section \<open>Validation\<close>

text \<open>What a match must satisfy in a filter whose protocol is \<open>proto\<close>.\<close>

definition match_ok :: "u8 option \<Rightarrow> match \<Rightarrow> bool" where
  "match_ok proto m =
     (case m_Kind m of
        MatchKindIPProto \<Rightarrow> proto = Some (m_IPProto m)
      | MatchKindSrcPort \<Rightarrow> m_IPProto m = 0 \<or> proto = Some (m_IPProto m)
      | MatchKindDstPort \<Rightarrow> m_IPProto m = 0 \<or> proto = Some (m_IPProto m)
      | MatchKindSrcIP \<Rightarrow> prefix_IsValid (m_Prefix m)
      | MatchKindDstIP \<Rightarrow> prefix_IsValid (m_Prefix m)
      | MatchKindVLAN \<Rightarrow> m_VLAN m \<le> MaxVLAN
      | MatchKindDstMAC \<Rightarrow> True
      | MatchKindEtherType \<Rightarrow> m_EtherType m \<noteq> 0
      | MatchKindOther _ \<Rightarrow> False)"

definition is_port :: "match \<Rightarrow> bool" where
  "is_port m \<longleftrightarrow> m_Kind m = MatchKindSrcPort \<or> m_Kind m = MatchKindDstPort"

lemma validate_loop_sound:
  "validate_loop ms pr w = Inr (pr', w') \<Longrightarrow>
     (\<forall>m \<in> set ms. match_ok pr' m) \<and> (pr \<noteq> None \<longrightarrow> pr' = pr) \<and> (w' \<longleftrightarrow> w \<or> (\<exists>m \<in> set ms. is_port m))
     \<and> (pr = None \<and> pr' \<noteq> None \<longrightarrow> (\<exists>m \<in> set ms. m_Kind m = MatchKindIPProto \<or> is_port m \<and> m_IPProto m \<noteq> 0))"
proof (induction ms pr w rule: validate_loop.induct)
  case (2 m ms pr w)
  then show ?case
    by (cases "m_Kind m"; cases pr) (auto simp: match_ok_def is_port_def split: if_splits)
qed auto

lemma validate_loop_complete:
  assumes "\<forall>m \<in> set ms. match_ok q m" "pr = None \<or> pr = q"
  shows "\<exists>pr' w'. validate_loop ms pr w = Inr (pr', w') \<and> (pr' = None \<or> pr' = q)
     \<and> ((\<exists>m \<in> set ms. (m_Kind m = MatchKindIPProto) \<or> is_port m \<and> m_IPProto m \<noteq> 0) \<longrightarrow> pr' \<noteq> None) \<and> (pr \<noteq> None \<longrightarrow> pr' \<noteq> None)"
  using assms
proof (induction ms arbitrary: pr w)
  case (Cons m ms)
  have IH: "\<exists>pr' w'. validate_loop ms x v = Inr (pr', w') \<and> (pr' = None \<or> pr' = q)
     \<and> ((\<exists>m \<in> set ms. (m_Kind m = MatchKindIPProto) \<or> is_port m \<and> m_IPProto m \<noteq> 0) \<longrightarrow> pr' \<noteq> None) \<and> (x \<noteq> None \<longrightarrow> pr' \<noteq> None)"
    if "x = None \<or> x = q" for x v using Cons.IH [OF _ that] Cons.prems(1) by simp
  show ?case
    using Cons.prems IH [of None w] IH [of q w] IH [of None True] IH [of q True]
    by (cases "m_Kind m"; cases pr; cases q) (auto simp: match_ok_def is_port_def not_less)
qed auto

section \<open>Expansion\<close>

text \<open>The full product, which \<open>expandRules\<close> is as long as the rules so far are within the limit.\<close>

definition product_rules :: "rule list \<Rightarrow> 'a list \<Rightarrow> (rule \<Rightarrow> 'a \<Rightarrow> rule) \<Rightarrow> rule list" where
  "product_rules rs vs put = (if vs = [] then rs else concat (map (\<lambda>r. map (put r) vs) rs))"

lemma expandRules_product:
  "length rs \<le> MaxRules \<Longrightarrow> expandRules rs (length vs) (\<lambda>r i. put r (vs ! i)) = product_rules rs vs put"
proof -
  assume le: "length rs \<le> MaxRules"
  have "map (\<lambda>i. put r (vs ! i)) [0..<length vs] = map (put r) vs" for r
    by (rule nth_equalityI) simp_all
  then show ?thesis using le by (simp add: expandRules_def product_rules_def)
qed

lemma expandRules_mono: "length rs \<le> length (expandRules rs n put)"
proof (cases "n = 0 \<or> length rs > MaxRules")
  case False
  then have "length (expandRules rs n put) = length rs * n"
    by (simp add: expandRules_def length_concat sum_list_triv comp_def mult.commute)
  then show ?thesis using False by simp
qed (auto simp: expandRules_def)

lemma product_takes:
  assumes "\<And>r v. r \<in> set rs \<Longrightarrow> v \<in> set vs \<Longrightarrow> takes (put r v) \<longleftrightarrow> takes r \<and> c v"
  shows "(\<exists>r \<in> set (product_rules rs vs put). takes r) \<longleftrightarrow> (\<exists>r \<in> set rs. takes r) \<and> (vs = [] \<or> (\<exists>v \<in> set vs. c v))"
  using assms by (auto simp: product_rules_def)

lemma dedupe_set: "set (dedupe vs) = set vs"
proof -
  have "set seen \<subseteq> set out \<Longrightarrow> set (dedupe_from vs seen out) = set vs \<union> set out" for seen out
    by (induction vs seen out rule: dedupe_from.induct) auto
  then show ?thesis by (simp add: dedupe_def)
qed

text \<open>The fields of a rule the first \<open>n\<close> stages of the expansion have not set yet.\<close>

definition unset :: "nat \<Rightarrow> rule \<Rightarrow> bool" where
  "unset n r \<longleftrightarrow> \<not> r_Promiscuous r \<and> (n < 1 \<longrightarrow> \<not> r_MACSet r) \<and> (n < 2 \<longrightarrow> \<not> r_VLANSet r) \<and> (n < 3 \<longrightarrow> r_EtherType r = 0)
     \<and> (n < 4 \<longrightarrow> \<not> r_IPProtoSet r) \<and> (n < 5 \<longrightarrow> \<not> r_DstPortSet r) \<and> (n < 6 \<longrightarrow> \<not> r_SrcPortSet r)
     \<and> (n < 7 \<longrightarrow> \<not> prefix_IsValid (r_SrcPrefix r)) \<and> (n < 8 \<longrightarrow> \<not> prefix_IsValid (r_DstPrefix r))"

text \<open>The rules after \<open>n\<close> stages take a packet exactly when the alternatives so far, \<open>c\<close>, allow it.\<close>

definition staged :: "packet \<Rightarrow> nat \<Rightarrow> bool \<Rightarrow> rule list \<Rightarrow> bool" where
  "staged p n c rs \<longleftrightarrow> (\<forall>r \<in> set rs. unset n r) \<and> ((\<exists>r \<in> set rs. rule_takes p r) \<longleftrightarrow> c)"

definition allows :: "'a list \<Rightarrow> ('a \<Rightarrow> bool) \<Rightarrow> bool" where
  "allows vs c \<longleftrightarrow> vs = [] \<or> (\<exists>v \<in> set vs. c v)"

text \<open>One stage leaves the later fields alone and adds its own alternatives as a condition.\<close>

lemma stage:
  assumes "staged p n a rs" "length rs \<le> MaxRules" "rs' = expandRules rs (length vs) (\<lambda>r i. put r (vs ! i))" "m = Suc n"
    and "\<And>r v. unset n r \<Longrightarrow> v \<in> set vs \<Longrightarrow> unset m (put r v) \<and> (rule_takes p (put r v) \<longleftrightarrow> rule_takes p r \<and> c v)"
  shows "staged p m (a \<and> allows vs c) rs'"
proof -
  have e: "rs' = product_rules rs vs put" using assms(2,3) by (simp add: expandRules_product)
  have mono: "unset n r \<Longrightarrow> unset m r" for r using assms(4) by (auto simp: unset_def)
  have u: "\<And>r. r \<in> set rs \<Longrightarrow> unset n r" and t: "(\<exists>r \<in> set rs. rule_takes p r) \<longleftrightarrow> a" using assms(1) by (simp_all add: staged_def)
  have "\<forall>r \<in> set rs'. unset m r" unfolding e product_rules_def using u assms(5) mono by (cases "vs = []") auto
  moreover have "(\<exists>r \<in> set rs'. rule_takes p r) \<longleftrightarrow> (\<exists>r \<in> set rs. rule_takes p r) \<and> (vs = [] \<or> (\<exists>v \<in> set vs. c v))"
    unfolding e by (rule product_takes) (use u assms(5) in blast)
  ultimately show ?thesis using t by (simp add: staged_def allows_def)
qed

lemma staged_zero: "staged p 0 True [zero_rule]"
  by (simp add: staged_def unset_def rule_takes_def zero_rule_def no_prefix_def prefix_IsValid_def)

lemma match_ok_kinds:
  assumes "\<forall>m \<in> set ms. match_ok q m"
  shows "v \<in> set (of_kind MatchKindEtherType m_EtherType ms) \<Longrightarrow> v \<noteq> 0"
    "u \<in> set (of_kind MatchKindSrcIP m_Prefix ms) \<Longrightarrow> prefix_IsValid u" "u \<in> set (of_kind MatchKindDstIP m_Prefix ms) \<Longrightarrow> prefix_IsValid u"
  using assms by (auto simp: of_kind_def match_ok_def)

lemma rules_of_takes:
  assumes "length (rules_of ms) \<le> MaxRules" "\<forall>m \<in> set ms. match_ok q m"
  shows "(\<exists>r \<in> set (rules_of ms). rule_takes p r) \<longleftrightarrow>
     allows (of_kind MatchKindDstMAC m_MAC ms) (\<lambda>v. p_mac p = v)
     \<and> allows (of_kind MatchKindVLAN m_VLAN ms) (\<lambda>v. p_vlan p = Some v)
     \<and> allows (of_kind MatchKindEtherType m_EtherType ms) (\<lambda>v. p_ethertype p = v)
     \<and> allows (of_kind MatchKindIPProto m_IPProto ms) (\<lambda>v. p_proto p = Some v)
     \<and> allows (of_kind MatchKindDstPort m_Port ms) (\<lambda>v. p_dport p = Some v)
     \<and> allows (of_kind MatchKindSrcPort m_Port ms) (\<lambda>v. p_sport p = Some v)
     \<and> allows (of_kind MatchKindSrcIP m_Prefix ms) (\<lambda>v. prefix_Contains v (p_src p))
     \<and> allows (of_kind MatchKindDstIP m_Prefix ms) (\<lambda>v. prefix_Contains v (p_dst p))"
proof -
  define macs where "macs = of_kind MatchKindDstMAC m_MAC ms"
  define vlans where "vlans = of_kind MatchKindVLAN m_VLAN ms"
  define etherTypes where "etherTypes = of_kind MatchKindEtherType m_EtherType ms"
  define protos where "protos = dedupe (of_kind MatchKindIPProto m_IPProto ms)"
  define dstPorts where "dstPorts = of_kind MatchKindDstPort m_Port ms"
  define srcPorts where "srcPorts = of_kind MatchKindSrcPort m_Port ms"
  define srcNets where "srcNets = of_kind MatchKindSrcIP m_Prefix ms"
  define dstNets where "dstNets = of_kind MatchKindDstIP m_Prefix ms"
  define rs0 where "rs0 = [zero_rule]"
  define rs1 where "rs1 = expandRules rs0 (length macs) (\<lambda>r i. (\<lambda>r v. r\<lparr>r_MAC := v, r_MACSet := True\<rparr>) r (macs ! i))"
  define rs2 where "rs2 = expandRules rs1 (length vlans) (\<lambda>r i. (\<lambda>r v. r\<lparr>r_VLAN := v, r_VLANSet := True\<rparr>) r (vlans ! i))"
  define rs3 where "rs3 = expandRules rs2 (length etherTypes) (\<lambda>r i. (\<lambda>r v. r\<lparr>r_EtherType := v\<rparr>) r (etherTypes ! i))"
  define rs4 where "rs4 = expandRules rs3 (length protos) (\<lambda>r i. (\<lambda>r v. r\<lparr>r_IPProto := v, r_IPProtoSet := True\<rparr>) r (protos ! i))"
  define rs5 where "rs5 = expandRules rs4 (length dstPorts) (\<lambda>r i. (\<lambda>r v. r\<lparr>r_DstPort := v, r_DstPortSet := True\<rparr>) r (dstPorts ! i))"
  define rs6 where "rs6 = expandRules rs5 (length srcPorts) (\<lambda>r i. (\<lambda>r v. r\<lparr>r_SrcPort := v, r_SrcPortSet := True\<rparr>) r (srcPorts ! i))"
  define rs7 where "rs7 = expandRules rs6 (length srcNets) (\<lambda>r i. (\<lambda>r v. r\<lparr>r_SrcPrefix := v\<rparr>) r (srcNets ! i))"
  define rs8 where "rs8 = expandRules rs7 (length dstNets) (\<lambda>r i. (\<lambda>r v. r\<lparr>r_DstPrefix := v\<rparr>) r (dstNets ! i))"
  have fin: "rules_of ms = rs8"
    by (simp add: rules_of_def Let_def rs0_def rs1_def rs2_def rs3_def rs4_def rs5_def rs6_def rs7_def rs8_def macs_def vlans_def etherTypes_def protos_def dstPorts_def srcPorts_def srcNets_def dstNets_def)
  have l8: "length rs8 \<le> MaxRules" using assms(1) fin by simp
  have l7: "length rs7 \<le> MaxRules" using expandRules_mono l8 unfolding rs8_def by (rule le_trans)
  have l6: "length rs6 \<le> MaxRules" using expandRules_mono l7 unfolding rs7_def by (rule le_trans)
  have l5: "length rs5 \<le> MaxRules" using expandRules_mono l6 unfolding rs6_def by (rule le_trans)
  have l4: "length rs4 \<le> MaxRules" using expandRules_mono l5 unfolding rs5_def by (rule le_trans)
  have l3: "length rs3 \<le> MaxRules" using expandRules_mono l4 unfolding rs4_def by (rule le_trans)
  have l2: "length rs2 \<le> MaxRules" using expandRules_mono l3 unfolding rs3_def by (rule le_trans)
  have l1: "length rs1 \<le> MaxRules" using expandRules_mono l2 unfolding rs2_def by (rule le_trans)
  have l0: "length rs0 \<le> MaxRules" using expandRules_mono l1 unfolding rs1_def by (rule le_trans)
  have s0: "staged p 0 True rs0" unfolding rs0_def by (rule staged_zero)
  note valid = match_ok_kinds [OF assms(2), folded etherTypes_def srcNets_def dstNets_def]
  define c1 where "c1 \<longleftrightarrow> True \<and> allows macs (\<lambda>v. p_mac p = v)"
  have s1: "staged p 1 c1 rs1" unfolding c1_def by (rule stage [OF s0 l0 rs1_def]) (use valid in \<open>auto simp: unset_def rule_takes_def\<close>)
  define c2 where "c2 \<longleftrightarrow> c1 \<and> allows vlans (\<lambda>v. p_vlan p = Some v)"
  have s2: "staged p 2 c2 rs2" unfolding c2_def by (rule stage [OF s1 l1 rs2_def]) (use valid in \<open>auto simp: unset_def rule_takes_def\<close>)
  define c3 where "c3 \<longleftrightarrow> c2 \<and> allows etherTypes (\<lambda>v. p_ethertype p = v)"
  have s3: "staged p 3 c3 rs3" unfolding c3_def by (rule stage [OF s2 l2 rs3_def]) (use valid in \<open>auto simp: unset_def rule_takes_def\<close>)
  define c4 where "c4 \<longleftrightarrow> c3 \<and> allows protos (\<lambda>v. p_proto p = Some v)"
  have s4: "staged p 4 c4 rs4" unfolding c4_def by (rule stage [OF s3 l3 rs4_def]) (use valid in \<open>auto simp: unset_def rule_takes_def\<close>)
  define c5 where "c5 \<longleftrightarrow> c4 \<and> allows dstPorts (\<lambda>v. p_dport p = Some v)"
  have s5: "staged p 5 c5 rs5" unfolding c5_def by (rule stage [OF s4 l4 rs5_def]) (use valid in \<open>auto simp: unset_def rule_takes_def\<close>)
  define c6 where "c6 \<longleftrightarrow> c5 \<and> allows srcPorts (\<lambda>v. p_sport p = Some v)"
  have s6: "staged p 6 c6 rs6" unfolding c6_def by (rule stage [OF s5 l5 rs6_def]) (use valid in \<open>auto simp: unset_def rule_takes_def\<close>)
  define c7 where "c7 \<longleftrightarrow> c6 \<and> allows srcNets (\<lambda>v. prefix_Contains v (p_src p))"
  have s7: "staged p 7 c7 rs7" unfolding c7_def by (rule stage [OF s6 l6 rs7_def]) (use valid in \<open>auto simp: unset_def rule_takes_def\<close>)
  define c8 where "c8 \<longleftrightarrow> c7 \<and> allows dstNets (\<lambda>v. prefix_Contains v (p_dst p))"
  have s8: "staged p 8 c8 rs8" unfolding c8_def by (rule stage [OF s7 l7 rs8_def]) (use valid in \<open>auto simp: unset_def rule_takes_def\<close>)
  have "allows protos c = allows (of_kind MatchKindIPProto m_IPProto ms) c" for c
    unfolding protos_def allows_def by (metis dedupe_set set_empty)
  then show ?thesis using s8 unfolding fin staged_def
    by (simp add: c1_def c2_def c3_def c4_def c5_def c6_def c7_def c8_def macs_def vlans_def etherTypes_def dstPorts_def srcPorts_def srcNets_def dstNets_def)
qed

lemma allows_kind: "allows (of_kind k get ms) c \<longleftrightarrow> (\<forall>m \<in> set ms. m_Kind m = k \<longrightarrow> (\<exists>m' \<in> set ms. m_Kind m' = k \<and> c (get m')))"
  by (auto simp: allows_def of_kind_def filter_empty_conv)

text \<open>With the protocol matched on its own, a port match is a condition on the port alone.\<close>

lemma port_alternatives:
  assumes "\<forall>m \<in> set ms. match_ok q m"
    and "\<exists>m' \<in> set ms. m_Kind m' = MatchKindIPProto \<and> p_proto p = Some (m_IPProto m')" "m' \<in> set ms"
  shows "m_Kind m' = MatchKindSrcPort \<Longrightarrow> match_holds p m' \<longleftrightarrow> p_sport p = Some (m_Port m')"
    "m_Kind m' = MatchKindDstPort \<Longrightarrow> match_holds p m' \<longleftrightarrow> p_dport p = Some (m_Port m')"
proof -
  have "p_proto p = q" using assms(1,2) by (auto simp: match_ok_def)
  moreover have "match_ok q m'" using assms(1,3) by blast
  ultimately show "m_Kind m' = MatchKindSrcPort \<Longrightarrow> match_holds p m' \<longleftrightarrow> p_sport p = Some (m_Port m')"
    "m_Kind m' = MatchKindDstPort \<Longrightarrow> match_holds p m' \<longleftrightarrow> p_dport p = Some (m_Port m')"
    by (auto simp: match_holds_def match_ok_def)
qed

text \<open>What a packet must have for the matches of one kind.\<close>

definition kind_takes :: "match list \<Rightarrow> packet \<Rightarrow> match_kind \<Rightarrow> bool" where
  "kind_takes ms p k \<longleftrightarrow> (\<forall>m \<in> set ms. m_Kind m = k \<longrightarrow> (\<exists>m' \<in> set ms. m_Kind m' = k \<and> match_holds p m'))"

lemma kind_takes_plain:
  "kind_takes ms p MatchKindDstMAC \<longleftrightarrow> allows (of_kind MatchKindDstMAC m_MAC ms) (\<lambda>v. p_mac p = v)"
  "kind_takes ms p MatchKindVLAN \<longleftrightarrow> allows (of_kind MatchKindVLAN m_VLAN ms) (\<lambda>v. p_vlan p = Some v)"
  "kind_takes ms p MatchKindEtherType \<longleftrightarrow> allows (of_kind MatchKindEtherType m_EtherType ms) (\<lambda>v. p_ethertype p = v)"
  "kind_takes ms p MatchKindIPProto \<longleftrightarrow> allows (of_kind MatchKindIPProto m_IPProto ms) (\<lambda>v. p_proto p = Some v)"
  "kind_takes ms p MatchKindSrcIP \<longleftrightarrow> allows (of_kind MatchKindSrcIP m_Prefix ms) (\<lambda>v. prefix_Contains v (p_src p))"
  "kind_takes ms p MatchKindDstIP \<longleftrightarrow> allows (of_kind MatchKindDstIP m_Prefix ms) (\<lambda>v. prefix_Contains v (p_dst p))"
  unfolding kind_takes_def allows_kind by (auto simp: match_holds_def)

lemma kind_takes_port:
  assumes "\<forall>m \<in> set ms. match_ok q m" "ports_with_proto ms" "kind_takes ms p MatchKindIPProto"
  shows "kind_takes ms p MatchKindSrcPort \<longleftrightarrow> allows (of_kind MatchKindSrcPort m_Port ms) (\<lambda>v. p_sport p = Some v)"
    "kind_takes ms p MatchKindDstPort \<longleftrightarrow> allows (of_kind MatchKindDstPort m_Port ms) (\<lambda>v. p_dport p = Some v)"
proof -
  have proto: "\<exists>m0 \<in> set ms. m_Kind m0 = MatchKindIPProto \<and> p_proto p = Some (m_IPProto m0)" if m: "m \<in> set ms" "is_port m" for m
  proof -
    obtain m0 where "m0 \<in> set ms" "m_Kind m0 = MatchKindIPProto" using assms(2) m unfolding ports_with_proto_def is_port_def by blast
    then show ?thesis using assms(3) unfolding kind_takes_def match_holds_def by fastforce
  qed
  have "match_holds p m \<longleftrightarrow> p_sport p = Some (m_Port m)" if "m \<in> set ms" "m_Kind m = MatchKindSrcPort" for m
    using port_alternatives(1) [OF assms(1)] proto [OF that(1)] that by (auto simp: is_port_def)
  then show "kind_takes ms p MatchKindSrcPort \<longleftrightarrow> allows (of_kind MatchKindSrcPort m_Port ms) (\<lambda>v. p_sport p = Some v)"
    unfolding kind_takes_def allows_kind by blast
  have "match_holds p m \<longleftrightarrow> p_dport p = Some (m_Port m)" if "m \<in> set ms" "m_Kind m = MatchKindDstPort" for m
    using port_alternatives(2) [OF assms(1)] proto [OF that(1)] that by (auto simp: is_port_def)
  then show "kind_takes ms p MatchKindDstPort \<longleftrightarrow> allows (of_kind MatchKindDstPort m_Port ms) (\<lambda>v. p_dport p = Some v)"
    unfolding kind_takes_def allows_kind by blast
qed

lemma all_kinds:
  "(\<forall>k. P k) \<longleftrightarrow> P MatchKindDstMAC \<and> P MatchKindVLAN \<and> P MatchKindEtherType \<and> P MatchKindIPProto \<and> P MatchKindDstPort
     \<and> P MatchKindSrcPort \<and> P MatchKindSrcIP \<and> P MatchKindDstIP \<and> (\<forall>x. P (MatchKindOther x))" (is "?L \<longleftrightarrow> ?R")
proof
  assume r: ?R
  show ?L
  proof
    fix k show "P k" using r by (cases k) simp_all
  qed
qed simp

lemma filter_takes_kinds:
  assumes "\<not> sf_Promiscuous f" "\<forall>m \<in> set (sf_Match f). match_ok q m"
  shows "filter_takes f p \<longleftrightarrow> kind_takes (sf_Match f) p MatchKindDstMAC \<and> kind_takes (sf_Match f) p MatchKindVLAN
     \<and> kind_takes (sf_Match f) p MatchKindEtherType \<and> kind_takes (sf_Match f) p MatchKindIPProto \<and> kind_takes (sf_Match f) p MatchKindDstPort
     \<and> kind_takes (sf_Match f) p MatchKindSrcPort \<and> kind_takes (sf_Match f) p MatchKindSrcIP \<and> kind_takes (sf_Match f) p MatchKindDstIP"
proof -
  have "filter_takes f p \<longleftrightarrow> (\<forall>k. kind_takes (sf_Match f) p k)" using assms(1) by (auto simp: filter_takes_def kind_takes_def)
  moreover have "kind_takes (sf_Match f) p (MatchKindOther k)" for k using assms(2) by (auto simp: kind_takes_def match_ok_def)
  ultimately show ?thesis by (simp add: all_kinds)
qed

lemma Validate_parts:
  assumes "Validate f = None"
  shows "sf_Promiscuous f \<longrightarrow> sf_Match f = []" "\<exists>q. \<forall>m \<in> set (sf_Match f). match_ok q m"
proof -
  show "sf_Promiscuous f \<longrightarrow> sf_Match f = []" using assms by (auto simp: Validate_def split: if_splits)
  obtain pr w where "validate_loop (sf_Match f) None False = Inr (pr, w)"
    using assms by (auto simp: Validate_def split: if_splits sum.splits)
  then show "\<exists>q. \<forall>m \<in> set (sf_Match f). match_ok q m" using validate_loop_sound by blast
qed

lemma product_rules_nonempty: "rs \<noteq> [] \<Longrightarrow> expandRules rs n put \<noteq> []"
  using expandRules_mono [of rs n put] by auto

lemma rules_of_Nil: "rules_of [] = [zero_rule]"
  by code_simp

section \<open>Properties\<close>


text \<open>Two UDP ports on a VLAN, and a packet to one of them.\<close>

definition demo_filter :: steering_filter where
  "demo_filter = \<lparr>sf_Match = MatchVLAN 2043 # MatchDstPort IPProtoUDP 9000 @ MatchDstPort IPProtoUDP 9001, sf_Promiscuous = False\<rparr>"

definition demo_packet :: packet where
  "demo_packet = \<lparr>p_mac = [], p_vlan = Some 2043, p_ethertype = 0x0800, p_proto = Some 17, p_src = IPv4 1, p_dst = IPv4 2,
     p_sport = Some 5, p_dport = Some 9001\<rparr>"


text \<open>C39: \<open>Validate\<close> accepts exactly the consistent filters: a promiscuous one has no matches, every kind is known, every
  VLAN, EtherType and prefix is one a rule can carry, all protocols named agree, and a port comes with a protocol.\<close>

theorem Validate_iff:
  "Validate f = None \<longleftrightarrow>
     (sf_Promiscuous f \<longrightarrow> sf_Match f = []) \<and> (\<exists>q. \<forall>m \<in> set (sf_Match f). match_ok q m)
     \<and> ((\<exists>m \<in> set (sf_Match f). is_port m) \<longrightarrow> (\<exists>m \<in> set (sf_Match f). m_Kind m = MatchKindIPProto \<or> is_port m \<and> m_IPProto m \<noteq> 0))"
    (is "?L \<longleftrightarrow> ?R")
proof
  assume v: ?L
  then obtain pr w where l: "validate_loop (sf_Match f) None False = Inr (pr, w)" "w \<longrightarrow> pr \<noteq> None"
    by (auto simp: Validate_def split: if_splits sum.splits)
  then show ?R using validate_loop_sound [OF l(1)] Validate_parts [OF v] by blast
next
  assume r: ?R
  then obtain q where q: "\<forall>m \<in> set (sf_Match f). match_ok q m" by blast
  from validate_loop_complete [OF q, of None False] obtain pr w where
    l: "validate_loop (sf_Match f) None False = Inr (pr, w)"
      "(\<exists>m \<in> set (sf_Match f). m_Kind m = MatchKindIPProto \<or> is_port m \<and> m_IPProto m \<noteq> 0) \<longrightarrow> pr \<noteq> None" by blast
  then show ?L using r validate_loop_sound [OF l(1)] by (auto simp: Validate_def)
qed

theorem Validate_iff_witness:
  "Validate demo_filter = None \<and> Validate (demo_filter\<lparr>sf_Promiscuous := True\<rparr>) \<noteq> None"
proof -
  have "\<forall>m \<in> set (sf_Match demo_filter). match_ok (Some IPProtoUDP) m" "\<exists>m \<in> set (sf_Match demo_filter). m_Kind m = MatchKindIPProto"
    "sf_Match demo_filter \<noteq> []" "\<not> sf_Promiscuous demo_filter" by code_simp+
  then show ?thesis using Validate_iff [of demo_filter] Validate_iff [of "demo_filter\<lparr>sf_Promiscuous := True\<rparr>"] by auto
qed

text \<open>A port match built by hand, with a protocol but no protocol match beside it, passes \<open>Validate\<close>, and its rule
  drops the protocol: the rule also takes packets of another protocol.\<close>

theorem lone_port_match_widens:
  defines "f \<equiv> \<lparr>sf_Match = [(zero_match MatchKindDstPort)\<lparr>m_IPProto := IPProtoUDP, m_Port := 9001\<rparr>], sf_Promiscuous = False\<rparr>"
  shows "Validate f = None \<and> (case filter_Rules f of Inr rs \<Rightarrow> (\<exists>r \<in> set rs. rule_takes (demo_packet\<lparr>p_proto := Some IPProtoTCP\<rparr>) r) | _ \<Rightarrow> False)
     \<and> \<not> filter_takes f (demo_packet\<lparr>p_proto := Some IPProtoTCP\<rparr>)"
  unfolding f_def by code_simp

end
