(* ===== verification/Forward.thy ===== *)
theory Forward
  imports Csum
begin

text \<open>
  What the forwarding example does to one packet, \<^verbatim>\<open>examples/internal/forward/packet.go\<close>: find and check the IPv4
  header, and rewrite the frame for the next hop, whose pre-formed header is an adjacency of \<^verbatim>\<open>fib.go\<close>. \<open>None\<close> is a
  Go panic.
\<close>

section \<open>The source\<close>

definition etherTypeIPv4 :: u16 where "etherTypeIPv4 = 0x0800"
definition etherTypeVLAN :: u16 where "etherTypeVLAN = 0x8100"
definition etherTypeQinQ :: u16 where "etherTypeQinQ = 0x88a8"
definition ethHeaderLen :: nat where "ethHeaderLen = 14"
definition vlanTagLen :: nat where "vlanTagLen = 4"
definition ipv4HeaderLen :: nat where "ipv4HeaderLen = 20"
definition minFrame :: nat where "minFrame = 60"

lemmas forward_consts = etherTypeIPv4_def etherTypeVLAN_def etherTypeQinQ_def ethHeaderLen_def vlanTagLen_def ipv4HeaderLen_def minFrame_def

datatype error_code = ErrNone | ErrShort | ErrNotIPv4 | ErrBadVersion | ErrBadLength | ErrTTL | ErrBadChecksum | ErrNoRoute | ErrTxFull

definition fold_at :: "nat \<Rightarrow> u64 \<Rightarrow> u64" where
  "fold_at k s = (s AND mask k) + drop_bit k s"

definition halves :: "u64 \<Rightarrow> u64" where
  "halves w = drop_bit 32 w + (w AND 0xffffffff)"

function ocs_loop :: "bytes \<Rightarrow> u64 \<Rightarrow> bytes \<times> u64" where
  "ocs_loop b s = (if 8 \<le> length b then ocs_loop (drop 8 b) (s + halves (be_word (take 8 b))) else (b, s))"
  by auto
termination by (relation "measure (\<lambda>(b, s). length b)") auto

declare ocs_loop.simps [simp del]

definition onesComplementSum :: "bytes \<Rightarrow> u16" where
  "onesComplementSum b =
     (if length b = ipv4HeaderLen
      then let s = halves (be_word (take 8 b)) + halves (be_word (take 8 (drop 8 b))) + be_word (take 4 (drop 16 b))
           in ucast (fold_at 16 (fold_at 16 (fold_at 16 s)))
      else let (b, s) = ocs_loop b 0;
               (b, s) = (if 4 \<le> length b then (drop 4 b, s + be_word (take 4 b)) else (b, s));
               (b, s) = (if 2 \<le> length b then (drop 2 b, s + be_word (take 2 b)) else (b, s));
               s = (if b \<noteq> [] then s + push_bit 8 (ucast (hd b)) else s)
           in ucast (fold_at 16 (fold_at 16 (fold_at 32 s))))"

text \<open>The walk over VLAN tags: the EtherType behind them and where the payload starts, or too short.\<close>

function parse_tags :: "bytes \<Rightarrow> u16 \<Rightarrow> nat \<Rightarrow> (error_code + u16 \<times> nat) option" where
  "parse_tags pkt et l3 =
     (if et = etherTypeVLAN \<or> et = etherTypeQinQ
      then if length pkt < l3 + vlanTagLen + ipv4HeaderLen then Some (Inl ErrShort)
           else do { et' \<leftarrow> get16 pkt (l3 + 2); parse_tags pkt et' (l3 + vlanTagLen) }
      else Some (Inr (et, l3)))"
  by auto
termination by (relation "measure (\<lambda>(pkt, et, l3). length pkt - l3)") (auto simp: forward_consts)

declare parse_tags.simps [simp del]

text \<open>The checks on the header itself.\<close>

definition check_ip :: "bytes \<Rightarrow> bool \<Rightarrow> (error_code + u32) option" where
  "check_ip h l3OK =
     (if h = [] then None
      else if drop_bit 4 (h ! 0) \<noteq> 4 then Some (Inl ErrBadVersion)
      else let ihl = unat (h ! 0 AND 0xf) * 4
      in if ihl < ipv4HeaderLen \<or> ihl > length h then Some (Inl ErrBadLength)
         else do { total \<leftarrow> map_option unat (get16 h 2);
                   if total < ihl \<or> total > length h then Some (Inl ErrBadLength)
                   else if \<not> 8 < length h then None
                   else if h ! 8 \<le> 1 then Some (Inl ErrTTL)
                   else if \<not> l3OK \<and> onesComplementSum (take ihl h) \<noteq> 0xffff then Some (Inl ErrBadChecksum)
                   else map_option (\<lambda>b. Inr (be_word b)) (peek h 16 4) })"

definition Parse :: "bytes \<Rightarrow> bool \<Rightarrow> (nat \<times> u32 \<times> error_code) option" where
  "Parse pkt l3OK =
     (if length pkt < ethHeaderLen + ipv4HeaderLen then Some (0, 0, ErrShort)
      else do { et \<leftarrow> get16 pkt 12;
                r \<leftarrow> parse_tags pkt et ethHeaderLen;
                case r of Inl e \<Rightarrow> Some (0, 0, e)
                | Inr (et, l3) \<Rightarrow>
                    if et \<noteq> etherTypeIPv4 then Some (0, 0, ErrNotIPv4)
                    else do { c \<leftarrow> check_ip (drop l3 pkt) l3OK;
                              case c of Inl e \<Rightarrow> Some (0, 0, e) | Inr dst \<Rightarrow> Some (l3, dst, ErrNone) } })"

record adjacency =
  adj_L2 :: bytes
  adj_L2Len :: u8

definition NewAdjacency :: "bytes \<Rightarrow> bytes \<Rightarrow> u16 \<Rightarrow> adjacency" where
  "NewAdjacency dst src vlan =
     (let head = take 6 dst @ take 6 src;
          tag = (if vlan \<noteq> 0 then be16 etherTypeVLAN @ be16 vlan else []);
          l2 = head @ tag @ be16 etherTypeIPv4
      in \<lparr>adj_L2 = l2 @ replicate (ethHeaderLen + vlanTagLen - length l2) 0, adj_L2Len = of_nat (length l2)\<rparr>)"

text \<open>The time to live down by one, and the checksum up to match.\<close>

definition decrement_ttl :: "bytes \<Rightarrow> nat \<Rightarrow> bytes option" where
  "decrement_ttl buf l3 =
     do { ttl \<leftarrow> (if l3 + 8 < length buf then Some (buf ! (l3 + 8)) else None);
          let b1 = buf[l3 + 8 := ttl - 1];
          c0 \<leftarrow> get16 b1 (l3 + 10);
          let c = (ucast c0 :: u32) + 0x0100;
          let c' = (if c \<ge> 0xffff then c + 1 else c);
          poke b1 (l3 + 10) (be16 (ucast c')) }"

definition Rewrite :: "bytes \<Rightarrow> nat \<Rightarrow> adjacency \<Rightarrow> (nat \<times> bytes) option" where
  "Rewrite buf l3 adj =
     do { b2 \<leftarrow> decrement_ttl buf l3;
          total \<leftarrow> map_option unat (get16 b2 (l3 + 2));
          let l2 = unat (adj_L2Len adj);
          if l2 \<noteq> l3 \<and> l2 + total > length b2 then Some (0, b2)
          else do { b3 \<leftarrow> (if l2 \<noteq> l3 then do { ip \<leftarrow> peek b2 l3 total; poke b2 l2 ip } else Some b2);
                    hd \<leftarrow> peek (adj_L2 adj) 0 l2;
                    b4 \<leftarrow> poke b3 0 hd;
                    let n = l2 + total;
                    if n < minFrame
                    then do { b5 \<leftarrow> poke b4 n (replicate (minFrame - n) 0); Some (minFrame, b5) }
                    else Some (n, b4) } }"

section \<open>The sum\<close>

text \<open>Bytes as one big-endian number.\<close>

definition be_nat :: "bytes \<Rightarrow> nat" where
  "be_nat bs = foldl (\<lambda>a x. a * 256 + unat x) 0 bs"

lemma be_nat_foldl: "foldl (\<lambda>a x. a * 256 + unat x) a (bs :: bytes) = a * 256 ^ length bs + be_nat bs"
  unfolding be_nat_def
proof (induction bs arbitrary: a)
  case (Cons x bs)
  show ?case
    by (simp only: foldl.simps Cons.IH [of "a * 256 + unat x"] Cons.IH [of "0 * 256 + unat x"]) (simp add: algebra_simps)
qed simp

lemma be_nat_append: "be_nat (a @ b) = be_nat a * 256 ^ length b + be_nat b"
  using be_nat_foldl [of "be_nat a" b] by (simp add: be_nat_def)

lemma be_nat_single [simp]: "be_nat [] = 0" "be_nat [x] = unat x"
  by (simp_all add: be_nat_def)

lemma be_nat_bound: "be_nat bs < 256 ^ length bs"
proof (induction bs rule: rev_induct)
  case (snoc x bs)
  have "be_nat bs * 256 + unat x < (be_nat bs + 1) * 256" using u8_bound [of x] by simp
  also have "\<dots> \<le> 256 ^ length bs * 256" using snoc by (intro mult_le_mono1) simp
  finally show ?case by (simp add: be_nat_append mult.commute)
qed simp

lemma unat_be_word:
  "8 * length bs \<le> LENGTH('a) \<Longrightarrow> unat (be_word bs :: 'a::len word) = be_nat bs"
proof (induction bs rule: rev_induct)
  case Nil
  then show ?case by (simp add: be_word_def)
next
  case (snoc x bs)
  have IH: "unat (be_word bs :: 'a word) = be_nat bs" using snoc by simp
  have w: "be_word (bs @ [x]) = (ucast x OR push_bit 8 (be_word bs) :: 'a word)" by (simp add: be_word_def)
  have d: "ucast x OR push_bit 8 (be_word bs) = ucast x + push_bit 8 (be_word bs :: 'a word)"
    by (rule disjunctive_add [symmetric]) (auto simp: bit_ucast_iff bit_push_bit_iff dest: bit_imp_le_length)
  have "be_nat bs * 256 + unat x < 256 ^ length (bs @ [x])" using be_nat_bound [of "bs @ [x]"] by (simp add: be_nat_append)
  also have "\<dots> = 2 ^ (8 * length (bs @ [x]))" by (simp only: power_mult) simp
  also have "\<dots> \<le> 2 ^ LENGTH('a)" using snoc.prems by (simp only: power_increasing_iff)
  finally have b: "be_nat bs * 256 + unat x < 2 ^ LENGTH('a)" .
  have "unat (push_bit 8 (be_word bs) :: 'a word) = be_nat bs * 256"
    unfolding unsigned_push_bit_eq IH using b by (subst take_bit_nat_eq_self) (simp_all add: push_bit_eq_mult)
  moreover have "unat (ucast x :: 'a word) = unat x" using snoc.prems by (intro unat_ucast_up) simp
  ultimately show ?case unfolding w d using b by (subst unat_plus_exact) (simp_all add: be_nat_append)
qed

text \<open>Two sums that are the same in ones' complement arithmetic.\<close>

definition same_sum :: "nat \<Rightarrow> nat \<Rightarrow> bool" where
  "same_sum a b \<longleftrightarrow> a mod 65535 = b mod 65535 \<and> (a = 0 \<longleftrightarrow> b = 0)"

lemma same_sum_refl [simp]: "same_sum a a" by (simp add: same_sum_def)

lemma same_sum_trans [trans]: "same_sum a b \<Longrightarrow> same_sum b c \<Longrightarrow> same_sum a c" by (simp add: same_sum_def)

lemma same_sum_add: "same_sum a b \<Longrightarrow> same_sum c d \<Longrightarrow> same_sum (a + c) (b + d)"
  unfolding same_sum_def by (auto intro: mod_add_cong)

lemma same_sum_scale: "same_sum (a * 65536 + b) (a + b)"
proof -
  have "a * 65536 + b = a + b + a * 65535" by simp
  then have "(a * 65536 + b) mod 65535 = (a + b) mod 65535" by (simp only: mod_mult_self1)
  then show ?thesis by (simp add: same_sum_def)
qed

lemma same_sum_fold:
  assumes "k = 16 \<or> k = 32"
  shows "same_sum (unat s mod 2 ^ k + unat s div 2 ^ k) (unat s)" (is "same_sum (?m + ?d) _")
proof -
  have e: "unat s = ?d * 2 ^ k + ?m" by (rule div_mult_mod_eq [symmetric])
  have 1: "same_sum (a * 65536) a" for a using same_sum_scale [of a 0] by simp
  have "same_sum (?d * 2 ^ k) ?d"
  proof (cases "k = 16")
    case True
    then show ?thesis using 1 [of ?d] by simp
  next
    case False
    then have "?d * 2 ^ k = ?d * 65536 * 65536" using assms by simp
    moreover have "same_sum (?d * 65536 * 65536) ?d" using 1 [of "?d * 65536"] 1 [of ?d] by (rule same_sum_trans)
    ultimately show ?thesis by (simp only:)
  qed
  then have "same_sum (?d * 2 ^ k + ?m) (?d + ?m)" by (rule same_sum_add) simp
  then have "same_sum (unat s) (?d + ?m)" using e by simp
  then show ?thesis by (simp add: same_sum_def add.commute)
qed

lemma be_nat_same_sum: "even (length b) \<Longrightarrow> same_sum (be_nat b) (wsum b)"
proof (induction b rule: length_induct)
  case (1 b)
  show ?case
  proof (cases "b = []")
    case False
    then obtain n where n: "length b = Suc (Suc n)" using 1(2) by (cases b; cases "tl b") auto
    define a where "a = take n b"
    obtain x y where b: "b = a @ [x, y]"
    proof -
      have "length (drop n b) = 2" using n by simp
      then obtain x y where "drop n b = [x, y]" by (metis (no_types) length_0_conv length_Suc_conv numeral_2_eq_2)
      then show ?thesis using that append_take_drop_id [of n b] unfolding a_def by metis
    qed
    have ev: "even (length a)" "length a < length b" using 1(2) b by simp_all
    then have "same_sum (be_nat a) (wsum a)" using 1(1) by blast
    then have "same_sum (be_nat a + (unat x * 256 + unat y)) (wsum a + (unat x * 256 + unat y))" by (rule same_sum_add) simp
    moreover have "be_nat b = be_nat a * 65536 + (unat x * 256 + unat y)"
      unfolding b using be_nat_append [of "[x]" "[y]"] by (simp add: be_nat_append)
    ultimately show ?thesis using same_sum_scale [of "be_nat a" "unat x * 256 + unat y"] same_sum_trans
      by (simp add: b wsum_append [OF ev(1)])
  qed simp
qed

lemma fold_at_sum:
  assumes "k = 16 \<or> k = 32"
  shows "unat (fold_at k s) = unat s mod 2 ^ k + unat s div 2 ^ k"
proof -
  have m: "unat (s AND mask k) = unat s mod 2 ^ k"
    using unat_and_mask [of k s] assms by (simp only: mask_eq_exp_minus_1) auto
  have d: "unat (drop_bit k s) = unat s div 2 ^ k" by (rule unat_drop_bit)
  have "unat s div 2 ^ k < 2 ^ 48" using assms unat_bound [of s] by (auto simp: less_mult_imp_div_less)
  moreover have "unat s mod 2 ^ k < 2 ^ 32" using assms by (auto intro: less_trans [OF mod_less_divisor])
  ultimately have "unat (s AND mask k) + unat (drop_bit k s) < 2 ^ LENGTH(64)" using m d by simp
  then show ?thesis unfolding fold_at_def using m d by (subst unat_plus_exact) simp_all
qed

lemma halves_sum:
  assumes "length b = 8"
  shows "same_sum (unat (halves (be_word b))) (wsum b)" "unat (halves (be_word b)) < 2 ^ 33"
proof -
  let ?w = "be_word b :: u64"
  have w: "unat ?w = be_nat (take 4 b) * 2 ^ 32 + be_nat (drop 4 b)"
    using unat_be_word [of b, where 'a = 64] assms be_nat_append [of "take 4 b" "drop 4 b"] by simp
  have lt: "be_nat (take 4 b) < 2 ^ 32" "be_nat (drop 4 b) < 2 ^ 32"
    using be_nat_bound [of "take 4 b"] be_nat_bound [of "drop 4 b"] assms by simp_all
  have h: "unat (drop_bit 32 ?w) = be_nat (take 4 b)" using unat_drop_bit [of 32 ?w] w lt by simp
  have l: "unat (?w AND 0xffffffff) = be_nat (drop 4 b)" using unat_and_mask [of 32 ?w] w lt by simp
  have s: "unat (halves ?w) = be_nat (take 4 b) + be_nat (drop 4 b)"
    unfolding halves_def using h l lt by (subst unat_plus_exact) simp_all
  then show "unat (halves ?w) < 2 ^ 33" using lt by simp
  have "same_sum (be_nat (take 4 b) + be_nat (drop 4 b)) (wsum (take 4 b) + wsum (drop 4 b))"
    using assms by (intro same_sum_add be_nat_same_sum) simp_all
  moreover have "wsum b = wsum (take 4 b) + wsum (drop 4 b)"
    using wsum_append [of "take 4 b" "drop 4 b"] assms by simp
  ultimately show "same_sum (unat (halves ?w)) (wsum b)" using s by simp
qed

lemma ocs_loop_sum:
  assumes "unat s + length b div 8 * 2 ^ 33 < 2 ^ 64" "ocs_loop b s = (b', s')"
  shows "\<exists>S. unat s' = unat s + S \<and> same_sum (S + wsum b') (wsum b) \<and> S \<le> length b div 8 * 2 ^ 33 \<and> length b' = length b mod 8"
  using assms
proof (induction b s rule: ocs_loop.induct)
  case (1 b s)
  show ?case
  proof (cases "8 \<le> length b")
    case False
    then have "b' = b" "s' = s" using 1(3) by (simp_all add: ocs_loop.simps [of b s])
    then show ?thesis using False by simp
  next
    case True
    let ?h = "halves (be_word (take 8 b))"
    have h: "same_sum (unat ?h) (wsum (take 8 b))" "unat ?h < 2 ^ 33" using halves_sum [of "take 8 b"] True by simp_all
    have d: "length b div 8 = Suc (length (drop 8 b) div 8)" "length b mod 8 = length (drop 8 b) mod 8"
      using True by (simp_all add: le_div_geq le_mod_geq)
    have u: "unat (s + ?h) = unat s + unat ?h" using 1(2) h(2) d(1) by (subst unat_plus_exact) simp_all
    have "unat (s + ?h) + length (drop 8 b) div 8 * 2 ^ 33 < 2 ^ 64" using u 1(2) h(2) d(1) by simp
    moreover have "ocs_loop (drop 8 b) (s + ?h) = (b', s')" using 1(3) True by (simp add: ocs_loop.simps [of b s])
    ultimately obtain S where S: "unat s' = unat (s + ?h) + S" "same_sum (S + wsum b') (wsum (drop 8 b))"
      "S \<le> length (drop 8 b) div 8 * 2 ^ 33" "length b' = length (drop 8 b) mod 8" using 1(1) [OF True] by blast
    have "wsum b = wsum (take 8 b) + wsum (drop 8 b)" using wsum_append [of "take 8 b" "drop 8 b"] True by simp
    then have "same_sum (unat ?h + S + wsum b') (wsum b)" using same_sum_add [OF h(1) S(2)] by (simp add: add.assoc)
    then show ?thesis using S u d h(2) by (intro exI [of _ "unat ?h + S"]) simp
  qed
qed

lemma be_word_sum:
  assumes "length b = 4 \<or> length b = 2"
  shows "same_sum (unat (be_word b :: u64)) (wsum b)" "unat (be_word b :: u64) < 2 ^ 32" "unat (be_word b :: u64) < 256 ^ length b"
proof -
  have "unat (be_word b :: u64) = be_nat b" by (rule unat_be_word) (use assms in auto)
  then show "same_sum (unat (be_word b :: u64)) (wsum b)" "unat (be_word b :: u64) < 2 ^ 32" "unat (be_word b :: u64) < 256 ^ length b"
    using be_nat_same_sum [of b] be_nat_bound [of b] assms by auto
qed

lemma fold_bounds:
  fixes x :: nat
  shows "x < 131071 \<Longrightarrow> x mod 65536 + x div 65536 < 65536" "x < 2 ^ 32 + 16 \<Longrightarrow> x mod 65536 + x div 65536 < 131071"
    "x < 2 ^ 36 \<Longrightarrow> x mod 65536 + x div 65536 < 65536 + 2 ^ 20"
proof -
  have m: "x mod 65536 < 65536" and e: "x = x div 65536 * 65536 + x mod 65536" by simp_all
  show "x mod 65536 + x div 65536 < 65536" if "x < 131071"
  proof -
    have "x div 65536 < 2" using that by (simp add: less_mult_imp_div_less)
    then consider "x div 65536 = 0" | "x div 65536 = 1" by linarith
    then show ?thesis using m e that by cases linarith+
  qed
  show "x mod 65536 + x div 65536 < 131071" if "x < 2 ^ 32 + 16"
  proof (cases "x div 65536 < 65536")
    case False
    moreover have "x < 4294967312" using that by simp
    ultimately show ?thesis using e by linarith
  qed (use m in linarith)
  have "x div 65536 < 2 ^ 20" if "x < 2 ^ 36" using that by (simp add: less_mult_imp_div_less)
  then show "x < 2 ^ 36 \<Longrightarrow> x mod 65536 + x div 65536 < 65536 + 2 ^ 20" using m by linarith
qed

text \<open>Folding a small sum down to 16 bits keeps it.\<close>

lemma folded:
  assumes "same_sum (unat s) n" "unat s < 2 ^ 36"
  shows "same_sum (unat (ucast (fold_at 16 (fold_at 16 (fold_at 16 s))) :: u16)) n"
    "same_sum (unat (ucast (fold_at 16 (fold_at 16 (fold_at 32 s))) :: u16)) n"
proof -
  have f: "same_sum (unat (fold_at k t)) (unat t)" if "k = 16 \<or> k = 32" for k t
    using same_sum_fold [OF that, of t] fold_at_sum [OF that, of t] by simp
  have u: "unat (ucast t :: u16) = unat t" if "unat t < 65536" for t :: u64
    using that by (simp add: unsigned_ucast_eq take_bit_nat_eq_self)
  have s16: "unat (fold_at 16 t) = unat t mod 65536 + unat t div 65536" for t using fold_at_sum [of 16 t] by simp
  have s32: "unat (fold_at 32 t) = unat t mod 2 ^ 32 + unat t div 2 ^ 32" for t using fold_at_sum [of 32 t] by simp
  have "unat (fold_at 16 s) < 65536 + 2 ^ 20" unfolding s16 by (rule fold_bounds(3) [OF assms(2)])
  then have "unat (fold_at 16 s) < 2 ^ 32 + 16" by simp
  then have "unat (fold_at 16 (fold_at 16 s)) < 131071" unfolding s16 [of "fold_at 16 s"] by (rule fold_bounds(2))
  then have a: "unat (fold_at 16 (fold_at 16 (fold_at 16 s))) < 65536" unfolding s16 [of "fold_at 16 (fold_at 16 s)"] by (rule fold_bounds(1))
  show "same_sum (unat (ucast (fold_at 16 (fold_at 16 (fold_at 16 s))) :: u16)) n"
    unfolding u [OF a] by (rule same_sum_trans [OF same_sum_trans [OF f same_sum_trans [OF f f]] assms(1)]) simp_all
  have "unat s div 2 ^ 32 < 16" using assms(2) by (simp add: less_mult_imp_div_less)
  then have "unat (fold_at 32 s) < 2 ^ 32 + 16" unfolding s32 using mod_less_divisor [of "2 ^ 32" "unat s"] by simp
  then have "unat (fold_at 16 (fold_at 32 s)) < 131071" unfolding s16 [of "fold_at 32 s"] by (rule fold_bounds(2))
  then have b: "unat (fold_at 16 (fold_at 16 (fold_at 32 s))) < 65536" unfolding s16 [of "fold_at 16 (fold_at 32 s)"] by (rule fold_bounds(1))
  show "same_sum (unat (ucast (fold_at 16 (fold_at 16 (fold_at 32 s))) :: u16)) n"
    unfolding u [OF b] by (rule same_sum_trans [OF same_sum_trans [OF f same_sum_trans [OF f f]] assms(1)]) simp_all
qed

text \<open>Taking a 4-, 2- or 1-byte piece off the front of what is left.\<close>

lemma tail_piece:
  fixes s :: u64
  assumes "same_sum (unat s + wsum b) n" "unat s \<le> k" "k + 2 ^ 32 < 2 ^ 64" "m = 4 \<or> m = 2" "m \<le> length b"
  shows "same_sum (unat (s + be_word (take m b)) + wsum (drop m b)) n" "unat (s + be_word (take m b)) \<le> k + 256 ^ m"
proof -
  have t: "same_sum (unat (be_word (take m b) :: u64)) (wsum (take m b))" "unat (be_word (take m b) :: u64) < 2 ^ 32"
    "unat (be_word (take m b) :: u64) < 256 ^ m"
    using be_word_sum [of "take m b"] assms(4,5) by auto
  have u: "unat (s + be_word (take m b)) = unat s + unat (be_word (take m b) :: u64)"
    using t(2) assms(2,3) by (subst unat_plus_exact) simp_all
  then show "unat (s + be_word (take m b)) \<le> k + 256 ^ m" using t(3) assms(2) by simp
  have "wsum b = wsum (take m b) + wsum (drop m b)" using wsum_append [of "take m b" "drop m b"] assms(4,5) by auto
  moreover have "same_sum (unat s + unat (be_word (take m b) :: u64) + wsum (drop m b)) (unat s + wsum (take m b) + wsum (drop m b))"
    using t(1) by (intro same_sum_add) simp_all
  ultimately show "same_sum (unat (s + be_word (take m b)) + wsum (drop m b)) n"
    using same_sum_trans assms(1) u by (simp add: add.assoc)
qed

lemma header_sum:
  assumes "length b = 20"
  defines "s \<equiv> halves (be_word (take 8 b)) + halves (be_word (take 8 (drop 8 b))) + be_word (take 4 (drop 16 b))"
  shows "same_sum (unat s) (wsum b)" "unat s < 2 ^ 36"
proof -
  let ?x = "halves (be_word (take 8 b))" and ?y = "halves (be_word (take 8 (drop 8 b)))" and ?z = "be_word (take 4 (drop 16 b)) :: u64"
  have x: "same_sum (unat ?x) (wsum (take 8 b))" "unat ?x < 2 ^ 33" using halves_sum [of "take 8 b"] assms(1) by simp_all
  have y: "same_sum (unat ?y) (wsum (take 8 (drop 8 b)))" "unat ?y < 2 ^ 33" using halves_sum [of "take 8 (drop 8 b)"] assms(1) by simp_all
  have z: "same_sum (unat ?z) (wsum (take 4 (drop 16 b)))" "unat ?z < 2 ^ 32" using be_word_sum [of "take 4 (drop 16 b)"] assms(1) by simp_all
  have xy: "unat (?x + ?y) = unat ?x + unat ?y" using x(2) y(2) by (subst unat_plus_exact) simp_all
  have u: "unat s = unat ?x + unat ?y + unat ?z" unfolding s_def using x(2) y(2) z(2) xy by (subst unat_plus_exact) simp_all
  then show "unat s < 2 ^ 36" using x(2) y(2) z(2) by simp
  have "wsum b = wsum (take 8 b) + wsum (take 8 (drop 8 b)) + wsum (take 4 (drop 16 b))"
    using wsum_append [of "take 8 b" "drop 8 b"] wsum_append [of "take 8 (drop 8 b)" "drop 16 b"]
      append_take_drop_id [of 8 "drop 8 b"] assms(1) by simp
  then show "same_sum (unat s) (wsum b)" unfolding u using same_sum_add [OF same_sum_add [OF x(1) y(1)] z(1)] by simp
qed

lemma onesComplementSum_sum:
  assumes "length b \<le> 60"
  shows "same_sum (unat (onesComplementSum b)) (wsum b)"
proof (cases "length b = 20")
  case True
  then show ?thesis using folded(1) [OF header_sum [OF True]] by (simp add: onesComplementSum_def ipv4HeaderLen_def Let_def)
next
  case False
  obtain b1 s1 where l: "ocs_loop b 0 = (b1, s1)" by (cases "ocs_loop b 0")
  define b2 s2 where "b2 = (if 4 \<le> length b1 then drop 4 b1 else b1)" and "s2 = (if 4 \<le> length b1 then s1 + be_word (take 4 b1) else s1)"
  define b3 s3 where "b3 = (if 2 \<le> length b2 then drop 2 b2 else b2)" and "s3 = (if 2 \<le> length b2 then s2 + be_word (take 2 b2) else s2)"
  define s4 where "s4 = (if b3 \<noteq> [] then s3 + push_bit 8 (ucast (hd b3)) else s3)"
  have d: "length b div 8 * 2 ^ 33 \<le> 7 * 2 ^ 33" using assms by simp
  then have "unat (0 :: u64) + length b div 8 * 2 ^ 33 < 2 ^ 64" by simp
  from ocs_loop_sum [OF this l] d have 1: "same_sum (unat s1 + wsum b1) (wsum b)" "unat s1 \<le> 7 * 2 ^ 33" "length b1 < 8" by auto
  have 2: "same_sum (unat s2 + wsum b2) (wsum b)" "unat s2 \<le> 7 * 2 ^ 33 + 2 ^ 32" "length b2 < 4"
    using tail_piece [OF 1(1,2), of 4] 1 by (auto simp: b2_def s2_def)
  have 3: "same_sum (unat s3 + wsum b3) (wsum b)" "unat s3 \<le> 7 * 2 ^ 33 + 2 ^ 32 + 65536" "length b3 < 2"
    using tail_piece [OF 2(1,2), of 2] 2 by (auto simp: b3_def s3_def)
  have 4: "same_sum (unat s4) (wsum b)" "unat s4 < 2 ^ 36"
  proof (atomize (full), cases b3)
    case Nil
    then show "same_sum (unat s4) (wsum b) \<and> unat s4 < 2 ^ 36" using 3 by (simp add: s4_def)
  next
    case (Cons x xs)
    then have b3: "b3 = [x]" using 3(3) by simp
    have h: "unat (push_bit 8 (ucast x) :: u64) = unat x * 256" by (rule unat_hi_byte) simp
    then have "unat s4 = unat s3 + unat x * 256" using 3(2) u8_bound [of x] b3 unfolding s4_def by (simp add: unat_plus_exact)
    then show "same_sum (unat s4) (wsum b) \<and> unat s4 < 2 ^ 36" using 3 u8_bound [of x] b3 by simp
  qed
  have "onesComplementSum b = ucast (fold_at 16 (fold_at 16 (fold_at 32 s4)))"
    using False l unfolding onesComplementSum_def s4_def b3_def s3_def b2_def s2_def ipv4HeaderLen_def Let_def by simp
  then show ?thesis using folded(2) [OF 4] by simp
qed

text \<open>A header is accepted exactly when its words sum to zero in ones' complement.\<close>

lemma onesComplementSum_valid:
  assumes "length b \<le> 60" "wsum b \<noteq> 0"
  shows "onesComplementSum b = 0xffff \<longleftrightarrow> wsum b mod 65535 = 0"
proof -
  have s: "unat (onesComplementSum b) mod 65535 = wsum b mod 65535" "unat (onesComplementSum b) \<noteq> 0"
    using onesComplementSum_sum [OF assms(1)] assms(2) by (simp_all add: same_sum_def)
  have "unat (onesComplementSum b) < 65536" using unat_bound [of "onesComplementSum b"] by simp
  then have "unat (onesComplementSum b) mod 65535 = 0 \<longleftrightarrow> unat (onesComplementSum b) = 65535" using s(2)
    by (cases "unat (onesComplementSum b) = 65535") auto
  then show ?thesis using s(1) by (simp add: word_unat_eq_iff)
qed

section \<open>Parsing\<close>

text \<open>An IPv4 header that may be forwarded, with its header and total length.\<close>

definition ip_accepts :: "bytes \<Rightarrow> nat \<Rightarrow> nat \<Rightarrow> bool" where
  "ip_accepts h ihl tot \<longleftrightarrow> 20 \<le> length h \<and> drop_bit 4 (h ! 0) = 4 \<and> ihl = unat (h ! 0 AND 0xf) * 4 \<and> 20 \<le> ihl \<and> ihl \<le> tot
     \<and> tot \<le> length h \<and> map_option unat (get16 h 2) = Some tot \<and> 1 < h ! 8"

lemma ip_accepts_bounds:
  assumes "ip_accepts h ihl tot"
  shows "ihl \<le> 60" "even ihl" "wsum (take ihl h) \<noteq> 0"
proof -
  have i: "ihl = unat (h ! 0 AND 0xf) * 4" "20 \<le> ihl" "20 \<le> length h" using assms by (simp_all add: ip_accepts_def)
  have "unat (h ! 0 AND 0xf) < 16" using unat_and_mask [of 4 "h ! 0"] by simp
  then show "ihl \<le> 60" "even ihl" using i by simp_all
  obtain x y z where h: "take ihl h = x # y # z" using i(2,3) by (cases h; cases "tl h"; cases ihl; cases "ihl - 1") auto
  then have "x = h ! 0" by (metis i(2) nth_Cons_0 nth_take less_le_trans zero_less_numeral)
  then have "x \<noteq> 0" using assms by (auto simp: ip_accepts_def)
  then show "wsum (take ihl h) \<noteq> 0" using h by (simp add: unat_eq_0)
qed

lemma check_ip_total: "20 \<le> length h \<Longrightarrow> check_ip h l3OK \<noteq> None"
  using get16_some [of 2 h] by (auto simp: check_ip_def forward_consts Let_def peek_def)

lemma check_ip_accepts:
  assumes "20 \<le> length h"
  shows "check_ip h l3OK = Some (Inr dst) \<longleftrightarrow> (\<exists>ihl tot. ip_accepts h ihl tot \<and> (l3OK \<or> wsum (take ihl h) mod 65535 = 0))
     \<and> dst = be_word (take 4 (drop 16 h))"
proof -
  define ihl where "ihl = unat (h ! 0 AND 0xf) * 4"
  obtain t where t: "get16 h 2 = Some t" using get16_some [of 2 h] assms by auto
  have ne: "h \<noteq> []" "8 < length h" using assms by auto
  have pk: "peek h 16 4 = Some (take 4 (drop 16 h))" using assms by (simp add: peek_def)
  have v: "ip_accepts h ihl (unat t) \<Longrightarrow> onesComplementSum (take ihl h) = 0xffff \<longleftrightarrow> wsum (take ihl h) mod 65535 = 0"
    using onesComplementSum_valid [of "take ihl h"] ip_accepts_bounds [of h ihl "unat t"] by simp
  have "check_ip h l3OK = Some (Inr dst) \<longleftrightarrow> ip_accepts h ihl (unat t) \<and> (l3OK \<or> onesComplementSum (take ihl h) = 0xffff)
      \<and> dst = be_word (take 4 (drop 16 h))"
    using ne assms by (auto simp: check_ip_def forward_consts Let_def ihl_def [symmetric] t pk ip_accepts_def not_less not_le split: if_splits)
  moreover have "(\<exists>i n. ip_accepts h i n \<and> (l3OK \<or> wsum (take i h) mod 65535 = 0))
      \<longleftrightarrow> ip_accepts h ihl (unat t) \<and> (l3OK \<or> wsum (take ihl h) mod 65535 = 0)"
    using t by (auto simp: ip_accepts_def ihl_def)
  ultimately show ?thesis using v by auto
qed

lemma get16_drop:
  assumes "get16 b i = Some w"
  shows "drop i b = be16 w @ drop (i + 2) b"
proof -
  have i: "i + 1 < length b" and w: "w = push_bit 8 (ucast (b ! i)) OR ucast (b ! (i + 1))"
    using assms by (auto simp: get16_def split: if_splits)
  have "be16 w = [b ! i, b ! (i + 1)]" unfolding be16_pair w
    by (auto intro!: bit_eqI simp: bit_simps) (auto dest!: bit_imp_le_length)
  then show ?thesis using i Cons_nth_drop_Suc [of i b] Cons_nth_drop_Suc [of "i + 1" b] by simp
qed

text \<open>What lies between two offsets is a stack of VLAN tags, and \<open>ty\<close> is the EtherType behind them.\<close>

definition tagged :: "bytes \<Rightarrow> nat \<Rightarrow> u16 \<Rightarrow> nat \<Rightarrow> bool" where
  "tagged pkt l3 ty m \<longleftrightarrow> (\<exists>tags. fst ` set tags \<subseteq> {etherTypeVLAN, etherTypeQinQ} \<and> m = l3 + 4 * length tags
     \<and> drop (l3 - 2) pkt = concat (map tag_bytes tags) @ be16 ty @ drop m pkt)"

lemma tagged_none: "2 \<le> l3 \<Longrightarrow> get16 pkt (l3 - 2) = Some ty \<Longrightarrow> tagged pkt l3 ty l3"
  unfolding tagged_def using get16_drop [of pkt "l3 - 2" ty] by (intro exI [of _ "[]"]) (simp del: add_2_eq_Suc')

lemma tagged_cons:
  assumes "tagged pkt (l3 + 4) ty m" "get16 pkt (l3 - 2) = Some et" "et = etherTypeVLAN \<or> et = etherTypeQinQ"
    and "2 \<le> l3" "l3 + 4 \<le> length pkt"
  shows "tagged pkt l3 ty m"
proof -
  from assms(1) obtain tags where t: "fst ` set tags \<subseteq> {etherTypeVLAN, etherTypeQinQ}" "m = l3 + 4 + 4 * length tags"
    "drop (l3 + 2) pkt = concat (map tag_bytes tags) @ be16 ty @ drop m pkt" by (auto simp: tagged_def)
  obtain tci where "get16 pkt l3 = Some tci" using get16_some [of l3 pkt] assms(5) by auto
  then have "drop (l3 - 2) pkt = tag_bytes (et, tci) @ drop (l3 + 2) pkt"
    using get16_drop [OF assms(2)] get16_drop [of pkt l3 tci] assms(4) by (simp add: tag_bytes_def del: add_2_eq_Suc')
  then show ?thesis unfolding tagged_def using t assms(3) by (intro exI [of _ "(et, tci) # tags"]) auto
qed

lemma parse_tags_spec:
  assumes "l3 + 20 \<le> length pkt" "2 \<le> l3" "get16 pkt (l3 - 2) = Some et"
  shows "\<exists>r. parse_tags pkt et l3 = Some r \<and> (case r of Inl e \<Rightarrow> e = ErrShort
     | Inr (et', m) \<Rightarrow> l3 \<le> m \<and> m + 20 \<le> length pkt \<and> get16 pkt (m - 2) = Some et' \<and> tagged pkt l3 et' m)"
  using assms
proof (induction pkt et l3 rule: parse_tags.induct)
  case (1 pkt et l3)
  show ?case
  proof (cases "(et = etherTypeVLAN \<or> et = etherTypeQinQ) \<and> \<not> length pkt < l3 + vlanTagLen + ipv4HeaderLen")
    case True
    then obtain et' where et': "get16 pkt (l3 + 2) = Some et'" using get16_some [of "l3 + 2" pkt] by (auto simp: forward_consts)
    have len: "l3 + vlanTagLen + 20 \<le> length pkt" "2 \<le> l3 + vlanTagLen" "get16 pkt (l3 + vlanTagLen - 2) = Some et'"
      using True et' by (auto simp: forward_consts)
    from 1(1) [OF _ _ et' len] True obtain r where r: "parse_tags pkt et' (l3 + vlanTagLen) = Some r" "case r of Inl e \<Rightarrow> e = ErrShort
       | Inr (et', m) \<Rightarrow> l3 + vlanTagLen \<le> m \<and> m + 20 \<le> length pkt \<and> get16 pkt (m - 2) = Some et' \<and> tagged pkt (l3 + vlanTagLen) et' m"
      by blast
    have "tagged pkt l3 ty m" if "tagged pkt (l3 + 4) ty m" for ty m
      using tagged_cons [OF that 1(4) _ 1(3)] True len(1) by (simp add: forward_consts)
    then show ?thesis using r True et' by (subst parse_tags.simps) (auto simp: vlanTagLen_def split: sum.splits)
  next
    case False
    then show ?thesis using 1(2-4) tagged_none by (subst parse_tags.simps) auto
  qed
qed

lemma parse_tags_walks:
  assumes "length pre = l3" "2 \<le> l3" "fst ` set tags \<subseteq> {etherTypeVLAN, etherTypeQinQ}" "ty \<notin> {etherTypeVLAN, etherTypeQinQ}" "20 \<le> length rest"
  shows "parse_tags (pre @ concat (map tag_bytes tags) @ be16 ty @ rest) (case tags of [] \<Rightarrow> ty | t # _ \<Rightarrow> fst t) (l3 + 2)
     = Some (Inr (ty, l3 + 2 + 4 * length tags))"
  using assms
proof (induction tags arbitrary: pre l3)
  case Nil
  then show ?case by (subst parse_tags.simps) simp
next
  case (Cons t tags)
  let ?next = "case tags of [] \<Rightarrow> ty | t # _ \<Rightarrow> fst t"
  let ?pkt = "pre @ concat (map tag_bytes (t # tags)) @ be16 ty @ rest"
  have p: "?pkt = (pre @ tag_bytes t) @ concat (map tag_bytes tags) @ be16 ty @ rest" by simp
  have four: "l3 + 2 + 2 = l3 + 4" by simp
  have g: "get16 ?pkt (l3 + 2 + 2) = Some ?next"
  proof (cases tags)
    case Nil
    then show ?thesis unfolding four using get16_at [of "pre @ tag_bytes t" "l3 + 4" ty rest] Cons.prems(1) by (simp add: tag_bytes_def)
  next
    case (Cons u us)
    then show ?thesis unfolding four
      using get16_at [of "pre @ tag_bytes t" "l3 + 4" "fst u" "be16 (snd u) @ concat (map tag_bytes us) @ be16 ty @ rest"] Cons.prems(1)
      by (simp add: tag_bytes_def)
  qed
  have "parse_tags ?pkt ?next (l3 + 4 + 2) = Some (Inr (ty, l3 + 4 + 2 + 4 * length tags))"
    unfolding p using Cons.prems by (intro Cons.IH) (auto simp: tag_bytes_def)
  moreover have "length (tag_bytes t) = 4" by (simp add: tag_bytes_def)
  ultimately show ?case using g Cons.prems
    by (subst parse_tags.simps) (auto simp: vlanTagLen_def ipv4HeaderLen_def add.commute add.left_commute)
qed

section \<open>Rewriting\<close>

text \<open>The checksum after the time to live went down.\<close>

definition hop_csum :: "u16 \<Rightarrow> u16" where
  "hop_csum c0 = (let c = (ucast c0 :: u32) + 0x0100 in ucast (if c \<ge> 0xffff then c + 1 else c))"

lemma hop_csum_sum: "unat (hop_csum c) mod 65535 = (unat c + 256) mod 65535"
proof -
  let ?c = "(ucast c :: u32) + 0x0100"
  have b: "unat c < 65536" using unat_bound [of c] by simp
  have u: "unat ?c = unat c + 256" using b by (subst unat_plus_exact) (simp_all add: unat_ucast_up)
  have t: "unat (ucast w :: u16) = unat w mod 65536" for w :: u32 by (simp add: unsigned_ucast_eq take_bit_eq_mod)
  show ?thesis
  proof (cases "?c \<ge> 0xffff")
    case True
    then have ge: "65535 \<le> unat c + 256" using u by (simp add: word_le_nat_alt)
    have "unat (?c + 1) = unat c + 257" using u b by (subst unat_plus_exact) simp_all
    then have "unat (hop_csum c) = (unat c + 257) mod 65536" using True t by (simp add: hop_csum_def Let_def)
    moreover have "(unat c + 257) mod 65536 = unat c + 257 - 65536" using ge b by (simp add: le_mod_geq)
    ultimately have "unat c + 256 = unat (hop_csum c) + 65535" using ge by simp
    then show ?thesis by (metis mod_add_self2)
  next
    case False
    then have "unat c + 256 < 65535" using u by (simp add: word_le_nat_alt)
    then show ?thesis using False t u by (simp add: hop_csum_def Let_def)
  qed
qed

text \<open>The packet as it leaves: one hop less to live, and the checksum to match.\<close>

definition hop :: "bytes \<Rightarrow> bytes" where
  "hop ip = take 8 ip @ [ip ! 8 - 1, ip ! 9] @ be16 (hop_csum (push_bit 8 (ucast (ip ! 10)) OR ucast (ip ! 11))) @ drop 12 ip"

lemma length_hop [simp]: "12 \<le> length ip \<Longrightarrow> length (hop ip) = length ip"
  by (simp add: hop_def)

lemma ip_split: "12 \<le> length ip \<Longrightarrow> ip = take 8 ip @ [ip ! 8, ip ! 9] @ [ip ! 10, ip ! 11] @ drop 12 ip"
  using Cons_nth_drop_Suc [of 8 ip] Cons_nth_drop_Suc [of 9 ip] Cons_nth_drop_Suc [of 10 ip] Cons_nth_drop_Suc [of 11 ip]
  by (simp add: append_take_drop_id)

lemma take_hop:
  assumes "12 \<le> n" "n \<le> length ip"
  shows "take n (hop ip) = hop (take n ip)"
proof -
  define P where "P = take 8 ip @ [ip ! 8 - 1, ip ! 9] @ be16 (hop_csum (push_bit 8 (ucast (ip ! 10)) OR ucast (ip ! 11)))"
  have "hop ip = P @ drop 12 ip" "length P = 12" using assms by (simp_all add: hop_def P_def)
  then have "take n (hop ip) = P @ drop 12 (take n ip)" using assms by (simp add: drop_take)
  also have "\<dots> = hop (take n ip)" using assms by (simp add: hop_def P_def min_def)
  finally show ?thesis .
qed

lemma hop_sum:
  assumes "12 \<le> length ip" "even (length ip)" "0 < ip ! 8"
  shows "wsum (hop ip) mod 65535 = wsum ip mod 65535"
proof -
  let ?c = "push_bit 8 (ucast (ip ! 10)) OR ucast (ip ! 11) :: u16"
  have c: "wsum [ip ! 10, ip ! 11] = unat ?c" using unat_be_pair [where 'a = 16, of "ip ! 10" "ip ! 11"] by simp
  have ttl: "unat (ip ! 8 - 1) + 1 = unat (ip ! 8)" using assms(3) unat_minus_one [of "ip ! 8"] by (auto simp: unat_gt_0 Suc_leI)
  have "wsum ip = wsum (take 8 ip) + wsum [ip ! 8, ip ! 9] + wsum [ip ! 10, ip ! 11] + wsum (drop 12 ip)"
    using wsum_append [of "take 8 ip"] assms(1) by (subst ip_split [OF assms(1)]) simp
  then have o: "wsum ip = wsum (take 8 ip) + unat (ip ! 8) * 256 + unat (ip ! 9) + unat ?c + wsum (drop 12 ip)" using c by simp
  have n: "wsum (hop ip) = wsum (take 8 ip) + unat (ip ! 8 - 1) * 256 + unat (ip ! 9) + unat (hop_csum ?c) + wsum (drop 12 ip)"
    unfolding hop_def using wsum_append [of "take 8 ip"] wsum_append [of "be16 (hop_csum ?c)"] wsum_be16 [of "hop_csum ?c"] assms(1)
    by simp
  let ?r = "wsum (take 8 ip) + unat (ip ! 8 - 1) * 256 + unat (ip ! 9) + wsum (drop 12 ip)"
  have "wsum ip = ?r + (unat ?c + 256)" unfolding o using ttl by (simp add: algebra_simps)
  moreover have "wsum (hop ip) = ?r + unat (hop_csum ?c)" using n by simp
  moreover have "(?r + unat (hop_csum ?c)) mod 65535 = (?r + (unat ?c + 256)) mod 65535"
    using hop_csum_sum by (intro mod_add_cong) simp_all
  ultimately show ?thesis by simp
qed

lemma decrement_ttl_hop:
  assumes "12 \<le> length ip" "length pre = l3"
  shows "decrement_ttl (pre @ ip) l3 = Some (pre @ hop ip)"
proof -
  let ?c = "push_bit 8 (ucast (ip ! 10)) OR ucast (ip ! 11) :: u16"
  define b1 where "b1 = (pre @ ip)[l3 + 8 := ip ! 8 - 1]"
  have b1: "b1 = pre @ take 8 ip @ [ip ! 8 - 1, ip ! 9] @ [ip ! 10, ip ! 11] @ drop 12 ip"
    unfolding b1_def using assms by (subst ip_split [OF assms(1)]) (simp add: list_update_append)
  have g: "get16 b1 (l3 + 10) = Some ?c" unfolding b1 using assms by (simp add: get16_def nth_append)
  have "poke b1 (l3 + 10) (be16 (hop_csum ?c)) = Some (pre @ hop ip)"
    unfolding b1 hop_def using assms by (simp add: poke_def)
  then show ?thesis using assms g by (simp add: decrement_ttl_def b1_def [symmetric] nth_append hop_csum_def Let_def)
qed

lemma get16_hop: "12 \<le> length ip \<Longrightarrow> get16 (hop ip) 2 = get16 ip 2"
  by (simp add: get16_def hop_def nth_append)

text \<open>The frame out: the adjacency's header, the packet, zeros up to the minimum, and what the buffer held behind.\<close>

lemma Rewrite_frame:
  assumes ip: "map_option unat (get16 ip 2) = Some (length ip)" "12 \<le> length ip" and pre: "length pre = l3"
    and adj: "length (adj_L2 adj) = 18" "unat (adj_L2Len adj) \<le> 18" and buf: "60 \<le> length (pre @ ip @ rest)"
  defines "l2 \<equiv> unat (adj_L2Len adj)"
  shows "l2 \<noteq> l3 \<and> length (pre @ ip @ rest) < l2 + length ip \<Longrightarrow> Rewrite (pre @ ip @ rest) l3 adj = Some (0, pre @ hop ip @ rest)"
    and "\<not> (l2 \<noteq> l3 \<and> length (pre @ ip @ rest) < l2 + length ip) \<Longrightarrow>
      \<exists>b. Rewrite (pre @ ip @ rest) l3 adj = Some (max 60 (l2 + length ip), b) \<and> length b = length (pre @ ip @ rest)
        \<and> take (max 60 (l2 + length ip)) b = take l2 (adj_L2 adj) @ hop ip @ replicate (60 - (l2 + length ip)) 0"
proof -
  let ?buf = "pre @ ip @ rest" and ?n = "l2 + length ip"
  have hr: "hop (ip @ rest) = hop ip @ rest" using ip(2) by (simp add: hop_def nth_append)
  have d: "decrement_ttl ?buf l3 = Some (pre @ hop ip @ rest)"
    using decrement_ttl_hop [of "ip @ rest" pre l3] ip(2) pre hr by simp
  have "get16 (hop ip @ rest) 2 = get16 ip 2" using get16_hop [OF ip(2)] ip(2) by (simp add: get16_def nth_append)
  then have t: "map_option unat (get16 (pre @ hop ip @ rest) (l3 + 2)) = Some (length ip)"
    using ip pre by (simp add: get16_def nth_append split: if_splits)
  note R = Rewrite_def d t l2_def [symmetric] Let_def
  show "Rewrite ?buf l3 adj = Some (0, pre @ hop ip @ rest)" if "l2 \<noteq> l3 \<and> length ?buf < ?n"
    using that ip(2) by (simp add: R del: add_2_eq_Suc')
  assume fit: "\<not> (l2 \<noteq> l3 \<and> length ?buf < ?n)"
  define B where "B = pre @ hop ip @ rest"
  have B: "length B = length ?buf" "take (length ip) (drop l3 B) = hop ip" using pre ip(2) by (simp_all add: B_def)
  define b3 where "b3 = (if l2 = l3 then B else take l2 B @ hop ip @ drop ?n B)"
  have len: "?n \<le> length ?buf" "l2 \<le> 18" using fit pre adj(2) ip(2) by (auto simp: l2_def)
  have lb3: "length b3 = length ?buf" using len ip(2) B(1) by (simp add: b3_def)
  have mv: "(if l2 \<noteq> l3 then do { ip' \<leftarrow> peek B l3 (length ip); poke B l2 ip' } else Some B) = Some b3"
    using ip(2) pre len B by (simp add: b3_def peek_def poke_def)
  have ip3: "take (length ip) (drop l2 b3) = hop ip" using B ip(2) len by (auto simp: b3_def)
  define b4 where "b4 = take l2 (adj_L2 adj) @ drop l2 b3"
  have b4: "peek (adj_L2 adj) 0 l2 = Some (take l2 (adj_L2 adj))" "poke b3 0 (take l2 (adj_L2 adj)) = Some b4" "length b4 = length ?buf"
    using adj(1) len lb3 by (simp_all add: peek_def poke_def b4_def)
  have t4: "take ?n b4 = take l2 (adj_L2 adj) @ hop ip" using ip3 adj(1) len(2) by (simp add: b4_def)
  have nf: "(l2 \<noteq> l3 \<and> length B < l2 + length ip) = False" using fit B(1) by simp
  have run: "Rewrite ?buf l3 adj = (if ?n < minFrame then do { b5 \<leftarrow> poke b4 ?n (replicate (minFrame - ?n) 0); Some (minFrame, b5) } else Some (?n, b4))"
    by (simp only: Rewrite_def d [folded B_def] t [folded B_def] l2_def [symmetric] Let_def Option.bind.bind_lunit nf mv b4(1,2) if_False)
  show "\<exists>b. Rewrite ?buf l3 adj = Some (max 60 ?n, b) \<and> length b = length ?buf
      \<and> take (max 60 ?n) b = take l2 (adj_L2 adj) @ hop ip @ replicate (60 - ?n) 0"
  proof (cases "?n < minFrame")
    case True
    then have "poke b4 ?n (replicate (minFrame - ?n) 0) = Some (take ?n b4 @ replicate (60 - ?n) 0 @ drop 60 b4)"
      using b4(3) buf by (simp add: poke_def minFrame_def)
    then show ?thesis using run True t4 b4(3) buf len adj(1) ip(2) by (simp add: minFrame_def max_def)
  next
    case False
    then show ?thesis using run t4 b4(3) by (simp add: minFrame_def max_def)
  qed
qed

section \<open>\<open>Parse\<close>\<close>

lemma tagged_frame:
  assumes "tagged pkt 14 ty m" "14 \<le> length pkt"
  shows "\<exists>tags. fst ` set tags \<subseteq> {etherTypeVLAN, etherTypeQinQ} \<and> m = 14 + 4 * length tags
     \<and> pkt = eth_frame (take 12 pkt) tags ty (drop m pkt) []"
proof -
  from assms(1) obtain tags where t: "fst ` set tags \<subseteq> {etherTypeVLAN, etherTypeQinQ}" "m = 14 + 4 * length tags"
    "drop 12 pkt = concat (map tag_bytes tags) @ be16 ty @ drop m pkt" by (auto simp: tagged_def)
  have "pkt = take 12 pkt @ drop 12 pkt" by simp
  also have "\<dots> = eth_frame (take 12 pkt) tags ty (drop m pkt) []" unfolding t(3) by (simp add: eth_frame_def)
  finally show ?thesis using t by blast
qed

lemma Parse_total:
  "\<exists>l3 dst code. Parse pkt l3OK = Some (l3, dst, code)
     \<and> (code = ErrNone \<longrightarrow> l3 + 20 \<le> length pkt
          \<and> (\<exists>tags. fst ` set tags \<subseteq> {etherTypeVLAN, etherTypeQinQ} \<and> l3 = 14 + 4 * length tags
               \<and> pkt = eth_frame (take 12 pkt) tags etherTypeIPv4 (drop l3 pkt) [])
          \<and> (\<exists>ihl len. ip_accepts (drop l3 pkt) ihl len \<and> (l3OK \<or> wsum (take ihl (drop l3 pkt)) mod 65535 = 0))
          \<and> dst = be_word (take 4 (drop (l3 + 16) pkt)))
     \<and> (code \<noteq> ErrNone \<longrightarrow> l3 = 0 \<and> dst = 0)"
proof (cases "length pkt < ethHeaderLen + ipv4HeaderLen")
  case True
  then show ?thesis by (simp add: Parse_def)
next
  case False
  then have len: "34 \<le> length pkt" by (simp add: forward_consts)
  then obtain et where et: "get16 pkt 12 = Some et" using get16_some [of 12 pkt] by auto
  from parse_tags_spec [of 14 pkt et] len et obtain r where
    r: "parse_tags pkt et 14 = Some r" "case r of Inl e \<Rightarrow> e = ErrShort
      | Inr (et', m) \<Rightarrow> 14 \<le> m \<and> m + 20 \<le> length pkt \<and> get16 pkt (m - 2) = Some et' \<and> tagged pkt 14 et' m" by auto
  note P = Parse_def False et r(1) ethHeaderLen_def
  show ?thesis
  proof (cases r)
    case (Inl e)
    then show ?thesis using r(2) False by (simp add: P)
  next
    case (Inr p)
    obtain et' m where p: "p = (et', m)" by (cases p)
    then have m: "14 \<le> m" "m + 20 \<le> length pkt" "tagged pkt 14 et' m" using r(2) Inr by simp_all
    show ?thesis
    proof (cases "et' = etherTypeIPv4")
      case True
      have l: "20 \<le> length (drop m pkt)" using m(2) by simp
      obtain c where c: "check_ip (drop m pkt) l3OK = Some c" using check_ip_total [OF l, of l3OK] by blast
      show ?thesis
      proof (cases c)
        case (Inl e)
        have "e \<noteq> ErrNone" using c Inl by (auto simp: check_ip_def Let_def bind_eq_Some_conv split: if_splits)
        then show ?thesis using Inl c True \<open>r = Inr p\<close> p False by (simp add: P)
      next
        case (Inr dst)
        then have a: "\<exists>ihl len. ip_accepts (drop m pkt) ihl len \<and> (l3OK \<or> wsum (take ihl (drop m pkt)) mod 65535 = 0)"
          "dst = be_word (take 4 (drop (m + 16) pkt))"
          using check_ip_accepts [OF l, of l3OK dst] c by (simp_all add: add.commute)
        have "Parse pkt l3OK = Some (m, dst, ErrNone)" using Inr c True \<open>r = Inr p\<close> p False by (simp add: P)
        then show ?thesis using a m(2) tagged_frame [OF m(3)] len True by (intro exI [of _ m] exI [of _ dst] exI [of _ ErrNone]) simp
      qed
    next
      case False
      then show ?thesis using Inr p \<open>\<not> length pkt < ethHeaderLen + ipv4HeaderLen\<close> by (simp add: P)
    qed
  qed
qed

lemma Parse_finds:
  assumes "length mac = 12" "fst ` set tags \<subseteq> {etherTypeVLAN, etherTypeQinQ}" "ip_accepts (ip @ pad) ihl len"
    and "l3OK \<or> wsum (take ihl (ip @ pad)) mod 65535 = 0"
  shows "Parse (eth_frame mac tags etherTypeIPv4 ip pad) l3OK = Some (14 + 4 * length tags, be_word (take 4 (drop 16 (ip @ pad))), ErrNone)"
proof -
  let ?f = "eth_frame mac tags etherTypeIPv4 ip pad" and ?et = "case tags of [] \<Rightarrow> etherTypeIPv4 | t # _ \<Rightarrow> fst t"
  have l: "20 \<le> length (ip @ pad)" using assms(3) by (simp add: ip_accepts_def)
  have f: "?f = mac @ concat (map tag_bytes tags) @ be16 etherTypeIPv4 @ (ip @ pad)" by (simp add: eth_frame_def)
  have "parse_tags ?f ?et (12 + 2) = Some (Inr (etherTypeIPv4, 12 + 2 + 4 * length tags))"
    unfolding f using assms(1,2) l by (intro parse_tags_walks) (auto simp: forward_consts)
  then have t: "parse_tags ?f ?et 14 = Some (Inr (etherTypeIPv4, 14 + 4 * length tags))" by simp
  have g: "get16 ?f 12 = Some ?et"
  proof (cases tags)
    case Nil
    then show ?thesis using get16_at [of mac 12 etherTypeIPv4 "ip @ pad"] assms(1) by (simp add: eth_frame_def)
  next
    case (Cons u us)
    then show ?thesis using get16_at [of mac 12 "fst u" "be16 (snd u) @ concat (map tag_bytes us) @ be16 etherTypeIPv4 @ ip @ pad"] assms(1)
      by (simp add: eth_frame_def tag_bytes_def)
  qed
  have d: "drop (14 + 4 * length tags) ?f = ip @ pad" using assms(1) by (simp add: f)
  have "check_ip (ip @ pad) l3OK = Some (Inr (be_word (take 4 (drop 16 (ip @ pad)))))"
    unfolding check_ip_accepts [OF l] using assms(3,4) by auto
  moreover have "\<not> length ?f < ethHeaderLen + ipv4HeaderLen" using assms(1) l by (simp add: eth_frame_def forward_consts)
  ultimately show ?thesis using g t d by (simp add: Parse_def ethHeaderLen_def)
qed

section \<open>Properties\<close>


text \<open>A frame with one VLAN tag around a packet of 20 header bytes, valid as it stands.\<close>

definition demo_ip :: bytes where
  "demo_ip = [0x45, 0, 0, 20, 0, 0, 0, 0, 64, 17, 0x7a, 0xd7, 0, 0, 0, 1, 0, 0, 0, 2]"

definition demo_frame :: bytes where
  "demo_frame = replicate 12 7 @ [0x81, 0, 0, 5] @ [8, 0] @ demo_ip"


text \<open>C37: \<open>Parse\<close> accepts every frame it may forward: under any number of 802.1Q and 802.1ad tags, an IPv4 header that is
  well formed, has hops to live and a valid checksum is found, at its offset and with its destination.\<close>

theorem Parse_complete:
  assumes "length mac = 12" "fst ` set tags \<subseteq> {etherTypeVLAN, etherTypeQinQ}" "ip_accepts (ip @ pad) ihl len"
    and "l3OK \<or> wsum (take ihl (ip @ pad)) mod 65535 = 0"
  shows "Parse (eth_frame mac tags etherTypeIPv4 ip pad) l3OK = Some (14 + 4 * length tags, be_word (take 4 (drop 16 (ip @ pad))), ErrNone)"
  using assms by (rule Parse_finds)

theorem Parse_complete_witness:
  "Parse (eth_frame (replicate 12 7) [(0x88a8, 1), (0x8100, 5)] etherTypeIPv4 demo_ip [9, 9]) False = Some (22, 2, ErrNone)"
proof -
  have "ip_accepts (demo_ip @ [9, 9]) 20 20" "wsum (take 20 (demo_ip @ [9, 9])) mod 65535 = 0"
    "be_word (take 4 (drop 16 (demo_ip @ [9, 9]))) = (2 :: u32)"
    by (simp_all add: demo_ip_def ip_accepts_def get16_def be_word_def)
  then show ?thesis
    using Parse_complete [of "replicate 12 7" "[(0x88a8, 1), (0x8100, 5)]" demo_ip "[9, 9]" 20 20 False] by (simp add: forward_consts)
qed

text \<open>C35: what \<open>Rewrite\<close> sends for an accepted frame. The frame out is the adjacency's header, the packet with one hop less
  and its checksum adjusted, and zeros up to the shortest frame; padding of the frame in is not sent. The header sum
  is unchanged in ones' complement, so a valid checksum stays valid. Only a packet that no longer fits its buffer
  is refused, with length 0. No buffer is overrun.\<close>

theorem Rewrite_forwards:
  assumes "Parse (take n buf) l3OK = Some (l3, dst, ErrNone)" "60 \<le> length buf" "length (adj_L2 adj) = 18" "unat (adj_L2Len adj) \<le> 18"
  defines "l2 \<equiv> unat (adj_L2Len adj)"
  shows "\<exists>ihl len m b. ip_accepts (drop l3 (take n buf)) ihl len \<and> Rewrite buf l3 adj = Some (m, b) \<and> length b = length buf
     \<and> wsum (take ihl (hop (take len (drop l3 buf)))) mod 65535 = wsum (take ihl (drop l3 buf)) mod 65535
     \<and> (if l2 \<noteq> l3 \<and> length buf < l2 + len then m = 0
        else m = max 60 (l2 + len) \<and> take m b = take l2 (adj_L2 adj) @ hop (take len (drop l3 buf)) @ replicate (60 - (l2 + len)) 0)"
proof -
  from Parse_total [of "take n buf" l3OK] assms(1) obtain ihl len where
    a: "ip_accepts (drop l3 (take n buf)) ihl len" "l3 + 20 \<le> length (take n buf)" by auto
  have le: "20 \<le> ihl" "ihl \<le> len" "len \<le> length (drop l3 (take n buf))"
    "map_option unat (get16 (drop l3 (take n buf)) 2) = Some len" "1 < drop l3 (take n buf) ! 8"
    using a(1) by (simp_all add: ip_accepts_def)
  define pre ip rest where "pre = take l3 buf" and "ip = take len (drop l3 buf)" and "rest = drop (l3 + len) buf"
  have lens: "length pre = l3" "length ip = len" "len + l3 \<le> length buf" using a(2) le(3) by (auto simp: pre_def ip_def)
  have "ip @ rest = drop l3 buf" using append_take_drop_id [of len "drop l3 buf"] by (simp add: ip_def rest_def add.commute)
  then have buf: "buf = pre @ ip @ rest" by (simp add: pre_def)
  have "len \<le> n - l3" using le(3) by simp
  then have "ip = take len (drop l3 (take n buf))" by (simp add: ip_def drop_take min_def)
  then have d: "drop l3 (take n buf) = ip @ drop len (drop l3 (take n buf))" by (simp only: append_take_drop_id)
  have g: "map_option unat (get16 ip 2) = Some (length ip)"
    using le lens(2) d by (auto simp: get16_def nth_append ip_def split: if_splits)
  have ttl: "0 < take ihl ip ! 8" using le lens(2) d by (auto simp: nth_append word_gt_0)
  have h: "take ihl (drop l3 buf) = take ihl ip" using le by (simp add: ip_def min_def)
  have "wsum (take ihl (hop ip)) mod 65535 = wsum (take ihl ip) mod 65535"
    using hop_sum [of "take ihl ip"] take_hop [of ihl ip] le lens(2) ttl ip_accepts_bounds(2) [OF a(1)] by (simp add: min_def)
  then have w: "wsum (take ihl (hop (take len (drop l3 buf)))) mod 65535 = wsum (take ihl (drop l3 buf)) mod 65535"
    using h by (simp add: ip_def)
  have b60: "60 \<le> length (pre @ ip @ rest)" "12 \<le> length ip"
    using assms(2) by (simp only: buf [symmetric], use le(1,2) lens(2) in simp)
  note R = Rewrite_frame [OF g b60(2) lens(1) assms(3,4) b60(1), folded buf l2_def, unfolded lens(2)]
  show ?thesis
  proof (cases "l2 \<noteq> l3 \<and> length buf < l2 + len")
    case True
    have "length (pre @ hop ip @ rest) = length (pre @ ip @ rest)" using b60(2) by simp
    then have "length (pre @ hop ip @ rest) = length buf" by (simp only: buf [symmetric])
    then show ?thesis using R(1) [OF True] a(1) w True by (intro exI [of _ ihl] exI [of _ len] exI [of _ 0] exI [of _ "pre @ hop ip @ rest"]) simp
  next
    case False
    from R(2) [OF False] obtain b where "Rewrite buf l3 adj = Some (max 60 (l2 + len), b)" "length b = length buf"
      "take (max 60 (l2 + len)) b = take l2 (adj_L2 adj) @ hop ip @ replicate (60 - (l2 + len)) 0" by blast
    then show ?thesis using a(1) w False by (intro exI [of _ ihl] exI [of _ len] exI [of _ "max 60 (l2 + len)"] exI [of _ b]) (simp add: ip_def)
  qed
qed

theorem Rewrite_forwards_witness:
  "\<exists>m b. Rewrite (demo_frame @ replicate 30 1) 18 (NewAdjacency (replicate 6 2) (replicate 6 3) 0) = Some (m, b) \<and> m = 60"
proof -
  let ?adj = "NewAdjacency (replicate 6 2) (replicate 6 3) 0" and ?buf = "demo_frame @ replicate 30 1"
  have "ip_accepts (demo_ip @ []) 20 20" "wsum (take 20 (demo_ip @ [])) mod 65535 = 0"
    by (simp_all add: demo_ip_def ip_accepts_def get16_def)
  then have "Parse (eth_frame (replicate 12 7) [(0x8100, 5)] etherTypeIPv4 demo_ip []) False = Some (18, be_word (take 4 (drop 16 demo_ip)), ErrNone)"
    using Parse_finds [of "replicate 12 7" "[(0x8100, 5)]" demo_ip "[]" 20 20 False] by (simp add: forward_consts)
  moreover have "eth_frame (replicate 12 7) [(0x8100, 5)] etherTypeIPv4 demo_ip [] = take 38 ?buf"
    by (simp add: eth_frame_def demo_frame_def tag_bytes_def etherTypeIPv4_def be16_pair demo_ip_def)
  ultimately have p: "Parse (take 38 ?buf) False = Some (18, be_word (take 4 (drop 16 demo_ip)), ErrNone)" by simp
  have a: "60 \<le> length ?buf" "length (adj_L2 ?adj) = 18" "unat (adj_L2Len ?adj) = 14"
    by (simp_all add: demo_frame_def demo_ip_def NewAdjacency_def Let_def forward_consts)
  from Rewrite_forwards [OF p a(1,2)] a(3) obtain ihl len m b where
    r: "ip_accepts (drop 18 (take 38 ?buf)) ihl len" "Rewrite ?buf 18 ?adj = Some (m, b)"
      "if 14 \<noteq> (18 :: nat) \<and> length ?buf < 14 + len then m = 0 else m = max 60 (14 + len)" by auto
  have "len \<le> 20" using r(1) by (auto simp: ip_accepts_def demo_frame_def demo_ip_def)
  then show ?thesis using r(2,3) by (auto simp: demo_frame_def demo_ip_def)
qed

end
