(* ===== verification/Fib.thy ===== *)
theory Fib
  imports Packetio_Prelude
begin

text \<open>
  The forwarding table of \<^verbatim>\<open>examples/internal/forward/fib.go\<close>, a 16-8-8 multibit trie. The plies are shared mutable
  arrays in the source; here they stay in the table's list and a node is named by its index, so that what aliases
  what is explicit. \<open>None\<close> is a Go panic. The recursion of \<open>coverPly\<close> is on fuel; two levels of plies need two.
\<close>

section \<open>The source\<close>

definition leafEmpty :: u32 where "leafEmpty = 0"
definition leafAdj :: "u32 \<Rightarrow> u32" where "leafAdj adj = push_bit 1 adj"
definition leafPly :: "u32 \<Rightarrow> u32" where "leafPly p = push_bit 1 p OR 1"
definition leafIsPly :: "u32 \<Rightarrow> bool" where "leafIsPly l \<longleftrightarrow> l AND 1 = 1"
definition leafGetPly :: "u32 \<Rightarrow> u32" where "leafGetPly l = drop_bit 1 l"

record ply =
  p_leaves :: "u32 list"
  p_plens :: "u8 list"

record v4fib =
  rootLeaves :: "u32 list"
  rootPlens :: "u8 list"
  plies :: "ply list"
  routes :: nat

definition NewV4Fib :: v4fib where
  "NewV4Fib = \<lparr>rootLeaves = replicate (2 ^ 16) 0, rootPlens = replicate (2 ^ 16) 0, plies = [], routes = 0\<rparr>"

text \<open>The two arrays a slot lives in: the root's, or those of a ply.\<close>

datatype fnode = FRoot | FPly nat

definition slot_get :: "v4fib \<Rightarrow> fnode \<Rightarrow> nat \<Rightarrow> (u32 \<times> u8) option" where
  "slot_get f n i =
     (case n of
        FRoot \<Rightarrow> if i < length (rootLeaves f) \<and> i < length (rootPlens f) then Some (rootLeaves f ! i, rootPlens f ! i) else None
      | FPly p \<Rightarrow> if p < length (plies f) \<and> i < length (p_leaves (plies f ! p)) \<and> i < length (p_plens (plies f ! p))
                  then Some (p_leaves (plies f ! p) ! i, p_plens (plies f ! p) ! i) else None)"

definition slot_set :: "v4fib \<Rightarrow> fnode \<Rightarrow> nat \<Rightarrow> u32 \<Rightarrow> u8 \<Rightarrow> v4fib option" where
  "slot_set f n i l pl =
     (if slot_get f n i = None then None
      else case n of
        FRoot \<Rightarrow> Some (f\<lparr>rootLeaves := (rootLeaves f)[i := l], rootPlens := (rootPlens f)[i := pl]\<rparr>)
      | FPly p \<Rightarrow> let q = plies f ! p
                  in Some (f\<lparr>plies := (plies f)[p := q\<lparr>p_leaves := (p_leaves q)[i := l], p_plens := (p_plens q)[i := pl]\<rparr>]\<rparr>))"

definition lookupPlies :: "v4fib \<Rightarrow> u32 \<Rightarrow> u32 \<Rightarrow> u32 option" where
  "lookupPlies f dst l =
     do { (l1, _) \<leftarrow> slot_get f (FPly (unat (drop_bit 1 l))) (unat (drop_bit 8 dst AND 0xff));
          if l1 AND 1 = 0 then Some (drop_bit 1 l1)
          else do { (l2, _) \<leftarrow> slot_get f (FPly (unat (drop_bit 1 l1))) (unat (dst AND 0xff));
                    Some (drop_bit 1 l2) } }"

definition fib_Lookup :: "v4fib \<Rightarrow> u32 \<Rightarrow> u32 option" where
  "fib_Lookup f dst =
     do { (l, _) \<leftarrow> slot_get f FRoot (unat (drop_bit 16 dst));
          if l AND 1 = 0 then Some (drop_bit 1 l) else lookupPlies f dst l }"

definition plenMask :: "u8 \<Rightarrow> u32" where
  "plenMask plen = (if plen = 0 then 0 else push_bit (unat (32 - plen)) (NOT 0))"

text \<open>A loop over slots.\<close>

fun each_slot :: "(nat \<Rightarrow> v4fib \<Rightarrow> v4fib option) \<Rightarrow> nat list \<Rightarrow> v4fib \<Rightarrow> v4fib option" where
  "each_slot g [] f = Some f"
| "each_slot g (i # is) f = do { f1 \<leftarrow> g i f; each_slot g is f1 }"

text \<open>What \<open>Insert\<close> and \<open>coverPly\<close> do to one slot; \<open>cover\<close> is the call for a ply behind it.\<close>

definition cover_slot :: "(nat \<Rightarrow> v4fib \<Rightarrow> v4fib option) \<Rightarrow> u32 \<Rightarrow> u8 \<Rightarrow> fnode \<Rightarrow> nat \<Rightarrow> v4fib \<Rightarrow> v4fib option" where
  "cover_slot cover adj plen n i f =
     do { (l, pl) \<leftarrow> slot_get f n i;
          if pl \<le> plen \<or> l = leafEmpty
          then if leafIsPly l then cover (unat (leafGetPly l)) f else slot_set f n i (leafAdj adj) plen
          else Some f }"

primrec coverPly :: "nat \<Rightarrow> u32 \<Rightarrow> u8 \<Rightarrow> nat \<Rightarrow> v4fib \<Rightarrow> v4fib option" where
  "coverPly 0 adj plen p f = None"
| "coverPly (Suc d) adj plen p f = each_slot (cover_slot (coverPly d adj plen) adj plen (FPly p)) [0..<256] f"

definition childPly :: "fnode \<Rightarrow> nat \<Rightarrow> v4fib \<Rightarrow> (nat \<times> v4fib) option" where
  "childPly n i f =
     do { (l, pl) \<leftarrow> slot_get f n i;
          if leafIsPly l
          then if unat (leafGetPly l) < length (plies f) then Some (unat (leafGetPly l), f) else None
          else do { let idx = length (plies f);
                    let p = (if l \<noteq> leafEmpty then \<lparr>p_leaves = replicate 256 l, p_plens = replicate 256 pl\<rparr>
                             else \<lparr>p_leaves = replicate 256 0, p_plens = replicate 256 0\<rparr>);
                    f1 \<leftarrow> slot_set (f\<lparr>plies := plies f @ [p]\<rparr>) n i (leafPly (of_nat idx)) 0;
                    Some (idx, f1) } }"

text \<open>\<open>1 << k\<close> of an \<open>int\<close>, as the bound of a counting loop.\<close>

definition shl_one :: "u8 \<Rightarrow> nat" where
  "shl_one k = (if unat k < 63 then 2 ^ unat k else 0)"

definition fib_walk :: "u32 \<Rightarrow> u8 \<Rightarrow> (fnode \<Rightarrow> nat \<Rightarrow> v4fib \<Rightarrow> v4fib option) \<Rightarrow> v4fib \<Rightarrow> v4fib option" where
  "fib_walk prefix plen fn f =
     (if plen \<le> 16
      then each_slot (\<lambda>i. fn FRoot (unat (drop_bit 16 prefix) + i)) [0..<shl_one (16 - plen)] f
      else if plen \<le> 24
      then do { (p, f1) \<leftarrow> childPly FRoot (unat (drop_bit 16 prefix)) f;
                each_slot (\<lambda>i. fn (FPly p) (unat (drop_bit 8 prefix AND 0xff) + i)) [0..<shl_one (24 - plen)] f1 }
      else do { (p1, f1) \<leftarrow> childPly FRoot (unat (drop_bit 16 prefix)) f;
                (p2, f2) \<leftarrow> childPly (FPly p1) (unat (drop_bit 8 prefix AND 0xff)) f1;
                each_slot (\<lambda>i. fn (FPly p2) (unat (prefix AND 0xff) + i)) [0..<shl_one (32 - plen)] f2 })"

definition fib_Insert :: "u32 \<Rightarrow> u8 \<Rightarrow> u32 \<Rightarrow> v4fib \<Rightarrow> v4fib option" where
  "fib_Insert prefix plen adj f =
     fib_walk (prefix AND plenMask plen) plen (cover_slot (coverPly 2 adj plen) adj plen) (f\<lparr>routes := routes f + 1\<rparr>)"

definition fib_Routes :: "v4fib \<Rightarrow> nat" where
  "fib_Routes f = routes f"

section \<open>The trie\<close>

text \<open>The ply a slot points to.\<close>

definition ref_at :: "v4fib \<Rightarrow> fnode \<Rightarrow> nat \<Rightarrow> nat option" where
  "ref_at f n i = (case slot_get f n i of Some (l, _) \<Rightarrow> if leafIsPly l then Some (unat (leafGetPly l)) else None | None \<Rightarrow> None)"

definition node_size :: "fnode \<Rightarrow> nat" where
  "node_size n = (case n of FRoot \<Rightarrow> 65536 | FPly _ \<Rightarrow> 256)"

definition node_in :: "v4fib \<Rightarrow> fnode \<Rightarrow> bool" where
  "node_in f n = (case n of FRoot \<Rightarrow> True | FPly p \<Rightarrow> p < length (plies f))"

text \<open>A tree of at most two levels of plies: every ply is behind the one slot \<open>own\<close> names, and the plies of a ply
  hold none.\<close>

definition fib_tree :: "(nat \<Rightarrow> fnode \<times> nat) \<Rightarrow> v4fib \<Rightarrow> bool" where
  "fib_tree own f \<longleftrightarrow>
     length (rootLeaves f) = 65536 \<and> length (rootPlens f) = 65536
     \<and> (\<forall>p \<in> set (plies f). length (p_leaves p) = 256 \<and> length (p_plens p) = 256)
     \<and> (\<forall>n i l pl. slot_get f n i = Some (l, pl) \<longrightarrow> (leafIsPly l \<or> l = 0 \<longrightarrow> pl = 0))
     \<and> (\<forall>n i p. ref_at f n i = Some p \<longrightarrow> p < length (plies f) \<and> own p = (n, i)
          \<and> (\<forall>q. n = FPly q \<longrightarrow> fst (own q) = FRoot))
     \<and> (\<forall>p < length (plies f). ref_at f (fst (own p)) (snd (own p)) = Some p)"

text \<open>The slot a destination ends up at, and what it holds.\<close>

definition fib_path :: "v4fib \<Rightarrow> u32 \<Rightarrow> (fnode \<times> nat) list" where
  "fib_path f dst =
     (let a = unat (drop_bit 16 dst); b = unat (drop_bit 8 dst AND 0xff); c = unat (dst AND 0xff)
      in case ref_at f FRoot a of None \<Rightarrow> [(FRoot, a)]
         | Some p \<Rightarrow> (case ref_at f (FPly p) b of None \<Rightarrow> [(FRoot, a), (FPly p, b)]
           | Some q \<Rightarrow> [(FRoot, a), (FPly p, b), (FPly q, c)]))"

definition fib_view :: "v4fib \<Rightarrow> u32 \<Rightarrow> u32 \<times> u8" where
  "fib_view f dst = the (case_prod (slot_get f) (last (fib_path f dst)))"

lemma leaf_bits:
  "leafIsPly (leafPly p)" "\<not> leafIsPly (leafAdj a)" "\<not> leafIsPly 0" "l AND 1 = 0 \<longleftrightarrow> \<not> leafIsPly l"
proof -
  have e: "leafIsPly l \<longleftrightarrow> bit l 0" for l :: u32 by (simp add: leafIsPly_def and_one_eq mod_2_eq_odd bit_0)
  show "leafIsPly (leafPly p)" "\<not> leafIsPly (leafAdj a)" "\<not> leafIsPly 0"
    unfolding e by (simp_all add: leafPly_def leafAdj_def bit_push_bit_iff bit_0 even_or_iff)
  show "l AND 1 = 0 \<longleftrightarrow> \<not> leafIsPly l" unfolding e by (simp add: and_one_eq mod_2_eq_odd bit_0)
qed

lemma leaf_values:
  shows "p < 2 ^ 31 \<Longrightarrow> unat (leafGetPly (leafPly (of_nat p))) = p" "unat a < 2 ^ 31 \<Longrightarrow> drop_bit 1 (leafAdj a) = a"
    "unat a < 2 ^ 31 \<Longrightarrow> a \<noteq> 0 \<Longrightarrow> leafAdj a \<noteq> 0"
proof -
  have top: "\<not> bit a i" if "unat a < 2 ^ 31" "31 \<le> i" for a :: u32 and i
  proof -
    have "(2 :: nat) ^ 31 \<le> 2 ^ i" using that(2) by (simp only: power_increasing_iff)
    then have "unat a div 2 ^ i = 0" using that(1) by simp
    then have "\<not> bit (unat a) i" by (simp add: bit_iff_odd)
    then show ?thesis by (simp add: bit_unsigned_iff)
  qed
  have d: "drop_bit 1 (push_bit 1 a) = a" if "unat a < 2 ^ 31" for a :: u32
  proof (rule bit_word_eqI)
    fix n assume "n < LENGTH(32)"
    then show "bit (drop_bit 1 (push_bit 1 a)) n = bit a n" using top [OF that, of 31]
      unfolding bit_drop_bit_eq comp_apply bit_push_bit_iff by (cases "n = 31") auto
  qed
  show "drop_bit 1 (leafAdj a) = a" if "unat a < 2 ^ 31" using d [OF that] by (simp add: leafAdj_def)
  then show "unat a < 2 ^ 31 \<Longrightarrow> a \<noteq> 0 \<Longrightarrow> leafAdj a \<noteq> 0" by (metis drop_bit_of_0)
  assume p: "p < 2 ^ 31"
  then have u: "unat (of_nat p :: u32) = p" by (simp add: unsigned_of_nat take_bit_nat_eq_self)
  have "drop_bit 1 (push_bit 1 (of_nat p) OR 1 :: u32) = drop_bit 1 (push_bit 1 (of_nat p)) OR drop_bit 1 1" by (rule drop_bit_or)
  also have "\<dots> = of_nat p" using d [of "of_nat p"] u p by simp
  finally show "unat (leafGetPly (leafPly (of_nat p))) = p" using u by (simp add: leafGetPly_def leafPly_def)
qed

lemma slot_get_defined:
  assumes "fib_tree own f"
  shows "slot_get f n i \<noteq> None \<longleftrightarrow> node_in f n \<and> i < node_size n"
  using assms by (cases n) (auto simp: slot_get_def node_in_def node_size_def fib_tree_def)

lemma slot_get_set:
  assumes "slot_set f n i l pl = Some f'"
  shows "slot_get f' m j = (if m = n \<and> j = i then Some (l, pl) else slot_get f m j)" "length (plies f') = length (plies f)"
    "routes f' = routes f"
  using assms by (cases n; cases m; auto simp: slot_set_def slot_get_def nth_list_update Let_def split: if_splits)+

lemma slot_set_ply_size:
  assumes "\<forall>p \<in> set (plies f). length (p_leaves p) = 256 \<and> length (p_plens p) = 256" "slot_set f n i l pl = Some f'"
  shows "\<forall>p \<in> set (plies f'). length (p_leaves p) = 256 \<and> length (p_plens p) = 256"
proof (cases n)
  case FRoot
  then show ?thesis using assms by (auto simp: slot_set_def split: if_splits)
next
  case (FPly p)
  let ?q = "plies f ! p"
  have f': "f' = f\<lparr>plies := (plies f)[p := ?q\<lparr>p_leaves := (p_leaves ?q)[i := l], p_plens := (p_plens ?q)[i := pl]\<rparr>]\<rparr>"
    "p < length (plies f)" using assms(2) FPly by (auto simp: slot_set_def slot_get_def Let_def split: if_splits)
  have "?q \<in> set (plies f)" using f'(2) by simp
  then have "length (p_leaves ?q) = 256 \<and> length (p_plens ?q) = 256" using assms(1) by blast
  then show ?thesis using assms(1) f' by (auto dest: set_update_subset_insert [THEN subsetD])
qed

lemma slot_set_tree_size:
  assumes "fib_tree own f" "slot_set f n i l pl = Some f'"
  shows "length (rootLeaves f') = 65536 \<and> length (rootPlens f') = 65536
     \<and> (\<forall>p \<in> set (plies f'). length (p_leaves p) = 256 \<and> length (p_plens p) = 256)"
proof -
  have "length (rootLeaves f') = 65536" "length (rootPlens f') = 65536"
    using assms by (cases n; auto simp: slot_set_def fib_tree_def Let_def split: if_splits)+
  then show ?thesis using slot_set_ply_size [OF _ assms(2)] assms(1) by (auto simp: fib_tree_def)
qed

lemma ref_at_less: "ref_at f n i = Some p \<Longrightarrow> fib_tree own f \<Longrightarrow> p < length (plies f) \<and> own p = (n, i)"
  by (auto simp: fib_tree_def)

lemma ref_at_slot: "slot_get f n i = Some (l, pl) \<Longrightarrow> ref_at f n i = (if leafIsPly l then Some (unat (leafGetPly l)) else None)"
  by (simp add: ref_at_def)

section \<open>Paths\<close>

lemma path_nonempty [simp]: "fib_path f dst \<noteq> []"
  by (simp add: fib_path_def Let_def split: option.splits)

lemma path_inside:
  assumes "fib_tree own f" "(n, i) \<in> set (fib_path f dst)"
  shows "node_in f n" "i < node_size n"
proof -
  have b: "unat (drop_bit 16 dst) < 65536" "unat (drop_bit 8 dst AND 0xff) < 256" "unat (dst AND 0xff) < 256"
    using unat_bound [of dst] unat_drop_bit [of 16 dst] unat_and_mask [of 8 "drop_bit 8 dst"] unat_and_mask [of 8 dst]
    by (simp_all add: less_mult_imp_div_less)
  show "node_in f n" "i < node_size n" using assms(2) b ref_at_less [OF _ assms(1)]
    by (auto simp: fib_path_def Let_def node_in_def node_size_def split: option.splits)
qed

lemma path_end:
  assumes "fib_tree own f"
  shows "case_prod (ref_at f) (last (fib_path f dst)) = None"
proof -
  have "ref_at f (FPly q) c = None" if "ref_at f (FPly p) b = Some q" for p q b c
  proof (cases "ref_at f (FPly q) c")
    case (Some r)
    then have "fst (own q) = FRoot" using assms unfolding fib_tree_def by blast
    then show ?thesis using ref_at_less [OF that assms] by simp
  qed
  then show ?thesis by (auto simp: fib_path_def Let_def split: option.splits)
qed

lemma path_last: "(n, i) \<in> set (fib_path f dst) \<Longrightarrow> ref_at f n i = None \<Longrightarrow> last (fib_path f dst) = (n, i)"
  by (auto simp: fib_path_def Let_def split: option.splits)

lemma path_refs:
  assumes "\<And>n i. ref_at f' n i = ref_at f n i"
  shows "fib_path f' dst = fib_path f dst"
proof -
  have "ref_at f' = ref_at f" by (intro ext) (rule assms)
  then show ?thesis by (simp only: fib_path_def)
qed

lemma path_child:
  assumes "fib_tree own f" "ref_at f n i = Some p"
  shows "(\<exists>j < 256. (FPly p, j) \<in> set (fib_path f dst)) \<longleftrightarrow> (n, i) \<in> set (fib_path f dst)"
proof
  assume "\<exists>j < 256. (FPly p, j) \<in> set (fib_path f dst)"
  then obtain m k where "(m, k) \<in> set (fib_path f dst)" "ref_at f m k = Some p"
    by (auto simp: fib_path_def Let_def split: option.splits)
  moreover then have "m = n \<and> k = i" using ref_at_less [OF _ assms(1)] assms(2) by (metis prod.inject)
  ultimately show "(n, i) \<in> set (fib_path f dst)" by simp
next
  assume "(n, i) \<in> set (fib_path f dst)"
  then have "\<exists>j. (FPly p, j) \<in> set (fib_path f dst)"
    using assms(2) path_end [OF assms(1), of dst] by (auto simp: fib_path_def Let_def split: option.splits)
  then obtain j where j: "(FPly p, j) \<in> set (fib_path f dst)" by blast
  then show "\<exists>j < 256. (FPly p, j) \<in> set (fib_path f dst)" using path_inside(2) [OF assms(1) j] by (auto simp: node_size_def)
qed

lemma view_slot:
  assumes "fib_tree own f"
  shows "case_prod (slot_get f) (last (fib_path f dst)) = Some (fib_view f dst)"
proof -
  obtain n i where l: "last (fib_path f dst) = (n, i)" by (cases "last (fib_path f dst)")
  then have "(n, i) \<in> set (fib_path f dst)" using last_in_set [OF path_nonempty, of f dst] by simp
  then have "slot_get f n i \<noteq> None" using path_inside [OF assms] slot_get_defined [OF assms] by blast
  then show ?thesis using l by (auto simp: fib_view_def)
qed

lemma Lookup_view:
  assumes "fib_tree own f"
  shows "fib_Lookup f dst = Some (drop_bit 1 (fst (fib_view f dst)))"
proof -
  let ?a = "unat (drop_bit 16 dst)" and ?b = "unat (drop_bit 8 dst AND 0xff)" and ?c = "unat (dst AND 0xff)"
  note v = view_slot [OF assms, of dst]
  have "(FRoot, ?a) \<in> set (fib_path f dst)" by (simp add: fib_path_def Let_def split: option.splits)
  then obtain l pl where l: "slot_get f FRoot ?a = Some (l, pl)" using path_inside [OF assms] slot_get_defined [OF assms] by fastforce
  show ?thesis
  proof (cases "leafIsPly l")
    case False
    then show ?thesis using l v by (cases "fib_view f dst") (simp add: fib_Lookup_def leaf_bits ref_at_slot [OF l] fib_path_def)
  next
    case True
    let ?p = "unat (leafGetPly l)"
    have r: "ref_at f FRoot ?a = Some ?p" using True by (simp add: ref_at_slot [OF l])
    then have "(FPly ?p, ?b) \<in> set (fib_path f dst)" by (simp add: fib_path_def Let_def split: option.splits)
    then obtain l1 pl1 where l1: "slot_get f (FPly ?p) ?b = Some (l1, pl1)"
      using path_inside [OF assms] slot_get_defined [OF assms] by fastforce
    show ?thesis
    proof (cases "leafIsPly l1")
      case False
      have "slot_get f (FPly ?p) ?b = Some (fib_view f dst)" using v r False by (simp add: ref_at_slot [OF l1] fib_path_def)
      then show ?thesis using True False l l1
        by (cases "fib_view f dst") (simp add: fib_Lookup_def lookupPlies_def leaf_bits leafGetPly_def)
    next
      case True
      have "slot_get f (FPly (unat (leafGetPly l1))) ?c = Some (fib_view f dst)"
        using v r True by (simp add: ref_at_slot [OF l1] fib_path_def)
      then show ?thesis using \<open>leafIsPly l\<close> True l l1
        by (cases "fib_view f dst") (simp add: fib_Lookup_def lookupPlies_def leaf_bits leafGetPly_def)
    qed
  qed
qed

section \<open>Covering\<close>

text \<open>What a route does to the entry of a destination it covers.\<close>

definition covered :: "u32 \<Rightarrow> u8 \<Rightarrow> u32 \<times> u8 \<Rightarrow> u32 \<times> u8" where
  "covered adj plen v = (if snd v \<le> plen \<or> fst v = 0 then (leafAdj adj, plen) else v)"

lemma covered_twice: "covered adj plen (covered adj plen v) = covered adj plen v"
  by (simp add: covered_def)

text \<open>A step that keeps the tree and covers exactly the destinations in \<open>X\<close>.\<close>

definition covers :: "(nat \<Rightarrow> fnode \<times> nat) \<Rightarrow> u32 \<Rightarrow> u8 \<Rightarrow> u32 set \<Rightarrow> v4fib \<Rightarrow> v4fib \<Rightarrow> bool" where
  "covers own adj plen X f f' \<longleftrightarrow> fib_tree own f' \<and> (\<forall>n i. ref_at f' n i = ref_at f n i) \<and> length (plies f') = length (plies f)
     \<and> routes f' = routes f \<and> (\<forall>dst. fib_view f' dst = (if dst \<in> X then covered adj plen (fib_view f dst) else fib_view f dst))"

lemma covers_trans: "covers own adj plen X f f1 \<Longrightarrow> covers own adj plen Y f1 f2 \<Longrightarrow> covers own adj plen (X \<union> Y) f f2"
  unfolding covers_def by (auto simp: covered_twice)

definition through :: "v4fib \<Rightarrow> fnode \<Rightarrow> nat \<Rightarrow> u32 set" where
  "through f n i = {dst. (n, i) \<in> set (fib_path f dst)}"

lemma through_refs: "(\<And>n i. ref_at f' n i = ref_at f n i) \<Longrightarrow> through f' n i = through f n i"
  by (simp add: through_def path_refs [of f' f])

lemma through_child:
  assumes "fib_tree own f" "ref_at f n i = Some p"
  shows "(\<Union>j \<in> {0..<256}. through f (FPly p) j) = through f n i"
proof (rule set_eqI)
  fix dst show "dst \<in> (\<Union>j \<in> {0..<256}. through f (FPly p) j) \<longleftrightarrow> dst \<in> through f n i"
    using path_child [OF assms, of dst] by (auto simp: through_def)
qed

lemma view_of_slot:
  assumes "fib_tree own f" "slot_get f n i = Some (l, pl)" "\<not> leafIsPly l" "dst \<in> through f n i"
  shows "fib_view f dst = (l, pl)" "last (fib_path f dst) = (n, i)"
proof -
  have "ref_at f n i = None" using assms(2,3) by (simp add: ref_at_slot)
  then show e: "last (fib_path f dst) = (n, i)" using assms(4) path_last by (simp add: through_def)
  then show "fib_view f dst = (l, pl)" using view_slot [OF assms(1), of dst] assms(2) by simp
qed

text \<open>Writing a route into a slot that holds no ply.\<close>

lemma set_slot_covers:
  assumes tree: "fib_tree own f" and slot: "slot_get f n i = Some (l, pl)" "\<not> leafIsPly l" "pl \<le> plen \<or> l = 0"
    and adj: "unat adj < 2 ^ 31" "adj \<noteq> 0"
  shows "\<exists>f'. slot_set f n i (leafAdj adj) plen = Some f' \<and> covers own adj plen (through f n i) f f'"
proof -
  obtain f' where f': "slot_set f n i (leafAdj adj) plen = Some f'"
    using slot(1) by (cases n) (auto simp: slot_set_def Let_def)
  note get = slot_get_set [OF f']
  have ref: "ref_at f' m j = ref_at f m j" for m j
  proof (cases "m = n \<and> j = i")
    case True
    then show ?thesis using slot get(1) [of n i] by (simp add: ref_at_slot leaf_bits)
  next
    case False
    then have "slot_get f' m j = slot_get f m j" by (auto simp: get(1))
    then show ?thesis by (simp add: ref_at_def)
  qed
  have nz: "leafAdj adj \<noteq> 0" by (rule leaf_values(3) [OF adj])
  have "\<forall>m j k pk. slot_get f' m j = Some (k, pk) \<longrightarrow> (leafIsPly k \<or> k = 0 \<longrightarrow> pk = 0)"
    using tree nz leaf_bits(2) [of adj] unfolding get(1) fib_tree_def by auto
  then have tree': "fib_tree own f'"
    using slot_set_tree_size [OF tree f'] tree ref get(2) unfolding fib_tree_def by simp
  have "fib_view f' dst = (if dst \<in> through f n i then covered adj plen (fib_view f dst) else fib_view f dst)" for dst
  proof (cases "dst \<in> through f n i")
    case True
    have "dst \<in> through f' n i" using True through_refs [OF ref] by simp
    moreover have "slot_get f' n i = Some (leafAdj adj, plen)" using get(1) by simp
    ultimately have "fib_view f' dst = (leafAdj adj, plen)" using view_of_slot(1) [OF tree'] leaf_bits(2) by blast
    then show ?thesis using True view_of_slot(1) [OF tree slot(1,2) True] slot(3) by (simp add: covered_def)
  next
    case False
    then have "last (fib_path f dst) \<noteq> (n, i)" unfolding through_def mem_Collect_eq by (metis last_in_set path_nonempty)
    then show ?thesis using False view_slot [OF tree, of dst] view_slot [OF tree', of dst] path_refs [OF ref]
      by (auto simp: get(1) split: prod.splits if_splits)
  qed
  then show ?thesis using f' tree' ref get(2,3) by (auto simp: covers_def)
qed

text \<open>One slot, given that the call for a ply behind it covers that ply.\<close>

lemma cover_slot_covers:
  assumes tree: "fib_tree own f" and inside: "node_in f n" "i < node_size n" and adj: "unat adj < 2 ^ 31" "adj \<noteq> 0"
    and call: "\<And>p. ref_at f n i = Some p \<Longrightarrow> \<exists>f'. cover p f = Some f' \<and> covers own adj plen (\<Union>j \<in> {0..<256}. through f (FPly p) j) f f'"
  shows "\<exists>f'. cover_slot cover adj plen n i f = Some f' \<and> covers own adj plen (through f n i) f f'"
proof -
  obtain l pl where s: "slot_get f n i = Some (l, pl)" using inside slot_get_defined [OF tree, of n i] by auto
  have ply0: "leafIsPly l \<Longrightarrow> pl = 0" using tree s unfolding fib_tree_def by blast
  consider (ply) "leafIsPly l" | (set) "\<not> leafIsPly l" "pl \<le> plen \<or> l = 0" | (keep) "\<not> leafIsPly l" "\<not> (pl \<le> plen \<or> l = 0)" by blast
  then show ?thesis
  proof cases
    case ply
    then have r: "ref_at f n i = Some (unat (leafGetPly l))" by (simp add: ref_at_slot [OF s])
    have "cover_slot cover adj plen n i f = cover (unat (leafGetPly l)) f" using ply ply0 s by (simp add: cover_slot_def)
    then show ?thesis using call [OF r] through_child [OF tree r] by simp
  next
    case set
    then have "cover_slot cover adj plen n i f = slot_set f n i (leafAdj adj) plen" using s by (simp add: cover_slot_def leafEmpty_def)
    then show ?thesis using set_slot_covers [OF tree s set adj] by simp
  next
    case keep
    have "covered adj plen (fib_view f dst) = fib_view f dst" if "dst \<in> through f n i" for dst
      using view_of_slot(1) [OF tree s keep(1) that] keep(2) by (simp add: covered_def)
    then have "covers own adj plen (through f n i) f f" using tree by (simp add: covers_def)
    then show ?thesis using keep s by (simp add: cover_slot_def leafEmpty_def)
  qed
qed

lemma each_slot_covers:
  assumes "fib_tree own f"
    and step: "\<And>i g. i \<in> set is \<Longrightarrow> fib_tree own g \<Longrightarrow> (\<And>n i. ref_at g n i = ref_at f n i) \<Longrightarrow> length (plies g) = length (plies f) \<Longrightarrow>
      \<exists>g'. do_slot i g = Some g' \<and> covers own adj plen (X i) g g'"
  shows "\<exists>f'. each_slot do_slot is f = Some f' \<and> covers own adj plen (\<Union>i \<in> set is. X i) f f'"
  using assms
proof (induction "is" arbitrary: f)
  case Nil
  then show ?case by (simp add: covers_def)
next
  case (Cons i js)
  obtain g where g: "do_slot i f = Some g" "covers own adj plen (X i) f g" using Cons.prems(2) [of i f] Cons.prems(1) by auto
  have same: "fib_tree own g" "\<And>n i. ref_at g n i = ref_at f n i" "length (plies g) = length (plies f)" using g(2) by (simp_all add: covers_def)
  have "\<exists>f'. each_slot do_slot js g = Some f' \<and> covers own adj plen (\<Union>i \<in> set js. X i) g f'"
    by (rule Cons.IH [OF same(1)]) (use Cons.prems(2) same in simp)
  then obtain f' where "each_slot do_slot js g = Some f'" "covers own adj plen (\<Union>i \<in> set js. X i) g f'" by blast
  then show ?case using g covers_trans [OF g(2)] by auto
qed

lemma coverPly_covers:
  assumes "fib_tree own f" "p < length (plies f)" "if fst (own p) = FRoot then 2 \<le> d else 1 \<le> d" "unat adj < 2 ^ 31" "adj \<noteq> 0"
  shows "\<exists>f'. coverPly d adj plen p f = Some f' \<and> covers own adj plen (\<Union>j \<in> {0..<256}. through f (FPly p) j) f f'"
  using assms
proof (induction d arbitrary: p f)
  case 0
  then show ?case by (simp split: if_splits)
next
  case (Suc d)
  have "\<exists>f'. each_slot (cover_slot (coverPly d adj plen) adj plen (FPly p)) [0..<256] f = Some f'
      \<and> covers own adj plen (\<Union>j \<in> set [0..<256]. through f (FPly p) j) f f'"
  proof (rule each_slot_covers [OF Suc.prems(1)])
    fix i g assume i: "i \<in> set [0..<256]" and g: "fib_tree own g" "\<And>n i. ref_at g n i = ref_at f n i" "length (plies g) = length (plies f)"
    have "\<exists>g'. cover_slot (coverPly d adj plen) adj plen (FPly p) i g = Some g' \<and> covers own adj plen (through g (FPly p) i) g g'"
    proof (rule cover_slot_covers [OF g(1) _ _ Suc.prems(4,5)])
      show "node_in g (FPly p)" "i < node_size (FPly p)" using Suc.prems(2) g(3) i by (simp_all add: node_in_def node_size_def)
      fix q assume q: "ref_at g (FPly p) i = Some q"
      then have o: "q < length (plies g)" "own q = (FPly p, i)" "fst (own p) = FRoot" using g(1) unfolding fib_tree_def by blast+
      show "\<exists>f'. coverPly d adj plen q g = Some f' \<and> covers own adj plen (\<Union>j \<in> {0..<256}. through g (FPly q) j) g f'"
        using Suc.IH [OF g(1) o(1) _ Suc.prems(4,5)] Suc.prems(3) o(2,3) by simp
    qed
    then show "\<exists>g'. cover_slot (coverPly d adj plen) adj plen (FPly p) i g = Some g' \<and> covers own adj plen (through f (FPly p) i) g g'"
      using through_refs [OF g(2)] by simp
  qed
  then show ?case by simp
qed

section \<open>New plies\<close>

lemma slot_get_append:
  assumes "node_in f n"
  shows "slot_get (f\<lparr>plies := plies f @ [q]\<rparr>) n i = slot_get f n i"
  using assms by (cases n) (auto simp: slot_get_def node_in_def nth_append)

text \<open>A ply filled with the entry of the slot it goes behind.\<close>

lemma childPly_new:
  assumes tree: "fib_tree own f" and s: "slot_get f n i = Some (l, pl)" "\<not> leafIsPly l"
    and level: "\<And>q. n = FPly q \<Longrightarrow> fst (own q) = FRoot" and small: "length (plies f) < 2 ^ 31"
  defines "p \<equiv> length (plies f)"
  shows "\<exists>f'. childPly n i f = Some (p, f') \<and> length (plies f') = Suc p \<and> routes f' = routes f \<and> ref_at f' n i = Some p
     \<and> fib_tree (own(p := (n, i))) f' \<and> (\<forall>dst. fib_view f' dst = fib_view f dst)"
proof -
  have empty: "l = 0 \<Longrightarrow> pl = 0" using tree s(1) unfolding fib_tree_def by blast
  define q where "q = \<lparr>p_leaves = replicate 256 l, p_plens = replicate 256 pl\<rparr>"
  define f1 where "f1 = f\<lparr>plies := plies f @ [q]\<rparr>"
  have inside: "node_in f n" "i < node_size n" using s(1) slot_get_defined [OF tree, of n i] by auto
  have g1: "slot_get f1 m j = (if m = FPly p then if j < 256 then Some (l, pl) else None else slot_get f m j)" for m j
    by (cases m) (auto simp: slot_get_def f1_def q_def p_def nth_append)
  obtain f' where f': "slot_set f1 n i (leafPly (of_nat p)) 0 = Some f'"
    using slot_get_append [OF inside(1), of q i] s(1) by (cases n) (auto simp: slot_set_def Let_def f1_def)
  have np: "n \<noteq> FPly p" using inside(1) by (auto simp: node_in_def p_def)
  have get: "slot_get f' m j = (if m = n \<and> j = i then Some (leafPly (of_nat p), 0)
      else if m = FPly p then if j < 256 then Some (l, pl) else None else slot_get f m j)" for m j
    by (simp only: slot_get_set(1) [OF f'] g1)
  have leaf: "leafIsPly (leafPly (of_nat p))" "unat (leafGetPly (leafPly (of_nat p))) = p"
    using leaf_bits(1) leaf_values(1) small by (simp_all add: p_def)
  have ref: "ref_at f' m j = (if m = n \<and> j = i then Some p else if m = FPly p then None else ref_at f m j)" for m j
    using leaf s(2) by (simp add: ref_at_def get)
  have none: "ref_at f n i = None" "ref_at f (FPly p) j = None" for j
    using s by (simp_all add: ref_at_slot ref_at_def slot_get_def p_def)
  have run: "childPly n i f = Some (p, f')"
    using s f' empty by (auto simp: childPly_def Let_def leafEmpty_def f1_def q_def p_def)
  have len: "length (plies f') = Suc p" "routes f' = routes f" using slot_get_set(2,3) [OF f'] by (simp_all add: f1_def p_def)
  have old: "q \<noteq> p" if "ref_at f m j = Some q" for m j q using ref_at_less [OF that tree] by (simp add: p_def)
  let ?own = "own(p := (n, i))"
  have tree': "fib_tree ?own f'"
    unfolding fib_tree_def
  proof (intro conjI allI impI)
    show "length (rootLeaves f') = 65536" "length (rootPlens f') = 65536"
      using f' tree by (cases n; auto simp: slot_set_def f1_def fib_tree_def Let_def split: if_splits)+
    show "\<forall>x \<in> set (plies f'). length (p_leaves x) = 256 \<and> length (p_plens x) = 256"
      by (rule slot_set_ply_size [OF _ f']) (use tree in \<open>auto simp: f1_def q_def fib_tree_def\<close>)
  next
    fix m j k pk assume "slot_get f' m j = Some (k, pk)" "leafIsPly k \<or> k = 0"
    then show "pk = 0" using tree s(2) empty unfolding get fib_tree_def by (auto split: if_splits)
  next
    fix m j r assume r: "ref_at f' m j = Some r"
    then show "r < length (plies f')" using ref_at_less [OF _ tree, of m j r] by (auto simp: ref len p_def split: if_splits)
    show "?own r = (m, j)" using r ref_at_less [OF _ tree, of m j r] by (auto simp: ref p_def split: if_splits)
    fix x assume x: "m = FPly x"
    then have "x \<noteq> p" using r np by (auto simp: ref split: if_splits)
    moreover have "fst (own x) = FRoot"
      using r x level tree unfolding ref fib_tree_def by (auto split: if_splits)
    ultimately show "fst (?own x) = FRoot" by simp
  next
    fix r assume "r < length (plies f')"
    then consider "r = p" | "r < p" using len by linarith
    then show "ref_at f' (fst (?own r)) (snd (?own r)) = Some r"
    proof cases
      case 2
      then have o: "ref_at f (fst (own r)) (snd (own r)) = Some r" using tree unfolding fib_tree_def p_def by blast
      then have "\<not> (fst (own r) = n \<and> snd (own r) = i)" "fst (own r) \<noteq> FPly p" using none by auto
      then show ?thesis using o 2 by (simp add: ref)
    qed (simp add: ref)
  qed
  have "fib_view f' dst = fib_view f dst" for dst
  proof (cases "(n, i) \<in> set (fib_path f dst)")
    case True
    have "\<exists>j < 256. (FPly p, j) \<in> set (fib_path f' dst)"
    proof -
      have "(n, i) \<in> set (fib_path f' dst)" using True none np old level
        by (auto simp: fib_path_def Let_def ref split: option.splits if_splits)
      then show ?thesis using path_child [OF tree', of n i p dst] ref by simp
    qed
    then obtain j where j: "j < 256" "dst \<in> through f' (FPly p) j" by (auto simp: through_def)
    have "slot_get f' (FPly p) j = Some (l, pl)" using get j(1) np by auto
    then have "fib_view f' dst = (l, pl)" using view_of_slot(1) [OF tree' _ s(2) j(2)] by blast
    then show ?thesis using view_of_slot(1) [OF tree s, of dst] True by (simp add: through_def)
  next
    case False
    then have e: "fib_path f' dst = fib_path f dst"
      using none np old by (auto simp: fib_path_def Let_def ref split: option.splits if_splits)
    have l1: "last (fib_path f dst) \<noteq> (n, i)" "fst (last (fib_path f dst)) \<noteq> FPly p"
      subgoal using False by (metis last_in_set path_nonempty)
      subgoal using last_in_set [OF path_nonempty, of f dst] path_inside(1) [OF tree, of "fst (last (fib_path f dst))" "snd (last (fib_path f dst))" dst]
        by (auto simp: node_in_def p_def)
      done
    then show ?thesis using view_slot [OF tree, of dst] view_slot [OF tree', of dst] e by (auto simp: get split: prod.splits if_splits)
  qed
  then show ?thesis using run len ref tree' by simp
qed

end
