(* ===== verification/Fib_Routes.thy ===== *)
theory Fib_Routes
  imports Fib
begin

text \<open>The forwarding table of \<open>examples/internal/forward/fib.go\<close> as a routing table: what a route insertion does
  to the answer of every destination, and that a table built by insertions answers with the longest matching prefix.\<close>

lemma childPly_step:
  assumes tree: "fib_tree own f" and inside: "node_in f n" "i < node_size n" and level: "\<And>q. n = FPly q \<Longrightarrow> fst (own q) = FRoot"
    and small: "length (plies f) < 2 ^ 31"
  shows "\<exists>own' p f'. childPly n i f = Some (p, f') \<and> fib_tree own' f' \<and> length (plies f') \<le> Suc (length (plies f)) \<and> routes f' = routes f
     \<and> ref_at f' n i = Some p \<and> (\<forall>dst. fib_view f' dst = fib_view f dst) \<and> (\<forall>m j q. ref_at f m j = Some q \<longrightarrow> ref_at f' m j = Some q)"
proof -
  obtain l pl where s: "slot_get f n i = Some (l, pl)" using inside slot_get_defined [OF tree, of n i] by auto
  show ?thesis
  proof (cases "leafIsPly l")
    case True
    then have r: "ref_at f n i = Some (unat (leafGetPly l))" by (simp add: ref_at_slot [OF s])
    then have "unat (leafGetPly l) < length (plies f)" using ref_at_less [OF _ tree] by blast
    then have "childPly n i f = Some (unat (leafGetPly l), f)" using True s by (simp add: childPly_def)
    then show ?thesis using tree r by (intro exI [of _ own] exI [of _ "unat (leafGetPly l)"] exI [of _ f]) simp
  next
    case False
    from childPly_new [OF tree s False level small] obtain f' where
      f': "childPly n i f = Some (length (plies f), f')" "length (plies f') = Suc (length (plies f))" "routes f' = routes f"
        "ref_at f' n i = Some (length (plies f))" "fib_tree (own(length (plies f) := (n, i))) f'" "\<forall>dst. fib_view f' dst = fib_view f dst"
      by blast
    have "ref_at f' m j = Some q" if q: "ref_at f m j = Some q" for m j q
    proof -
      have o: "own q = (m, j)" "q < length (plies f)" using ref_at_less [OF q tree] by simp_all
      have "ref_at f' (fst ((own(length (plies f) := (n, i))) q)) (snd ((own(length (plies f) := (n, i))) q)) = Some q"
        using f'(2,5) o(2) unfolding fib_tree_def by (metis less_Suc_eq)
      then show ?thesis using o by simp
    qed
    then show ?thesis using f'
      by (intro exI [of _ "own(length (plies f) := (n, i))"] exI [of _ "length (plies f)"] exI [of _ f']) simp
  qed
qed

section \<open>Which slots a prefix covers\<close>

abbreviation "dst_hi dst \<equiv> unat (drop_bit 16 (dst :: u32))"
abbreviation "dst_mid dst \<equiv> unat (drop_bit 8 (dst :: u32) AND 0xff)"
abbreviation "dst_lo dst \<equiv> unat ((dst :: u32) AND 0xff)"

lemma through_root: "through f FRoot i = {dst. dst_hi dst = i}"
  by (auto simp: through_def fib_path_def Let_def split: option.splits)

lemma through_ply:
  "dst \<in> through f (FPly r) j \<longleftrightarrow>
     (\<exists>a. ref_at f FRoot a = Some r \<and> dst_hi dst = a \<and> dst_mid dst = j)
     \<or> (\<exists>a p b. ref_at f FRoot a = Some p \<and> ref_at f (FPly p) b = Some r \<and> dst_hi dst = a \<and> dst_mid dst = b \<and> dst_lo dst = j)"
  by (auto simp: through_def fib_path_def Let_def split: option.splits)

lemma ref_at_unique: "fib_tree own f \<Longrightarrow> ref_at f n i = Some p \<Longrightarrow> ref_at f m j = Some p \<Longrightarrow> m = n \<and> j = i"
  using ref_at_less by (metis prod.inject)

lemma through_first:
  assumes "fib_tree own f" "ref_at f FRoot a = Some p"
  shows "through f (FPly p) j = {dst. dst_hi dst = a \<and> dst_mid dst = j}"
proof -
  have u: "ref_at f n i = Some p \<longleftrightarrow> n = FRoot \<and> i = a" for n i using ref_at_unique [OF assms] assms(2) by blast
  show ?thesis by (simp add: set_eq_iff through_ply u)
qed

lemma through_second:
  assumes "fib_tree own f" "ref_at f FRoot a = Some p" "ref_at f (FPly p) b = Some q"
  shows "through f (FPly q) j = {dst. dst_hi dst = a \<and> dst_mid dst = b \<and> dst_lo dst = j}"
proof -
  have u: "ref_at f n i = Some p \<longleftrightarrow> n = FRoot \<and> i = a" "ref_at f n i = Some q \<longleftrightarrow> n = FPly p \<and> i = b" for n i
    using ref_at_unique [OF assms(1,2)] ref_at_unique [OF assms(1,3)] assms(2,3) by blast+
  show ?thesis by (auto simp: set_eq_iff through_ply u)
qed

text \<open>A destination a prefix of \<open>plen\<close> bits covers.\<close>

definition fib_matches :: "u32 \<Rightarrow> u8 \<Rightarrow> u32 \<Rightarrow> bool" where
  "fib_matches prefix plen dst \<longleftrightarrow> dst AND plenMask plen = prefix AND plenMask plen"

lemma masked_prefix:
  assumes "unat plen \<le> 32"
  shows "unat (x AND plenMask plen) = unat x div 2 ^ (32 - unat plen) * 2 ^ (32 - unat plen)"
proof (cases "plen = 0")
  case True
  then show ?thesis using unat_bound [of x] by (simp add: plenMask_def)
next
  case False
  let ?k = "32 - unat plen"
  have k: "unat (32 - plen) = ?k" using assms by (simp add: unat_sub word_le_nat_alt)
  have "push_bit ?k (NOT 0 :: u32) = NOT (mask ?k)"
    by (rule bit_word_eqI) (auto simp: bit_push_bit_iff bit_not_iff bit_mask_iff)
  then have "x AND plenMask plen = push_bit ?k (drop_bit ?k x)"
    using False k by (simp add: plenMask_def) (rule bit_word_eqI, auto simp: bit_push_bit_iff bit_not_iff bit_mask_iff bit_and_iff bit_drop_bit_eq)
  moreover have "unat (push_bit ?k (drop_bit ?k x)) = take_bit 32 (unat x div 2 ^ ?k * 2 ^ ?k)"
    by (simp only: unsigned_push_bit_eq unat_drop_bit push_bit_eq_mult [of _ "unat x div _"]) simp
  moreover have "unat x div 2 ^ ?k * 2 ^ ?k < 2 ^ 32"
    using unat_bound [of x] by (simp add: le_less_trans [OF div_times_less_eq_dividend])
  ultimately show ?thesis by (simp add: take_bit_nat_eq_self)
qed

lemma matches_div:
  assumes "unat plen \<le> 32"
  shows "fib_matches prefix plen dst \<longleftrightarrow> unat dst div 2 ^ (32 - unat plen) = unat prefix div 2 ^ (32 - unat plen)"
  unfolding fib_matches_def word_unat_eq_iff masked_prefix [OF assms] by simp

lemma in_block: "0 < m \<Longrightarrow> (\<exists>i \<in> {0..<m}. D = q * m + i) \<longleftrightarrow> D div m = (q :: nat)"
proof
  assume "0 < m" "D div m = q"
  then have "D = q * m + D mod m" "D mod m \<in> {0..<m}" by auto
  then show "\<exists>i \<in> {0..<m}. D = q * m + i" by blast
qed auto

lemma in_block_256:
  assumes "m dvd 256" "0 < m"
  shows "D div 256 = q * m div 256 \<and> (\<exists>i \<in> {0..<m}. D mod 256 = q * m mod 256 + i) \<longleftrightarrow> D div m = (q :: nat)"
proof -
  obtain c where c: "256 = m * c" using assms(1) by (elim dvdE)
  have r: "q * m mod 256 = m * (q mod c)" "q * m div 256 = q div c" unfolding c using assms(2) by (simp_all add: mult.commute)
  have small: "q * m mod 256 + i < 256" if "i < m" for i
  proof -
    have "0 < c" using c by (intro gr0I) simp
    then have "Suc (q mod c) \<le> c" by (simp add: Suc_le_eq)
    then have "m * Suc (q mod c) \<le> m * c" by (rule mult_le_mono2)
    then show ?thesis unfolding r(1) c [symmetric] using that by simp
  qed
  have one: "D div 256 = q * m div 256 \<and> D mod 256 = q * m mod 256 + i \<longleftrightarrow> D = q * m + i" if "i < m" for i
  proof
    assume "D div 256 = q * m div 256 \<and> D mod 256 = q * m mod 256 + i"
    then show "D = q * m + i" using div_mult_mod_eq [of D 256] div_mult_mod_eq [of "q * m" 256] by simp
  next
    assume d: "D = q * m + i"
    have "D = q * m div 256 * 256 + (q * m mod 256 + i)" using d div_mult_mod_eq [of "q * m" 256] by simp
    then show "D div 256 = q * m div 256 \<and> D mod 256 = q * m mod 256 + i" using small [OF that]
      by (metis div_mult_self3 div_less mod_less mod_mult_self3 add.right_neutral zero_neq_numeral)
  qed
  have "D div 256 = q * m div 256 \<and> (\<exists>i \<in> {0..<m}. D mod 256 = q * m mod 256 + i)
      \<longleftrightarrow> (\<exists>i \<in> {0..<m}. D div 256 = q * m div 256 \<and> D mod 256 = q * m mod 256 + i)" by blast
  also have "\<dots> \<longleftrightarrow> (\<exists>i \<in> {0..<m}. D = q * m + i)" by (intro bex_cong) (simp_all only: one atLeastLessThan_iff)
  finally show ?thesis unfolding in_block [OF assms(2), of D q] .
qed

lemma split_dst:
  "dst_hi dst = unat dst div 65536" "dst_mid dst = unat dst div 256 mod 256" "dst_lo dst = unat dst mod 256"
  using unat_drop_bit [of 16 dst] unat_and_mask [of 8 "drop_bit 8 dst"] unat_drop_bit [of 8 dst] unat_and_mask [of 8 dst] by simp_all

lemma part_bounds: "dst_hi x < 65536" "dst_mid x < 256"
  using unat_bound [of x] unfolding split_dst(1,2) by (simp_all add: less_mult_imp_div_less)

lemma shl_one_eq: "unat w \<le> v \<Longrightarrow> v \<le> 32 \<Longrightarrow> shl_one (of_nat v - w) = 2 ^ (v - unat w)"
  by (simp add: shl_one_def unat_sub word_le_nat_alt unsigned_of_nat take_bit_nat_eq_self)

section \<open>One insertion\<close>

lemma cover_range:
  assumes tree: "fib_tree own f" and inside: "node_in f n" "base + k \<le> node_size n" and adj: "unat adj < 2 ^ 31" "adj \<noteq> 0"
  shows "\<exists>f'. each_slot (\<lambda>i. cover_slot (coverPly 2 adj plen) adj plen n (base + i)) [0..<k] f = Some f'
     \<and> covers own adj plen (\<Union>i \<in> {0..<k}. through f n (base + i)) f f'"
proof -
  have "\<exists>f'. each_slot (\<lambda>i. cover_slot (coverPly 2 adj plen) adj plen n (base + i)) [0..<k] f = Some f'
     \<and> covers own adj plen (\<Union>i \<in> set [0..<k]. through f n (base + i)) f f'"
  proof (rule each_slot_covers [OF tree])
    fix i g assume i: "i \<in> set [0..<k]" and g: "fib_tree own g" "\<And>n i. ref_at g n i = ref_at f n i" "length (plies g) = length (plies f)"
    have "\<exists>g'. cover_slot (coverPly 2 adj plen) adj plen n (base + i) g = Some g' \<and> covers own adj plen (through g n (base + i)) g g'"
    proof (rule cover_slot_covers [OF g(1) _ _ adj])
      show "node_in g n" "base + i < node_size n" using inside g(3) i by (auto simp: node_in_def split: fnode.splits)
      fix q assume "ref_at g n (base + i) = Some q"
      then have "q < length (plies g)" using ref_at_less [OF _ g(1)] by blast
      then show "\<exists>f'. coverPly 2 adj plen q g = Some f' \<and> covers own adj plen (\<Union>j \<in> {0..<256}. through g (FPly q) j) g f'"
        by (intro coverPly_covers [OF g(1) _ _ adj]) simp_all
    qed
    then show "\<exists>g'. cover_slot (coverPly 2 adj plen) adj plen n (base + i) g = Some g' \<and> covers own adj plen (through f n (base + i)) g g'"
      using through_refs [OF g(2)] by simp
  qed
  then show ?thesis by simp
qed

text \<open>What an insertion promises.\<close>

definition insert_effect :: "u32 \<Rightarrow> u8 \<Rightarrow> u32 \<Rightarrow> v4fib \<Rightarrow> v4fib \<Rightarrow> bool" where
  "insert_effect prefix plen adj f f' \<longleftrightarrow> (\<exists>own'. fib_tree own' f') \<and> length (plies f') \<le> length (plies f) + 2 \<and> routes f' = routes f
     \<and> (\<forall>dst. fib_view f' dst = (if fib_matches prefix plen dst then covered adj plen (fib_view f dst) else fib_view f dst))"

lemma covers_effect:
  assumes "covers own adj plen X f1 f'" "\<forall>dst. fib_view f1 dst = fib_view f dst" "length (plies f1) \<le> length (plies f) + 2" "routes f1 = routes f"
    "\<And>dst. dst \<in> X \<longleftrightarrow> fib_matches prefix plen dst"
  shows "insert_effect prefix plen adj f f'"
  using assms unfolding covers_def insert_effect_def by auto

lemma pow_split: "n \<le> v \<Longrightarrow> v \<le> 32 \<Longrightarrow> (2 :: nat) ^ (32 - n) = 2 ^ (32 - v) * 2 ^ (v - n)"
  by (simp only: power_add [symmetric] diff_add_assoc2 [symmetric] le_add_diff_inverse diff_add_assoc [symmetric]) simp

lemma block_fits: "m dvd N \<Longrightarrow> q * m < N \<Longrightarrow> q * m + m \<le> (N :: nat)"
proof (elim dvdE)
  fix c assume "q * m < N" "N = m * c"
  then have "Suc q \<le> c" by (simp add: mult.commute [of q] Suc_le_eq)
  then have "m * Suc q \<le> m * c" by (rule mult_le_mono2)
  then show ?thesis using \<open>N = m * c\<close> by (simp add: mult.commute)
qed

lemma prefix_parts:
  fixes prefix :: u32 and plen :: u8
  assumes "unat plen \<le> 32"
  defines "P \<equiv> prefix AND plenMask plen" and "q \<equiv> unat prefix div 2 ^ (32 - unat plen)"
  shows "plen \<le> 16 \<Longrightarrow> dst_hi P = q * 2 ^ (16 - unat plen)"
    "16 < plen \<Longrightarrow> plen \<le> 24 \<Longrightarrow> dst_hi P = q * 2 ^ (24 - unat plen) div 256 \<and> dst_mid P = q * 2 ^ (24 - unat plen) mod 256"
    "24 < plen \<Longrightarrow> dst_hi P = q * 2 ^ (32 - unat plen) div 256 div 256
        \<and> dst_mid P = q * 2 ^ (32 - unat plen) div 256 mod 256 \<and> dst_lo P = q * 2 ^ (32 - unat plen) mod 256"
proof -
  have u: "unat P = q * 2 ^ (32 - unat plen)" using masked_prefix [OF assms(1)] by (simp add: P_def q_def)
  show "dst_hi P = q * 2 ^ (16 - unat plen)" if "plen \<le> 16"
  proof -
    have "(2 :: nat) ^ (32 - unat plen) = 65536 * 2 ^ (16 - unat plen)" using that pow_split [of "unat plen" 16] by (simp add: word_le_nat_alt)
    then have "unat P = q * 2 ^ (16 - unat plen) * 65536" unfolding u by (simp only: mult_ac)
    then show ?thesis unfolding split_dst by simp
  qed
  show "dst_hi P = q * 2 ^ (24 - unat plen) div 256 \<and> dst_mid P = q * 2 ^ (24 - unat plen) mod 256" if "16 < plen" "plen \<le> 24"
  proof -
    have "(2 :: nat) ^ (32 - unat plen) = 256 * 2 ^ (24 - unat plen)" using that pow_split [of "unat plen" 24] by (simp add: word_le_nat_alt)
    then have "unat P = q * 2 ^ (24 - unat plen) * 256" unfolding u by (simp only: mult_ac)
    moreover have "unat P div 65536 = unat P div 256 div 256" by (simp add: div_mult2_eq [symmetric])
    ultimately show ?thesis unfolding split_dst(1,2) by simp
  qed
  show "dst_hi P = q * 2 ^ (32 - unat plen) div 256 div 256
      \<and> dst_mid P = q * 2 ^ (32 - unat plen) div 256 mod 256 \<and> dst_lo P = q * 2 ^ (32 - unat plen) mod 256" if "24 < plen"
    unfolding split_dst(1,2) split_dst(3) [of P] u by (simp add: div_mult2_eq [symmetric])
qed

lemma walk_short:
  assumes "fib_tree own f" "plen \<le> 16" "unat adj < 2 ^ 31" "adj \<noteq> 0"
  shows "\<exists>f'. fib_walk (prefix AND plenMask plen) plen (cover_slot (coverPly 2 adj plen) adj plen) f = Some f'
     \<and> insert_effect prefix plen adj f f'"
proof -
  let ?P = "prefix AND plenMask plen" and ?q = "unat prefix div 2 ^ (32 - unat plen)" and ?m = "2 ^ (16 - unat plen) :: nat"
  have l: "unat plen \<le> 16" using assms(2) by (simp add: word_le_nat_alt)
  have k: "shl_one (16 - plen) = ?m" using shl_one_eq [of plen 16] l by simp
  have P: "dst_hi ?P = ?q * ?m" using prefix_parts(1) [of plen prefix] l assms(2) by simp
  have pw: "(2 :: nat) ^ (32 - unat plen) = 65536 * ?m" using pow_split [OF l] by simp
  have "unat prefix < 65536 * 65536" using unat_bound [of prefix] by simp
  then have "?q * ?m < 65536" unfolding pw div_mult2_eq
    by (meson div_times_less_eq_dividend le_less_trans less_mult_imp_div_less)
  moreover have "?m dvd 65536" using le_imp_power_dvd [of "16 - unat plen" 16 "2 :: nat"] by simp
  ultimately have "?q * ?m + ?m \<le> 65536" using block_fits by blast
  then have "dst_hi ?P + ?m \<le> node_size FRoot" unfolding P by (simp add: node_size_def)
  from cover_range [OF assms(1) _ this assms(3,4), where plen = plen] obtain f' where
    f': "each_slot (\<lambda>i. cover_slot (coverPly 2 adj plen) adj plen FRoot (dst_hi ?P + i)) [0..<?m] f = Some f'"
      "covers own adj plen (\<Union>i \<in> {0..<?m}. through f FRoot (dst_hi ?P + i)) f f'" by (auto simp: node_in_def)
  have "dst \<in> (\<Union>i \<in> {0..<?m}. through f FRoot (dst_hi ?P + i)) \<longleftrightarrow> fib_matches prefix plen dst" for dst
  proof -
    have "dst \<in> (\<Union>i \<in> {0..<?m}. through f FRoot (dst_hi ?P + i)) \<longleftrightarrow> (\<exists>i \<in> {0..<?m}. unat dst div 65536 = ?q * ?m + i)"
      unfolding P through_root by (simp add: split_dst(1))
    also have "\<dots> \<longleftrightarrow> unat dst div 65536 div ?m = ?q" by (rule in_block) simp
    also have "\<dots> \<longleftrightarrow> fib_matches prefix plen dst" using l by (simp add: matches_div pw div_mult2_eq)
    finally show ?thesis .
  qed
  then have "insert_effect prefix plen adj f f'" by (intro covers_effect [OF f'(2)]) simp_all
  then show ?thesis using f'(1) assms(2) k by (simp add: fib_walk_def)
qed

lemma two_level_match:
  assumes "m dvd 256" "0 < m"
  shows "(\<exists>i \<in> {0..<m}. D div 256 = q * m div 256 \<and> D mod 256 = q * m mod 256 + i) \<longleftrightarrow> D div m = (q :: nat)"
  using in_block_256 [OF assms, of D q] by blast

lemma pow_dvd_256: "n \<le> 8 \<Longrightarrow> (2 :: nat) ^ n dvd 256"
  using le_imp_power_dvd [of n 8 "2 :: nat"] by simp

lemma mod_fits: "m dvd 256 \<Longrightarrow> q * m mod 256 + m \<le> (256 :: nat)"
proof -
  assume m: "m dvd 256"
  then have "q * m mod 256 = (q mod (256 div m)) * m" by (simp add: mod_mult_mult2 [symmetric])
  then show ?thesis using block_fits [OF m, of "q mod (256 div m)"] by (metis mod_less_divisor zero_less_numeral)
qed

lemma walk_middle:
  assumes "fib_tree own f" "16 < plen" "plen \<le> 24" "unat adj < 2 ^ 31" "adj \<noteq> 0" "length (plies f) < 2 ^ 31"
  shows "\<exists>f'. fib_walk (prefix AND plenMask plen) plen (cover_slot (coverPly 2 adj plen) adj plen) f = Some f'
     \<and> insert_effect prefix plen adj f f'"
proof -
  let ?P = "prefix AND plenMask plen" and ?q = "unat prefix div 2 ^ (32 - unat plen)" and ?m = "2 ^ (24 - unat plen) :: nat"
  have l: "16 < unat plen" "unat plen \<le> 24" using assms(2,3) by (simp_all add: word_le_nat_alt word_less_nat_alt)
  have k: "shl_one (24 - plen) = ?m" using shl_one_eq [of plen 24] l by simp
  have P: "dst_hi ?P = ?q * ?m div 256" "dst_mid ?P = ?q * ?m mod 256" using prefix_parts(2) [of plen prefix] l assms(2,3) by simp_all
  have pw: "(2 :: nat) ^ (32 - unat plen) = 256 * ?m" using pow_split [of "unat plen" 24] l by simp
  have m: "?m dvd 256" using l by (intro pow_dvd_256) simp
  note b = part_bounds [of ?P]
  obtain own1 p f1 where f1: "childPly FRoot (dst_hi ?P) f = Some (p, f1)" "fib_tree own1 f1" "length (plies f1) \<le> Suc (length (plies f))"
      "routes f1 = routes f" "ref_at f1 FRoot (dst_hi ?P) = Some p" "\<forall>dst. fib_view f1 dst = fib_view f dst"
    using childPly_step [OF assms(1) _ _ _ assms(6), of FRoot "dst_hi ?P"] b by (auto simp: node_in_def node_size_def)
  have p: "node_in f1 (FPly p)" "dst_mid ?P + ?m \<le> node_size (FPly p)"
    using ref_at_less [OF f1(5,2)] mod_fits [OF m, of ?q] unfolding P by (simp_all add: node_in_def node_size_def)
  from cover_range [OF f1(2) p assms(4,5), where plen = plen] obtain f' where
    f': "each_slot (\<lambda>i. cover_slot (coverPly 2 adj plen) adj plen (FPly p) (dst_mid ?P + i)) [0..<?m] f1 = Some f'"
      "covers own1 adj plen (\<Union>i \<in> {0..<?m}. through f1 (FPly p) (dst_mid ?P + i)) f1 f'" by blast
  have "dst \<in> (\<Union>i \<in> {0..<?m}. through f1 (FPly p) (dst_mid ?P + i)) \<longleftrightarrow> fib_matches prefix plen dst" for dst
  proof -
    have "unat dst div 65536 = unat dst div 256 div 256" by (simp add: div_mult2_eq [symmetric])
    then have "dst \<in> (\<Union>i \<in> {0..<?m}. through f1 (FPly p) (dst_mid ?P + i)) \<longleftrightarrow>
        (\<exists>i \<in> {0..<?m}. unat dst div 256 div 256 = ?q * ?m div 256 \<and> unat dst div 256 mod 256 = ?q * ?m mod 256 + i)"
      unfolding through_first [OF f1(2,5)] P by (simp only: UN_iff mem_Collect_eq split_dst(1,2) [of dst])
    also have "\<dots> \<longleftrightarrow> unat dst div 256 div ?m = ?q" by (rule two_level_match [OF m]) simp
    also have "\<dots> \<longleftrightarrow> fib_matches prefix plen dst" using l by (simp add: matches_div pw div_mult2_eq)
    finally show ?thesis .
  qed
  then have "insert_effect prefix plen adj f f'" using f1(3,4,6) by (intro covers_effect [OF f'(2)]) simp_all
  moreover have "\<not> plen \<le> 16" using l by (simp add: word_le_nat_alt)
  ultimately show ?thesis using f'(1) assms(3) k f1(1) by (simp add: fib_walk_def)
qed

lemma walk_long:
  assumes "fib_tree own f" "24 < plen" "plen \<le> 32" "unat adj < 2 ^ 31" "adj \<noteq> 0" "length (plies f) + 1 < 2 ^ 31"
  shows "\<exists>f'. fib_walk (prefix AND plenMask plen) plen (cover_slot (coverPly 2 adj plen) adj plen) f = Some f'
     \<and> insert_effect prefix plen adj f f'"
proof -
  let ?P = "prefix AND plenMask plen" and ?q = "unat prefix div 2 ^ (32 - unat plen)" and ?m = "2 ^ (32 - unat plen) :: nat"
  have l: "24 < unat plen" "unat plen \<le> 32" using assms(2,3) by (simp_all add: word_le_nat_alt word_less_nat_alt)
  have k: "shl_one (32 - plen) = ?m" using shl_one_eq [of plen 32] l by simp
  have P: "dst_hi ?P = ?q * ?m div 256 div 256" "dst_mid ?P = ?q * ?m div 256 mod 256" "dst_lo ?P = ?q * ?m mod 256"
    using prefix_parts(3) [of plen prefix] l assms(2) by simp_all
  have m: "?m dvd 256" using l by (intro pow_dvd_256) simp
  note b = part_bounds [of ?P]
  obtain own1 p f1 where f1: "childPly FRoot (dst_hi ?P) f = Some (p, f1)" "fib_tree own1 f1" "length (plies f1) \<le> Suc (length (plies f))"
      "routes f1 = routes f" "ref_at f1 FRoot (dst_hi ?P) = Some p" "\<forall>dst. fib_view f1 dst = fib_view f dst"
    using childPly_step [OF assms(1), of FRoot "dst_hi ?P"] assms(6) b by (auto simp: node_in_def node_size_def)
  note p = ref_at_less [OF f1(5,2)]
  have "length (plies f1) < 2 ^ 31" using f1(3) assms(6) by simp
  from childPly_step [OF f1(2) _ _ _ this, of "FPly p" "dst_mid ?P"] p b(2)
  obtain own2 r f2 where f2: "childPly (FPly p) (dst_mid ?P) f1 = Some (r, f2)" "fib_tree own2 f2" "length (plies f2) \<le> Suc (length (plies f1))"
      "routes f2 = routes f1" "ref_at f2 (FPly p) (dst_mid ?P) = Some r" "\<forall>dst. fib_view f2 dst = fib_view f1 dst"
      "\<forall>m j q. ref_at f1 m j = Some q \<longrightarrow> ref_at f2 m j = Some q"
    by (auto simp: node_in_def node_size_def)
  have first: "ref_at f2 FRoot (dst_hi ?P) = Some p" using f2(7) f1(5) by blast
  have r: "node_in f2 (FPly r)" "dst_lo ?P + ?m \<le> node_size (FPly r)"
    using ref_at_less [OF f2(5,2)] mod_fits [OF m, of ?q] unfolding P by (simp_all add: node_in_def node_size_def)
  from cover_range [OF f2(2) r assms(4,5), where plen = plen] obtain f' where
    f': "each_slot (\<lambda>i. cover_slot (coverPly 2 adj plen) adj plen (FPly r) (dst_lo ?P + i)) [0..<?m] f2 = Some f'"
      "covers own2 adj plen (\<Union>i \<in> {0..<?m}. through f2 (FPly r) (dst_lo ?P + i)) f2 f'" by blast
  have "dst \<in> (\<Union>i \<in> {0..<?m}. through f2 (FPly r) (dst_lo ?P + i)) \<longleftrightarrow> fib_matches prefix plen dst" for dst
  proof -
    have h: "unat dst div 65536 = D div 256 \<and> unat dst div 256 mod 256 = D mod 256 \<longleftrightarrow> unat dst div 256 = D" for D
    proof -
      have "unat dst div 65536 = unat dst div 256 div 256" by (simp add: div_mult2_eq [symmetric])
      then show ?thesis by (metis div_mult_mod_eq)
    qed
    have "dst \<in> (\<Union>i \<in> {0..<?m}. through f2 (FPly r) (dst_lo ?P + i)) \<longleftrightarrow>
        (\<exists>i \<in> {0..<?m}. unat dst div 256 = ?q * ?m div 256 \<and> unat dst mod 256 = ?q * ?m mod 256 + i)"
      unfolding through_second [OF f2(2) first f2(5)] P h [symmetric] by (simp add: split_dst [of dst])
    also have "\<dots> \<longleftrightarrow> unat dst div ?m = ?q" by (rule two_level_match [OF m]) simp
    also have "\<dots> \<longleftrightarrow> fib_matches prefix plen dst" using l by (simp add: matches_div)
    finally show ?thesis .
  qed
  then have "insert_effect prefix plen adj f f'" using f1(3,4,6) f2(3,4,6) by (intro covers_effect [OF f'(2)]) simp_all
  moreover have "\<not> plen \<le> 16" "\<not> plen \<le> 24" using l by (simp_all add: word_le_nat_alt)
  ultimately show ?thesis using f'(1) k f1(1) f2(1) by (simp add: fib_walk_def)
qed

lemma slot_get_routes: "slot_get (f\<lparr>routes := r\<rparr>) n i = slot_get f n i"
  by (simp add: slot_get_def split: fnode.splits)

lemma same_routes:
  "fib_tree own (f\<lparr>routes := r\<rparr>) = fib_tree own f" "fib_view (f\<lparr>routes := r\<rparr>) dst = fib_view f dst"
proof -
  have s: "slot_get (f\<lparr>routes := r\<rparr>) = slot_get f" by (intro ext) (rule slot_get_routes)
  then have "ref_at (f\<lparr>routes := r\<rparr>) = ref_at f" by (intro ext) (simp only: ref_at_def)
  moreover from this have "fib_path (f\<lparr>routes := r\<rparr>) dst = fib_path f dst" by (simp only: fib_path_def)
  ultimately show "fib_tree own (f\<lparr>routes := r\<rparr>) = fib_tree own f" "fib_view (f\<lparr>routes := r\<rparr>) dst = fib_view f dst"
    using s by (simp_all add: fib_tree_def fib_view_def)
qed

lemma Insert_step:
  assumes "fib_tree own f" "plen \<le> 32" "unat adj < 2 ^ 31" "adj \<noteq> 0" "length (plies f) + 1 < 2 ^ 31"
  shows "\<exists>own' f'. fib_Insert prefix plen adj f = Some f' \<and> fib_tree own' f' \<and> length (plies f') \<le> length (plies f) + 2 \<and> routes f' = routes f + 1
     \<and> (\<forall>dst. fib_view f' dst = (if fib_matches prefix plen dst then covered adj plen (fib_view f dst) else fib_view f dst))"
proof -
  let ?f = "f\<lparr>routes := routes f + 1\<rparr>"
  have t: "fib_tree own ?f" using assms(1) by (simp only: same_routes)
  consider "plen \<le> 16" | "16 < plen" "plen \<le> 24" | "24 < plen" by fastforce
  then have "\<exists>f'. fib_walk (prefix AND plenMask plen) plen (cover_slot (coverPly 2 adj plen) adj plen) ?f = Some f'
     \<and> insert_effect prefix plen adj ?f f'"
  proof cases
    case 1 then show ?thesis by (rule walk_short [OF t _ assms(3,4)])
  next
    case 2 then show ?thesis using assms(5) by (intro walk_middle [OF t _ _ assms(3,4)]) simp_all
  next
    case 3 then show ?thesis using assms(5) by (intro walk_long [OF t _ assms(2-4)]) simp_all
  qed
  then show ?thesis unfolding fib_Insert_def insert_effect_def same_routes by auto
qed

section \<open>Longest prefix match\<close>

text \<open>A table filled by a sequence of insertions.\<close>

fun insert_all :: "(u32 \<times> u8 \<times> u32) list \<Rightarrow> v4fib \<Rightarrow> v4fib option" where
  "insert_all [] f = Some f"
| "insert_all ((prefix, plen, adj) # rs) f = do { f1 \<leftarrow> fib_Insert prefix plen adj f; insert_all rs f1 }"

lemma insert_all_snoc: "insert_all (rs @ [(prefix, plen, adj)]) f = do { f1 \<leftarrow> insert_all rs f; fib_Insert prefix plen adj f1 }"
  by (induction rs f rule: insert_all.induct) (auto split: bind_splits)

definition route_ok :: "u32 \<times> u8 \<times> u32 \<Rightarrow> bool" where
  "route_ok r = (case r of (prefix, plen, adj) \<Rightarrow> plen \<le> 32 \<and> adj \<noteq> 0 \<and> unat adj < 2 ^ 31)"

definition route_matches :: "u32 \<times> u8 \<times> u32 \<Rightarrow> u32 \<Rightarrow> bool" where
  "route_matches r dst = (case r of (prefix, plen, adj) \<Rightarrow> fib_matches prefix plen dst)"

text \<open>The route a routing table uses: the longest matching prefix, the latest of those inserted with that length.\<close>

definition best_route :: "(u32 \<times> u8 \<times> u32) list \<Rightarrow> u32 \<Rightarrow> nat \<Rightarrow> bool" where
  "best_route rs dst i \<longleftrightarrow> i < length rs \<and> route_matches (rs ! i) dst
     \<and> (\<forall>j < length rs. route_matches (rs ! j) dst \<longrightarrow> fst (snd (rs ! j)) < fst (snd (rs ! i)) \<or> fst (snd (rs ! j)) = fst (snd (rs ! i)) \<and> j \<le> i)"

definition view_of_routes :: "(u32 \<times> u8 \<times> u32) list \<Rightarrow> u32 \<Rightarrow> u32 \<times> u8 \<Rightarrow> bool" where
  "view_of_routes rs dst v \<longleftrightarrow>
     (if \<exists>r \<in> set rs. route_matches r dst
      then \<exists>i. best_route rs dst i \<and> v = (leafAdj (snd (snd (rs ! i))), fst (snd (rs ! i))) else v = (0, 0))"

lemma best_route_max:
  "best_route rs dst i \<Longrightarrow> j < length rs \<Longrightarrow> route_matches (rs ! j) dst \<Longrightarrow>
     fst (snd (rs ! j)) < fst (snd (rs ! i)) \<or> fst (snd (rs ! j)) = fst (snd (rs ! i)) \<and> j \<le> i"
  by (simp add: best_route_def)

lemma best_route_miss:
  assumes "\<not> route_matches r dst" "best_route rs dst i"
  shows "best_route (rs @ [r]) dst i"
  using assms unfolding best_route_def by (auto simp: nth_append less_Suc_eq)

lemma view_miss:
  assumes "view_of_routes rs dst v" "\<not> route_matches r dst"
  shows "view_of_routes (rs @ [r]) dst v"
proof (cases "\<exists>r \<in> set rs. route_matches r dst")
  case True
  then obtain i where i: "best_route rs dst i" "v = (leafAdj (snd (snd (rs ! i))), fst (snd (rs ! i)))"
    using assms(1) by (auto simp: view_of_routes_def)
  moreover have "(rs @ [r]) ! i = rs ! i" using i(1) by (simp add: best_route_def nth_append)
  ultimately have "\<exists>i. best_route (rs @ [r]) dst i \<and> v = (leafAdj (snd (snd ((rs @ [r]) ! i))), fst (snd ((rs @ [r]) ! i)))"
    using best_route_miss [OF assms(2)] by (intro exI [of _ i]) simp
  then show ?thesis using True by (simp add: view_of_routes_def)
next
  case False
  then show ?thesis using assms by (simp add: view_of_routes_def)
qed

lemma best_route_snoc:
  assumes "best_route rs dst i" "route_matches r dst"
  shows "best_route (rs @ [r]) dst (if fst (snd (rs ! i)) \<le> fst (snd r) then length rs else i)"
  using assms unfolding best_route_def by (auto simp: nth_append less_Suc_eq not_le)

lemma view_hit:
  assumes "view_of_routes rs dst v" "route_matches r dst" "\<forall>r \<in> set rs. route_ok r"
  shows "view_of_routes (rs @ [r]) dst (covered (snd (snd r)) (fst (snd r)) v)"
proof (cases "\<exists>r \<in> set rs. route_matches r dst")
  case True
  then obtain i where i: "best_route rs dst i" "v = (leafAdj (snd (snd (rs ! i))), fst (snd (rs ! i)))"
    using assms(1) by (auto simp: view_of_routes_def)
  then have "route_ok (rs ! i)" using assms(3) by (simp add: best_route_def)
  then have "leafAdj (snd (snd (rs ! i))) \<noteq> 0" using leaf_values(3) by (auto simp: route_ok_def split: prod.splits)
  then have c: "covered (snd (snd r)) (fst (snd r)) v =
      (if fst (snd (rs ! i)) \<le> fst (snd r) then (leafAdj (snd (snd r)), fst (snd r)) else (leafAdj (snd (snd (rs ! i))), fst (snd (rs ! i))))"
    by (simp add: covered_def i(2))
  define k where "k = (if fst (snd (rs ! i)) \<le> fst (snd r) then length rs else i)"
  have "(rs @ [r]) ! k = (if fst (snd (rs ! i)) \<le> fst (snd r) then r else rs ! i)" using i(1) by (simp add: k_def best_route_def nth_append)
  then have "best_route (rs @ [r]) dst k \<and> covered (snd (snd r)) (fst (snd r)) v = (leafAdj (snd (snd ((rs @ [r]) ! k))), fst (snd ((rs @ [r]) ! k)))"
    using best_route_snoc [OF i(1) assms(2)] by (simp add: k_def c)
  moreover have "\<exists>r' \<in> set (rs @ [r]). route_matches r' dst" using assms(2) by simp
  ultimately show ?thesis unfolding view_of_routes_def by (metis (no_types))
next
  case False
  then have "best_route (rs @ [r]) dst (length rs)" using assms(2) by (auto simp: best_route_def nth_append less_Suc_eq)
  then show ?thesis using assms False by (auto simp: view_of_routes_def covered_def)
qed

lemma NewV4Fib_empty: "fib_tree own NewV4Fib" "fib_view NewV4Fib dst = (0, 0)"
proof -
  have s: "slot_get NewV4Fib n i = (if n = FRoot \<and> i < 65536 then Some (0, 0) else None)" for n i
    by (cases n) (simp_all add: slot_get_def NewV4Fib_def)
  then have r: "ref_at NewV4Fib n i = None" for n i by (simp add: ref_at_def leaf_bits)
  have n: "length (rootLeaves NewV4Fib) = 65536" "length (rootPlens NewV4Fib) = 65536" "plies NewV4Fib = []"
    by (simp_all add: NewV4Fib_def)
  show "fib_tree own NewV4Fib" unfolding fib_tree_def by (simp add: n r s)
  show "fib_view NewV4Fib dst = (0, 0)" using part_bounds(1) [of dst] by (simp add: fib_view_def fib_path_def r s)
qed

lemma insert_all_view:
  assumes "\<forall>r \<in> set rs. route_ok r" "2 * length rs < 2 ^ 31"
  shows "\<exists>own f. insert_all rs NewV4Fib = Some f \<and> fib_tree own f \<and> length (plies f) \<le> 2 * length rs \<and> routes f = length rs
     \<and> (\<forall>dst. view_of_routes rs dst (fib_view f dst))"
  using assms
proof (induction rs rule: rev_induct)
  case Nil
  then show ?case using NewV4Fib_empty by (auto simp: view_of_routes_def NewV4Fib_def)
next
  case (snoc r rs)
  obtain prefix plen adj where r: "r = (prefix, plen, adj)" by (cases r) auto
  obtain own f where f: "insert_all rs NewV4Fib = Some f" "fib_tree own f" "length (plies f) \<le> 2 * length rs" "routes f = length rs"
      "\<And>dst. view_of_routes rs dst (fib_view f dst)"
    using snoc by auto
  have ok: "plen \<le> 32" "unat adj < 2 ^ 31" "adj \<noteq> 0" using snoc.prems(1) by (simp_all add: r route_ok_def)
  have "length (plies f) + 1 < 2 ^ 31" using f(3) snoc.prems(2) by simp
  from Insert_step [OF f(2) ok this, of prefix] obtain own' f' where
    f': "fib_Insert prefix plen adj f = Some f'" "fib_tree own' f'" "length (plies f') \<le> length (plies f) + 2" "routes f' = routes f + 1"
      "\<forall>dst. fib_view f' dst = (if fib_matches prefix plen dst then covered adj plen (fib_view f dst) else fib_view f dst)"
    by blast
  have "view_of_routes (rs @ [r]) dst (fib_view f' dst)" for dst
  proof (cases "fib_matches prefix plen dst")
    case True
    then show ?thesis using view_hit [OF f(5) [of dst], of r] f'(5) snoc.prems(1) by (simp add: r route_matches_def)
  next
    case False
    then show ?thesis using view_miss [OF f(5) [of dst], of r] f'(5) by (simp add: r route_matches_def)
  qed
  then show ?case using f f' by (intro exI [of _ own'] exI [of _ f']) (simp add: r insert_all_snoc)
qed

text \<open>C34: After any sequence of route insertions into a new table (prefix lengths up to 32, adjacency indices from 1 to
  2^31 - 1) the insertions all succeed, \<open>Routes\<close> counts them, and \<open>Lookup\<close> never panics: it answers 0 for a destination
  no inserted prefix covers, and otherwise the adjacency of the longest prefix that covers it, the last inserted one when
  a prefix was inserted again.\<close>

theorem Lookup_longest_prefix:
  assumes "\<forall>r \<in> set rs. route_ok r" "2 * length rs < 2 ^ 31"
  shows "\<exists>f. insert_all rs NewV4Fib = Some f \<and> fib_Routes f = length rs
     \<and> (\<forall>dst. if \<exists>r \<in> set rs. route_matches r dst
              then \<exists>i. best_route rs dst i \<and> fib_Lookup f dst = Some (snd (snd (rs ! i)))
              else fib_Lookup f dst = Some 0)"
proof -
  obtain own f where f: "insert_all rs NewV4Fib = Some f" "fib_tree own f" "routes f = length rs"
      "\<And>dst. view_of_routes rs dst (fib_view f dst)"
    using insert_all_view [OF assms] by blast
  have "drop_bit 1 (leafAdj (snd (snd (rs ! i)))) = snd (snd (rs ! i))" if "best_route rs dst i" for dst i
  proof -
    have "route_ok (rs ! i)" using that assms(1) by (simp add: best_route_def)
    then show ?thesis using leaf_values(2) by (auto simp: route_ok_def split: prod.splits)
  qed
  then have "if \<exists>r \<in> set rs. route_matches r dst
              then \<exists>i. best_route rs dst i \<and> fib_Lookup f dst = Some (snd (snd (rs ! i)))
              else fib_Lookup f dst = Some 0" for dst
    using f(4) [of dst] Lookup_view [OF f(2), of dst] by (fastforce simp: view_of_routes_def split: if_splits)
  then show ?thesis using f(1,3) by (auto simp: fib_Routes_def)
qed

theorem Lookup_longest_prefix_witness:
  "\<exists>f. insert_all [(0x0A000000, 8, 1), (0x0A010000, 16, 2), (0x0A010000, 16, 7)] NewV4Fib = Some f
     \<and> fib_Lookup f 0x0A010203 = Some 7 \<and> fib_Lookup f 0x0B000000 = Some 0"
proof -
  let ?rs = "[(0x0A000000, 8, 1), (0x0A010000, 16, 2), (0x0A010000, 16, 7)] :: (u32 \<times> u8 \<times> u32) list"
  have m: "route_matches (?rs ! 0) 0x0A010203" "route_matches (?rs ! 1) 0x0A010203" "route_matches (?rs ! 2) 0x0A010203"
    "\<not> (\<exists>r \<in> set ?rs. route_matches r 0x0B000000)"
    by (simp_all add: route_matches_def fib_matches_def plenMask_def push_bit_eq_mult)
  have "i = 2" if "best_route ?rs 0x0A010203 i" for i
  proof -
    have "fst (snd (?rs ! 2)) < fst (snd (?rs ! i)) \<or> fst (snd (?rs ! 2)) = fst (snd (?rs ! i)) \<and> 2 \<le> i"
      by (rule best_route_max [OF that _ m(3)]) simp
    moreover have "i = 0 \<or> i = 1 \<or> i = 2" using that by (auto simp: best_route_def less_Suc_eq)
    ultimately show ?thesis by (elim disjE) simp_all
  qed
  moreover have "\<exists>r \<in> set ?rs. route_matches r 0x0A010203" using m(1) by simp
  moreover have "\<forall>r \<in> set ?rs. route_ok r" "2 * length ?rs < 2 ^ 31" by (simp_all add: route_ok_def)
  ultimately show ?thesis using Lookup_longest_prefix [of ?rs] m(4) by (metis nth_Cons_0 nth_Cons_Suc numeral_2_eq_2 snd_conv)
qed

end
