(* ===== verification/Mbuf.thy ===== *)
theory Mbuf
  imports Offload
begin

text \<open>
  The packet buffer header of \<^verbatim>\<open>dpdk/internal/mbuf/mbuf.go\<close>: where the fields of an \<open>rte_mbuf\<close> sit, the layout of a
  frame, the accessors, and the header parser that finds what a NIC needs for a checksum. The fields are host-order;
  the backend builds for little-endian machines only, and the packed words (\<open>rearm\<close>, \<open>RxRead\<close>) rely on it. An
  accessor indexes the region from \<open>m\<close>, the mbuf's offset in it, and panics (\<open>None\<close>) past its end.
\<close>

section \<open>The source\<close>

definition mbuf_Size :: int where "mbuf_Size = 128"

definition offBufAddr :: nat where "offBufAddr = 0"
definition offBufIOVA :: nat where "offBufIOVA = 8"
definition offRearm :: nat where "offRearm = 16"
definition offDataOff :: nat where "offDataOff = 16"
definition offRefcnt :: nat where "offRefcnt = 18"
definition offNbSegs :: nat where "offNbSegs = 20"
definition offPort :: nat where "offPort = 22"
definition offOlFlags :: nat where "offOlFlags = 24"
definition offPktLen :: nat where "offPktLen = 36"
definition offDataLen :: nat where "offDataLen = 40"
definition offVLANTCI :: nat where "offVLANTCI = 42"
definition offBufLen :: nat where "offBufLen = 54"
definition offPool :: nat where "offPool = 56"
definition offNext :: nat where "offNext = 64"
definition offTxOffload :: nat where "offTxOffload = 72"

definition RxIPChecksumGood :: u64 where "RxIPChecksumGood = push_bit 7 1"
definition RxL4ChecksumGood :: u64 where "RxL4ChecksumGood = push_bit 8 1"
definition PortInvalid :: u16 where "PortInvalid = 0xffff"

record layout =
  FrameSize :: int
  ObjHeader :: int
  MbufSize :: int
  Headroom :: int

datatype layout_error = BadFrameSize int | BadHeaders int int int | NoRoom int int

definition DataStart :: "layout \<Rightarrow> int" where
  "DataStart l = ObjHeader l + MbufSize l + Headroom l"

definition layout_Validate :: "layout \<Rightarrow> layout_error option" where
  "layout_Validate l =
     (if FrameSize l \<le> 0 \<or> ones_count (nat (FrameSize l)) \<noteq> 1 then Some (BadFrameSize (FrameSize l))
      else if ObjHeader l < 0 \<or> MbufSize l < mbuf_Size \<or> Headroom l < 0
      then Some (BadHeaders (ObjHeader l) (MbufSize l) (Headroom l))
      else if DataStart l \<ge> FrameSize l then Some (NoRoom (FrameSize l) (DataStart l))
      else None)"

definition MbufOffset :: "layout \<Rightarrow> int \<Rightarrow> int" where
  "MbufOffset l frame = frame + ObjHeader l"

definition BufferOffset :: "layout \<Rightarrow> int \<Rightarrow> int" where
  "BufferOffset l frame = frame + ObjHeader l + MbufSize l"

definition BufferLen :: "layout \<Rightarrow> int" where
  "BufferLen l = FrameSize l - ObjHeader l - MbufSize l"

definition MaxPacket :: "layout \<Rightarrow> int" where
  "MaxPacket l = FrameSize l - DataStart l"

definition FrameOf :: "layout \<Rightarrow> u64 \<Rightarrow> u64" where
  "FrameOf l off = off AND NOT (of_int (FrameSize l - 1))"

text \<open>\<open>binary.NativeEndian\<close>: stores and loads of a field.\<close>

definition put64 :: "bytes \<Rightarrow> nat \<Rightarrow> u64 \<Rightarrow> bytes option" where "put64 b i v = poke b i (le64 v)"
definition put32 :: "bytes \<Rightarrow> nat \<Rightarrow> u32 \<Rightarrow> bytes option" where "put32 b i v = poke b i (le32 v)"
definition put16 :: "bytes \<Rightarrow> nat \<Rightarrow> u16 \<Rightarrow> bytes option" where "put16 b i v = poke b i (le16 v)"
definition fetch64 :: "bytes \<Rightarrow> nat \<Rightarrow> u64 option" where "fetch64 b i = map_option le_word (peek b i 8)"
definition fetch32 :: "bytes \<Rightarrow> nat \<Rightarrow> u32 option" where "fetch32 b i = map_option le_word (peek b i 4)"
definition fetch16 :: "bytes \<Rightarrow> nat \<Rightarrow> u16 option" where "fetch16 b i = map_option le_word (peek b i 2)"

definition SetBuffer :: "bytes \<Rightarrow> nat \<Rightarrow> u64 \<Rightarrow> u64 \<Rightarrow> u16 \<Rightarrow> bytes option" where
  "SetBuffer b m addr iova bufLen =
     do { b1 \<leftarrow> put64 b (m + offBufAddr) addr; b2 \<leftarrow> put64 b1 (m + offBufIOVA) iova; put16 b2 (m + offBufLen) bufLen }"

definition BufAddr :: "bytes \<Rightarrow> nat \<Rightarrow> u64 option" where "BufAddr b m = fetch64 b (m + offBufAddr)"
definition BufIOVA :: "bytes \<Rightarrow> nat \<Rightarrow> u64 option" where "BufIOVA b m = fetch64 b (m + offBufIOVA)"
definition BufLen :: "bytes \<Rightarrow> nat \<Rightarrow> u16 option" where "BufLen b m = fetch16 b (m + offBufLen)"
definition mbuf_Pool :: "bytes \<Rightarrow> nat \<Rightarrow> u64 option" where "mbuf_Pool b m = fetch64 b (m + offPool)"
definition SetPool :: "bytes \<Rightarrow> nat \<Rightarrow> u64 \<Rightarrow> bytes option" where "SetPool b m pool = put64 b (m + offPool) pool"

definition rearm :: "u16 \<Rightarrow> u16 \<Rightarrow> u16 \<Rightarrow> u16 \<Rightarrow> u64" where
  "rearm dataOff refcnt nbSegs port =
     ucast dataOff OR push_bit 16 (ucast refcnt) OR push_bit 32 (ucast nbSegs) OR push_bit 48 (ucast port)"

definition mbuf_Reset :: "bytes \<Rightarrow> nat \<Rightarrow> u16 \<Rightarrow> bytes option" where
  "mbuf_Reset b m headroom =
     do { b1 \<leftarrow> put64 b (m + offRearm) (rearm headroom 1 1 PortInvalid);
          b2 \<leftarrow> put64 b1 (m + offOlFlags) 0;
          b3 \<leftarrow> put64 b2 (m + offNext) 0;
          b4 \<leftarrow> put64 b3 (m + offTxOffload) 0;
          b5 \<leftarrow> put32 b4 (m + offPktLen) 0;
          put16 b5 (m + offDataLen) 0 }"

definition ResetRx :: "bytes \<Rightarrow> nat \<Rightarrow> u16 \<Rightarrow> u64 \<Rightarrow> bytes option" where
  "ResetRx b m headroom pool =
     do { b1 \<leftarrow> put64 b (m + offRearm) (rearm headroom 1 1 PortInvalid);
          b2 \<leftarrow> put64 b1 (m + offNext) 0;
          put64 b2 (m + offPool) pool }"

definition PrepareTx :: "bytes \<Rightarrow> nat \<Rightarrow> u64 \<Rightarrow> u16 \<Rightarrow> u32 \<Rightarrow> bytes option" where
  "PrepareTx b m pool dataOff len =
     do { b1 \<leftarrow> put64 b (m + offRearm) (rearm dataOff 1 1 PortInvalid);
          b2 \<leftarrow> put64 b1 (m + offOlFlags) 0;
          b3 \<leftarrow> put32 b2 (m + offPktLen) len;
          b4 \<leftarrow> put16 b3 (m + offDataLen) (ucast len);
          b5 \<leftarrow> put64 b4 (m + offNext) 0;
          SetPool b5 m pool }"

definition RxRead :: "bytes \<Rightarrow> nat \<Rightarrow> (u16 \<times> u16 \<times> u16 \<times> u64) option" where
  "RxRead b m =
     do { rearmWord \<leftarrow> fetch64 b (m + offRearm);
          lenWord \<leftarrow> fetch64 b (m + offPktLen);
          olFlags \<leftarrow> fetch64 b (m + offOlFlags);
          Some (ucast rearmWord, ucast (drop_bit 32 rearmWord), ucast (drop_bit 32 lenWord), olFlags) }"

definition DataOff :: "bytes \<Rightarrow> nat \<Rightarrow> u16 option" where "DataOff b m = fetch16 b (m + offDataOff)"
definition DataLen :: "bytes \<Rightarrow> nat \<Rightarrow> u16 option" where "DataLen b m = fetch16 b (m + offDataLen)"
definition PktLen :: "bytes \<Rightarrow> nat \<Rightarrow> u32 option" where "PktLen b m = fetch32 b (m + offPktLen)"
definition NbSegs :: "bytes \<Rightarrow> nat \<Rightarrow> u16 option" where "NbSegs b m = fetch16 b (m + offNbSegs)"
definition SetNbSegs :: "bytes \<Rightarrow> nat \<Rightarrow> u16 \<Rightarrow> bytes option" where "SetNbSegs b m n = put16 b (m + offNbSegs) n"
definition OlFlags :: "bytes \<Rightarrow> nat \<Rightarrow> u64 option" where "OlFlags b m = fetch64 b (m + offOlFlags)"
definition SetOlFlags :: "bytes \<Rightarrow> nat \<Rightarrow> u64 \<Rightarrow> bytes option" where "SetOlFlags b m v = put64 b (m + offOlFlags) v"
definition VLANTCI :: "bytes \<Rightarrow> nat \<Rightarrow> u16 option" where "VLANTCI b m = fetch16 b (m + offVLANTCI)"

definition SetTxOffload :: "bytes \<Rightarrow> nat \<Rightarrow> u64 \<Rightarrow> u64 \<Rightarrow> bytes option" where
  "SetTxOffload b m l2Len l3Len = put64 b (m + offTxOffload) (l2Len AND 0x7f OR push_bit 7 (l3Len AND 0x1ff))"

definition TxOffload :: "bytes \<Rightarrow> nat \<Rightarrow> u64 option" where "TxOffload b m = fetch64 b (m + offTxOffload)"

definition TxIPv4 :: u64 where "TxIPv4 = push_bit 55 1"
definition TxIPv6 :: u64 where "TxIPv6 = push_bit 56 1"
definition TxIPChecksum :: u64 where "TxIPChecksum = push_bit 54 1"
definition TxTCPChecksum :: u64 where "TxTCPChecksum = push_bit 52 1"
definition TxUDPChecksum :: u64 where "TxUDPChecksum = push_bit 52 3"
definition TxTCPSeg :: u64 where "TxTCPSeg = push_bit 50 1"

definition SetTxOffloadTSO :: "bytes \<Rightarrow> nat \<Rightarrow> u64 \<Rightarrow> u64 \<Rightarrow> u64 \<Rightarrow> u64 \<Rightarrow> bytes option" where
  "SetTxOffloadTSO b m l2Len l3Len l4Len segSize =
     put64 b (m + offTxOffload)
       (l2Len AND 0x7f OR push_bit 7 (l3Len AND 0x1ff) OR push_bit 16 (l4Len AND 0xff) OR push_bit 24 (segSize AND 0xffff))"

definition ProtoTCP :: u8 where "ProtoTCP = 6"
definition ProtoUDP :: u8 where "ProtoUDP = 17"
definition udpHeaderLen :: nat where "udpHeaderLen = 8"
definition tcpHeaderLen :: nat where "tcpHeaderLen = 20"

record mbuf_headers =
  L2Len :: nat
  L3Len :: nat
  is_IPv4 :: bool
  is_IPv6 :: bool
  Proto :: u8

definition etherIPv4 :: nat where "etherIPv4 = 0x0800"
definition etherIPv6 :: nat where "etherIPv6 = 0x86dd"
definition etherVLAN :: nat where "etherVLAN = 0x8100"
definition etherQinQ :: nat where "etherQinQ = 0x88a8"
definition etherQinQ2 :: nat where "etherQinQ2 = 0x9100"

text \<open>\<open>p[i]\<close>, and \<open>int(p[i])<<8 | int(p[i+1])\<close>.\<close>

definition byte_at :: "bytes \<Rightarrow> nat \<Rightarrow> u8 option" where
  "byte_at p i = (if i < length p then Some (p ! i) else None)"

definition pair_at :: "bytes \<Rightarrow> nat \<Rightarrow> nat option" where
  "pair_at p i = do { x \<leftarrow> byte_at p i; y \<leftarrow> byte_at p (i + 1); Some (unat (push_bit 8 (ucast x) OR ucast y :: u64)) }"

text \<open>The loop over VLAN tags; the first argument is how many it may still take. \<open>Inl\<close> is the early return.\<close>

primrec walk_tags :: "nat \<Rightarrow> bytes \<Rightarrow> nat \<Rightarrow> nat \<Rightarrow> (unit + nat \<times> nat) option" where
  "walk_tags 0 p et off = Some (Inr (et, off))"
| "walk_tags (Suc k) p et off =
     (if et = etherVLAN \<or> et = etherQinQ \<or> et = etherQinQ2
      then if length p < off + 4 then Some (Inl ())
           else do { et1 \<leftarrow> pair_at p (off + 2); walk_tags k p et1 (off + 4) }
      else Some (Inr (et, off)))"

definition no_headers :: mbuf_headers where
  "no_headers = \<lparr>L2Len = 0, L3Len = 0, is_IPv4 = False, is_IPv6 = False, Proto = 0\<rparr>"

definition parse_ip :: "bytes \<Rightarrow> nat \<Rightarrow> nat \<Rightarrow> mbuf_headers \<Rightarrow> (mbuf_headers \<times> bool) option" where
  "parse_ip p et off h =
     (if et = etherIPv4
      then if length p < off + 20 then Some (h, False)
           else do { v \<leftarrow> byte_at p off;
                     if drop_bit 4 v \<noteq> 4 then Some (h, False)
                     else do { let ihl = unat (v AND 0x0f) * 4;
                               if ihl < 20 \<or> length p < off + ihl then Some (h, False)
                               else do { pr \<leftarrow> byte_at p (off + 9);
                                         Some (h\<lparr>is_IPv4 := True, L3Len := ihl, Proto := pr\<rparr>, True) } } }
      else if et = etherIPv6
      then if length p < off + 40 then Some (h, False)
           else do { v \<leftarrow> byte_at p off;
                     if drop_bit 4 v \<noteq> 6 then Some (h, False)
                     else do { nxt \<leftarrow> byte_at p (off + 6);
                               if nxt \<noteq> ProtoTCP \<and> nxt \<noteq> ProtoUDP then Some (h, False)
                               else Some (h\<lparr>is_IPv6 := True, L3Len := 40, Proto := nxt\<rparr>, True) } }
      else Some (h, False))"

definition mbuf_Parse :: "bytes \<Rightarrow> (mbuf_headers \<times> bool) option" where
  "mbuf_Parse p =
     (if length p < 14 then Some (no_headers, False)
      else do { et0 \<leftarrow> pair_at p 12;
                tags \<leftarrow> walk_tags 2 p et0 14;
                case tags of
                  Inl _ \<Rightarrow> Some (no_headers, False)
                | Inr (et, off) \<Rightarrow>
                    do { (h, ok) \<leftarrow> parse_ip p et off (no_headers\<lparr>L2Len := off\<rparr>);
                         if \<not> ok then Some (h, False)
                         else if Proto h \<noteq> ProtoTCP \<and> Proto h \<noteq> ProtoUDP then Some (h, False)
                         else do { let need = (if Proto h = ProtoTCP then tcpHeaderLen else udpHeaderLen);
                                   Some (h, length p \<ge> L2Len h + L3Len h + need) } } })"

definition mbuf_ChecksumFlags :: "mbuf_headers \<Rightarrow> u64" where
  "mbuf_ChecksumFlags h =
     (if is_IPv4 h \<or> is_IPv6 h
      then (if is_IPv4 h then TxIPv4 OR TxIPChecksum else TxIPv6)
           OR (if Proto h = ProtoTCP then TxTCPChecksum else if Proto h = ProtoUDP then TxUDPChecksum else 0)
      else 0)"

section \<open>Fields\<close>

lemma bit_le_word:
  "bit (le_word bs :: 'a::len word) n \<longleftrightarrow> n < LENGTH('a) \<and> n < 8 * length bs \<and> bit (bs ! (n div 8)) (n mod 8)"
proof (induction bs arbitrary: n)
  case (Cons b bs)
  show ?case
  proof (cases "n < 8")
    case True
    then show ?thesis by (auto simp: bit_simps)
  next
    case False
    then have n: "n div 8 = Suc ((n - 8) div 8)" "n mod 8 = (n - 8) mod 8" by (simp_all add: le_div_geq le_mod_geq)
    have "\<not> bit b n" using False bit_imp_le_length [of b n] by auto
    then show ?thesis using False n by (auto simp: bit_simps Cons)
  qed
qed simp

lemma le_word_part:
  assumes "k + n \<le> length bs" "8 * length bs \<le> LENGTH('a)" "8 * n = LENGTH('b)"
  shows "(le_word (take n (drop k bs)) :: 'b::len word) = ucast (drop_bit (8 * k) (le_word bs :: 'a::len word))"
proof (rule bit_word_eqI)
  fix i assume i: "i < LENGTH('b)"
  then have "(8 * k + i) div 8 = k + i div 8" "(8 * k + i) mod 8 = i mod 8" "i div 8 < n" using assms(3) by auto
  then show "bit (le_word (take n (drop k bs)) :: 'b word) i = bit (ucast (drop_bit (8 * k) (le_word bs :: 'a word)) :: 'b word) i"
    using i assms by (auto simp: bit_simps bit_le_word)
qed

lemma peek_part:
  assumes "peek b i n = Some xs" "k + j \<le> n"
  shows "peek b (i + k) j = Some (take j (drop k xs))"
  using assms by (auto simp: peek_def split: if_splits) (simp add: take_drop add.commute min_def)

lemma fetch16_part:
  assumes "fetch64 b i = Some w" "k \<le> 6"
  shows "fetch16 b (i + k) = Some (ucast (drop_bit (8 * k) w))"
proof -
  obtain xs where xs: "peek b i 8 = Some xs" "w = le_word xs" using assms(1) by (auto simp: fetch64_def)
  have "length xs = 8" using xs(1) by (rule peek_length)
  then show ?thesis using peek_part [OF xs(1), of k 2] assms(2) le_word_part [of k 2 xs, where 'a = 64 and 'b = 16]
    by (simp add: fetch16_def xs(2))
qed

lemma fetch_defined:
  "i + 8 \<le> length b \<Longrightarrow> \<exists>w. fetch64 b i = Some w" "i + 4 \<le> length b \<Longrightarrow> \<exists>w. fetch32 b i = Some w"
  "i + 2 \<le> length b \<Longrightarrow> \<exists>w. fetch16 b i = Some w"
  by (simp_all add: fetch64_def fetch32_def fetch16_def peek_def)

lemma put_defined:
  "i + 8 \<le> length b \<Longrightarrow> \<exists>b'. put64 b i v = Some b'" "i + 4 \<le> length b \<Longrightarrow> \<exists>b'. put32 b i w = Some b'"
  "i + 2 \<le> length b \<Longrightarrow> \<exists>b'. put16 b i x = Some b'"
  by (simp_all add: put64_def put32_def put16_def poke_def)

text \<open>What a store leaves alone, and what reads it back.\<close>

definition field_kept :: "nat \<Rightarrow> nat \<Rightarrow> bytes \<Rightarrow> bytes \<Rightarrow> bool" where
  "field_kept lo hi b b' \<longleftrightarrow> length b' = length b \<and> (\<forall>i n. i + n \<le> lo \<or> hi \<le> i \<longrightarrow> peek b' i n = peek b i n)"

lemma field_kept_refl: "field_kept lo hi b b" by (simp add: field_kept_def)

lemma field_kept_trans: "field_kept lo hi a b \<Longrightarrow> field_kept lo hi b c \<Longrightarrow> field_kept lo hi a c"
  unfolding field_kept_def by metis

lemma field_kept_mono: "field_kept lo hi b b' \<Longrightarrow> lo' \<le> lo \<Longrightarrow> hi \<le> hi' \<Longrightarrow> field_kept lo' hi' b b'"
  unfolding field_kept_def by (metis le_trans)

lemma put_kept:
  "put64 b i v = Some b' \<Longrightarrow> field_kept i (i + 8) b b'" "put32 b i w = Some b' \<Longrightarrow> field_kept i (i + 4) b b'"
  "put16 b i x = Some b' \<Longrightarrow> field_kept i (i + 2) b b'"
  unfolding put64_def put32_def put16_def field_kept_def
  using poke_length [of b i _ b'] peek_poke_other [of b i _ b'] by fastforce+

lemma put_same:
  "put64 b i v = Some b' \<Longrightarrow> fetch64 b' i = Some v" "put32 b i w = Some b' \<Longrightarrow> fetch32 b' i = Some w"
  "put16 b i x = Some b' \<Longrightarrow> fetch16 b' i = Some x"
  unfolding put64_def put32_def put16_def fetch64_def fetch32_def fetch16_def
  by (drule peek_poke_same, simp)+

lemma fetch_kept:
  assumes "field_kept lo hi b b'"
  shows "i + 8 \<le> lo \<or> hi \<le> i \<Longrightarrow> fetch64 b' i = fetch64 b i" "i + 4 \<le> lo \<or> hi \<le> i \<Longrightarrow> fetch32 b' i = fetch32 b i"
    "i + 2 \<le> lo \<or> hi \<le> i \<Longrightarrow> fetch16 b' i = fetch16 b i"
  using assms unfolding field_kept_def fetch64_def fetch32_def fetch16_def by metis+

lemma kept_length: "field_kept lo hi b b' \<Longrightarrow> length b' = length b"
  by (simp add: field_kept_def)

lemma kept_slice: "field_kept lo hi b b' \<Longrightarrow> i + n \<le> lo \<or> hi \<le> i \<Longrightarrow> i + n \<le> length b \<Longrightarrow> take n (drop i b') = take n (drop i b)"
  unfolding field_kept_def peek_def by (metis option.inject)

lemmas mbuf_offsets = offBufAddr_def offBufIOVA_def offRearm_def offDataOff_def offRefcnt_def offNbSegs_def offPort_def offOlFlags_def
  offPktLen_def offDataLen_def offVLANTCI_def offBufLen_def offPool_def offNext_def offTxOffload_def

lemma rearm_parts:
  "(ucast (rearm d r n p) :: u16) = d" "(ucast (drop_bit 16 (rearm d r n p)) :: u16) = r"
  "(ucast (drop_bit 32 (rearm d r n p)) :: u16) = n" "(ucast (drop_bit 48 (rearm d r n p)) :: u16) = p"
  by (rule bit_word_eqI, auto simp: rearm_def bit_simps dest: bit_imp_le_length)+

text \<open>The three wide loads of the receive path read what the four narrow accessors do.\<close>

lemma RxRead_fields:
  assumes "m + 128 \<le> length b"
  shows "RxRead b m = do { a \<leftarrow> DataOff b m; n \<leftarrow> NbSegs b m; l \<leftarrow> DataLen b m; f \<leftarrow> OlFlags b m; Some (a, n, l, f) }"
proof -
  obtain r l f where w: "fetch64 b (m + 16) = Some r" "fetch64 b (m + 36) = Some l" "fetch64 b (m + 24) = Some f"
    using assms fetch_defined(1) [of "m + 16" b] fetch_defined(1) [of "m + 36" b] fetch_defined(1) [of "m + 24" b] by auto
  have "fetch16 b (m + 16) = Some (ucast r)" "fetch16 b (m + 20) = Some (ucast (drop_bit 32 r))" "fetch16 b (m + 40) = Some (ucast (drop_bit 32 l))"
    using fetch16_part [OF w(1), of 0] fetch16_part [OF w(1), of 4] fetch16_part [OF w(2), of 4] by (simp_all add: add.assoc)
  then show ?thesis using w by (simp add: RxRead_def DataOff_def NbSegs_def DataLen_def OlFlags_def mbuf_offsets)
qed

text \<open>What the driver finds in an mbuf that describes one packet.\<close>

definition mbuf_says :: "bytes \<Rightarrow> nat \<Rightarrow> u64 \<Rightarrow> u16 \<Rightarrow> u32 \<Rightarrow> bool" where
  "mbuf_says b m pool dataOff len \<longleftrightarrow>
     DataOff b m = Some dataOff \<and> NbSegs b m = Some 1 \<and> fetch16 b (m + offRefcnt) = Some 1 \<and> fetch16 b (m + offPort) = Some PortInvalid
     \<and> PktLen b m = Some len \<and> DataLen b m = Some (ucast len) \<and> fetch64 b (m + offNext) = Some 0 \<and> mbuf_Pool b m = Some pool"

lemma mbuf_says_kept:
  assumes "field_kept lo hi b b'" "m + 128 \<le> lo \<or> hi \<le> m" "mbuf_says b m pool d len"
  shows "mbuf_says b' m pool d len"
  using assms(2,3) fetch_kept [OF assms(1)]
  by (auto simp: mbuf_says_def DataOff_def NbSegs_def PktLen_def DataLen_def mbuf_Pool_def mbuf_offsets)

lemma mbuf_says_offload:
  assumes "field_kept (m + 24) (m + 32) b b' \<or> field_kept (m + 72) (m + 80) b b'" "mbuf_says b m pool d len"
  shows "mbuf_says b' m pool d len"
  using assms fetch_kept [of _ _ b b']
  by (auto simp: mbuf_says_def DataOff_def NbSegs_def PktLen_def DataLen_def mbuf_Pool_def mbuf_offsets)

lemma PrepareTx_says:
  assumes "m + 128 \<le> length b"
  obtains b' where "PrepareTx b m pool d len = Some b'" "mbuf_says b' m pool d len" "OlFlags b' m = Some 0" "field_kept (m + 16) (m + 72) b b'"
proof -
  obtain b1 where b1: "put64 b (m + 16) (rearm d 1 1 PortInvalid) = Some b1" using assms put_defined(1) by fastforce
  note n1 = kept_length [OF put_kept(1) [OF b1]]
  obtain b2 where b2: "put64 b1 (m + 24) 0 = Some b2" using assms put_defined(1) n1 by fastforce
  note n2 = kept_length [OF put_kept(1) [OF b2]]
  obtain b3 where b3: "put32 b2 (m + 36) len = Some b3" using assms put_defined(2) n1 n2 by fastforce
  note n3 = kept_length [OF put_kept(2) [OF b3]]
  obtain b4 where b4: "put16 b3 (m + 40) (ucast len) = Some b4" using assms put_defined(3) n1 n2 n3 by fastforce
  note n4 = kept_length [OF put_kept(3) [OF b4]]
  obtain b5 where b5: "put64 b4 (m + 64) 0 = Some b5" using assms put_defined(1) n1 n2 n3 n4 by fastforce
  note n5 = kept_length [OF put_kept(1) [OF b5]]
  obtain b6 where b6: "put64 b5 (m + 56) pool = Some b6" using assms put_defined(1) n1 n2 n3 n4 n5 by fastforce
  note k = put_kept(1) [OF b1] put_kept(1) [OF b2] put_kept(2) [OF b3] put_kept(3) [OF b4] put_kept(1) [OF b5] put_kept(1) [OF b6]
  note f = fetch_kept [OF k(2)] fetch_kept [OF k(3)] fetch_kept [OF k(4)] fetch_kept [OF k(5)] fetch_kept [OF k(6)]
  have "fetch64 b6 (m + 16) = Some (rearm d 1 1 PortInvalid)" using put_same(1) [OF b1] by (simp add: f)
  note r = fetch16_part [OF this, of 0] fetch16_part [OF this, of 2] fetch16_part [OF this, of 4] fetch16_part [OF this, of 6]
  have o: "fetch64 b6 (m + 24) = Some 0" using put_same(1) [OF b2] by (simp add: f)
  have l: "fetch32 b6 (m + 36) = Some len" using put_same(2) [OF b3] by (simp add: f)
  have d: "fetch16 b6 (m + 40) = Some (ucast len)" using put_same(3) [OF b4] by (simp add: f)
  have n: "fetch64 b6 (m + 64) = Some 0" using put_same(1) [OF b5] by (simp add: f)
  have p: "fetch64 b6 (m + 56) = Some pool" using put_same(1) [OF b6] by simp
  have "PrepareTx b m pool d len = Some b6" using b1 b2 b3 b4 b5 b6 by (simp add: PrepareTx_def SetPool_def mbuf_offsets)
  moreover have "mbuf_says b6 m pool d len" using r l d n p
    by (simp add: mbuf_says_def DataOff_def NbSegs_def PktLen_def DataLen_def mbuf_Pool_def mbuf_offsets rearm_parts add_ac)
  moreover have "OlFlags b6 m = Some 0" using o by (simp add: OlFlags_def mbuf_offsets)
  moreover have "field_kept (m + 16) (m + 72) b b6"
    by (rule field_kept_trans [OF _ field_kept_trans [OF _ field_kept_trans [OF _ field_kept_trans [OF _ field_kept_trans]]]],
        (rule k [THEN field_kept_mono], simp, simp)+)
  ultimately show thesis by (rule that)
qed

text \<open>Its six stores reach bytes 16 to 31, 36 to 41 and 56 to 71 of the mbuf and nothing else.\<close>

lemma PrepareTx_stores:
  assumes "PrepareTx b m pool d len = Some b'"
    and "i + n \<le> m + 16 \<or> m + 32 \<le> i \<and> i + n \<le> m + 36 \<or> m + 42 \<le> i \<and> i + n \<le> m + 56 \<or> m + 72 \<le> i"
  shows "peek b' i n = peek b i n"
proof -
  from assms(1) obtain b1 b2 b3 b4 b5 where
    s: "put64 b (m + 16) (rearm d 1 1 PortInvalid) = Some b1" "put64 b1 (m + 24) 0 = Some b2" "put32 b2 (m + 36) len = Some b3"
      "put16 b3 (m + 40) (ucast len) = Some b4" "put64 b4 (m + 64) 0 = Some b5" "put64 b5 (m + 56) pool = Some b'"
    by (auto simp: PrepareTx_def SetPool_def mbuf_offsets bind_eq_Some_conv)
  note k = put_kept(1) [OF s(1)] put_kept(1) [OF s(2)] put_kept(2) [OF s(3)] put_kept(3) [OF s(4)] put_kept(1) [OF s(5)] put_kept(1) [OF s(6)]
  have "peek b1 i n = peek b i n" "peek b2 i n = peek b1 i n" "peek b3 i n = peek b2 i n" "peek b4 i n = peek b3 i n"
    "peek b5 i n = peek b4 i n" "peek b' i n = peek b5 i n"
    using k assms(2) unfolding field_kept_def by auto
  then show ?thesis by simp
qed

lemma ResetRx_kept:
  assumes "m + 128 \<le> length b"
  obtains b' where "ResetRx b m h pool = Some b'" "field_kept (m + 16) (m + 72) b b'"
proof -
  obtain b1 where b1: "put64 b (m + 16) (rearm h 1 1 PortInvalid) = Some b1" using assms put_defined(1) by fastforce
  note n1 = kept_length [OF put_kept(1) [OF b1]]
  obtain b2 where b2: "put64 b1 (m + 64) 0 = Some b2" using assms put_defined(1) n1 by fastforce
  note n2 = kept_length [OF put_kept(1) [OF b2]]
  obtain b3 where b3: "put64 b2 (m + 56) pool = Some b3" using assms put_defined(1) n1 n2 by fastforce
  have "field_kept (m + 16) (m + 72) b b3"
    by (rule field_kept_trans [OF _ field_kept_trans],
        (rule put_kept(1) [OF b1, THEN field_kept_mono] put_kept(1) [OF b2, THEN field_kept_mono] put_kept(1) [OF b3, THEN field_kept_mono], simp, simp)+)
  then show thesis using b1 b2 b3 that by (simp add: ResetRx_def mbuf_offsets)
qed

lemma offload_kept:
  assumes "m + 128 \<le> length b"
  shows "\<exists>b'. SetOlFlags b m v = Some b' \<and> field_kept (m + 24) (m + 32) b b' \<and> OlFlags b' m = Some v"
    "\<exists>b'. SetTxOffload b m x y = Some b' \<and> field_kept (m + 72) (m + 80) b b'"
    "\<exists>b'. SetTxOffloadTSO b m x y z w = Some b' \<and> field_kept (m + 72) (m + 80) b b'"
proof -
  obtain b' where "put64 b (m + 24) v = Some b'" using assms put_defined(1) by fastforce
  then show "\<exists>b'. SetOlFlags b m v = Some b' \<and> field_kept (m + 24) (m + 32) b b' \<and> OlFlags b' m = Some v"
    using put_kept(1) [of b "m + 24" v b'] put_same(1) [of b "m + 24" v b'] by (simp add: SetOlFlags_def OlFlags_def mbuf_offsets add.assoc)
  have "\<exists>b'. put64 b (m + 72) u = Some b' \<and> field_kept (m + 72) (m + 80) b b'" for u
    using assms put_defined(1) [of "m + 72" b u] put_kept(1) [of b "m + 72" u] by (auto simp: add.assoc)
  then show "\<exists>b'. SetTxOffload b m x y = Some b' \<and> field_kept (m + 72) (m + 80) b b'"
    "\<exists>b'. SetTxOffloadTSO b m x y z w = Some b' \<and> field_kept (m + 72) (m + 80) b b'"
    by (simp_all add: SetTxOffload_def SetTxOffloadTSO_def mbuf_offsets)
qed

section \<open>The header parser\<close>

definition et_at :: "bytes \<Rightarrow> nat \<Rightarrow> nat" where
  "et_at p i = unat (p ! i) * 256 + unat (p ! (i + 1))"

definition tag_type :: "nat \<Rightarrow> bool" where
  "tag_type et \<longleftrightarrow> et = etherVLAN \<or> et = etherQinQ \<or> et = etherQinQ2"

text \<open>What a packet has in front of its payload: up to two tags, an IP header of either version, and a complete TCP or
  UDP header.\<close>

definition is_headers :: "bytes \<Rightarrow> mbuf_headers \<Rightarrow> bool" where
  "is_headers p h \<longleftrightarrow> (\<exists>k \<le> 2. L2Len h = 14 + 4 * k
     \<and> (\<forall>j < k. tag_type (et_at p (12 + 4 * j)))
     \<and> (is_IPv4 h \<and> \<not> is_IPv6 h \<and> et_at p (12 + 4 * k) = etherIPv4 \<and> unat (p ! L2Len h) div 16 = 4
          \<and> L3Len h = unat (p ! L2Len h) mod 16 * 4 \<and> 20 \<le> L3Len h \<and> Proto h = p ! (L2Len h + 9)
        \<or> is_IPv6 h \<and> \<not> is_IPv4 h \<and> et_at p (12 + 4 * k) = etherIPv6 \<and> unat (p ! L2Len h) div 16 = 6
          \<and> L3Len h = 40 \<and> Proto h = p ! (L2Len h + 6)))
     \<and> (Proto h = ProtoTCP \<and> L2Len h + L3Len h + 20 \<le> length p \<or> Proto h = ProtoUDP \<and> L2Len h + L3Len h + 8 \<le> length p)"

lemma pair_at_eq: "i + 1 < length p \<Longrightarrow> pair_at p i = Some (et_at p i)"
  using unat_be_pair [of "p ! i" "p ! (i + 1)", where 'a = 64] by (simp add: pair_at_def byte_at_def et_at_def)

lemma walk_tags_spec:
  assumes "a + 2 \<le> length p"
  shows "\<exists>t. walk_tags k p (et_at p a) (a + 2) = Some t
     \<and> (\<forall>e off. t = Inr (e, off) \<longleftrightarrow> (\<exists>j \<le> k. e = et_at p (a + 4 * j) \<and> off = a + 4 * j + 2 \<and> off \<le> length p
          \<and> (\<forall>i < j. tag_type (et_at p (a + 4 * i))) \<and> (j < k \<longrightarrow> \<not> tag_type e)))"
  using assms
proof (induction k arbitrary: a)
  case 0
  then show ?case by auto
next
  case (Suc k)
  have up: "(\<exists>j \<le> Suc k. Q j) \<longleftrightarrow> Q 0 \<or> (\<exists>j \<le> k. Q (Suc j))" for Q by (metis Suc_le_mono le0 not0_implies_Suc)
  show ?case
  proof (cases "tag_type (et_at p a)")
    case False
    then have nt: "\<not> (\<forall>i < Suc j. tag_type (et_at p (a + 4 * i)))" for j by (metis mult_0_right add_0_right zero_less_Suc)
    have w: "walk_tags (Suc k) p (et_at p a) (a + 2) = Some (Inr (et_at p a, a + 2))" using False by (simp add: tag_type_def)
    show ?thesis unfolding w up by (rule exI [of _ "Inr (et_at p a, a + 2)"]) (use nt False Suc.prems in auto)
  next
    case tag: True
    have tags: "(\<forall>i < Suc j. tag_type (et_at p (a + 4 * i))) \<longleftrightarrow> (\<forall>i < j. tag_type (et_at p (a + 4 + 4 * i)))" for j
      using tag by (auto simp: less_Suc_eq_0_disj add.assoc)
    show ?thesis
    proof (cases "length p < a + 6")
      case True
      then show ?thesis using tag by (auto simp: tag_type_def up)
    next
      case False
      then have "a + 4 + 2 \<le> length p" by simp
      from Suc.IH [OF this] obtain t where t: "walk_tags k p (et_at p (a + 4)) (a + 4 + 2) = Some t"
          "\<And>e off. t = Inr (e, off) \<longleftrightarrow> (\<exists>j \<le> k. e = et_at p (a + 4 + 4 * j) \<and> off = a + 4 + 4 * j + 2 \<and> off \<le> length p
          \<and> (\<forall>i < j. tag_type (et_at p (a + 4 + 4 * i))) \<and> (j < k \<longrightarrow> \<not> tag_type e))" by blast
      have c: "(et_at p a = etherVLAN \<or> et_at p a = etherQinQ \<or> et_at p a = etherQinQ2) = True" using tag by (simp add: tag_type_def)
      have l: "(length p < a + 2 + 4) = False" "a + 2 + 2 = a + 4" "a + 2 + 4 = a + 4 + 2" "pair_at p (a + 4) = Some (et_at p (a + 4))"
        using False pair_at_eq [of "a + 4" p] by simp_all
      have w: "walk_tags (Suc k) p (et_at p a) (a + 2) = Some t"
        unfolding walk_tags.simps(2) c l(1) unfolding l(2-4) by (simp only: if_True if_False Option.bind.bind_lunit t(1))
      have eq: "t = Inr (e, off) \<longleftrightarrow> (\<exists>j \<le> Suc k. e = et_at p (a + 4 * j) \<and> off = a + 4 * j + 2 \<and> off \<le> length p
          \<and> (\<forall>i < j. tag_type (et_at p (a + 4 * i))) \<and> (j < Suc k \<longrightarrow> \<not> tag_type e))" for e off
      proof -
        define Q where "Q j \<longleftrightarrow> e = et_at p (a + 4 * j) \<and> off = a + 4 * j + 2 \<and> off \<le> length p
          \<and> (\<forall>i < j. tag_type (et_at p (a + 4 * i))) \<and> (j < Suc k \<longrightarrow> \<not> tag_type e)" for j
        have "\<not> Q 0" using tag by (auto simp: Q_def)
        moreover have "Q (Suc j) \<longleftrightarrow> e = et_at p (a + 4 + 4 * j) \<and> off = a + 4 + 4 * j + 2 \<and> off \<le> length p
          \<and> (\<forall>i < j. tag_type (et_at p (a + 4 + 4 * i))) \<and> (j < k \<longrightarrow> \<not> tag_type e)" for j
          unfolding Q_def tags by (simp add: add.assoc)
        ultimately show ?thesis unfolding t(2) Q_def [symmetric] up by simp
      qed
      show ?thesis by (intro exI [of _ t] conjI allI) (fact w eq)+
    qed
  qed
qed

lemma parse_ip_spec:
  assumes "off \<le> length p"
  shows "\<exists>r ok. parse_ip p et off h = Some (r, ok) \<and> L2Len r = L2Len h
     \<and> (ok \<longleftrightarrow> et = etherIPv4 \<and> off + 20 \<le> length p \<and> unat (p ! off) div 16 = 4 \<and> 20 \<le> unat (p ! off) mod 16 * 4
              \<and> off + unat (p ! off) mod 16 * 4 \<le> length p
            \<or> et = etherIPv6 \<and> off + 40 \<le> length p \<and> unat (p ! off) div 16 = 6 \<and> (p ! (off + 6) = ProtoTCP \<or> p ! (off + 6) = ProtoUDP))
     \<and> (ok \<longrightarrow> et = etherIPv4 \<longrightarrow> r = h\<lparr>is_IPv4 := True, L3Len := unat (p ! off) mod 16 * 4, Proto := p ! (off + 9)\<rparr>)
     \<and> (ok \<longrightarrow> et = etherIPv6 \<longrightarrow> r = h\<lparr>is_IPv6 := True, L3Len := 40, Proto := p ! (off + 6)\<rparr>)"
proof -
  have nib: "drop_bit 4 v = 4 \<longleftrightarrow> unat v div 16 = 4" "drop_bit 4 v = 6 \<longleftrightarrow> unat v div 16 = 6" "unat (v AND 0x0f) = unat v mod 16" for v :: u8
    using unat_drop_bit [of 4 v] unat_and_mask [of 4 v] by (simp_all add: word_unat_eq_iff)
  show ?thesis by (auto simp: parse_ip_def byte_at_def nib Let_def etherIPv4_def etherIPv6_def)
qed

lemma mbuf_Parse_headers:
  "\<exists>h ok. mbuf_Parse p = Some (h, ok) \<and> (\<forall>h'. h = h' \<and> ok \<longleftrightarrow> is_headers p h')"
proof (cases "length p < 14")
  case True
  then have "\<not> is_headers p h'" for h' by (auto simp: is_headers_def)
  then show ?thesis using True by (auto simp: mbuf_Parse_def)
next
  case False
  obtain t where t: "walk_tags 2 p (et_at p 12) 14 = Some t"
      "\<And>e off. t = Inr (e, off) \<longleftrightarrow> (\<exists>j \<le> 2. e = et_at p (12 + 4 * j) \<and> off = 12 + 4 * j + 2 \<and> off \<le> length p
          \<and> (\<forall>i < j. tag_type (et_at p (12 + 4 * i))) \<and> (j < 2 \<longrightarrow> \<not> tag_type e))"
    using walk_tags_spec [of 12 p 2] False by auto
  have et0: "pair_at p 12 = Some (et_at p 12)" using False pair_at_eq [of 12 p] by simp
  have ip: "et = etherIPv4 \<or> et = etherIPv6 \<Longrightarrow> \<not> tag_type et" "etherIPv4 \<noteq> etherIPv6" for et
    by (auto simp: tag_type_def etherIPv4_def etherIPv6_def etherVLAN_def etherQinQ_def etherQinQ2_def)
  show ?thesis
  proof (cases t)
    case (Inl u)
    have "\<not> is_headers p h'" for h'
    proof
      assume "is_headers p h'"
      then obtain k where k: "k \<le> 2" "L2Len h' = 14 + 4 * k" "\<forall>j < k. tag_type (et_at p (12 + 4 * j))"
          "et_at p (12 + 4 * k) = etherIPv4 \<or> et_at p (12 + 4 * k) = etherIPv6" "L2Len h' \<le> length p"
        unfolding is_headers_def by auto
      then have "t = Inr (et_at p (12 + 4 * k), 12 + 4 * k + 2)" unfolding t(2) using ip(1) by (intro exI [of _ k]) auto
      then show False using Inl by simp
    qed
    then show ?thesis using Inl t(1) et0 False by (auto simp: mbuf_Parse_def)
  next
    case (Inr eo)
    then obtain j where j: "j \<le> 2" "eo = (et_at p (12 + 4 * j), 14 + 4 * j)" "14 + 4 * j \<le> length p"
        "\<forall>i < j. tag_type (et_at p (12 + 4 * i))" "j < 2 \<longrightarrow> \<not> tag_type (et_at p (12 + 4 * j))"
      using t(2) by (cases eo) auto
    have uniq: "k = j" if "k \<le> 2" "\<forall>i < k. tag_type (et_at p (12 + 4 * i))" "et_at p (12 + 4 * k) = etherIPv4 \<or> et_at p (12 + 4 * k) = etherIPv6" for k
      using that j(1,4,5) ip(1) by (metis le_antisym le_less_trans not_le)
    let ?h0 = "no_headers\<lparr>L2Len := 14 + 4 * j\<rparr>" and ?et = "et_at p (12 + 4 * j)"
    obtain r ok where r: "parse_ip p ?et (14 + 4 * j) ?h0 = Some (r, ok)"
        "ok \<longleftrightarrow> ?et = etherIPv4 \<and> 14 + 4 * j + 20 \<le> length p \<and> unat (p ! (14 + 4 * j)) div 16 = 4 \<and> 20 \<le> unat (p ! (14 + 4 * j)) mod 16 * 4
              \<and> 14 + 4 * j + unat (p ! (14 + 4 * j)) mod 16 * 4 \<le> length p
            \<or> ?et = etherIPv6 \<and> 14 + 4 * j + 40 \<le> length p \<and> unat (p ! (14 + 4 * j)) div 16 = 6
              \<and> (p ! (14 + 4 * j + 6) = ProtoTCP \<or> p ! (14 + 4 * j + 6) = ProtoUDP)"
        "ok \<longrightarrow> ?et = etherIPv4 \<longrightarrow> r = ?h0\<lparr>is_IPv4 := True, L3Len := unat (p ! (14 + 4 * j)) mod 16 * 4, Proto := p ! (14 + 4 * j + 9)\<rparr>"
        "ok \<longrightarrow> ?et = etherIPv6 \<longrightarrow> r = ?h0\<lparr>is_IPv6 := True, L3Len := 40, Proto := p ! (14 + 4 * j + 6)\<rparr>"
      using parse_ip_spec [OF j(3), of ?et ?h0] by blast
    define good where "good \<longleftrightarrow> ok \<and> (Proto r = ProtoTCP \<and> L2Len r + L3Len r + 20 \<le> length p
        \<or> Proto r = ProtoUDP \<and> L2Len r + L3Len r + 8 \<le> length p)"
    have ne: "ProtoTCP \<noteq> ProtoUDP" by (simp add: ProtoTCP_def ProtoUDP_def)
    have "mbuf_Parse p = Some (r, good)"
      using False et0 t(1) Inr j(2) r(1) ne by (auto simp: mbuf_Parse_def good_def Let_def tcpHeaderLen_def udpHeaderLen_def)
    moreover have "r = h' \<and> good \<longleftrightarrow> is_headers p h'" for h'
    proof
      assume "r = h' \<and> good"
      then have g: "h' = r" "ok" "Proto r = ProtoTCP \<and> L2Len r + L3Len r + 20 \<le> length p \<or> Proto r = ProtoUDP \<and> L2Len r + L3Len r + 8 \<le> length p"
        by (auto simp: good_def)
      have "L2Len r = 14 + 4 * j \<and> (is_IPv4 r \<and> \<not> is_IPv6 r \<and> ?et = etherIPv4 \<and> unat (p ! L2Len r) div 16 = 4
          \<and> L3Len r = unat (p ! L2Len r) mod 16 * 4 \<and> 20 \<le> L3Len r \<and> Proto r = p ! (L2Len r + 9)
        \<or> is_IPv6 r \<and> \<not> is_IPv4 r \<and> ?et = etherIPv6 \<and> unat (p ! L2Len r) div 16 = 6
          \<and> L3Len r = 40 \<and> Proto r = p ! (L2Len r + 6))"
        using g(2) r(2) by (elim iffE impE disjE) (use g(2) r(3,4) in \<open>simp_all add: no_headers_def\<close>)
      then show "is_headers p h'" unfolding g(1) is_headers_def using g(3) j(1,4) by blast
    next
      assume h: "is_headers p h'"
      then obtain k where k: "k \<le> 2" "L2Len h' = 14 + 4 * k" "\<forall>j < k. tag_type (et_at p (12 + 4 * j))"
          "is_IPv4 h' \<and> \<not> is_IPv6 h' \<and> et_at p (12 + 4 * k) = etherIPv4 \<and> unat (p ! L2Len h') div 16 = 4
          \<and> L3Len h' = unat (p ! L2Len h') mod 16 * 4 \<and> 20 \<le> L3Len h' \<and> Proto h' = p ! (L2Len h' + 9)
        \<or> is_IPv6 h' \<and> \<not> is_IPv4 h' \<and> et_at p (12 + 4 * k) = etherIPv6 \<and> unat (p ! L2Len h') div 16 = 6
          \<and> L3Len h' = 40 \<and> Proto h' = p ! (L2Len h' + 6)"
        unfolding is_headers_def by blast
      have "k = j" using k uniq by blast
      have len: "Proto h' = ProtoTCP \<and> L2Len h' + L3Len h' + 20 \<le> length p \<or> Proto h' = ProtoUDP \<and> L2Len h' + L3Len h' + 8 \<le> length p"
        using h by (simp add: is_headers_def)
      have ok: "ok" unfolding r(2) using k(2,4) len \<open>k = j\<close> by auto
      then have "h' = r" using r(3,4) k(2,4) \<open>k = j\<close> by (auto simp: no_headers_def intro!: mbuf_headers.equality)
      then show "r = h' \<and> good" using ok len by (simp add: good_def)
    qed
    ultimately show ?thesis by blast
  qed
qed

section \<open>Properties\<close>

text \<open>C29: \<open>Parse\<close> never panics, and it accepts exactly the packets that have an Ethernet header with at most two VLAN
  tags, an IPv4 or IPv6 header and a complete TCP or UDP header inside the packet, with the lengths of just these
  headers. So the checksum field a NIC writes, 16 bytes into TCP and 6 into UDP, lies inside the packet, and the flags
  asked for name one IP version, the IPv4 header checksum only for IPv4, and the protocol that is there.\<close>

theorem mbuf_Parse_exact:
  "\<exists>h ok. mbuf_Parse p = Some (h, ok) \<and> (\<forall>h'. h = h' \<and> ok \<longleftrightarrow> is_headers p h')
     \<and> (ok \<longrightarrow> L2Len h + L3Len h + (if Proto h = ProtoTCP then 18 else 8) \<le> length p
          \<and> mbuf_ChecksumFlags h = (if is_IPv4 h then TxIPv4 OR TxIPChecksum else TxIPv6) OR (if Proto h = ProtoTCP then TxTCPChecksum else TxUDPChecksum))"
proof -
  obtain h ok where h: "mbuf_Parse p = Some (h, ok)" "\<forall>h'. h = h' \<and> ok \<longleftrightarrow> is_headers p h'" using mbuf_Parse_headers by blast
  have "L2Len h + L3Len h + (if Proto h = ProtoTCP then 18 else 8) \<le> length p
      \<and> mbuf_ChecksumFlags h = (if is_IPv4 h then TxIPv4 OR TxIPChecksum else TxIPv6) OR (if Proto h = ProtoTCP then TxTCPChecksum else TxUDPChecksum)" if ok
  proof -
    have "is_headers p h" using h(2) that by blast
    moreover have "ProtoTCP \<noteq> ProtoUDP" by (simp add: ProtoTCP_def ProtoUDP_def)
    ultimately show ?thesis unfolding is_headers_def mbuf_ChecksumFlags_def by auto
  qed
  then show ?thesis using h by blast
qed

theorem mbuf_Parse_exact_witness:
  "mbuf_Parse [0,0,0,0,0,0,0,0,0,0,0,0,0x81,0,0,7,0x08,0,0x45,0,0,0,0,0,0,0,0,17,0,0,0,0,0,0,0,0,0,0,0,0,0,0,0,0,0,0]
     = Some (\<lparr>L2Len = 18, L3Len = 20, is_IPv4 = True, is_IPv6 = False, Proto = 17\<rparr>, True)"
proof -
  let ?p = "[0,0,0,0,0,0,0,0,0,0,0,0,0x81,0,0,7,0x08,0,0x45,0,0,0,0,0,0,0,0,17,0,0,0,0,0,0,0,0,0,0,0,0,0,0,0,0,0,0] :: bytes"
  have "is_headers ?p \<lparr>L2Len = 18, L3Len = 20, is_IPv4 = True, is_IPv6 = False, Proto = 17\<rparr>" unfolding is_headers_def
    by (intro conjI exI [of _ 1]) (simp_all add: tag_type_def et_at_def etherVLAN_def etherIPv4_def ProtoUDP_def ProtoTCP_def)
  moreover obtain h ok where "mbuf_Parse ?p = Some (h, ok)" "\<forall>h'. h = h' \<and> ok \<longleftrightarrow> is_headers ?p h'"
    using mbuf_Parse_exact [of ?p] by (elim exE conjE) (rule that)
  ultimately show ?thesis by simp
qed



end
