(* ===== verification/Dpdk_Queue.thy ===== *)
theory Dpdk_Queue
  imports Mbuf Frame_Pool Dpdk_Ring "HOL-Library.Multiset"
begin

text \<open>
  The DPDK queues of \<^verbatim>\<open>dpdk/internal/queue/queue.go\<close>: what both directions share, the transmit queue and the receive
  queue, over the frame pool, the address rings and the mbufs.

  The driver (the interface \<open>PMD\<close>) is not part of the sources. It is an argument: a record of its three calls, each a
  function of the memory the driver shares with the queue, which is the region, the two rings, and whatever the driver
  keeps itself (the type \<open>'d\<close>). Scratch slices are local lists; where the code uses the length of one as a limit
  (\<open>len(t.mbufs)\<close>, \<open>len(q.burst)\<close>) the length is a field. Atomics are plain fields, since one goroutine drives a
  queue. \<open>None\<close> is a Go panic. \<open>chk\<close> is the build of the pool.
\<close>

section \<open>Both directions\<close>

record 'd shared =
  region :: bytes
  sup_ring :: dring
  returned :: dring
  driver :: 'd

record 'd pmd =
  TxBurst :: "u64 list \<Rightarrow> 'd shared \<Rightarrow> int \<times> 'd shared"
  RxBurst :: "nat \<Rightarrow> 'd shared \<Rightarrow> int \<times> u64 list \<times> 'd shared"
  Poke :: "'d shared \<Rightarrow> 'd shared"

record 'd config =
  Region :: bytes
  RegionVA :: u64
  Layout :: layout
  PoolVA :: u64
  FirstFrame :: int
  Frames :: int
  Depth :: int
  Supply :: "dring option"
  Returned :: "dring option"
  Checksums :: bool
  TSO :: bool
  PMD :: "'d pmd option"

datatype queue_error =
    BadLayout layout_error | NoRegion | PartialFrame nat int | NoFrames int | FramesPastRegion int int | BadDepth int
  | NoReturnedRing | NoDriver | NoSupplyRing
  | Closed | LengthMismatch nat nat | BadDescriptor nat desc | OffloadRefused nat queue_error
  | UnknownHeaders | CsumStartWrong u16 nat | NotIP | NoSegmentation | NotTCPSegment | SegmentationType u8 | ZeroSegment
  | HeaderLength u16 nat nat | ForeignAddress u64

definition config_validate :: "'d config \<Rightarrow> queue_error option" where
  "config_validate c =
     (case layout_Validate (Layout c) of Some e \<Rightarrow> Some (BadLayout e)
      | None \<Rightarrow>
        if length (Region c) = 0 then Some NoRegion
        else if int (length (Region c)) mod FrameSize (Layout c) \<noteq> 0
        then Some (PartialFrame (length (Region c)) (FrameSize (Layout c)))
        else if Frames c \<le> 0 then Some (NoFrames (Frames c))
        else if (FirstFrame c + Frames c) * FrameSize (Layout c) > int (length (Region c))
        then Some (FramesPastRegion (FirstFrame c) (FirstFrame c + Frames c))
        else if Depth c \<le> 0 then Some (BadDepth (Depth c))
        else if Returned c = None then Some NoReturnedRing
        else if PMD c = None then Some NoDriver
        else None)"

record 'd qbase =
  q_cfg :: "'d config"
  q_mem :: "'d shared"
  q_pool :: frames
  regionLen :: u64
  q_frameMask :: u64
  dataStart :: u64
  bufStart :: u64
  mbufs_len :: nat
  burst_len :: nat
  closed :: bool
  dead :: "queue_error option"

text \<open>A transmit queue has no supply ring and never touches it.\<close>

definition no_ring :: dring where
  "no_ring = \<lparr>rg_buf = [], rg_mask = 0, rg_head = 0, rg_tail = 0\<rparr>"

definition initBase :: "bool \<Rightarrow> 'd config \<Rightarrow> 'd \<Rightarrow> queue_error + 'd qbase" where
  "initBase chk cfg d =
     (case (config_validate cfg, Returned cfg) of
        (Some e, _) \<Rightarrow> Inl e
      | (None, None) \<Rightarrow> Inl NoReturnedRing
      | (None, Some rr) \<Rightarrow>
          let l = Layout cfg
          in Inr \<lparr>q_cfg = cfg,
                  q_mem = \<lparr>region = Region cfg, sup_ring = (case Supply cfg of Some s \<Rightarrow> s | None \<Rightarrow> no_ring), returned = rr, driver = d\<rparr>,
                  q_pool = New chk (nat (FirstFrame cfg)) (nat (Frames cfg)) (nat (FrameSize l)),
                  regionLen = of_nat (length (Region cfg)), q_frameMask = of_int (FrameSize l - 1),
                  dataStart = of_int (DataStart l), bufStart = of_int (ObjHeader l + MbufSize l),
                  mbufs_len = nat (Depth cfg), burst_len = nat (Depth cfg), closed = False, dead = None\<rparr>)"

definition descOK :: "('d, 'e) qbase_scheme \<Rightarrow> desc \<Rightarrow> bool" where
  "descOK b d =
     (if d_addr d \<ge> regionLen b then False
      else let within = d_addr d AND q_frameMask b
           in if within < bufStart b then False else ucast (d_len d) - 1 < q_frameMask b + 1 - within)"

definition frameOf :: "('d, 'e) qbase_scheme \<Rightarrow> u64 \<Rightarrow> u64" where
  "frameOf b addr = addr AND NOT (q_frameMask b)"

definition mbufOf :: "('d, 'e) qbase_scheme \<Rightarrow> u64 \<Rightarrow> nat" where
  "mbufOf b addr = unat (frameOf b addr) + nat (ObjHeader (Layout (q_cfg b)))"

definition offsetOfVA :: "('d, 'e) qbase_scheme \<Rightarrow> u64 \<Rightarrow> nat option" where
  "offsetOfVA b va =
     (if va < RegionVA (q_cfg b) then None
      else let off = va - RegionVA (q_cfg b) in if off \<ge> regionLen b then None else Some (unat off))"

definition q_Owns :: "('d, 'e) qbase_scheme \<Rightarrow> u64 \<Rightarrow> bool" where
  "q_Owns b addr =
     (let lo = of_int (FirstFrame (q_cfg b)) * of_int (FrameSize (Layout (q_cfg b)));
          hi = lo + of_int (Frames (q_cfg b)) * of_int (FrameSize (Layout (q_cfg b)))
      in addr \<ge> lo \<and> addr < hi)"

definition NumFreeFrames :: "('d, 'e) qbase_scheme \<Rightarrow> nat" where
  "NumFreeFrames b = Len (q_pool b)"

definition PoolRejected :: "('d, 'e) qbase_scheme \<Rightarrow> u64" where
  "PoolRejected b = rejected (q_pool b)"

definition q_Close :: "('d, 'e) qbase_scheme \<Rightarrow> ('d, 'e) qbase_scheme" where
  "q_Close b = b\<lparr>closed := True\<rparr>"

definition q_fail :: "queue_error \<Rightarrow> ('d, 'e) qbase_scheme \<Rightarrow> ('d, 'e) qbase_scheme" where
  "q_fail err b = (case dead b of None \<Rightarrow> b\<lparr>dead := Some err\<rparr> | Some _ \<Rightarrow> b)"

definition Dead :: "('d, 'e) qbase_scheme \<Rightarrow> queue_error option" where
  "Dead b = dead b"

section \<open>Transmit\<close>

record txq_stats =
  tPackets :: u64
  tBytes :: u64
  tCompleted :: u64
  tBatches :: u64
  tRingFull :: u64
  tPoolEmpty :: u64
  tBadDesc :: u64
  tBadOffload :: u64
  tPokes :: u64
  tForeign :: u64

record 'd dtx = "'d qbase" +
  inFlight :: int
  txStats :: txq_stats

definition dq_NewTx :: "bool \<Rightarrow> 'd config \<Rightarrow> 'd \<Rightarrow> queue_error + 'd dtx" where
  "dq_NewTx chk cfg d =
     (case initBase chk cfg d of Inl e \<Rightarrow> Inl e
      | Inr b \<Rightarrow> Inr (qbase.extend b (dtx.fields 0 \<lparr>tPackets = 0, tBytes = 0, tCompleted = 0, tBatches = 0, tRingFull = 0, tPoolEmpty = 0,
                         tBadDesc = 0, tBadOffload = 0, tPokes = 0, tForeign = 0\<rparr>)))"

definition NumFreeSlots :: "'d dtx \<Rightarrow> int" where
  "NumFreeSlots t =
     (if closed t then 0 else let n = Depth (q_cfg t) - inFlight t in if n > 0 then n else 0)"

definition NumInFlight :: "'d dtx \<Rightarrow> int" where
  "NumInFlight t = inFlight t"

definition NumCompleted :: "'d dtx \<Rightarrow> nat" where
  "NumCompleted t = ring_Len (returned (q_mem t))"

definition dq_Alloc :: "bool \<Rightarrow> int \<Rightarrow> 'd dtx \<Rightarrow> (desc list \<times> 'd dtx) option" where
  "dq_Alloc chk n t =
     (if closed t \<or> n \<le> 0 \<or> dead t \<noteq> None then Some ([], t)
      else let free = NumFreeSlots t
           in if n > free \<and> free = 0 then Some ([], t\<lparr>txStats := (txStats t)\<lparr>tRingFull := tRingFull (txStats t) + 1\<rparr>\<rparr>)
              else let n1 = (if n > free then free else n); avail = int (Len (q_pool t))
                   in if n1 > avail \<and> avail = 0
                      then Some ([], t\<lparr>txStats := (txStats t)\<lparr>tPoolEmpty := tPoolEmpty (txStats t) + 1\<rparr>\<rparr>)
                      else do { (addrs, p) \<leftarrow> Pop chk (if n1 > avail then avail else n1) [] (q_pool t);
                                Some (map (\<lambda>frame. \<lparr>d_addr = frame + dataStart t, d_len = 0, d_options = 0\<rparr>) addrs,
                                      t\<lparr>q_pool := p\<rparr>) })"

definition offload_write :: "'d dtx \<Rightarrow> nat \<Rightarrow> mbuf_headers \<Rightarrow> u64 \<Rightarrow> u64 \<Rightarrow> u64 \<Rightarrow> (queue_error + 'd dtx) option" where
  "offload_write t m h flags l4Len segSize =
     do { r1 \<leftarrow> SetOlFlags (region (q_mem t)) m flags;
          r2 \<leftarrow> SetTxOffloadTSO r1 m (of_nat (L2Len h)) (of_nat (L3Len h)) l4Len segSize;
          Some (Inr (t\<lparr>q_mem := (q_mem t)\<lparr>region := r2\<rparr>\<rparr>)) }"

definition applyOffload :: "'d dtx \<Rightarrow> nat \<Rightarrow> offload \<Rightarrow> bytes \<Rightarrow> (queue_error + 'd dtx) option" where
  "applyOffload t m o' packet =
     (if Flags o' = 0 \<and> GSOType o' = OffloadGSONone then Some (Inr t)
      else do { (h, ok) \<leftarrow> mbuf_Parse packet;
        let hdrLen = L2Len h + L3Len h;
        let flags = mbuf_ChecksumFlags h;
        if \<not> ok then Some (Inl UnknownHeaders)
        else if Flags o' AND OffloadNeedsCsum \<noteq> 0 \<and> unat (CsumStart o') \<noteq> hdrLen
        then Some (Inl (CsumStartWrong (CsumStart o') hdrLen))
        else if flags = 0 then Some (Inl NotIP)
        else if \<not> Segmented o' then offload_write t m h flags 0 0
        else if \<not> TSO (q_cfg t) then Some (Inl NoSegmentation)
        else if GSOType o' AND NOT OffloadGSOECN \<noteq> OffloadGSOTCPv4 \<and> GSOType o' AND NOT OffloadGSOECN \<noteq> OffloadGSOTCPv6
        then Some (Inl (SegmentationType (GSOType o')))
        else if Proto h \<noteq> ProtoTCP then Some (Inl NotTCPSegment)
        else if GSOSize o' = 0 then Some (Inl ZeroSegment)
        else if unat (HdrLen o') \<le> hdrLen \<or> unat (HdrLen o') > length packet
        then Some (Inl (HeaderLength (HdrLen o') hdrLen (length packet)))
        else offload_write t m h (flags OR TxTCPSeg) (of_nat (unat (HdrLen o') - hdrLen)) (ucast (GSOSize o')) })"

text \<open>One turn of the loop that writes the mbufs. \<open>Inl\<close> is the descriptor that stops it.\<close>

definition tx_one :: "nat \<Rightarrow> desc \<Rightarrow> offload option \<Rightarrow> 'd dtx \<Rightarrow> ((queue_error \<times> 'd dtx) + 'd dtx \<times> u64) option" where
  "tx_one i d off t =
     (if \<not> descOK t d
      then Some (Inl (BadDescriptor i d, t\<lparr>txStats := (txStats t)\<lparr>tBadDesc := tBadDesc (txStats t) + 1\<rparr>\<rparr>))
      else do {
        let frame = frameOf t (d_addr d);
        let m = unat frame + nat (ObjHeader (Layout (q_cfg t)));
        r1 \<leftarrow> PrepareTx (region (q_mem t)) m (PoolVA (q_cfg t)) (ucast (d_addr d - frame - bufStart t)) (d_len d);
        let t1 = t\<lparr>q_mem := (q_mem t)\<lparr>region := r1\<rparr>\<rparr>;
        let va = RegionVA (q_cfg t) + of_nat m;
        case off of
          Some o' \<Rightarrow>
            do { packet \<leftarrow> peek r1 (unat (d_addr d)) (unat (d_len d));
                 res \<leftarrow> applyOffload t1 m o' packet;
                 case res of
                   Inl e \<Rightarrow> Some (Inl (OffloadRefused i e, t1\<lparr>txStats := (txStats t1)\<lparr>tBadOffload := tBadOffload (txStats t1) + 1\<rparr>\<rparr>))
                 | Inr t2 \<Rightarrow> Some (Inr (t2, va)) }
        | None \<Rightarrow>
            if Checksums (q_cfg t)
            then do { packet \<leftarrow> peek r1 (unat (d_addr d)) (unat (d_len d));
                      (h, ok) \<leftarrow> mbuf_Parse packet;
                      if ok
                      then do { r2 \<leftarrow> SetOlFlags r1 m (mbuf_ChecksumFlags h);
                                r3 \<leftarrow> SetTxOffload r2 m (of_nat (L2Len h)) (of_nat (L3Len h));
                                Some (Inr (t1\<lparr>q_mem := (q_mem t1)\<lparr>region := r3\<rparr>\<rparr>, va)) }
                      else Some (Inr (t1, va)) }
            else Some (Inr (t1, va)) })"

fun tx_build :: "nat \<Rightarrow> (desc \<times> offload option) list \<Rightarrow> 'd dtx \<Rightarrow> (u64 list \<times> u64 \<times> queue_error option \<times> 'd dtx) option" where
  "tx_build i [] t = Some ([], 0, None, t)"
| "tx_build i ((d, off) # ds) t =
     do { res \<leftarrow> tx_one i d off t;
          case res of
            Inl (e, t1) \<Rightarrow> Some ([], 0, Some e, t1)
          | Inr (t1, va) \<Rightarrow> do { (ms, bs, refused, t2) \<leftarrow> tx_build (Suc i) ds t1; Some (va # ms, ucast (d_len d) + bs, refused, t2) } }"

definition tx_transmit :: "desc list \<Rightarrow> offload list option \<Rightarrow> 'd dtx \<Rightarrow> (int \<times> queue_error option \<times> 'd dtx) option" where
  "tx_transmit descs offs t =
     (if closed t then Some (0, Some Closed, t)
      else if Dead t \<noteq> None then Some (0, Dead t, t)
      else if descs = [] then Some (0, None, t)
      else let n = min (int (length descs)) (NumFreeSlots t)
           in if n = 0 then Some (0, None, t\<lparr>txStats := (txStats t)\<lparr>tRingFull := tRingFull (txStats t) + 1\<rparr>\<rparr>)
              else let n1 = min (nat n) (mbufs_len t);
                       items = (case offs of None \<Rightarrow> map (\<lambda>d. (d, None)) descs | Some os \<Rightarrow> zip descs (map Some os))
                   in do { (ms, bytes, refused, t1) \<leftarrow> tx_build 0 (take n1 items) t;
                           if ms = [] then Some (0, refused, t1)
                           else do {
                             drv \<leftarrow> PMD (q_cfg t1);
                             let (sent0, mem) = TxBurst drv ms (q_mem t1);
                             let sent = (if sent0 < 0 \<or> sent0 > int (length ms) then 0 else sent0);
                             let unsent = sum_list (map (\<lambda>d. ucast (d_len d)) (take (length ms - nat sent) (drop (nat sent) descs)));
                             let t2 = t1\<lparr>q_mem := mem, inFlight := inFlight t1 + sent,
                                         txStats := (txStats t1)\<lparr>tPackets := tPackets (txStats t1) + of_int sent,
                                                                 tBytes := tBytes (txStats t1) + (bytes - unsent),
                                                                 tBatches := tBatches (txStats t1) + 1\<rparr>\<rparr>;
                             Some (sent, if sent = int (length ms) then refused else None, t2) } })"

definition dq_Transmit :: "desc list \<Rightarrow> 'd dtx \<Rightarrow> (int \<times> 'd dtx) option" where
  "dq_Transmit descs t = do { (n, _, t1) \<leftarrow> tx_transmit descs None t; Some (n, t1) }"

definition TransmitOffload :: "desc list \<Rightarrow> offload list \<Rightarrow> 'd dtx \<Rightarrow> (int \<times> queue_error option \<times> 'd dtx) option" where
  "TransmitOffload descs offs t =
     (if length offs \<noteq> length descs then Some (0, Some (LengthMismatch (length descs) (length offs)), t)
      else tx_transmit descs (Some offs) t)"

text \<open>The loop of \<open>reclaim\<close>; \<open>give\<close> is the caller's function and its captured variables are \<open>x\<close>.\<close>

fun reclaim_each :: "(u64 \<Rightarrow> 'd dtx \<times> 'x \<Rightarrow> ('d dtx \<times> 'x) option) \<Rightarrow> u64 list \<Rightarrow> 'd dtx \<times> 'x \<Rightarrow> (nat \<times> 'd dtx \<times> 'x) option" where
  "reclaim_each give [] s = Some (0, s)"
| "reclaim_each give (va # vas) (t, x) =
     (case offsetOfVA t va of
        None \<Rightarrow> reclaim_each give vas
                  (q_fail (ForeignAddress va) (t\<lparr>txStats := (txStats t)\<lparr>tForeign := tForeign (txStats t) + 1\<rparr>\<rparr>), x)
      | Some off \<Rightarrow> do { s1 \<leftarrow> give (frameOf t (of_nat off)) (t, x);
                         (completed, s2) \<leftarrow> reclaim_each give vas s1;
                         Some (Suc completed, s2) })"

definition reclaim :: "int \<Rightarrow> (u64 \<Rightarrow> 'd dtx \<times> 'x \<Rightarrow> ('d dtx \<times> 'x) option) \<Rightarrow> 'd dtx \<times> 'x \<Rightarrow> ('d dtx \<times> 'x) option" where
  "reclaim limit give s =
     (let t = fst s in
      if closed t \<or> limit \<le> 0 then Some s
      else do {
        t1 \<leftarrow> (if ring_Len (returned (q_mem t)) = 0 \<and> inFlight t > 0
               then do { drv \<leftarrow> PMD (q_cfg t);
                         Some (t\<lparr>q_mem := Poke drv (q_mem t), txStats := (txStats t)\<lparr>tPokes := tPokes (txStats t) + 1\<rparr>\<rparr>) }
               else Some t);
        let n = min (int (ring_Len (returned (q_mem t1)))) limit;
        if n = 0 then Some (t1, snd s)
        else do { (vas, rr) \<leftarrow> ring_Pop n [] (returned (q_mem t1));
                  (completed, t2, x2) \<leftarrow> reclaim_each give vas (t1\<lparr>q_mem := (q_mem t1)\<lparr>returned := rr\<rparr>\<rparr>, snd s);
                  Some (if completed > 0
                        then t2\<lparr>inFlight := inFlight t2 - int completed,
                                txStats := (txStats t2)\<lparr>tCompleted := tCompleted (txStats t2) + of_nat completed\<rparr>\<rparr>
                        else t2, x2) } })"

definition dq_Complete :: "bool \<Rightarrow> int \<Rightarrow> 'd dtx \<Rightarrow> (nat \<times> 'd dtx) option" where
  "dq_Complete chk limit t =
     do { (t1, n) \<leftarrow> reclaim limit (\<lambda>frame (t, n). do { p \<leftarrow> Push chk frame (q_pool t); Some (t\<lparr>q_pool := p\<rparr>, Suc n) }) (t, 0);
          Some (n, t1) }"

definition dq_Reclaim :: "int \<Rightarrow> desc list \<Rightarrow> 'd dtx \<Rightarrow> (desc list \<times> 'd dtx) option" where
  "dq_Reclaim limit out t =
     do { (t1, ds) \<leftarrow> reclaim limit (\<lambda>frame (t, ds). Some (t, ds @ [\<lparr>d_addr = frame + dataStart t, d_len = 0, d_options = 0\<rparr>])) (t, out);
          Some (ds, t1) }"

fun push_frames :: "bool \<Rightarrow> u64 list \<Rightarrow> ('d, 'e) qbase_scheme \<Rightarrow> ('d, 'e) qbase_scheme option" where
  "push_frames chk [] b = Some b"
| "push_frames chk (a # as) b = do { p \<leftarrow> Push chk a (q_pool b); push_frames chk as (b\<lparr>q_pool := p\<rparr>) }"

text \<open>\<open>Base\<close> depends on the pool's fixed frame size only, so the addresses of a batch can be computed first.\<close>

definition dq_Free :: "bool \<Rightarrow> desc list \<Rightarrow> 'd dtx \<Rightarrow> 'd dtx option" where
  "dq_Free chk descs t = push_frames chk (map (\<lambda>d. Base (q_pool t) (d_addr d)) descs) t"

section \<open>Receive\<close>

record rxq_stats =
  rPackets :: u64
  rBytes :: u64
  rFilled :: u64
  rBatches :: u64
  rPoolEmpty :: u64
  rChained :: u64
  rBadLen :: u64
  rForeign :: u64

record 'd drx = "'d qbase" +
  outstanding :: int
  rxStats :: rxq_stats

definition dq_NewRx :: "bool \<Rightarrow> 'd config \<Rightarrow> 'd \<Rightarrow> queue_error + 'd drx" where
  "dq_NewRx chk cfg d =
     (if Supply cfg = None then Inl NoSupplyRing
      else case initBase chk cfg d of Inl e \<Rightarrow> Inl e
      | Inr b \<Rightarrow> Inr (qbase.extend b (drx.fields 0 \<lparr>rPackets = 0, rBytes = 0, rFilled = 0, rBatches = 0, rPoolEmpty = 0,
                         rChained = 0, rBadLen = 0, rForeign = 0\<rparr>)))"

text \<open>The loop of \<open>Fill\<close> over the frames it took.\<close>

fun fill_mbufs :: "u64 list \<Rightarrow> 'd drx \<Rightarrow> (u64 list \<times> 'd drx) option" where
  "fill_mbufs [] q = Some ([], q)"
| "fill_mbufs (frame # fs) q =
     do { let m = unat frame + nat (ObjHeader (Layout (q_cfg q)));
          r \<leftarrow> ResetRx (region (q_mem q)) m (of_int (Headroom (Layout (q_cfg q)))) (PoolVA (q_cfg q));
          (vas, q1) \<leftarrow> fill_mbufs fs (q\<lparr>q_mem := (q_mem q)\<lparr>region := r\<rparr>\<rparr>);
          Some ((RegionVA (q_cfg q) + of_nat m) # vas, q1) }"

definition dq_Fill :: "bool \<Rightarrow> int \<Rightarrow> 'd drx \<Rightarrow> (nat \<times> 'd drx) option" where
  "dq_Fill chk n q =
     (if closed q \<or> n \<le> 0 \<or> dead q \<noteq> None then Some (0, q)
      else let avail = int (Len (q_pool q))
           in if n > avail \<and> avail = 0
              then Some (0, q\<lparr>rxStats := (rxStats q)\<lparr>rPoolEmpty := rPoolEmpty (rxStats q) + 1\<rparr>\<rparr>)
              else let n1 = (if n > avail then avail else n)
                   in if n1 = 0 then Some (0, q)
                      else do { (addrs, p) \<leftarrow> Pop chk n1 [] (q_pool q);
                                (vas, q1) \<leftarrow> fill_mbufs addrs (q\<lparr>q_pool := p\<rparr>);
                                (posted, s) \<leftarrow> ring_Push vas (sup_ring (q_mem q1));
                                q2 \<leftarrow> push_frames chk (drop posted addrs) (q1\<lparr>q_mem := (q_mem q1)\<lparr>sup_ring := s\<rparr>\<rparr>);
                                Some (posted, q2\<lparr>outstanding := outstanding q2 + int posted,
                                                 rxStats := (rxStats q2)\<lparr>rFilled := rFilled (rxStats q2) + of_nat posted\<rparr>\<rparr>) })"

definition NumFreeFillSlots :: "'d drx \<Rightarrow> int" where
  "NumFreeFillSlots q =
     (if closed q then 0
      else let room = ring_Room (sup_ring (q_mem q)); avail = int (Len (q_pool q)) in if room > avail then avail else room)"

definition NumOutstanding :: "'d drx \<Rightarrow> int" where
  "NumOutstanding q = outstanding q"

text \<open>One address the driver delivered: the descriptor for the caller, if there is one, and whether the frame counts
  as taken.\<close>

definition rx_one :: "bool \<Rightarrow> u64 \<Rightarrow> 'd drx \<Rightarrow> (desc option \<times> bool \<times> 'd drx) option" where
  "rx_one chk va q =
     (case offsetOfVA q va of
        None \<Rightarrow> Some (None, False, q_fail (ForeignAddress va) (q\<lparr>rxStats := (rxStats q)\<lparr>rForeign := rForeign (rxStats q) + 1\<rparr>\<rparr>))
      | Some off \<Rightarrow>
          do { let frame = frameOf q (of_nat off);
               let m = unat frame + nat (ObjHeader (Layout (q_cfg q)));
               (dataOff, nbSegs, dataLen, flags) \<leftarrow> RxRead (region (q_mem q)) m;
               if nbSegs \<noteq> 1
               then do { p \<leftarrow> Push chk frame (q_pool q);
                         Some (None, True, q\<lparr>q_pool := p, rxStats := (rxStats q)\<lparr>rChained := rChained (rxStats q) + 1\<rparr>\<rparr>) }
               else let d = \<lparr>d_addr = frame + bufStart q + ucast dataOff, d_len = ucast dataLen, d_options = 0\<rparr>
                    in if \<not> descOK q d
                       then do { p \<leftarrow> Push chk frame (q_pool q);
                                 Some (None, True, q\<lparr>q_pool := p, rxStats := (rxStats q)\<lparr>rBadLen := rBadLen (rxStats q) + 1\<rparr>\<rparr>) }
                       else let opts = (if flags AND RxIPChecksumGood \<noteq> 0
                                        then if flags AND RxL4ChecksumGood \<noteq> 0 then OptL3ChecksumOK OR OptChecksumOK else OptL3ChecksumOK
                                        else 0)
                            in Some (Some (d\<lparr>d_options := opts\<rparr>), True, q) })"

fun rx_all :: "bool \<Rightarrow> u64 list \<Rightarrow> 'd drx \<Rightarrow> (desc list \<times> nat \<times> 'd drx) option" where
  "rx_all chk [] q = Some ([], 0, q)"
| "rx_all chk (va # vas) q =
     do { (d, took, q1) \<leftarrow> rx_one chk va q;
          (ds, taken, q2) \<leftarrow> rx_all chk vas q1;
          Some (case d of Some x \<Rightarrow> x # ds | None \<Rightarrow> ds, if took then Suc taken else taken, q2) }"

definition dq_Receive :: "bool \<Rightarrow> int \<Rightarrow> 'd drx \<Rightarrow> (desc list \<times> 'd drx) option" where
  "dq_Receive chk limit q =
     (if closed q \<or> limit \<le> 0 \<or> dead q \<noteq> None then Some ([], q)
      else do {
        let max = (if limit > int (burst_len q) then int (burst_len q) else limit);
        drv \<leftarrow> PMD (q_cfg q);
        let (got, vas, mem) = RxBurst drv (nat max) (q_mem q);
        let q0 = q\<lparr>q_mem := mem\<rparr>;
        if got \<le> 0 \<or> got > max then Some ([], q0)
        else do {
          (ds, taken, q1) \<leftarrow> rx_all chk (take (nat got) vas) q0;
          let q2 = (if taken > 0 then q1\<lparr>outstanding := outstanding q1 - int taken\<rparr> else q1);
          Some (ds, if ds \<noteq> []
                    then q2\<lparr>rxStats := (rxStats q2)\<lparr>rPackets := rPackets (rxStats q2) + of_nat (length ds),
                                                  rBytes := rBytes (rxStats q2) + sum_list (map (\<lambda>d. ucast (d_len d)) ds),
                                                  rBatches := rBatches (rxStats q2) + 1\<rparr>\<rparr>
                    else q2) } })"

definition dq_Recycle :: "bool \<Rightarrow> desc list \<Rightarrow> 'd drx \<Rightarrow> 'd drx option" where
  "dq_Recycle chk descs q = push_frames chk (map (\<lambda>d. Base (q_pool q) (d_addr d)) descs) q"

fun drain_each :: "bool \<Rightarrow> u64 list \<Rightarrow> 'd drx \<Rightarrow> (nat \<times> 'd drx) option" where
  "drain_each chk [] q = Some (0, q)"
| "drain_each chk (va # vas) q =
     (case offsetOfVA q va of
        None \<Rightarrow> drain_each chk vas (q_fail (ForeignAddress va) (q\<lparr>rxStats := (rxStats q)\<lparr>rForeign := rForeign (rxStats q) + 1\<rparr>\<rparr>))
      | Some off \<Rightarrow> do { p \<leftarrow> Push chk (frameOf q (of_nat off)) (q_pool q);
                         (back, q1) \<leftarrow> drain_each chk vas (q\<lparr>q_pool := p\<rparr>);
                         Some (Suc back, q1) })"

definition DrainReturned :: "bool \<Rightarrow> 'd drx \<Rightarrow> (nat \<times> 'd drx) option" where
  "DrainReturned chk q =
     (let n = ring_Len (returned (q_mem q))
      in if n = 0 then Some (0, q)
         else do { (vas, rr) \<leftarrow> ring_Pop (int n) [] (returned (q_mem q));
                   (back, q1) \<leftarrow> drain_each chk vas (q\<lparr>q_mem := (q_mem q)\<lparr>returned := rr\<rparr>\<rparr>);
                   Some (back, q1\<lparr>outstanding := outstanding q1 - int back\<rparr>) })"

end
