(* ===== verification/Dpdk_Queue_Inv.thy ===== *)
theory Dpdk_Queue_Inv
  imports Dpdk_Queue
begin

text \<open>
  The geometry of a DPDK queue's region and what each piece of the two queues does to the frames: where a frame's mbuf
  is, that the address given to the driver leads back to the frame, and that the loops neither panic nor write outside
  the frames they were given.
\<close>

section \<open>Frames and addresses\<close>

definition fsize :: "('d, 'e) qbase_scheme \<Rightarrow> nat" where
  "fsize b = nat (FrameSize (Layout (q_cfg b)))"

definition mhdr :: "('d, 'e) qbase_scheme \<Rightarrow> nat" where
  "mhdr b = nat (ObjHeader (Layout (q_cfg b)))"

text \<open>What \<open>initBase\<close> fixes for the life of a queue.\<close>

definition q_geom :: "('d, 'e) qbase_scheme \<Rightarrow> bool" where
  "q_geom b \<longleftrightarrow> is_pow2 (fsize b) \<and> q_frameMask b = of_nat (fsize b - 1)
     \<and> length (region (q_mem b)) < 2 ^ 63 \<and> regionLen b = of_nat (length (region (q_mem b)))
     \<and> fsize b dvd length (region (q_mem b)) \<and> 0 < length (region (q_mem b))
     \<and> unat (bufStart b) < fsize b \<and> mhdr b + 128 \<le> unat (bufStart b) \<and> unat (bufStart b) \<le> unat (dataStart b) \<and> unat (dataStart b) < fsize b
     \<and> unat (RegionVA (q_cfg b)) + length (region (q_mem b)) < 2 ^ 64
     \<and> frameSize (q_pool b) = fsize b \<and> frameMask (q_pool b) = q_frameMask b
     \<and> PMD (q_cfg b) \<noteq> None"

definition frame_in :: "('d, 'e) qbase_scheme \<Rightarrow> u64 \<Rightarrow> bool" where
  "frame_in b f \<longleftrightarrow> fsize b dvd unat f \<and> unat f < length (region (q_mem b))"

definition va_of :: "('d, 'e) qbase_scheme \<Rightarrow> u64 \<Rightarrow> u64" where
  "va_of b f = RegionVA (q_cfg b) + of_nat (unat f + mhdr b)"

definition va_frame :: "('d, 'e) qbase_scheme \<Rightarrow> u64 \<Rightarrow> u64" where
  "va_frame b va = frameOf b (of_nat (the (offsetOfVA b va)))"

lemma geom_size: "q_geom b \<Longrightarrow> 0 < fsize b \<and> fsize b \<le> length (region (q_mem b))"
  unfolding q_geom_def using is_pow2_pos dvd_imp_le by blast

lemma unat_masked:
  assumes "q_geom b"
  shows "unat (a AND q_frameMask b) = unat a mod fsize b" "unat (frameOf b a) = unat a - unat a mod fsize b"
proof -
  have g: "is_pow2 (fsize b)" "fsize b \<le> 2 ^ LENGTH(64)" "q_frameMask b = of_nat (fsize b - 1)"
    using assms geom_size [OF assms] by (auto simp: q_geom_def)
  show m: "unat (a AND q_frameMask b) = unat a mod fsize b" unfolding g(3) by (rule unat_and_pow2_mask [OF g(1,2)])
  have "a AND q_frameMask b \<le> a" by (simp add: word_le_nat_alt m)
  then show "unat (frameOf b a) = unat a - unat a mod fsize b"
    by (simp only: frameOf_def and_not_eq_minus unat_sub m)
qed

lemma frameOf_div: "q_geom b \<Longrightarrow> unat (frameOf b a) = unat a div fsize b * fsize b"
  using unat_masked(2) [of b a] minus_mod_eq_div_mult [of "unat a" "fsize b"] by simp

lemma q_frame_end:
  assumes "q_geom b" "frame_in b f"
  shows "unat f + fsize b \<le> length (region (q_mem b))"
proof -
  obtain c where c: "length (region (q_mem b)) = fsize b * c" using assms(1) by (auto simp: q_geom_def elim: dvdE)
  obtain k where k: "unat f = fsize b * k" using assms(2) by (auto simp: frame_in_def elim: dvdE)
  have "k < c" using assms(2) c k by (simp add: frame_in_def)
  then have "fsize b * Suc k \<le> fsize b * c" by (intro mult_le_mono2) simp
  then show ?thesis using c k by simp
qed

lemma frameOf_frame_in: "q_geom b \<Longrightarrow> unat a < length (region (q_mem b)) \<Longrightarrow> frame_in b (frameOf b a)"
  unfolding frame_in_def frameOf_div using le_less_trans [OF div_times_less_eq_dividend] by simp

lemma frameOf_inside:
  assumes "q_geom b" "frame_in b f" "k < fsize b" "unat a = unat f + k"
  shows "frameOf b a = f"
proof -
  obtain j where j: "unat f = fsize b * j" using assms(2) by (auto simp: frame_in_def elim: dvdE)
  have "unat a div fsize b = j" using assms(3,4) j by (simp add: div_mult_self2 less_imp_neq)
  then have "unat (frameOf b a) = unat f" using frameOf_div [OF assms(1), of a] j by (simp add: mult.commute)
  then show ?thesis by (simp add: word_unat_eq_iff)
qed

lemma offsetOfVA_va_of:
  assumes "q_geom b" "frame_in b f"
  shows "offsetOfVA b (va_of b f) = Some (unat f + mhdr b)"
proof -
  have g: "mhdr b + 128 \<le> unat (bufStart b)" "unat (bufStart b) < fsize b" "regionLen b = of_nat (length (region (q_mem b)))"
      "unat (RegionVA (q_cfg b)) + length (region (q_mem b)) < 2 ^ 64" "length (region (q_mem b)) < 2 ^ 63"
    using assms(1) by (auto simp: q_geom_def)
  have b: "unat f + mhdr b < length (region (q_mem b))" using q_frame_end [OF assms] g(1,2) by linarith
  have o: "unat (of_nat (unat f + mhdr b) :: u64) = unat f + mhdr b" "unat (of_nat (length (region (q_mem b))) :: u64) = length (region (q_mem b))"
    using b g(5) by (simp_all add: unsigned_of_nat take_bit_nat_eq_self del: of_nat_add)
  have "unat (va_of b f) = unat (RegionVA (q_cfg b)) + (unat f + mhdr b)"
    unfolding va_of_def using o(1) b g(4) by (subst unat_plus_exact) simp_all
  moreover have "va_of b f - RegionVA (q_cfg b) = of_nat (unat f + mhdr b)" by (simp add: va_of_def)
  ultimately show ?thesis using o b g(3)
    by (simp only: offsetOfVA_def Let_def word_less_nat_alt word_le_nat_alt) simp
qed

lemma va_frame_va_of:
  assumes "q_geom b" "frame_in b f"
  shows "va_frame b (va_of b f) = f"
proof -
  have g: "mhdr b + 128 \<le> unat (bufStart b)" "unat (bufStart b) < fsize b" "length (region (q_mem b)) < 2 ^ 63" using assms(1) by (auto simp: q_geom_def)
  have "unat f + mhdr b < 2 ^ 64" using q_frame_end [OF assms] g by simp
  then have "unat (of_nat (unat f + mhdr b) :: u64) = unat f + mhdr b" by (simp add: unsigned_of_nat take_bit_nat_eq_self del: of_nat_add)
  then show ?thesis unfolding va_frame_def offsetOfVA_va_of [OF assms] option.sel
    using g by (intro frameOf_inside [OF assms, of "mhdr b"]) simp_all
qed

lemma q_descOK_iff:
  assumes "q_geom b"
  shows "descOK b d \<longleftrightarrow> unat (d_addr d) < length (region (q_mem b)) \<and> unat (bufStart b) \<le> unat (d_addr d) mod fsize b
     \<and> 0 < unat (d_len d) \<and> unat (d_addr d) mod fsize b + unat (d_len d) \<le> fsize b"
proof -
  have g: "regionLen b = of_nat (length (region (q_mem b)))" "length (region (q_mem b)) < 2 ^ 63" "q_frameMask b = of_nat (fsize b - 1)"
    using assms by (auto simp: q_geom_def)
  have s: "0 < fsize b" "fsize b \<le> length (region (q_mem b))" using geom_size [OF assms] by auto
  have rl: "unat (regionLen b) = length (region (q_mem b))" unfolding g(1) using g(2) by (simp add: unsigned_of_nat take_bit_nat_eq_self)
  have w: "unat (d_addr d AND q_frameMask b) = unat (d_addr d) mod fsize b" by (rule unat_masked(1) [OF assms])
  have wl: "unat (d_addr d) mod fsize b < fsize b" using s(1) by simp
  have fm: "q_frameMask b + 1 = of_nat (fsize b)" unfolding g(3) using s(1) by (simp add: of_nat_diff)
  have fs: "unat (of_nat (fsize b) :: u64) = fsize b" using g(2) s(2) by (simp add: unsigned_of_nat take_bit_nat_eq_self)
  have room: "unat (q_frameMask b + 1 - (d_addr d AND q_frameMask b)) = fsize b - unat (d_addr d) mod fsize b"
    unfolding fm using w wl fs by (simp add: unat_sub word_le_nat_alt)
  have len: "ucast (d_len d) - (1 :: u64) < q_frameMask b + 1 - (d_addr d AND q_frameMask b)
      \<longleftrightarrow> 0 < unat (d_len d) \<and> unat (d_len d) \<le> fsize b - unat (d_addr d) mod fsize b"
  proof (cases "d_len d = 0")
    case True
    then have "unat (ucast (d_len d) - (1 :: u64)) = 2 ^ 64 - 1" by (simp add: unsigned_minus_1_eq_mask mask_eq_exp_minus_1)
    then show ?thesis using True room s(2) g(2) unfolding word_less_nat_alt by simp
  next
    case False
    then have p: "0 < unat (d_len d)" by (simp add: unat_gt_0)
    then have "unat (ucast (d_len d) :: u64) = unat (d_len d)" by (simp add: unat_ucast_up)
    then have "unat (ucast (d_len d) - (1 :: u64)) = unat (d_len d) - 1" using p by (subst unat_sub) (simp_all add: word_le_nat_alt)
    then show ?thesis unfolding word_less_nat_alt room using p wl by auto
  qed
  have "d_addr d \<ge> regionLen b \<longleftrightarrow> \<not> unat (d_addr d) < length (region (q_mem b))" "d_addr d AND q_frameMask b < bufStart b \<longleftrightarrow> unat (d_addr d) mod fsize b < unat (bufStart b)"
    by (simp_all add: word_le_nat_alt word_less_nat_alt rl w not_less)
  then show ?thesis unfolding descOK_def Let_def len using wl by auto
qed

lemma descOK_frame:
  assumes "q_geom b" "descOK b d"
  shows "frame_in b (frameOf b (d_addr d))" "unat (d_addr d) + unat (d_len d) \<le> unat (frameOf b (d_addr d)) + fsize b"
    "unat (frameOf b (d_addr d)) + unat (bufStart b) \<le> unat (d_addr d)" "unat (d_addr d) + unat (d_len d) \<le> length (region (q_mem b))"
proof -
  have d: "unat (d_addr d) < length (region (q_mem b))" "unat (bufStart b) \<le> unat (d_addr d) mod fsize b"
      "unat (d_addr d) mod fsize b + unat (d_len d) \<le> fsize b" using assms(2) q_descOK_iff [OF assms(1)] by auto
  have split: "unat (d_addr d) = unat (frameOf b (d_addr d)) + unat (d_addr d) mod fsize b"
    using unat_masked(2) [OF assms(1), of "d_addr d"] by simp
  show f: "frame_in b (frameOf b (d_addr d))" using assms(1) d(1) by (rule frameOf_frame_in)
  show le: "unat (d_addr d) + unat (d_len d) \<le> unat (frameOf b (d_addr d)) + fsize b" using split d(3) by linarith
  show "unat (frameOf b (d_addr d)) + unat (bufStart b) \<le> unat (d_addr d)" using split d(2) by linarith
  show "unat (d_addr d) + unat (d_len d) \<le> length (region (q_mem b))" using le q_frame_end [OF assms(1) f] by linarith
qed

lemma mbuf_room:
  assumes "q_geom b" "frame_in b f"
  shows "unat f + mhdr b + 128 \<le> unat f + unat (bufStart b)" "unat f + mhdr b + 128 \<le> length (region (q_mem b))"
  using q_frame_end [OF assms] assms(1) by (auto simp: q_geom_def)

section \<open>Writing the mbufs of a batch\<close>

text \<open>A step that wrote the region and the counters only.\<close>

definition wrote :: "'d dtx \<Rightarrow> 'd dtx \<Rightarrow> bool" where
  "wrote t t' \<longleftrightarrow> (\<exists>r st. t' = t\<lparr>q_mem := (q_mem t)\<lparr>region := r\<rparr>, txStats := st\<rparr> \<and> length r = length (region (q_mem t)))"

lemma wrote_refl: "wrote t t"
  unfolding wrote_def by (intro exI [of _ "region (q_mem t)"] exI [of _ "txStats t"]) simp

lemma wrote_trans: "wrote t u \<Longrightarrow> wrote u v \<Longrightarrow> wrote t v"
  unfolding wrote_def by (elim exE conjE, rule exI, rule exI) (auto)

lemma wrote_same:
  assumes "wrote t t'"
  shows "q_cfg t' = q_cfg t" "regionLen t' = regionLen t" "q_frameMask t' = q_frameMask t" "dataStart t' = dataStart t" "bufStart t' = bufStart t"
    "mbufs_len t' = mbufs_len t" "closed t' = closed t" "dead t' = dead t" "q_pool t' = q_pool t" "inFlight t' = inFlight t"
    "returned (q_mem t') = returned (q_mem t)" "driver (q_mem t') = driver (q_mem t)" "length (region (q_mem t')) = length (region (q_mem t))"
  using assms by (auto simp: wrote_def)

lemma same_geom:
  assumes "q_cfg t' = q_cfg t" "regionLen t' = regionLen t" "q_frameMask t' = q_frameMask t" "dataStart t' = dataStart t" "bufStart t' = bufStart t"
    "length (region (q_mem t')) = length (region (q_mem t))" "frameSize (q_pool t') = frameSize (q_pool t)" "frameMask (q_pool t') = frameMask (q_pool t)"
  shows "q_geom t' = q_geom t"
  using assms by (simp add: q_geom_def fsize_def mhdr_def)

lemma same_addr:
  assumes "q_cfg t' = q_cfg t" "regionLen t' = regionLen t" "q_frameMask t' = q_frameMask t" "length (region (q_mem t')) = length (region (q_mem t))"
  shows "frame_in t' = frame_in t" "va_of t' = va_of t" "va_frame t' = va_frame t" "frameOf t' = frameOf t" "fsize t' = fsize t" "mhdr t' = mhdr t"
  using assms by (auto simp: fun_eq_iff frame_in_def va_of_def va_frame_def frameOf_def fsize_def mhdr_def offsetOfVA_def Let_def)

lemma same_descOK:
  assumes "regionLen t' = regionLen t" "q_frameMask t' = q_frameMask t" "bufStart t' = bufStart t"
  shows "descOK t' = descOK t"
  using assms by (auto simp: fun_eq_iff descOK_def Let_def)

lemma wrote_geom: "wrote t t' \<Longrightarrow> q_geom t' = q_geom t"
  by (rule same_geom) (simp_all add: wrote_same)

lemma wrote_addr:
  assumes "wrote t t'"
  shows "frame_in t' = frame_in t" "va_of t' = va_of t" "va_frame t' = va_frame t" "frameOf t' = frameOf t" "fsize t' = fsize t" "mhdr t' = mhdr t"
    "descOK t' = descOK t"
  using same_addr [of t' t] same_descOK [of t' t] wrote_same [OF assms] by simp_all

text \<open>The packet a descriptor names, and the mbuf of its frame saying so.\<close>

definition mbuf_at :: "'d dtx \<Rightarrow> desc \<Rightarrow> nat" where
  "mbuf_at t d = unat (frameOf t (d_addr d)) + mhdr t"

definition described :: "'d dtx \<Rightarrow> desc \<Rightarrow> bytes \<Rightarrow> bool" where
  "described t d b \<longleftrightarrow> mbuf_says b (mbuf_at t d) (PoolVA (q_cfg t)) (ucast (d_addr d - frameOf t (d_addr d) - bufStart t)) (d_len d)"

text \<open>Only the mbuf of the descriptor's frame was written.\<close>

definition touched :: "'d dtx \<Rightarrow> desc \<Rightarrow> bytes \<Rightarrow> bytes \<Rightarrow> bool" where
  "touched t d b b' \<longleftrightarrow> field_kept (mbuf_at t d) (mbuf_at t d + 128) b b'"

lemma applyOffload_kept:
  assumes "m + 128 \<le> length (region (q_mem t))" "mbuf_says (region (q_mem t)) m pool d len"
  shows "\<exists>res. applyOffload t m o' packet = Some res
     \<and> (\<forall>t'. res = Inr t' \<longrightarrow> wrote t t' \<and> field_kept m (m + 128) (region (q_mem t)) (region (q_mem t')) \<and> mbuf_says (region (q_mem t')) m pool d len)"
proof -
  have w: "\<exists>r1 r2. SetOlFlags (region (q_mem t)) m fl = Some r1 \<and> SetTxOffloadTSO r1 m x y z w = Some r2 \<and> length r2 = length (region (q_mem t))
      \<and> field_kept m (m + 128) (region (q_mem t)) r2 \<and> mbuf_says r2 m pool d len" for fl x y z w
  proof -
    obtain r1 where r1: "SetOlFlags (region (q_mem t)) m fl = Some r1" "field_kept (m + 24) (m + 32) (region (q_mem t)) r1"
      using offload_kept(1) [OF assms(1)] by blast
    have l: "m + 128 \<le> length r1" using kept_length [OF r1(2)] assms(1) by simp
    obtain r2 where r2: "SetTxOffloadTSO r1 m x y z w = Some r2" "field_kept (m + 72) (m + 80) r1 r2" using offload_kept(3) [OF l] by blast
    have "field_kept m (m + 128) (region (q_mem t)) r2"
      by (rule field_kept_trans [OF field_kept_mono [OF r1(2)] field_kept_mono [OF r2(2)]]) simp_all
    moreover have "mbuf_says r2 m pool d len"
      using mbuf_says_offload [of m r1 r2] mbuf_says_offload [of m "region (q_mem t)" r1] r1(2) r2(2) assms(2) by blast
    ultimately show ?thesis using r1(1) r2(1) kept_length by blast
  qed
  have wr: "wrote t (t\<lparr>q_mem := (q_mem t)\<lparr>region := r2\<rparr>\<rparr>)" if "length r2 = length (region (q_mem t))" for r2
    unfolding wrote_def using that by (intro exI [of _ r2] exI [of _ "txStats t"]) simp
  obtain h ok where p: "mbuf_Parse packet = Some (h, ok)" using mbuf_Parse_headers by blast
  define G where "G r \<longleftrightarrow> (\<exists>res. r = Some res \<and> (\<forall>t'. res = Inr t' \<longrightarrow> wrote t t'
      \<and> field_kept m (m + 128) (region (q_mem t)) (region (q_mem t')) \<and> mbuf_says (region (q_mem t')) m pool d len))"
    for r :: "(queue_error + 'a dtx) option"
  have g: "G (offload_write t m h fl l4 sg)" "G (Some (Inr t))" "G (Some (Inl e))" for fl l4 sg e
    using w [of fl "of_nat (L2Len h)" "of_nat (L3Len h)" l4 sg] wr wrote_refl field_kept_refl assms(2)
    by (auto simp: G_def offload_write_def)
  have "G (applyOffload t m o' packet)" unfolding applyOffload_def Let_def p Option.bind.bind_lunit prod.case by (simp add: g)
  then show ?thesis by (simp only: G_def)
qed

lemma mbuf_says_peeks:
  assumes "\<forall>i n. m \<le> i \<and> i + n \<le> m + 128 \<longrightarrow> peek b' i n = peek b i n" "mbuf_says b m pool d len"
  shows "mbuf_says b' m pool d len"
proof -
  have "peek b' (m + k) n = peek b (m + k) n" if "k + n \<le> 128" for k n using assms(1) that by simp
  then show ?thesis using assms(2)
    by (simp add: mbuf_says_def DataOff_def NbSegs_def PktLen_def DataLen_def mbuf_Pool_def mbuf_offsets fetch64_def fetch32_def fetch16_def)
qed

lemma frames_apart:
  assumes "q_geom b" "frame_in b f" "frame_in b g" "f \<noteq> g"
  shows "unat f + fsize b \<le> unat g \<or> unat g + fsize b \<le> unat f"
proof -
  obtain j where j: "unat f = fsize b * j" using assms(2) by (auto simp: frame_in_def elim: dvdE)
  obtain k where k: "unat g = fsize b * k" using assms(3) by (auto simp: frame_in_def elim: dvdE)
  have "j \<noteq> k" using assms(4) j k by (auto simp: word_unat_eq_iff)
  then have "Suc j \<le> k \<or> Suc k \<le> j" by linarith
  then have "fsize b * Suc j \<le> fsize b * k \<or> fsize b * Suc k \<le> fsize b * j" by (meson mult_le_mono2)
  then show ?thesis using j k by (simp add: add.commute)
qed

lemma tx_one_spec:
  assumes "q_geom t"
  shows "\<exists>res. tx_one i d off t = Some res
     \<and> (\<forall>e t'. res = Inl (e, t') \<longrightarrow> wrote t t' \<and> (region (q_mem t') = region (q_mem t) \<or> descOK t d \<and> touched t d (region (q_mem t)) (region (q_mem t'))))
     \<and> (\<forall>t' va. res = Inr (t', va) \<longrightarrow> wrote t t' \<and> descOK t d \<and> va = va_of t (frameOf t (d_addr d))
          \<and> touched t d (region (q_mem t)) (region (q_mem t')) \<and> described t d (region (q_mem t')))"
proof (cases "descOK t d")
  case False
  have "wrote t (t\<lparr>txStats := st\<rparr>)" for st unfolding wrote_def by (intro exI [of _ "region (q_mem t)"] exI [of _ st]) simp
  then show ?thesis using False by (simp add: tx_one_def)
next
  case ok: True
  let ?f = "frameOf t (d_addr d)" let ?m = "unat ?f + mhdr t" let ?r = "region (q_mem t)"
  note fr = descOK_frame [OF assms ok]
  note room = mbuf_room [OF assms fr(1)]
  have mh: "unat ?f + nat (ObjHeader (Layout (q_cfg t))) = ?m" by (simp add: mhdr_def)
  let ?do = "ucast (d_addr d - ?f - bufStart t) :: u16"
  obtain r1 where r1: "PrepareTx ?r ?m (PoolVA (q_cfg t)) ?do (d_len d) = Some r1" "mbuf_says r1 ?m (PoolVA (q_cfg t)) ?do (d_len d)"
      "field_kept (?m + 16) (?m + 72) ?r r1" using PrepareTx_says [OF room(2)] by blast
  have len1: "length r1 = length ?r" using r1(3) by (rule kept_length)
  define t1 where "t1 = t\<lparr>q_mem := (q_mem t)\<lparr>region := r1\<rparr>\<rparr>"
  have t1: "q_mem t1 = (q_mem t)\<lparr>region := r1\<rparr>" "q_cfg t1 = q_cfg t" "txStats t1 = txStats t" by (simp_all add: t1_def)
  have w1: "wrote t t1" unfolding wrote_def t1_def using len1 by (intro exI [of _ r1] exI [of _ "txStats t"]) simp
  have k1: "field_kept ?m (?m + 128) ?r r1" by (rule field_kept_mono [OF r1(3)]) simp_all
  have says: "mbuf_says (region (q_mem t1)) ?m (PoolVA (q_cfg t)) ?do (d_len d)" using r1(2) by (simp add: t1)
  obtain packet where pk: "peek r1 (unat (d_addr d)) (unat (d_len d)) = Some packet" using fr(4) len1 by (auto simp: peek_def)
  have va: "RegionVA (q_cfg t) + of_nat ?m = va_of t ?f" by (simp add: va_of_def)
  have good: "wrote t t' \<and> descOK t d \<and> va_of t ?f = va_of t ?f \<and> touched t d ?r (region (q_mem t')) \<and> described t d (region (q_mem t'))"
    if "wrote t1 t'" "field_kept ?m (?m + 128) r1 (region (q_mem t'))" "mbuf_says (region (q_mem t')) ?m (PoolVA (q_cfg t)) ?do (d_len d)" for t'
    using that ok wrote_trans [OF w1 that(1)] field_kept_trans [OF k1 that(2)] by (simp add: touched_def described_def mbuf_at_def)
  have bad: "wrote t (t1\<lparr>txStats := st\<rparr>) \<and> touched t d ?r (region (q_mem (t1\<lparr>txStats := st\<rparr>)))" for st
    using k1 len1 unfolding wrote_def touched_def mbuf_at_def by (auto simp: t1_def intro!: exI [of _ r1] exI [of _ st])
  show ?thesis
  proof (cases off)
    case (Some o')
    obtain res where res: "applyOffload t1 ?m o' packet = Some res"
        "\<forall>t'. res = Inr t' \<longrightarrow> wrote t1 t' \<and> field_kept ?m (?m + 128) (region (q_mem t1)) (region (q_mem t'))
          \<and> mbuf_says (region (q_mem t')) ?m (PoolVA (q_cfg t)) ?do (d_len d)"
      using applyOffload_kept [of ?m t1, OF _ says, of o' packet] room(2) len1 by (auto simp: t1)
    have eq: "tx_one i d off t = (case res of
          Inl e \<Rightarrow> Some (Inl (OffloadRefused i e, t1\<lparr>txStats := (txStats t)\<lparr>tBadOffload := tBadOffload (txStats t) + 1\<rparr>\<rparr>))
        | Inr t2 \<Rightarrow> Some (Inr (t2, va_of t ?f)))"
      using ok r1(1) pk res(1) [unfolded t1_def] unfolding tx_one_def Let_def mh va Some t1_def by simp
    show ?thesis
    proof (cases res)
      case (Inl e)
      then show ?thesis using bad ok by (simp add: eq)
    next
      case (Inr t2)
      then show ?thesis using good [of t2] res(2) by (simp add: eq t1)
    qed
  next
    case None
    obtain h p where p: "mbuf_Parse packet = Some (h, p)" using mbuf_Parse_headers by blast
    have l1: "?m + 128 \<le> length r1" using room(2) len1 by simp
    obtain r2 where r2: "SetOlFlags r1 ?m (mbuf_ChecksumFlags h) = Some r2" "field_kept (?m + 24) (?m + 32) r1 r2" using offload_kept(1) [OF l1] by blast
    have l2: "?m + 128 \<le> length r2" using kept_length [OF r2(2)] l1 by simp
    obtain r3 where r3: "SetTxOffload r2 ?m (of_nat (L2Len h)) (of_nat (L3Len h)) = Some r3" "field_kept (?m + 72) (?m + 80) r2 r3"
      using offload_kept(2) [OF l2] by blast
    have s3: "mbuf_says r3 ?m (PoolVA (q_cfg t)) ?do (d_len d)"
      using mbuf_says_offload [of ?m r2 r3] mbuf_says_offload [of ?m r1 r2] r2(2) r3(2) r1(2) by blast
    have k3: "field_kept ?m (?m + 128) r1 r3"
      by (rule field_kept_trans [OF field_kept_mono [OF r2(2)] field_kept_mono [OF r3(2)]]) simp_all
    have w3: "wrote t1 (t1\<lparr>q_mem := (q_mem t1)\<lparr>region := r3\<rparr>\<rparr>)"
      unfolding wrote_def using kept_length [OF k3] by (intro exI [of _ r3] exI [of _ "txStats t1"]) (simp add: t1)
    have eq: "tx_one i d off t = Some (Inr (if Checksums (q_cfg t) \<and> p then t1\<lparr>q_mem := (q_mem t1)\<lparr>region := r3\<rparr>\<rparr> else t1, va_of t ?f))"
      using ok r1(1) pk p r2(1) r3(1) unfolding tx_one_def Let_def mh va None t1_def by simp
    have "wrote t1 t1 \<and> field_kept ?m (?m + 128) r1 (region (q_mem t1))" using wrote_refl field_kept_refl by (simp add: t1)
    then show ?thesis using good [of t1] good [OF w3] says s3 k3 unfolding eq by simp
  qed
qed

lemma touched_apart:
  assumes "q_geom t" "descOK t d" "descOK t e" "frameOf t (d_addr d) \<noteq> frameOf t (d_addr e)"
  shows "mbuf_at t d + 128 \<le> mbuf_at t e \<or> mbuf_at t e + 128 \<le> mbuf_at t d"
  using frames_apart [OF assms(1) descOK_frame(1) [OF assms(1,2)] descOK_frame(1) [OF assms(1,3)] assms(4)]
    mbuf_room(1) [OF assms(1) descOK_frame(1) [OF assms(1,2)]] assms(1)
  by (auto simp: mbuf_at_def q_geom_def)

text \<open>What the loop hands the driver: the mbufs of a prefix of the batch, and a region changed in their mbufs only.\<close>

definition outside :: "'d dtx \<Rightarrow> desc list \<Rightarrow> nat \<Rightarrow> nat \<Rightarrow> bool" where
  "outside t ds i n \<longleftrightarrow> (\<forall>d \<in> set ds. descOK t d \<longrightarrow> i + n \<le> mbuf_at t d \<or> mbuf_at t d + 128 \<le> i)"

definition built :: "'d dtx \<Rightarrow> desc list \<Rightarrow> u64 list \<Rightarrow> queue_error option \<Rightarrow> 'd dtx \<Rightarrow> bool" where
  "built t ds ms refused t' \<longleftrightarrow> wrote t t' \<and> length ms \<le> length ds \<and> (refused = None \<longrightarrow> length ms = length ds)
     \<and> ms = map (\<lambda>d. va_of t (frameOf t (d_addr d))) (take (length ms) ds)
     \<and> (\<forall>d \<in> set (take (length ms) ds). descOK t d)
     \<and> (\<forall>i n. outside t ds i n \<longrightarrow> peek (region (q_mem t')) i n = peek (region (q_mem t)) i n)
     \<and> (distinct (map (\<lambda>d. frameOf t (d_addr d)) ds) \<longrightarrow> (\<forall>d \<in> set (take (length ms) ds). described t d (region (q_mem t'))))"

lemma wrote_described: "wrote t t' \<Longrightarrow> described t' = described t" "wrote t t' \<Longrightarrow> mbuf_at t' = mbuf_at t" "wrote t t' \<Longrightarrow> outside t' = outside t"
  by (auto simp: fun_eq_iff described_def mbuf_at_def outside_def wrote_addr wrote_same)

lemma tx_build_spec:
  assumes "q_geom t"
  shows "\<exists>ms bs refused t'. tx_build i ds t = Some (ms, bs, refused, t') \<and> built t (map fst ds) ms refused t'
     \<and> bs = sum_list (map (\<lambda>d. ucast (d_len (fst d))) (take (length ms) ds))"
  using assms
proof (induction ds arbitrary: i t)
  case Nil
  then show ?case using wrote_refl by (auto simp: built_def)
next
  case (Cons x ds)
  obtain d off where x: "x = (d, off)" by (cases x)
  obtain res where res: "tx_one i d off t = Some res"
     "\<forall>e t'. res = Inl (e, t') \<longrightarrow> wrote t t' \<and> (region (q_mem t') = region (q_mem t) \<or> descOK t d \<and> touched t d (region (q_mem t)) (region (q_mem t')))"
     "\<forall>t' va. res = Inr (t', va) \<longrightarrow> wrote t t' \<and> descOK t d \<and> va = va_of t (frameOf t (d_addr d))
          \<and> touched t d (region (q_mem t)) (region (q_mem t')) \<and> described t d (region (q_mem t'))"
    using tx_one_spec [OF Cons.prems] by blast
  have keep: "peek r' i n = peek (region (q_mem t)) i n" if "touched t d (region (q_mem t)) r'" "descOK t d" "outside t (d # es) i n" for r' es i n
    using that unfolding touched_def field_kept_def outside_def by auto
  show ?case
  proof (cases res)
    case (Inl et)
    then obtain e t1 where et: "et = (e, t1)" by (cases et)
    then have w: "wrote t t1" "region (q_mem t1) = region (q_mem t) \<or> descOK t d \<and> touched t d (region (q_mem t)) (region (q_mem t1))"
      using res(2) Inl by auto
    have "built t (map fst (x # ds)) [] (Some e) t1" unfolding built_def x using w keep by auto
    then show ?thesis using res(1) Inl et by (auto simp: x)
  next
    case (Inr tv)
    then obtain t1 va where tv: "tv = (t1, va)" by (cases tv)
    then have w: "wrote t t1" "descOK t d" "va = va_of t (frameOf t (d_addr d))" "touched t d (region (q_mem t)) (region (q_mem t1))"
        "described t d (region (q_mem t1))" using res(3) Inr by auto
    have "q_geom t1" using Cons.prems wrote_geom [OF w(1)] by simp
    then obtain ms bs refused t' where r: "tx_build (Suc i) ds t1 = Some (ms, bs, refused, t')" "built t1 (map fst ds) ms refused t'"
        "bs = sum_list (map (\<lambda>d. ucast (d_len (fst d))) (take (length ms) ds))" using Cons.IH by blast
    note b = r(2) [unfolded built_def wrote_addr [OF w(1)] wrote_described [OF w(1)]]
    have "described t d (region (q_mem t'))" if dist: "distinct (map (\<lambda>d. frameOf t (d_addr d)) (map fst (x # ds)))"
    proof -
      have "outside t (map fst ds) i n" if "mbuf_at t d \<le> i \<and> i + n \<le> mbuf_at t d + 128" for i n
        unfolding outside_def
      proof (intro ballI impI)
        fix e assume e: "e \<in> set (map fst ds)" "descOK t e"
        then have "frameOf t (d_addr d) \<noteq> frameOf t (d_addr e)" using dist by (auto simp: x)
        then show "i + n \<le> mbuf_at t e \<or> mbuf_at t e + 128 \<le> i" using touched_apart [OF Cons.prems w(2) e(2)] that by linarith
      qed
      then have "\<forall>i n. mbuf_at t d \<le> i \<and> i + n \<le> mbuf_at t d + 128 \<longrightarrow> peek (region (q_mem t')) i n = peek (region (q_mem t1)) i n" using b by blast
      from mbuf_says_peeks [OF this] w(5) show ?thesis by (simp add: described_def)
    qed
    moreover have "peek (region (q_mem t')) i n = peek (region (q_mem t)) i n" if "outside t (map fst (x # ds)) i n" for i n
    proof -
      have "outside t (map fst ds) i n" using that by (simp add: outside_def)
      then have "peek (region (q_mem t')) i n = peek (region (q_mem t1)) i n" using b by blast
      also have "\<dots> = peek (region (q_mem t)) i n" by (rule keep [OF w(4,2), of "map fst ds"]) (use that in \<open>simp add: x\<close>)
      finally show ?thesis .
    qed
    moreover have "wrote t t'" using wrote_trans [OF w(1)] b by blast
    ultimately have "built t (map fst (x # ds)) (va # ms) refused t'"
      using b w(2,3) unfolding built_def by (auto simp: x)
    then show ?thesis using res(1) Inr tv r by (simp add: x)
  qed
qed

end
