(* ===== verification/Dpdk_Tx.thy ===== *)
theory Dpdk_Tx
  imports Dpdk_Queue_Inv
begin

text \<open>
  Frame ownership in the DPDK transmit queue. Every frame is in one place: on the free list, with a caller, or out,
  which is with the driver or in the returned ring. The driver is any that keeps its documented contract
  (\<open>lawful_tx\<close>): it takes a prefix of a burst, and gives a buffer back through the returned ring once.
\<close>

section \<open>The driver's contract\<close>

text \<open>\<open>holds\<close> is the buffers the driver has.\<close>

definition out_vas :: "('d \<Rightarrow> u64 list) \<Rightarrow> 'd shared \<Rightarrow> u64 multiset" where
  "out_vas holds mem = mset (ring_abs (returned mem)) + mset (holds (driver mem))"

definition lawful_tx :: "'d pmd \<Rightarrow> ('d \<Rightarrow> u64 list) \<Rightarrow> bool" where
  "lawful_tx drv holds \<longleftrightarrow>
     (\<forall>ms mem. ring_inv (returned mem) \<longrightarrow>
        (case TxBurst drv ms mem of (sent, mem') \<Rightarrow>
           0 \<le> sent \<and> sent \<le> int (length ms) \<and> length (region mem') = length (region mem) \<and> ring_inv (returned mem')
           \<and> out_vas holds mem' = out_vas holds mem + mset (take (nat sent) ms)))
     \<and> (\<forall>mem. ring_inv (returned mem) \<longrightarrow>
          length (region (Poke drv mem)) = length (region mem) \<and> ring_inv (returned (Poke drv mem)) \<and> out_vas holds (Poke drv mem) = out_vas holds mem)"

section \<open>The partition\<close>

definition universe :: "('d, 'e) qbase_scheme \<Rightarrow> u64 set \<Rightarrow> u64 set" where
  "universe b F = all_frames (q_pool b) \<union> F"

definition out_frames :: "('d \<Rightarrow> u64 list) \<Rightarrow> ('d, 'e) qbase_scheme \<Rightarrow> u64 multiset" where
  "out_frames holds b = image_mset (va_frame b) (out_vas holds (q_mem b))"

text \<open>\<open>F\<close> is frames of other pools that callers brought; \<open>rest\<close> is the frames that are neither free nor out.\<close>

definition partitioned :: "bool \<Rightarrow> ('d \<Rightarrow> u64 list) \<Rightarrow> u64 set \<Rightarrow> ('d, 'e) qbase_scheme \<Rightarrow> u64 multiset \<Rightarrow> bool" where
  "partitioned chk holds F b rest \<longleftrightarrow>
     q_geom b \<and> pool_inv chk (q_pool b) \<and> rejected (q_pool b) = 0 \<and> ring_inv (returned (q_mem b)) \<and> dead b = None
     \<and> finite F \<and> F \<inter> all_frames (q_pool b) = {} \<and> (\<forall>f \<in> universe b F. frame_in b f)
     \<and> (\<forall>va \<in># out_vas holds (q_mem b). \<exists>f. frame_in b f \<and> va = va_of b f)
     \<and> mset (free (q_pool b)) + rest + out_frames holds b = mset_set (universe b F)"

lemma finite_universe: "finite F \<Longrightarrow> finite (universe b F)"
  by (simp add: universe_def all_frames_def)

lemma part_count:
  assumes "partitioned chk holds F b rest"
  shows "count (mset (free (q_pool b))) f + count rest f + count (out_frames holds b) f = (if f \<in> universe b F then 1 else 0)"
proof -
  have "count (mset (free (q_pool b)) + rest + out_frames holds b) f = count (mset_set (universe b F)) f"
    using assms by (simp add: partitioned_def)
  then show ?thesis using finite_universe [of F b] assms by (auto simp: partitioned_def count_mset_set')
qed

lemma part_not_free:
  assumes "partitioned chk holds F b rest" "f \<in># rest \<or> f \<in># out_frames holds b"
  shows "f \<notin> set (free (q_pool b))" "frame_in b f" "f \<in> universe b F"
proof -
  have c: "count rest f \<noteq> 0 \<or> count (out_frames holds b) f \<noteq> 0" using assms(2) by (simp add: count_eq_zero_iff)
  have "count (mset (free (q_pool b))) f = 0 \<and> f \<in> universe b F"
    using part_count [OF assms(1), of f] c by (cases "f \<in> universe b F"; simp only: if_True if_False; linarith)
  then show "f \<notin> set (free (q_pool b))" "frame_in b f" "f \<in> universe b F"
    using assms(1) by (auto simp: partitioned_def)
qed

text \<open>A change of the pool only.\<close>

lemma part_pool:
  assumes "partitioned chk holds F b rest" "pool_inv chk p" "rejected p = 0" "all_frames p = all_frames (q_pool b)"
    "frameSize p = frameSize (q_pool b)" "frameMask p = frameMask (q_pool b)"
    "mset (free p) + rest' = mset (free (q_pool b)) + rest"
  shows "partitioned chk holds F (b\<lparr>q_pool := p\<rparr>) rest'"
proof -
  have g: "q_geom (b\<lparr>q_pool := p\<rparr>) = q_geom b" by (rule same_geom) (simp_all add: assms)
  have a: "frame_in (b\<lparr>q_pool := p\<rparr>) = frame_in b" "va_of (b\<lparr>q_pool := p\<rparr>) = va_of b" "va_frame (b\<lparr>q_pool := p\<rparr>) = va_frame b"
    by (rule same_addr, simp_all)+
  have u: "universe (b\<lparr>q_pool := p\<rparr>) F = universe b F" by (simp add: universe_def assms(4))
  have o: "out_frames holds (b\<lparr>q_pool := p\<rparr>) = out_frames holds b" by (simp add: out_frames_def a)
  show ?thesis using assms unfolding partitioned_def g a u o by simp
qed

lemma push_part:
  assumes "partitioned chk holds F b (add_mset f rest)" "f \<in> all_frames (q_pool b)"
  obtains p where "Push chk f (q_pool b) = Some p" "partitioned chk holds F (b\<lparr>q_pool := p\<rparr>) rest" "all_frames p = all_frames (q_pool b)"
proof -
  have nf: "f \<notin> set (free (q_pool b))" using part_not_free(1) [OF assms(1)] by simp
  have inv: "pool_inv chk (q_pool b)" using assms(1) by (simp add: partitioned_def)
  show thesis
  proof (rule Push_spec [OF inv, of f])
    show "chk \<or> f \<notin> set (free (q_pool b))" using nf by simp
  next
    fix p assume p: "Push chk f (q_pool b) = Some p" "pool_inv chk p" "free p = free (q_pool b) @ [f]" "all_frames p = all_frames (q_pool b)"
        "rejected p = rejected (q_pool b)" "frameSize p = frameSize (q_pool b)" "frameMask p = frameMask (q_pool b)"
    have "partitioned chk holds F (b\<lparr>q_pool := p\<rparr>) rest"
      by (rule part_pool [OF assms(1) p(2) _ p(4,6,7)]) (use p(3,5) assms(1) in \<open>simp_all add: partitioned_def\<close>)
    then show thesis using p(1,4) that by blast
  next
    assume "f \<notin> all_frames (q_pool b) \<or> f \<in> set (free (q_pool b))"
    then show thesis using nf assms(2) by simp
  qed
qed

lemma pop_part:
  assumes "partitioned chk holds F b rest"
  obtains xs p where "Pop chk n [] (q_pool b) = Some (xs, p)" "partitioned chk holds F (b\<lparr>q_pool := p\<rparr>) (rest + mset xs)"
    "length xs = min (nat n) (Len (q_pool b))" "set xs \<subseteq> all_frames (q_pool b)" "all_frames p = all_frames (q_pool b)"
proof -
  have inv: "pool_inv chk (q_pool b)" using assms by (simp add: partitioned_def)
  show thesis
  proof (rule Pop_spec [OF inv, of n "[]"])
    fix xs p assume p: "Pop chk n [] (q_pool b) = Some ([] @ xs, p)" "pool_inv chk p" "free (q_pool b) = free p @ xs"
        "length xs = min (nat n) (length (free (q_pool b)))" "all_frames p = all_frames (q_pool b)" "rejected p = rejected (q_pool b)"
        "frameSize p = frameSize (q_pool b)" "frameMask p = frameMask (q_pool b)"
    have "partitioned chk holds F (b\<lparr>q_pool := p\<rparr>) (rest + mset xs)"
      by (rule part_pool [OF assms p(2) _ p(5,7,8)]) (use p(3,6) assms in \<open>simp_all add: partitioned_def\<close>)
    moreover have "set xs \<subseteq> all_frames (q_pool b)" using inv p(3) by (auto simp: pool_inv_def)
    ultimately show thesis using p that by (simp add: Len_def)
  qed
qed

lemma push_frames_part:
  assumes "partitioned chk holds F b (rest + mset fs)" "set fs \<subseteq> all_frames (q_pool b)"
  shows "\<exists>p. push_frames chk fs b = Some (b\<lparr>q_pool := p\<rparr>) \<and> partitioned chk holds F (b\<lparr>q_pool := p\<rparr>) rest \<and> all_frames p = all_frames (q_pool b)"
  using assms
proof (induction fs arbitrary: b)
  case Nil
  then show ?case by (intro exI [of _ "q_pool b"]) simp
next
  case (Cons f fs)
  have "partitioned chk holds F b (add_mset f (rest + mset fs))" "f \<in> all_frames (q_pool b)" using Cons.prems by simp_all
  from push_part [OF this] obtain p where
    p: "Push chk f (q_pool b) = Some p" "partitioned chk holds F (b\<lparr>q_pool := p\<rparr>) (rest + mset fs)" "all_frames p = all_frames (q_pool b)" .
  have "set fs \<subseteq> all_frames (q_pool (b\<lparr>q_pool := p\<rparr>))" using Cons.prems(2) p(3) by simp
  from Cons.IH [OF p(2) this] show ?case using p(1,3) by simp
qed

lemma part_cong:
  assumes "q_cfg b' = q_cfg b" "q_mem b' = q_mem b" "q_pool b' = q_pool b" "regionLen b' = regionLen b" "q_frameMask b' = q_frameMask b"
    "dataStart b' = dataStart b" "bufStart b' = bufStart b" "dead b' = dead b"
  shows "partitioned chk holds F b' rest = partitioned chk holds F b rest"
proof -
  have a: "frame_in b' = frame_in b" "va_of b' = va_of b" "va_frame b' = va_frame b" by (rule same_addr, simp_all add: assms)+
  have g: "q_geom b' = q_geom b" by (rule same_geom) (simp_all add: assms)
  show ?thesis unfolding partitioned_def universe_def out_frames_def a g assms ..
qed

text \<open>A change of the shared memory that sends buffers out, and one that brings them back.\<close>

lemma part_send:
  assumes "partitioned chk holds F b (rest + mset fs)" "length (region mem) = length (region (q_mem b))" "ring_inv (returned mem)"
    "out_vas holds mem = out_vas holds (q_mem b) + mset (map (va_of b) fs)" "\<forall>f \<in> set fs. frame_in b f"
  shows "partitioned chk holds F (b\<lparr>q_mem := mem\<rparr>) rest"
proof -
  have a: "frame_in (b\<lparr>q_mem := mem\<rparr>) = frame_in b" "va_of (b\<lparr>q_mem := mem\<rparr>) = va_of b" "va_frame (b\<lparr>q_mem := mem\<rparr>) = va_frame b"
    by (rule same_addr, simp_all add: assms(2))+
  have g: "q_geom (b\<lparr>q_mem := mem\<rparr>) = q_geom b" by (rule same_geom) (simp_all add: assms(2))
  have u: "universe (b\<lparr>q_mem := mem\<rparr>) F = universe b F" by (simp add: universe_def)
  have gb: "q_geom b" using assms(1) by (simp add: partitioned_def)
  have "image_mset (va_frame b) (mset (map (va_of b) fs)) = mset fs"
    using assms(5) va_frame_va_of [OF gb] by (induction fs) auto
  then have o: "out_frames holds (b\<lparr>q_mem := mem\<rparr>) = out_frames holds b + mset fs" by (simp add: out_frames_def a assms(4))
  have v: "\<forall>va \<in># out_vas holds mem. \<exists>f. frame_in b f \<and> va = va_of b f"
    using assms(1,4,5) by (auto simp: partitioned_def)
  show ?thesis using assms(1,3) v unfolding partitioned_def g a u o by (simp add: ac_simps)
qed

lemma part_back:
  assumes "partitioned chk holds F b rest" "length (region mem) = length (region (q_mem b))" "ring_inv (returned mem)"
    "out_vas holds (q_mem b) = out_vas holds mem + mset vas"
  shows "partitioned chk holds F (b\<lparr>q_mem := mem\<rparr>) (rest + mset (map (va_frame b) vas))"
    "\<exists>fs. vas = map (va_of b) fs \<and> map (va_frame b) vas = fs \<and> (\<forall>f \<in> set fs. frame_in b f)"
proof -
  have a: "frame_in (b\<lparr>q_mem := mem\<rparr>) = frame_in b" "va_of (b\<lparr>q_mem := mem\<rparr>) = va_of b" "va_frame (b\<lparr>q_mem := mem\<rparr>) = va_frame b"
    by (rule same_addr, simp_all add: assms(2))+
  have g: "q_geom (b\<lparr>q_mem := mem\<rparr>) = q_geom b" by (rule same_geom) (simp_all add: assms(2))
  have u: "universe (b\<lparr>q_mem := mem\<rparr>) F = universe b F" by (simp add: universe_def)
  have o: "out_frames holds b = out_frames holds (b\<lparr>q_mem := mem\<rparr>) + mset (map (va_frame b) vas)" by (simp add: out_frames_def a assms(4))
  have v: "\<forall>va \<in># out_vas holds mem + mset vas. \<exists>f. frame_in b f \<and> va = va_of b f"
    using assms(1) unfolding partitioned_def assms(4) by blast
  then show "partitioned chk holds F (b\<lparr>q_mem := mem\<rparr>) (rest + mset (map (va_frame b) vas))"
    using assms(1,3) o unfolding partitioned_def g a u by (auto simp: ac_simps)
  have gb: "q_geom b" using assms(1) by (simp add: partitioned_def)
  have "va_of b (va_frame b va) = va \<and> frame_in b (va_frame b va)" if "va \<in> set vas" for va
  proof -
    obtain f where "frame_in b f" "va = va_of b f" using v \<open>va \<in> set vas\<close> by auto
    then show ?thesis using va_frame_va_of [OF gb] by simp
  qed
  then show "\<exists>fs. vas = map (va_of b) fs \<and> map (va_frame b) vas = fs \<and> (\<forall>f \<in> set fs. frame_in b f)"
    by (intro exI [of _ "map (va_frame b) vas"]) (simp add: map_idI comp_def)
qed

section \<open>The operations\<close>

definition tx_owned :: "bool \<Rightarrow> ('d \<Rightarrow> u64 list) \<Rightarrow> u64 set \<Rightarrow> 'd dtx \<Rightarrow> u64 multiset \<Rightarrow> bool" where
  "tx_owned chk holds F t held \<longleftrightarrow> partitioned chk holds F t held \<and> inFlight t = int (size (out_vas holds (q_mem t)))"

text \<open>The frames descriptors name.\<close>

definition frames_of :: "('d, 'e) qbase_scheme \<Rightarrow> desc list \<Rightarrow> u64 multiset" where
  "frames_of b ds = mset (map (\<lambda>d. frameOf b (d_addr d)) ds)"

text \<open>What never changes after construction.\<close>

definition same_queue :: "('d, 'e) qbase_scheme \<Rightarrow> ('d, 'e) qbase_scheme \<Rightarrow> bool" where
  "same_queue b b' \<longleftrightarrow> q_cfg b' = q_cfg b \<and> regionLen b' = regionLen b \<and> q_frameMask b' = q_frameMask b \<and> dataStart b' = dataStart b
     \<and> bufStart b' = bufStart b \<and> closed b' = closed b \<and> length (region (q_mem b')) = length (region (q_mem b))
     \<and> all_frames (q_pool b') = all_frames (q_pool b)"

lemma same_queue_refl [simp]: "same_queue b b" by (simp add: same_queue_def)

lemma same_queue_trans: "same_queue a b \<Longrightarrow> same_queue b c \<Longrightarrow> same_queue a c"
  by (simp add: same_queue_def)

lemma frame_plus:
  assumes "q_geom b" "frame_in b f" "unat off < fsize b"
  shows "frameOf b (f + off) = f"
proof (rule frameOf_inside [OF assms])
  have "unat f + unat off < 2 ^ 64" using q_frame_end [OF assms(1,2)] assms(1,3) by (simp add: q_geom_def)
  then show "unat (f + off) = unat f + unat off" by (simp add: unat_plus_exact)
qed

lemma frames_of_start:
  assumes "q_geom b" "\<forall>f \<in> set fs. frame_in b f"
  shows "frames_of b (map (\<lambda>f. \<lparr>d_addr = f + dataStart b, d_len = 0, d_options = 0\<rparr>) fs) = mset fs"
proof -
  have "unat (dataStart b) < fsize b" using assms(1) by (simp add: q_geom_def)
  then show ?thesis using assms by (induction fs) (auto simp: frames_of_def frame_plus)
qed

lemma Alloc_owned:
  assumes "tx_owned chk holds F t held"
  shows "\<exists>ds t'. dq_Alloc chk n t = Some (ds, t') \<and> tx_owned chk holds F t' (held + frames_of t ds) \<and> same_queue t t'
     \<and> int (length ds) \<le> NumFreeSlots t"
proof -
  have part: "partitioned chk holds F t held" and fl: "inFlight t = int (size (out_vas holds (q_mem t)))" using assms by (auto simp: tx_owned_def)
  define G where "G r \<longleftrightarrow> (\<exists>ds t'. r = Some (ds, t') \<and> tx_owned chk holds F t' (held + frames_of t ds) \<and> same_queue t t'
     \<and> int (length ds) \<le> NumFreeSlots t)" for r
  have nonneg: "0 \<le> NumFreeSlots t" by (simp add: NumFreeSlots_def Let_def)
  have none: "G (Some ([], t))" using assms nonneg by (auto simp: G_def frames_of_def)
  have counted: "G (Some ([], t\<lparr>txStats := st\<rparr>))" for st
  proof -
    have "partitioned chk holds F (t\<lparr>txStats := st\<rparr>) held" using part by (subst part_cong [of _ t]) simp_all
    then show ?thesis using fl nonneg by (auto simp: G_def tx_owned_def frames_of_def same_queue_def)
  qed
  have took: "G (do { (addrs, p) \<leftarrow> Pop chk k [] (q_pool t);
        Some (map (\<lambda>frame. \<lparr>d_addr = frame + dataStart t, d_len = 0, d_options = 0\<rparr>) addrs, t\<lparr>q_pool := p\<rparr>) })" if "k \<le> NumFreeSlots t" for k
  proof -
    obtain xs p where p: "Pop chk k [] (q_pool t) = Some (xs, p)" "partitioned chk holds F (t\<lparr>q_pool := p\<rparr>) (held + mset xs)"
        "length xs = min (nat k) (Len (q_pool t))" "set xs \<subseteq> all_frames (q_pool t)" "all_frames p = all_frames (q_pool t)"
      using pop_part [OF part] by blast
    have "\<forall>f \<in> set xs. frame_in t f" using p(4) part by (auto simp: partitioned_def universe_def)
    moreover have "q_geom t" using part by (simp add: partitioned_def)
    ultimately have f: "frames_of t (map (\<lambda>frame. \<lparr>d_addr = frame + dataStart t, d_len = 0, d_options = 0\<rparr>) xs) = mset xs" by (rule frames_of_start [rotated])
    have "int (length xs) \<le> NumFreeSlots t" using p(3) that nonneg by linarith
    then show ?thesis using p(1,2,5) f fl by (simp add: G_def tx_owned_def same_queue_def)
  qed
  have "G (dq_Alloc chk n t)" unfolding dq_Alloc_def Let_def by (auto simp: none counted took)
  then show ?thesis by (simp only: G_def)
qed

lemma wrote_part:
  assumes "wrote t t'" "partitioned chk holds F t rest"
  shows "partitioned chk holds F t' rest" "same_queue t t'" "out_vas holds (q_mem t') = out_vas holds (q_mem t)"
proof -
  obtain r st where t': "t' = t\<lparr>q_mem := (q_mem t)\<lparr>region := r\<rparr>, txStats := st\<rparr>" "length r = length (region (q_mem t))"
    using assms(1) by (auto simp: wrote_def)
  have "partitioned chk holds F (t\<lparr>q_mem := (q_mem t)\<lparr>region := r\<rparr>\<rparr>) rest"
    by (rule part_send [where fs = "[]"]) (use assms(2) t'(2) in \<open>simp_all add: out_vas_def partitioned_def\<close>)
  then show "partitioned chk holds F t' rest" unfolding t'(1)
    by (subst part_cong [of _ "t\<lparr>q_mem := (q_mem t)\<lparr>region := r\<rparr>\<rparr>"]) simp_all
  show "same_queue t t'" "out_vas holds (q_mem t') = out_vas holds (q_mem t)" using t' by (simp_all add: same_queue_def out_vas_def)
qed

lemma burst_owned:
  assumes "tx_owned chk holds F t held" "PMD (q_cfg t) = Some drv" "lawful_tx drv holds" "frames_of t descs \<subseteq># held"
    "built t ds ms refused t1" "ds = take k descs" "TxBurst drv ms (q_mem t1) = (sent, mem)"
  shows "0 \<le> sent" "sent \<le> int (length ms)"
    "partitioned chk holds F (t1\<lparr>q_mem := mem\<rparr>) (held - frames_of t (take (nat sent) descs))" "same_queue t (t1\<lparr>q_mem := mem\<rparr>)"
    "size (out_vas holds mem) = size (out_vas holds (q_mem t)) + nat sent"
proof -
  have part: "partitioned chk holds F t held" using assms(1) by (simp add: tx_owned_def)
  have w: "wrote t t1" using assms(5) by (simp add: built_def)
  note p1 = wrote_part [OF w part]
  have rinv: "ring_inv (returned (q_mem t1))" using p1(1) by (simp add: partitioned_def)
  have law: "0 \<le> sent" "sent \<le> int (length ms)" "length (region mem) = length (region (q_mem t1))" "ring_inv (returned mem)"
      "out_vas holds mem = out_vas holds (q_mem t1) + mset (take (nat sent) ms)"
    using assms(3,7) rinv unfolding lawful_tx_def by (auto dest!: spec [of _ ms] spec [of _ "q_mem t1"])
  show "0 \<le> sent" "sent \<le> int (length ms)" by (fact law)+
  let ?fs = "map (\<lambda>d. frameOf t (d_addr d)) (take (nat sent) descs)"
  have b: "ms = map (\<lambda>d. va_of t (frameOf t (d_addr d))) (take (length ms) ds)" "\<forall>d \<in> set (take (length ms) ds). descOK t d" "length ms \<le> length ds"
    using assms(5) by (simp_all add: built_def)
  have le: "nat sent \<le> length ms" "length ms \<le> k" using law(2) b(3) assms(6) by auto
  have tk: "take (nat sent) (take (length ms) ds) = take (nat sent) descs" using le assms(6) by (simp add: min_def)
  have "take (nat sent) ms = map (\<lambda>d. va_of t (frameOf t (d_addr d))) (take (nat sent) (take (length ms) ds))"
    by (subst b(1)) (simp only: take_map)
  then have ms: "take (nat sent) ms = map (va_of t1) ?fs" unfolding tk using wrote_addr(2) [OF w] by simp
  have "set (take (nat sent) descs) \<subseteq> set (take (length ms) ds)" unfolding tk [symmetric] by (rule set_take_subset)
  then have fi: "\<forall>f \<in> set ?fs. frame_in t1 f"
    using b(2) part descOK_frame(1) [of t] wrote_addr(1) [OF w] by (auto simp: partitioned_def)
  have "frames_of t (take (nat sent) descs) \<subseteq># frames_of t descs"
  proof -
    have "frames_of t descs = frames_of t (take (nat sent) descs) + frames_of t (drop (nat sent) descs)"
      unfolding frames_of_def by (metis append_take_drop_id map_append mset_append)
    then show ?thesis by simp
  qed
  then have sub: "frames_of t (take (nat sent) descs) \<subseteq># held" using assms(4) by (rule subset_mset.order_trans)
  have h: "held = held - frames_of t (take (nat sent) descs) + mset ?fs" using subset_mset.diff_add [OF sub] by (simp add: frames_of_def)
  show "partitioned chk holds F (t1\<lparr>q_mem := mem\<rparr>) (held - frames_of t (take (nat sent) descs))"
    by (rule part_send [where fs = ?fs]) (use p1(1) h law(3-5) ms fi in simp_all)
  show "same_queue t (t1\<lparr>q_mem := mem\<rparr>)" using p1(2) law(3) by (simp add: same_queue_def)
  show "size (out_vas holds mem) = size (out_vas holds (q_mem t)) + nat sent" using law(5) p1(3) le(1) by (simp add: min_def)
qed

lemma Transmit_owned:
  assumes own: "tx_owned chk holds F t held" and drv: "PMD (q_cfg t) = Some drv" "lawful_tx drv holds"
    and held: "frames_of t descs \<subseteq># held" and offs: "\<forall>os. offs = Some os \<longrightarrow> length os = length descs"
  shows "\<exists>n e t'. tx_transmit descs offs t = Some (n, e, t') \<and> 0 \<le> n \<and> n \<le> int (length descs) \<and> n \<le> NumFreeSlots t
     \<and> tx_owned chk holds F t' (held - frames_of t (take (nat n) descs)) \<and> same_queue t t' \<and> inFlight t' = inFlight t + n"
proof -
  define G where "G r \<longleftrightarrow> (\<exists>n e t'. r = Some (n, e, t') \<and> 0 \<le> n \<and> n \<le> int (length descs) \<and> n \<le> NumFreeSlots t
     \<and> tx_owned chk holds F t' (held - frames_of t (take (nat n) descs)) \<and> same_queue t t' \<and> inFlight t' = inFlight t + n)" for r :: "(int \<times> queue_error option \<times> 'a dtx) option"
  have part: "partitioned chk holds F t held" and fl: "inFlight t = int (size (out_vas holds (q_mem t)))" using own by (auto simp: tx_owned_def)
  have nonneg: "0 \<le> NumFreeSlots t" by (simp add: NumFreeSlots_def Let_def)
  have stay: "G (Some (0, e, t'))" if "wrote t t'" for e t'
    using wrote_part [OF that part] wrote_same [OF that] fl nonneg by (auto simp: G_def tx_owned_def frames_of_def)
  have "wrote t (t\<lparr>txStats := st\<rparr>)" for st unfolding wrote_def by (intro exI [of _ "region (q_mem t)"] exI [of _ st]) simp
  then have stay0: "G (Some (0, e, t))" "G (Some (0, e, t\<lparr>txStats := st\<rparr>))" for e st using stay wrote_refl by blast+
  let ?n = "min (int (length descs)) (NumFreeSlots t)"
  let ?n1 = "min (nat ?n) (mbufs_len t)"
  let ?items = "case offs of None \<Rightarrow> map (\<lambda>d. (d, None)) descs | Some os \<Rightarrow> zip descs (map Some os)"
  have fst: "map fst (take ?n1 ?items) = take ?n1 descs" using offs by (auto simp: take_map [symmetric] comp_def split: option.splits)
  have "q_geom t" using part by (simp add: partitioned_def)
  from tx_build_spec [OF this, of 0 "take ?n1 ?items"] obtain ms bs refused t1 where
    b: "tx_build 0 (take ?n1 ?items) t = Some (ms, bs, refused, t1)" "built t (take ?n1 descs) ms refused t1" unfolding fst by blast
  have w: "wrote t t1" using b(2) by (simp add: built_def)
  obtain sent mem where tb: "TxBurst drv ms (q_mem t1) = (sent, mem)" by (cases "TxBurst drv ms (q_mem t1)")
  note bo = burst_owned [OF own drv held b(2) refl tb]
  have lim: "length ms \<le> ?n1" using b(2) by (simp add: built_def)
  have sent: "G (Some (sent, e, t1\<lparr>q_mem := mem, inFlight := inFlight t1 + sent, txStats := st\<rparr>))" for e st
  proof -
    have "partitioned chk holds F (t1\<lparr>q_mem := mem, inFlight := inFlight t1 + sent, txStats := st\<rparr>) (held - frames_of t (take (nat sent) descs))"
      using bo(3) by (subst part_cong [of _ "t1\<lparr>q_mem := mem\<rparr>"]) simp_all
    moreover have "inFlight t1 + sent = int (size (out_vas holds mem))" using bo(1,5) fl wrote_same(10) [OF w] by simp
    moreover have "same_queue t (t1\<lparr>q_mem := mem, inFlight := inFlight t1 + sent, txStats := st\<rparr>)" using bo(4) by (simp add: same_queue_def)
    ultimately show ?thesis using bo(1,2) lim nonneg wrote_same(10) [OF w] by (auto simp: G_def tx_owned_def)
  qed
  have drv1: "PMD (q_cfg t1) = Some drv" using drv(1) wrote_same(1) [OF w] by simp
  have ok: "\<not> (sent < 0 \<or> sent > int (length ms))" using bo(1,2) by simp
  have "G (tx_transmit descs offs t)" unfolding tx_transmit_def Let_def b(1)
    by (simp only: Option.bind.bind_lunit prod.case drv1 tb if_not_P [OF ok]) (simp add: stay0 stay [OF w] sent)
  then show ?thesis by (simp only: G_def)
qed

lemma reclaim_each_spec:
  assumes "S fs (t, x)" "\<forall>f \<in> set fs. frame_in t0 f"
    and geom: "\<And>rem t x. S rem (t, x) \<Longrightarrow> q_geom t \<and> same_queue t0 t"
    and law: "\<And>f rem t x. S (f # rem) (t, x) \<Longrightarrow> f \<in> set fs \<Longrightarrow> \<exists>s'. give f (t, x) = Some s' \<and> S rem s'"
  shows "\<exists>t' x'. reclaim_each give (map (va_of t0) fs) (t, x) = Some (length fs, t', x') \<and> S [] (t', x')"
  using assms(1,2) law
proof (induction fs arbitrary: t x)
  case Nil
  then show ?case by simp
next
  case (Cons f fs)
  have g: "q_geom t" "same_queue t0 t" using geom [OF Cons.prems(1)] by auto
  have a: "frame_in t = frame_in t0" "va_of t = va_of t0" by (rule same_addr; use g(2) in \<open>simp add: same_queue_def\<close>)+
  have fi: "frame_in t f" using Cons.prems(2) a by simp
  have off: "offsetOfVA t (va_of t0 f) = Some (unat f + mhdr t)" "frameOf t (of_nat (unat f + mhdr t)) = f"
    using offsetOfVA_va_of [OF g(1) fi] va_frame_va_of [OF g(1) fi] a(2) by (simp_all add: va_frame_def)
  obtain s' where s': "give f (t, x) = Some s'" "S fs s'" using Cons.prems(3) [OF Cons.prems(1)] by auto
  obtain t1 x1 where s1: "s' = (t1, x1)" by (cases s')
  have "\<exists>t' x'. reclaim_each give (map (va_of t0) fs) (t1, x1) = Some (length fs, t', x') \<and> S [] (t', x')"
    using s'(2) s1 Cons.prems(2,3) by (intro Cons.IH) auto
  then show ?case using off s'(1) s1 by (auto simp del: of_nat_add)
qed

text \<open>What \<open>reclaim\<close> hands to its loop.\<close>

definition reclaim_done :: "nat \<times> 'd dtx \<times> 'x \<Rightarrow> 'd dtx \<times> 'x" where
  "reclaim_done r = (case r of (completed, t2, x2) \<Rightarrow>
     (if completed > 0
      then t2\<lparr>inFlight := inFlight t2 - int completed,
              txStats := (txStats t2)\<lparr>tCompleted := tCompleted (txStats t2) + of_nat completed\<rparr>\<rparr>
      else t2, x2))"

lemma reclaim_spec:
  assumes own: "tx_owned chk holds F t held" and drv: "PMD (q_cfg t) = Some drv" "lawful_tx drv holds"
  shows "\<exists>t2 fs. partitioned chk holds F t2 (held + mset fs) \<and> same_queue t t2 \<and> inFlight t2 = inFlight t
     \<and> size (out_vas holds (q_mem t2)) + length fs = size (out_vas holds (q_mem t)) \<and> int (length fs) \<le> max 0 limit
     \<and> (\<forall>f \<in> set fs. frame_in t2 f \<and> f \<in># out_frames holds t)
     \<and> (\<forall>give (x :: 'x). reclaim limit give (t, x) = map_option reclaim_done (reclaim_each give (map (va_of t2) fs) (t2, x)))"
    (is "\<exists>t2 fs. ?P t2 fs")
proof -
  have part: "partitioned chk holds F t held" using own by (simp add: tx_owned_def)
  show ?thesis
  proof (cases "closed t \<or> limit \<le> 0")
    case True
    have "?P t []" using True part by (auto simp: reclaim_def Let_def reclaim_done_def)
    then show ?thesis by blast
  next
    case False
    have "\<exists>t1. (if ring_Len (returned (q_mem t)) = 0 \<and> inFlight t > 0
               then do { drv \<leftarrow> PMD (q_cfg t);
                         Some (t\<lparr>q_mem := Poke drv (q_mem t), txStats := (txStats t)\<lparr>tPokes := tPokes (txStats t) + 1\<rparr>\<rparr>) }
               else Some t) = Some t1 \<and> partitioned chk holds F t1 held \<and> same_queue t t1 \<and> out_vas holds (q_mem t1) = out_vas holds (q_mem t)
               \<and> inFlight t1 = inFlight t" (is "\<exists>t1. ?poke = Some t1 \<and> _")
    proof (cases "ring_Len (returned (q_mem t)) = 0 \<and> inFlight t > 0")
      case True
      have rinv: "ring_inv (returned (q_mem t))" using part by (simp add: partitioned_def)
      then have law: "length (region (Poke drv (q_mem t))) = length (region (q_mem t))" "ring_inv (returned (Poke drv (q_mem t)))"
          "out_vas holds (Poke drv (q_mem t)) = out_vas holds (q_mem t)" using drv(2) by (auto simp: lawful_tx_def)
      have "partitioned chk holds F (t\<lparr>q_mem := Poke drv (q_mem t)\<rparr>) held"
        by (rule part_send [where fs = "[]"]) (use part law in simp_all)
      then have "partitioned chk holds F (t\<lparr>q_mem := Poke drv (q_mem t), txStats := st\<rparr>) held" for st
        by (subst part_cong [of _ "t\<lparr>q_mem := Poke drv (q_mem t)\<rparr>"]) simp_all
      then show ?thesis using True law drv(1) by (simp add: same_queue_def)
    next
      case False
      then show ?thesis using part by auto
    qed
    then obtain t1 where t1: "?poke = Some t1" "partitioned chk holds F t1 held" "same_queue t t1" "out_vas holds (q_mem t1) = out_vas holds (q_mem t)"
        "inFlight t1 = inFlight t" by blast
    let ?n = "min (int (ring_Len (returned (q_mem t1)))) limit"
    have rinv: "ring_inv (returned (q_mem t1))" using t1(2) by (simp add: partitioned_def)
    obtain rr where rr: "ring_Pop ?n [] (returned (q_mem t1)) = Some ([] @ take (nat ?n) (ring_abs (returned (q_mem t1))), rr)"
        "ring_inv rr" "ring_abs rr = drop (nat ?n) (ring_abs (returned (q_mem t1)))" using ring_Pop_spec [OF rinv] by metis
    let ?vas = "take (nat ?n) (ring_abs (returned (q_mem t1)))" and ?t2 = "t1\<lparr>q_mem := (q_mem t1)\<lparr>returned := rr\<rparr>\<rparr>"
    have out: "out_vas holds (q_mem t1) = out_vas holds ((q_mem t1)\<lparr>returned := rr\<rparr>) + mset ?vas"
      unfolding out_vas_def using rr(3) mset_append [of ?vas "ring_abs rr"] by (simp add: ac_simps)
    have mem: "length (region ((q_mem t1)\<lparr>returned := rr\<rparr>)) = length (region (q_mem t1))" "ring_inv (returned ((q_mem t1)\<lparr>returned := rr\<rparr>))"
      using rr(2) by simp_all
    note pb = part_back [OF t1(2) mem out]
    obtain fs where fs: "?vas = map (va_of t1) fs" "map (va_frame t1) ?vas = fs" "\<forall>f \<in> set fs. frame_in t1 f" using pb(2) by blast
    have a: "frame_in ?t2 = frame_in t1" "va_of ?t2 = va_of t1" by (rule same_addr; simp)+
    have p2: "partitioned chk holds F ?t2 (held + mset fs)" using pb(1) fs(2) by simp
    have len: "int (length fs) \<le> max 0 limit" using arg_cong [OF fs(1), of length] by simp
    have sq: "same_queue t ?t2" using t1(3) by (simp add: same_queue_def)
    have vf: "va_frame t1 = va_frame t" by (rule same_addr; use t1(3) in \<open>simp add: same_queue_def\<close>)
    have "set fs \<subseteq> va_frame t1 ` set_mset (out_vas holds (q_mem t1))" unfolding out fs(2) [symmetric] by auto
    then have inout: "\<forall>f \<in> set fs. f \<in># out_frames holds t" unfolding out_frames_def t1(4) vf by auto
    have sz: "size (out_vas holds (q_mem ?t2)) + length fs = size (out_vas holds (q_mem t))"
      using arg_cong [OF out, of size] arg_cong [OF fs(1), of length] t1(4) by simp
    have eq: "reclaim limit give (t, x) = map_option reclaim_done (reclaim_each give (map (va_of ?t2) fs) (?t2, x))" for give and x :: 'x
    proof (cases "?n = 0")
      case True
      then have "fs = []" using fs(1) by simp
      moreover have "rr = returned (q_mem t1)" using True rr(1) by (simp add: ring_Pop_def)
      ultimately show ?thesis using False t1(1) True by (simp add: reclaim_def reclaim_done_def Let_def)
    next
      case n: False
      have "reclaim limit give (t, x) = do { (completed, t2, x2) \<leftarrow> reclaim_each give ?vas (?t2, x); Some (reclaim_done (completed, t2, x2)) }"
        using False t1(1) n rr(1) unfolding reclaim_def reclaim_done_def by (simp add: Let_def)
      also have "\<dots> = map_option reclaim_done (reclaim_each give ?vas (?t2, x))" by (auto split: Option.bind_splits)
      finally show ?thesis unfolding fs(1) a .
    qed
    have "?P ?t2 fs" using p2 sq t1(5) sz len inout fs(3) a eq by simp
    then show ?thesis by blast
  qed
qed

lemma reclaim_done_part:
  assumes "partitioned chk holds F t3 rest" "inFlight t3 = inFlight t" "out_vas holds (q_mem t3) = out_vas holds (q_mem t2)"
    "size (out_vas holds (q_mem t2)) + c = size (out_vas holds (q_mem t))" "inFlight t = int (size (out_vas holds (q_mem t)))"
  shows "tx_owned chk holds F (fst (reclaim_done (c, t3, x))) rest" "same_queue t3 (fst (reclaim_done (c, t3, x)))"
    "inFlight (fst (reclaim_done (c, t3, x))) = inFlight t - int c"
proof -
  have "partitioned chk holds F (fst (reclaim_done (c, t3, x))) rest"
    using assms(1) unfolding reclaim_done_def by (cases "c > 0") (simp_all, subst part_cong [of _ t3], simp_all)
  then show "tx_owned chk holds F (fst (reclaim_done (c, t3, x))) rest" "same_queue t3 (fst (reclaim_done (c, t3, x)))"
    "inFlight (fst (reclaim_done (c, t3, x))) = inFlight t - int c"
    using assms by (auto simp: reclaim_done_def tx_owned_def same_queue_def)
qed

lemma Complete_owned:
  assumes own: "tx_owned chk holds F t held" and drv: "PMD (q_cfg t) = Some drv" "lawful_tx drv holds"
    and mine: "set_mset (out_frames holds t) \<subseteq> all_frames (q_pool t)"
  shows "\<exists>n t'. dq_Complete chk limit t = Some (n, t') \<and> tx_owned chk holds F t' held \<and> same_queue t t' \<and> inFlight t' = inFlight t - int n
     \<and> int n \<le> max 0 limit"
proof -
  define give where "give = (\<lambda>frame (t, n). do { p \<leftarrow> Push chk frame (q_pool t); Some (t\<lparr>q_pool := p\<rparr> :: 'a dtx, Suc n) })"
  obtain t2 fs where r: "partitioned chk holds F t2 (held + mset fs)" "same_queue t t2" "inFlight t2 = inFlight t"
     "size (out_vas holds (q_mem t2)) + length fs = size (out_vas holds (q_mem t))" "int (length fs) \<le> max 0 limit"
     "\<forall>f \<in> set fs. frame_in t2 f \<and> f \<in># out_frames holds t"
     "\<forall>give (x :: nat). reclaim limit give (t, x) = map_option reclaim_done (reclaim_each give (map (va_of t2) fs) (t2, x))"
    using reclaim_spec [OF own drv, where 'x = nat and limit = limit] by blast
  define S where "S rem s \<longleftrightarrow> (\<exists>p. fst s = t2\<lparr>q_pool := p\<rparr> \<and> all_frames p = all_frames (q_pool t2))
      \<and> partitioned chk holds F (fst s) (held + mset rem) \<and> snd s + length rem = length fs" for rem s
  have s0: "S fs (t2, 0)" using r(1) unfolding S_def by (intro conjI exI [of _ "q_pool t2"]) simp_all
  have all: "all_frames (q_pool t2) = all_frames (q_pool t)" using r(2) by (simp add: same_queue_def)
  have law: "\<exists>s'. give f (u, x) = Some s' \<and> S rem s'" if s: "S (f # rem) (u, x)" and f: "f \<in> set fs" for f rem u x
  proof -
    obtain p where p: "u = t2\<lparr>q_pool := p\<rparr>" "all_frames p = all_frames (q_pool t2)" using s by (auto simp: S_def)
    have "partitioned chk holds F u (add_mset f (held + mset rem))" "f \<in> all_frames (q_pool u)"
      using s r(6) f mine p all by (auto simp: S_def)
    from push_part [OF this] obtain p' where p': "Push chk f (q_pool u) = Some p'" "partitioned chk holds F (u\<lparr>q_pool := p'\<rparr>) (held + mset rem)"
        "all_frames p' = all_frames (q_pool u)" .
    have "S rem (u\<lparr>q_pool := p'\<rparr>, Suc x)" using s p p' by (auto simp: S_def)
    then show ?thesis using p'(1) by (simp add: give_def)
  qed
  have geom: "q_geom u \<and> same_queue t2 u" if "S rem (u, x)" for rem u x
    using that by (auto simp: S_def same_queue_def partitioned_def)
  have fi: "\<forall>f \<in> set fs. frame_in t2 f" using r(6) by blast
  have "\<exists>t' x'. reclaim_each give (map (va_of t2) fs) (t2, 0) = Some (length fs, t', x') \<and> S [] (t', x')"
    by (rule reclaim_each_spec [of S, OF s0 fi], erule geom, erule law, assumption?)
  then obtain t3 n where e: "reclaim_each give (map (va_of t2) fs) (t2, 0) = Some (length fs, t3, n)" "S [] (t3, n)" by blast
  obtain p where p: "t3 = t2\<lparr>q_pool := p\<rparr>" "all_frames p = all_frames (q_pool t2)" using e(2) by (auto simp: S_def)
  have p3: "partitioned chk holds F t3 held" "n = length fs" using e(2) by (simp_all add: S_def)
  have x: "inFlight t3 = inFlight t" "out_vas holds (q_mem t3) = out_vas holds (q_mem t2)" "same_queue t t3"
    using p r(2,3) by (simp_all add: same_queue_def)
  have fl: "inFlight t = int (size (out_vas holds (q_mem t)))" using own by (simp add: tx_owned_def)
  note d = reclaim_done_part [OF p3(1) x(1,2) r(4) fl, of n]
  have "dq_Complete chk limit t = Some (n, fst (reclaim_done (length fs, t3, n)))"
    unfolding dq_Complete_def give_def [symmetric] using r(7) e(1) by (simp add: reclaim_done_def)
  moreover have "same_queue t (fst (reclaim_done (length fs, t3, n)))" using same_queue_trans [OF x(3) d(2)] .
  ultimately show ?thesis using d p3(2) r(5) by auto
qed

lemma Reclaim_owned:
  assumes own: "tx_owned chk holds F t held" and drv: "PMD (q_cfg t) = Some drv" "lawful_tx drv holds"
  shows "\<exists>ds t'. dq_Reclaim limit [] t = Some (ds, t') \<and> tx_owned chk holds F t' (held + frames_of t ds) \<and> same_queue t t'
     \<and> inFlight t' = inFlight t - int (length ds) \<and> int (length ds) \<le> max 0 limit"
proof -
  define give where "give = (\<lambda>frame (t, ds). Some (t :: 'a dtx, ds @ [\<lparr>d_addr = frame + dataStart t, d_len = 0, d_options = 0\<rparr> :: desc]))"
  obtain t2 fs where r: "partitioned chk holds F t2 (held + mset fs)" "same_queue t t2" "inFlight t2 = inFlight t"
     "size (out_vas holds (q_mem t2)) + length fs = size (out_vas holds (q_mem t))" "int (length fs) \<le> max 0 limit"
     "\<forall>f \<in> set fs. frame_in t2 f \<and> f \<in># out_frames holds t"
     "\<forall>give (x :: desc list). reclaim limit give (t, x) = map_option reclaim_done (reclaim_each give (map (va_of t2) fs) (t2, x))"
    using reclaim_spec [OF own drv, where 'x = "desc list" and limit = limit] by blast
  let ?mk = "\<lambda>f. \<lparr>d_addr = f + dataStart t2, d_len = 0, d_options = 0\<rparr> :: desc"
  define S where "S rem s \<longleftrightarrow> fst s = t2 \<and> (\<exists>got. fs = got @ rem \<and> snd s = map ?mk got)" for rem s
  have s0: "S fs (t2, [])" by (simp add: S_def)
  have law: "\<exists>s'. give f (u, x) = Some s' \<and> S rem s'" if "S (f # rem) (u, x)" for f rem u x
    using that by (force simp: S_def give_def)
  have geom: "q_geom u \<and> same_queue t2 u" if "S rem (u, x)" for rem u x using that r(1) by (auto simp: S_def partitioned_def)
  have fi: "\<forall>f \<in> set fs. frame_in t2 f" using r(6) by blast
  have "\<exists>t' x'. reclaim_each give (map (va_of t2) fs) (t2, []) = Some (length fs, t', x') \<and> S [] (t', x')"
    by (rule reclaim_each_spec [of S, OF s0 fi], erule geom, erule law, assumption?)
  then obtain t3 ds where e: "reclaim_each give (map (va_of t2) fs) (t2, []) = Some (length fs, t3, ds)" "S [] (t3, ds)" by blast
  have t3: "t3 = t2" "ds = map ?mk fs" using e(2) by (auto simp: S_def)
  have fl: "inFlight t = int (size (out_vas holds (q_mem t)))" using own by (simp add: tx_owned_def)
  note d = reclaim_done_part [OF r(1,3) refl r(4) fl, of ds]
  have "q_geom t2" "\<forall>f \<in> set fs. frame_in t2 f" using r(1,6) by (auto simp: partitioned_def)
  then have f: "frames_of t2 ds = mset fs" using frames_of_start t3(2) by blast
  have "frames_of t ds = frames_of t2 ds" using r(2) by (simp add: frames_of_def frameOf_def same_queue_def)
  moreover have "dq_Reclaim limit [] t = Some (ds, fst (reclaim_done (length fs, t2, ds)))"
    unfolding dq_Reclaim_def give_def [symmetric] using r(7) e(1) t3(1) by (simp add: reclaim_done_def)
  moreover have "same_queue t (fst (reclaim_done (length fs, t2, ds)))" using same_queue_trans [OF r(2) d(2)] .
  ultimately show ?thesis using d f r(5) t3(2) by auto
qed

lemma Base_frameOf: "q_geom b \<Longrightarrow> Base (q_pool b) a = frameOf b a"
  by (simp add: Base_def frameOf_def q_geom_def)

lemma Free_owned:
  assumes own: "tx_owned chk holds F t held" and sub: "frames_of t ds \<subseteq># held" "set_mset (frames_of t ds) \<subseteq> all_frames (q_pool t)"
  shows "\<exists>t'. dq_Free chk ds t = Some t' \<and> tx_owned chk holds F t' (held - frames_of t ds) \<and> same_queue t t' \<and> inFlight t' = inFlight t"
proof -
  have part: "partitioned chk holds F t held" using own by (simp add: tx_owned_def)
  have g: "q_geom t" using part by (simp add: partitioned_def)
  let ?fs = "map (\<lambda>d. frameOf t (d_addr d)) ds"
  have "held = held - frames_of t ds + mset ?fs" using subset_mset.diff_add [OF sub(1)] by (simp add: frames_of_def)
  then have "partitioned chk holds F t (held - frames_of t ds + mset ?fs)" using part by simp
  moreover have "set ?fs \<subseteq> all_frames (q_pool t)" using sub(2) by (auto simp: frames_of_def)
  ultimately obtain p where p: "push_frames chk ?fs t = Some (t\<lparr>q_pool := p\<rparr>)" "partitioned chk holds F (t\<lparr>q_pool := p\<rparr>) (held - frames_of t ds)"
      "all_frames p = all_frames (q_pool t)" using push_frames_part by blast
  then show ?thesis using own by (simp add: dq_Free_def Base_frameOf [OF g] tx_owned_def same_queue_def)
qed

section \<open>Construction\<close>

text \<open>The fields \<open>initBase\<close> fills in.\<close>

definition starts :: "bool \<Rightarrow> 'd config \<Rightarrow> dring \<Rightarrow> 'd \<Rightarrow> ('d, 'e) qbase_scheme \<Rightarrow> bool" where
  "starts chk cfg rr d b \<longleftrightarrow> config_validate cfg = None \<and> q_cfg b = cfg
     \<and> region (q_mem b) = Region cfg \<and> returned (q_mem b) = rr \<and> driver (q_mem b) = d \<and> (\<forall>s. Supply cfg = Some s \<longrightarrow> sup_ring (q_mem b) = s)
     \<and> q_pool b = New chk (nat (FirstFrame cfg)) (nat (Frames cfg)) (nat (FrameSize (Layout cfg)))
     \<and> regionLen b = of_nat (length (Region cfg)) \<and> q_frameMask b = of_int (FrameSize (Layout cfg) - 1)
     \<and> dataStart b = of_int (DataStart (Layout cfg)) \<and> bufStart b = of_int (ObjHeader (Layout cfg) + MbufSize (Layout cfg))
     \<and> dead b = None"

lemma NewTx_starts:
  assumes "dq_NewTx chk cfg d = Inr t" "Returned cfg = Some rr"
  shows "starts chk cfg rr d t" "inFlight t = 0"
  using assms
  by (auto simp: dq_NewTx_def initBase_def starts_def Let_def qbase.extend_def dtx.fields_def split: sum.splits option.splits)

lemma NewRx_starts:
  assumes "dq_NewRx chk cfg d = Inr q" "Returned cfg = Some rr"
  shows "starts chk cfg rr d q" "outstanding q = 0" "\<exists>s. Supply cfg = Some s"
  using assms
  by (auto simp: dq_NewRx_def initBase_def starts_def Let_def qbase.extend_def drx.fields_def split: sum.splits option.splits if_splits)

text \<open>The bounds a Go slice and an address space give.\<close>

definition in_memory :: "'d config \<Rightarrow> bool" where
  "in_memory cfg \<longleftrightarrow> length (Region cfg) < 2 ^ 63 \<and> unat (RegionVA cfg) + length (Region cfg) < 2 ^ 64 \<and> 0 \<le> FirstFrame cfg"

lemma valid_layout:
  assumes "config_validate cfg = None"
  shows "is_pow2 (nat (FrameSize (Layout cfg)))" "0 \<le> ObjHeader (Layout cfg)" "128 \<le> MbufSize (Layout cfg)" "0 \<le> Headroom (Layout cfg)"
    "DataStart (Layout cfg) < FrameSize (Layout cfg)" "nat (FrameSize (Layout cfg)) dvd length (Region cfg)" "0 < length (Region cfg)"
    "0 < Frames cfg" "(FirstFrame cfg + Frames cfg) * FrameSize (Layout cfg) \<le> int (length (Region cfg))" "PMD cfg \<noteq> None" "0 < FrameSize (Layout cfg)"
    "0 < Depth cfg"
proof -
  have l: "layout_Validate (Layout cfg) = None" using assms by (auto simp: config_validate_def split: option.splits)
  then have fs: "0 < FrameSize (Layout cfg)" "ones_count (nat (FrameSize (Layout cfg))) = 1"
    by (auto simp: layout_Validate_def split: if_splits)
  then show "is_pow2 (nat (FrameSize (Layout cfg)))" by (simp only: ones_count_one)
  show "0 \<le> ObjHeader (Layout cfg)" "128 \<le> MbufSize (Layout cfg)" "0 \<le> Headroom (Layout cfg)" "DataStart (Layout cfg) < FrameSize (Layout cfg)"
    using l by (auto simp: layout_Validate_def mbuf_Size_def split: if_splits)
  have c: "length (Region cfg) \<noteq> 0" "int (length (Region cfg)) mod FrameSize (Layout cfg) = 0" "0 < Frames cfg"
      "(FirstFrame cfg + Frames cfg) * FrameSize (Layout cfg) \<le> int (length (Region cfg))" "0 < Depth cfg" "PMD cfg \<noteq> None"
    using assms l by (auto simp: config_validate_def split: if_splits)
  then show "0 < length (Region cfg)" "0 < Frames cfg" "(FirstFrame cfg + Frames cfg) * FrameSize (Layout cfg) \<le> int (length (Region cfg))"
    "PMD cfg \<noteq> None" "0 < FrameSize (Layout cfg)" "0 < Depth cfg" using fs by auto
  have "FrameSize (Layout cfg) dvd int (length (Region cfg))" using c(2) by (simp add: dvd_eq_mod_eq_0)
  then show "nat (FrameSize (Layout cfg)) dvd length (Region cfg)" using fs(1) by (simp add: nat_dvd_iff)
qed

lemma start_geom:
  assumes st: "starts chk cfg rr d b" and mem: "in_memory cfg"
  shows "q_geom b" "pool_inv chk (q_pool b)" "set (free (q_pool b)) = all_frames (q_pool b)" "\<forall>f \<in> all_frames (q_pool b). frame_in b f" "rejected (q_pool b) = 0"
proof -
  let ?l = "Layout cfg" let ?fs = "nat (FrameSize ?l)"
  have s: "config_validate cfg = None" "q_cfg b = cfg" "region (q_mem b) = Region cfg"
      "q_pool b = New chk (nat (FirstFrame cfg)) (nat (Frames cfg)) ?fs" "regionLen b = of_nat (length (Region cfg))"
      "q_frameMask b = of_int (FrameSize ?l - 1)" "dataStart b = of_int (DataStart ?l)" "bufStart b = of_int (ObjHeader ?l + MbufSize ?l)"
    using st by (simp_all add: starts_def)
  note v = valid_layout [OF s(1)]
  have len: "length (Region cfg) < 2 ^ 63" "0 \<le> FirstFrame cfg" using mem by (simp_all add: in_memory_def)
  have fl: "?fs \<le> length (Region cfg)" using v(6,7) by (rule dvd_imp_le)
  have un: "unat (of_int x :: u64) = nat x" if "0 \<le> x" "x < FrameSize ?l" for x
  proof -
    have "nat x < 2 ^ 64" using that fl len(1) by simp
    moreover have "of_int x = (of_nat (nat x) :: u64)" using that(1) by simp
    ultimately show ?thesis by (simp add: unsigned_of_nat take_bit_nat_eq_self)
  qed
  have ds: "ObjHeader ?l + MbufSize ?l \<le> DataStart ?l" using v(4) by (simp add: DataStart_def)
  have prod: "int ((nat (FirstFrame cfg) + nat (Frames cfg)) * ?fs) = (FirstFrame cfg + Frames cfg) * FrameSize ?l"
    using len(2) v(8,11) by simp
  then have tot: "(nat (FirstFrame cfg) + nat (Frames cfg)) * ?fs \<le> length (Region cfg)" using v(9) by linarith
  then have pool: "?fs < 2 ^ 63" "(nat (FirstFrame cfg) + nat (Frames cfg)) * ?fs < 2 ^ 64" using fl len(1) by simp_all
  note inv = New_inv [OF v(1) pool, of chk]
  show pi: "pool_inv chk (q_pool b)" "set (free (q_pool b)) = all_frames (q_pool b)" unfolding s(4) by (rule inv)+
  have fm: "frameMask (q_pool b) = of_nat (?fs - 1)" using pi(1) unfolding s(4) by (simp add: pool_inv_def pool_geom_def)
  have fm': "q_frameMask b = of_nat (?fs - 1)" unfolding s(6) using v(11) by (simp add: of_nat_diff)
  have ar: "nat (ObjHeader ?l) + 128 \<le> nat (ObjHeader ?l + MbufSize ?l)" "nat (ObjHeader ?l + MbufSize ?l) \<le> nat (DataStart ?l)"
    using v(2,3) ds by arith+
  show g: "q_geom b" unfolding q_geom_def fsize_def mhdr_def s(2,3,5) fm fm'
    using v len mem un [of "ObjHeader ?l + MbufSize ?l"] un [of "DataStart ?l"] ds ar by (simp add: s(4,7,8) in_memory_def)
  show "\<forall>f \<in> all_frames (q_pool b). frame_in b f"
  proof
    fix f assume "f \<in> all_frames (q_pool b)"
    then obtain i where i: "i < nat (Frames cfg)" "f = faddr (q_pool b) i" by (auto simp: all_frames_def s(4))
    have pg: "pool_geom (q_pool b)" using pi(1) by (simp add: pool_inv_def)
    have "i < free_cap (q_pool b)" using i(1) by (simp add: s(4))
    then have u: "unat f = unat (base (q_pool b)) + i * ?fs" using unat_faddr [OF pg, of i] i(2) by (simp add: s(4))
    have b: "unat (base (q_pool b)) = nat (FirstFrame cfg) * ?fs"
    proof -
      have "nat (FirstFrame cfg) * ?fs \<le> (nat (FirstFrame cfg) + nat (Frames cfg)) * ?fs" by (intro mult_le_mono1) simp
      then have "nat (FirstFrame cfg) * ?fs < 2 ^ 64" using pool(2) by linarith
      then show ?thesis unfolding s(4) New_simps by (simp add: unsigned_of_nat take_bit_nat_eq_self flip: of_nat_mult)
    qed
    have u': "unat f = (nat (FirstFrame cfg) + i) * ?fs" using u b by (simp add: distrib_right)
    have "(nat (FirstFrame cfg) + i) * ?fs < (nat (FirstFrame cfg) + nat (Frames cfg)) * ?fs" using i(1) v(11) by simp
    then have "(nat (FirstFrame cfg) + i) * ?fs < length (Region cfg)" using tot by (rule order.strict_trans2)
    then show "frame_in b f" unfolding frame_in_def fsize_def s(2,3) u' by simp
  qed
  show "rejected (q_pool b) = 0" by (simp add: s(4))
qed

lemma start_part:
  assumes st: "starts chk cfg rr d b" and mem: "in_memory cfg" and ring: "ring_inv rr" "ring_abs rr = []" "holds d = []"
    and F: "finite F" "\<forall>f \<in> F. frame_in b f" "F \<inter> all_frames (q_pool b) = {}"
  shows "partitioned chk holds F b (mset_set F)" "out_vas holds (q_mem b) = {#}"
proof -
  note g = start_geom [OF st mem]
  have s: "returned (q_mem b) = rr" "driver (q_mem b) = d" "dead b = None" using st by (simp_all add: starts_def)
  show o: "out_vas holds (q_mem b) = {#}" using s ring by (simp add: out_vas_def)
  have "distinct (free (q_pool b))" using g(2) by (simp add: pool_inv_def)
  then have "mset (free (q_pool b)) = mset_set (all_frames (q_pool b))" using g(3) mset_set_set by metis
  then have "mset (free (q_pool b)) + mset_set F = mset_set (universe b F)"
    unfolding universe_def using F(1,3) by (subst mset_set_Union) (auto simp: all_frames_def)
  then show "partitioned chk holds F b (mset_set F)" unfolding partitioned_def out_frames_def o
    using g s ring F by (auto simp: universe_def)
qed

end
