(* ===== verification/Dpdk_Tx_Run.thy ===== *)
theory Dpdk_Tx_Run
  imports Dpdk_Tx
begin

text \<open>
  Runs of the DPDK transmit queue, and the theorem that no run loses or duplicates a frame.
\<close>

section \<open>Runs\<close>

text \<open>One step of the code that drives a transmit queue: \<open>held\<close> is the frames the callers have. A caller gives the
  queue only descriptors of frames it holds; \<open>Complete\<close> and \<open>Free\<close> are for frames of the queue's own pool (a
  forwarder, whose frames are another queue's, uses \<open>Reclaim\<close>).\<close>

inductive dq_tx_step :: "bool \<Rightarrow> ('d \<Rightarrow> u64 list) \<Rightarrow> 'd dtx \<times> u64 multiset \<Rightarrow> 'd dtx \<times> u64 multiset \<Rightarrow> bool"
  for chk holds where
  alloc: "dq_Alloc chk n t = Some (ds, t') \<Longrightarrow> dq_tx_step chk holds (t, held) (t', held + frames_of t ds)"
| transmit: "frames_of t ds \<subseteq># held \<Longrightarrow> dq_Transmit ds t = Some (n, t') \<Longrightarrow>
    dq_tx_step chk holds (t, held) (t', held - frames_of t (take (nat n) ds))"
| transmit_offload: "frames_of t ds \<subseteq># held \<Longrightarrow> TransmitOffload ds os t = Some (n, e, t') \<Longrightarrow>
    dq_tx_step chk holds (t, held) (t', held - frames_of t (take (nat n) ds))"
| complete: "set_mset (out_frames holds t) \<subseteq> all_frames (q_pool t) \<Longrightarrow> dq_Complete chk k t = Some (n, t') \<Longrightarrow>
    dq_tx_step chk holds (t, held) (t', held)"
| reclaims: "dq_Reclaim k [] t = Some (ds, t') \<Longrightarrow> dq_tx_step chk holds (t, held) (t', held + frames_of t ds)"
| free: "frames_of t ds \<subseteq># held \<Longrightarrow> set_mset (frames_of t ds) \<subseteq> all_frames (q_pool t) \<Longrightarrow> dq_Free chk ds t = Some t' \<Longrightarrow>
    dq_tx_step chk holds (t, held) (t', held - frames_of t ds)"
| close: "dq_tx_step chk holds (t, held) (q_Close t, held)"

text \<open>What every step keeps.\<close>

definition tx_good :: "bool \<Rightarrow> ('d \<Rightarrow> u64 list) \<Rightarrow> u64 set \<Rightarrow> 'd pmd \<Rightarrow> 'd config \<Rightarrow> u64 set \<Rightarrow> 'd dtx \<times> u64 multiset \<Rightarrow> bool" where
  "tx_good chk holds F drv cfg A s \<longleftrightarrow> tx_owned chk holds F (fst s) (snd s) \<and> q_cfg (fst s) = cfg \<and> all_frames (q_pool (fst s)) = A
     \<and> inFlight (fst s) \<le> Depth cfg"

lemma NumFreeSlots_bound: "n \<le> NumFreeSlots t \<Longrightarrow> inFlight t \<le> Depth (q_cfg t) \<Longrightarrow> inFlight t + n \<le> Depth (q_cfg t)"
  by (auto simp: NumFreeSlots_def Let_def split: if_splits)

lemma Alloc_inFlight: "dq_Alloc chk n t = Some (ds, t') \<Longrightarrow> inFlight t' = inFlight t"
  by (auto simp: dq_Alloc_def Let_def split: if_splits Option.bind_splits)

lemma Transmit_good:
  assumes good: "tx_good chk holds F drv cfg A (t, held)" and drv: "PMD cfg = Some drv" "lawful_tx drv holds"
    and held: "frames_of t ds \<subseteq># held" and offs: "\<forall>os. offs = Some os \<longrightarrow> length os = length ds"
  shows "\<exists>n e t'. tx_transmit ds offs t = Some (n, e, t') \<and> tx_good chk holds F drv cfg A (t', held - frames_of t (take (nat n) ds))"
proof -
  have g: "tx_owned chk holds F t held" "q_cfg t = cfg" "all_frames (q_pool t) = A" "inFlight t \<le> Depth (q_cfg t)"
    using good by (simp_all add: tx_good_def)
  have d: "PMD (q_cfg t) = Some drv" using g(2) drv(1) by simp
  obtain n e t' where r: "tx_transmit ds offs t = Some (n, e, t')" "n \<le> NumFreeSlots t"
      "tx_owned chk holds F t' (held - frames_of t (take (nat n) ds))" "same_queue t t'" "inFlight t' = inFlight t + n"
    using Transmit_owned [OF g(1) d drv(2) held offs] by blast
  have "inFlight t + n \<le> Depth (q_cfg t)" using r(2) g(4) by (rule NumFreeSlots_bound)
  then have "tx_good chk holds F drv cfg A (t', held - frames_of t (take (nat n) ds))"
    using r(3-5) g(2,3) by (simp add: tx_good_def same_queue_def)
  then show ?thesis using r(1) by blast
qed

lemma dq_tx_step_good:
  assumes "dq_tx_step chk holds s s'" "tx_good chk holds F drv cfg A s" "PMD cfg = Some drv" "lawful_tx drv holds"
  shows "tx_good chk holds F drv cfg A s'"
  using assms
proof (induction rule: dq_tx_step.induct)
  case (alloc n t ds t' held)
  then have o: "tx_owned chk holds F t held" by (simp add: tx_good_def)
  from Alloc_owned [OF o, of n] alloc Alloc_inFlight [OF alloc(1)] show ?case by (auto simp: tx_good_def same_queue_def)
next
  case (transmit t ds held n t')
  from Transmit_good [OF transmit(3,4,5,1), of None] transmit(2) show ?case by (auto simp: dq_Transmit_def)
next
  case (transmit_offload t ds held os n e t')
  show ?case
  proof (cases "length os = length ds")
    case True
    then show ?thesis using Transmit_good [OF transmit_offload(3,4,5,1), of "Some os"] transmit_offload(2)
      by (auto simp: TransmitOffload_def)
  next
    case False
    then show ?thesis using transmit_offload(2,3) by (simp add: TransmitOffload_def frames_of_def)
  qed
next
  case (complete t k n t' held)
  then have o: "tx_owned chk holds F t held" "PMD (q_cfg t) = Some drv" by (simp_all add: tx_good_def)
  from Complete_owned [OF o complete(5,1), of k] complete(2,3) show ?case by (auto simp: tx_good_def same_queue_def)
next
  case (reclaims k t ds t' held)
  then have o: "tx_owned chk holds F t held" "PMD (q_cfg t) = Some drv" by (simp_all add: tx_good_def)
  from Reclaim_owned [OF o reclaims(4), of k] reclaims(1,2) show ?case by (auto simp: tx_good_def same_queue_def)
next
  case (free t ds held t')
  then have o: "tx_owned chk holds F t held" by (simp add: tx_good_def)
  from Free_owned [OF o free(1,2)] free(3,4) show ?case by (auto simp: tx_good_def same_queue_def)
next
  case (close t held)
  have "partitioned chk holds F (q_Close t) held = partitioned chk holds F t held" unfolding q_Close_def by (rule part_cong) simp_all
  then show ?case using close by (simp add: tx_good_def tx_owned_def q_Close_def)
qed

lemma tx_run_good:
  assumes "(dq_tx_step chk holds)\<^sup>*\<^sup>* s s'" "tx_good chk holds F drv cfg A s" "PMD cfg = Some drv" "lawful_tx drv holds"
  shows "tx_good chk holds F drv cfg A s'"
  using assms by (induction rule: rtranclp_induct) (auto intro: dq_tx_step_good)

section \<open>Properties\<close>


text \<open>A driver for the examples: it keeps what it is given, and gives it back when poked, as far as the ring has room. It delivers
  the buffers it has, as they are.\<close>

definition keep_pmd :: "u64 list pmd" where
  "keep_pmd = \<lparr>TxBurst = (\<lambda>ms mem. (int (length ms), mem\<lparr>driver := driver mem @ ms\<rparr>)),
     RxBurst = (\<lambda>n mem. (int (min n (length (driver mem))), take n (driver mem), mem\<lparr>driver := drop n (driver mem)\<rparr>)),
     Poke = (\<lambda>mem. case ring_Push (driver mem) (returned mem) of
               Some (n, r) \<Rightarrow> mem\<lparr>returned := r, driver := drop n (driver mem)\<rparr> | None \<Rightarrow> mem)\<rparr>"

lemma keep_pmd_Poke:
  assumes "ring_inv (returned mem)"
  shows "length (region (Poke keep_pmd mem)) = length (region mem) \<and> ring_inv (returned (Poke keep_pmd mem))
     \<and> out_vas (\<lambda>x. x) (Poke keep_pmd mem) = out_vas (\<lambda>x. x) mem"
proof -
  obtain n r where r: "ring_Push (driver mem) (returned mem) = Some (n, r)" "ring_inv r" "ring_abs r = ring_abs (returned mem) @ take n (driver mem)"
    using ring_Push_spec [OF assms, of "driver mem"] by metis
  have "mset (take n (driver mem)) + mset (drop n (driver mem)) = mset (driver mem)" by (simp flip: mset_append)
  then show ?thesis using r by (simp add: keep_pmd_def out_vas_def)
qed

lemma keep_pmd_lawful: "lawful_tx keep_pmd (\<lambda>x. x)"
  unfolding lawful_tx_def using keep_pmd_Poke by (auto simp: keep_pmd_def out_vas_def)

definition two_frames :: "u64 list config" where
  "two_frames = \<lparr>Region = replicate 512 0, RegionVA = 0x10000, Layout = \<lparr>FrameSize = 256, ObjHeader = 0, MbufSize = 128, Headroom = 16\<rparr>,
     PoolVA = 0x9000, FirstFrame = 0, Frames = 2, Depth = 2, Supply = Some \<lparr>rg_buf = [0, 0], rg_mask = 1, rg_head = 0, rg_tail = 0\<rparr>,
     Returned = Some \<lparr>rg_buf = [0, 0], rg_mask = 1, rg_head = 0, rg_tail = 0\<rparr>, Checksums = False, TSO = False, PMD = Some keep_pmd\<rparr>"

lemma two_frames_valid: "config_validate two_frames = None"
proof -
  have "ones_count 256 = 1" by code_simp
  then show ?thesis by (simp add: config_validate_def two_frames_def layout_Validate_def mbuf_Size_def DataStart_def)
qed

lemma empty_ring: "ring_inv \<lparr>rg_buf = [0, 0], rg_mask = 1, rg_head = 0, rg_tail = 0\<rparr>"
    "ring_abs \<lparr>rg_buf = [0, 0], rg_mask = 1, rg_head = 0, rg_tail = 0\<rparr> = []"
  by (simp_all add: ring_inv_def ring_ok_def ring_Len_def is_pow2_def ring_abs_def exI [of _ "1 :: nat"])

lemma fresh_tx:
  "\<exists>t0. dq_NewTx True two_frames [] = Inr t0 \<and> q_pool t0 = New True 0 2 256 \<and> \<not> closed t0 \<and> dead t0 = None
     \<and> inFlight t0 = 0 \<and> Depth (q_cfg t0) = 2"
  by (simp add: dq_NewTx_def initBase_def two_frames_valid) (simp add: two_frames_def Let_def qbase.extend_def dtx.fields_def)

lemma two_frames_pool: "pool_inv True (New True 0 2 256)" "length (free (New True 0 2 256)) = 2" "all_frames (New True 0 2 256) = {0, 256}"
proof -
  show "pool_inv True (New True 0 2 256)" by (rule New_inv) (simp_all add: is_pow2_def exI [of _ "8 :: nat"])
  show "length (free (New True 0 2 256)) = 2" by (simp add: New_free)
  show "all_frames (New True 0 2 256) = {0, 256}" by (auto simp: all_frames_def faddr_def lessThan_Suc numeral_2_eq_2)
qed


end
