(* ===== verification/Dpdk_Tx_Packets.thy ===== *)
theory Dpdk_Tx_Packets
  imports Dpdk_Tx_Run
begin

text \<open>
  What the DPDK transmit queue hands its driver: mbufs that describe exactly the caller's packets, whose bytes are as the
  caller left them.
\<close>

text \<open>The mbuf of a descriptor's frame sends the descriptor's packet: one segment, the queue's pool, and the bytes the
  descriptor names.\<close>

definition sends :: "'d dtx \<Rightarrow> desc \<Rightarrow> bool" where
  "sends t d \<longleftrightarrow> (\<exists>off l. DataOff (region (q_mem t)) (mbuf_at t d) = Some off
       \<and> unat (frameOf t (d_addr d)) + unat (bufStart t) + unat off = unat (d_addr d)
       \<and> DataLen (region (q_mem t)) (mbuf_at t d) = Some l \<and> unat l = unat (d_len d))
     \<and> NbSegs (region (q_mem t)) (mbuf_at t d) = Some 1 \<and> mbuf_Pool (region (q_mem t)) (mbuf_at t d) = Some (PoolVA (q_cfg t))"

lemma described_sends:
  assumes "q_geom t" "fsize t \<le> 2 ^ 16" "descOK t d" "described t d (region (q_mem t'))" "wrote t t'"
  shows "sends t' d"
proof -
  let ?f = "frameOf t (d_addr d)" let ?off = "ucast (d_addr d - ?f - bufStart t) :: u16"
  note f = descOK_frame [OF assms(1,3)]
  have b: "mhdr t + 128 \<le> unat (bufStart t)" "0 < unat (d_len d)" using assms(1,3) by (auto simp: q_geom_def q_descOK_iff)
  have le: "?f \<le> d_addr d" using f(3) by (simp add: word_le_nat_alt)
  have u1: "unat (d_addr d - ?f) = unat (d_addr d) - unat ?f" using le by (rule unat_sub)
  have "bufStart t \<le> d_addr d - ?f" using f(3) u1 by (simp add: word_le_nat_alt)
  then have u2: "unat (d_addr d - ?f - bufStart t) = unat (d_addr d) - unat ?f - unat (bufStart t)" using u1 by (simp add: unat_sub)
  have "unat (d_addr d - ?f - bufStart t) < 2 ^ 16" using u2 f(2,3) b assms(2) by linarith
  then have "unat ?off = unat (d_addr d) - unat ?f - unat (bufStart t)" using u2 by (simp add: unsigned_ucast_eq take_bit_nat_eq_self)
  moreover have "unat (d_len d) < 2 ^ 16" using f(2,3) b assms(2) by linarith
  then have "unat (ucast (d_len d) :: u16) = unat (d_len d)" by (simp add: unsigned_ucast_eq take_bit_nat_eq_self)
  ultimately show ?thesis using assms(4,5) f(3)
    by (simp add: sends_def described_def mbuf_says_def wrote_addr wrote_same wrote_described)
qed

lemma packet_outside:
  assumes "q_geom t" "descOK t d"
  shows "outside t ds (unat (d_addr d)) (unat (d_len d))"
  unfolding outside_def
proof (intro ballI impI)
  fix e assume e: "descOK t e"
  note d = descOK_frame [OF assms] and ee = descOK_frame [OF assms(1) e]
  have m: "mbuf_at t e + 128 \<le> unat (frameOf t (d_addr e)) + unat (bufStart t)" "unat (bufStart t) < fsize t"
    using assms(1) by (auto simp: mbuf_at_def q_geom_def)
  show "unat (d_addr d) + unat (d_len d) \<le> mbuf_at t e \<or> mbuf_at t e + 128 \<le> unat (d_addr d)"
  proof (cases "frameOf t (d_addr d) = frameOf t (d_addr e)")
    case True
    then show ?thesis using d(3) m by simp
  next
    case False
    from frames_apart [OF assms(1) d(1) ee(1) False] show ?thesis using d(2,3) m by (auto simp: mbuf_at_def)
  qed
qed

text \<open>C13: the batch the DPDK transmit loop builds is the caller's packets. For any batch of descriptors of distinct frames,
  with any offload requests, the loop does not panic and stops only at a descriptor it refuses; the addresses for the
  driver are the mbufs of a prefix of the batch, in order. Every one of those descriptors is inside a frame, its mbuf has
  one segment, names this queue's pool and gives exactly the descriptor's bytes, and no byte of any of the packets was
  changed.\<close>

theorem transmit_describes:
  assumes "q_geom t" "fsize t \<le> 2 ^ 16" "distinct (map (\<lambda>x. frameOf t (d_addr (fst x))) items)"
  shows "\<exists>ms bs refused t'. tx_build 0 items t = Some (ms, bs, refused, t') \<and> length ms \<le> length items
     \<and> (refused = None \<longrightarrow> length ms = length items)
     \<and> ms = map (\<lambda>x. RegionVA (q_cfg t) + of_nat (mbufOf t (d_addr (fst x)))) (take (length ms) items)
     \<and> (\<forall>x \<in> set (take (length ms) items). descOK t (fst x) \<and> sends t' (fst x)
          \<and> peek (region (q_mem t')) (unat (d_addr (fst x))) (unat (d_len (fst x))) = peek (region (q_mem t)) (unat (d_addr (fst x))) (unat (d_len (fst x))))"
proof -
  obtain ms bs refused t' where r: "tx_build 0 items t = Some (ms, bs, refused, t')" "built t (map fst items) ms refused t'"
    using tx_build_spec [OF assms(1)] by blast
  note b = r(2) [unfolded built_def]
  have dis: "distinct (map (\<lambda>d. frameOf t (d_addr d)) (map fst items))" using assms(3) by (simp add: comp_def)
  have "descOK t (fst x) \<and> sends t' (fst x)
      \<and> peek (region (q_mem t')) (unat (d_addr (fst x))) (unat (d_len (fst x))) = peek (region (q_mem t)) (unat (d_addr (fst x))) (unat (d_len (fst x)))"
    if x: "x \<in> set (take (length ms) items)" for x
  proof -
    have m: "fst x \<in> set (take (length ms) (map fst items))" using x by (simp add: take_map)
    then have ok: "descOK t (fst x)" "described t (fst x) (region (q_mem t'))" using b dis by blast+
    then show ?thesis using described_sends [OF assms(1,2)] packet_outside [OF assms(1)] b by blast
  qed
  moreover have "ms = map (\<lambda>x. RegionVA (q_cfg t) + of_nat (mbufOf t (d_addr (fst x)))) (take (length ms) items)"
    using b by (simp add: take_map va_of_def mbufOf_def mhdr_def comp_def)
  ultimately show ?thesis using r(1) b by simp
qed

theorem transmit_describes_witness:
  "\<exists>t0 bs t'. dq_NewTx True two_frames [] = Inr t0
     \<and> tx_build 0 [(\<lparr>d_addr = 400, d_len = 60, d_options = 0\<rparr>, None)] t0 = Some ([0x10100], bs, None, t')
     \<and> sends t' \<lparr>d_addr = 400, d_len = 60, d_options = 0\<rparr>"
proof -
  let ?d = "\<lparr>d_addr = 400, d_len = 60, d_options = 0\<rparr> :: desc"
  obtain t0 where t0: "dq_NewTx True two_frames [] = Inr t0" using fresh_tx by blast
  have cfg: "Returned two_frames = Some \<lparr>rg_buf = [0, 0], rg_mask = 1, rg_head = 0, rg_tail = 0\<rparr>" "in_memory two_frames"
    by (simp_all add: two_frames_def in_memory_def)
  note st = NewTx_starts(1) [OF t0 cfg(1)]
  have g: "q_geom t0" using st cfg(2) by (rule start_geom)
  have f: "q_cfg t0 = two_frames" "regionLen t0 = 512" "q_frameMask t0 = 255" "bufStart t0 = 128" "region (q_mem t0) = replicate 512 0"
    using st by (simp_all add: starts_def two_frames_def)
  have fo: "frameOf t0 400 = 256" "fsize t0 = 256" "descOK t0 ?d" by (simp_all add: frameOf_def f fsize_def two_frames_def descOK_def)
  obtain r where r: "PrepareTx (replicate 512 0) 256 (PoolVA two_frames) 16 60 = Some r"
    using PrepareTx_says [of 256 "replicate 512 0" "PoolVA two_frames" 16 60] by auto
  have "tx_build 0 [(?d, None)] t0 = Some ([0x10100], 60, None, t0\<lparr>q_mem := (q_mem t0)\<lparr>region := r\<rparr>\<rparr>)"
    using r by (simp add: tx_one_def fo f Let_def) (simp add: two_frames_def)
  then show ?thesis using t0 transmit_describes [OF g, of "[(?d, None)]"] fo(2) by simp
qed

end
