(* ===== verification/Dpdk_Rx.thy ===== *)
theory Dpdk_Rx
  imports Dpdk_Tx
begin

text \<open>
  Frame ownership in the DPDK receive queue. Every frame of the queue is on its free list, with a caller, waiting in the
  supply ring, or with the driver and its returned ring. The driver is any that keeps its documented contract
  (\<open>lawful_rx\<close>): it takes buffers from the supply ring, delivers each once or gives it back through the returned
  ring, and its data offsets stay in the buffer.
\<close>

section \<open>The driver's contract\<close>

definition rx_vas :: "('d \<Rightarrow> u64 list) \<Rightarrow> 'd shared \<Rightarrow> u64 multiset" where
  "rx_vas holds mem = mset (ring_abs (sup_ring mem)) + out_vas holds mem"

definition lawful_rx :: "'d config \<Rightarrow> 'd pmd \<Rightarrow> ('d \<Rightarrow> u64 list) \<Rightarrow> bool" where
  "lawful_rx cfg drv holds \<longleftrightarrow>
     (\<forall>n mem. ring_inv (sup_ring mem) \<and> ring_inv (returned mem) \<longrightarrow>
        (case RxBurst drv n mem of (got, vas, mem') \<Rightarrow>
           0 \<le> got \<and> got \<le> int n \<and> nat got \<le> length vas \<and> length (region mem') = length (region mem)
           \<and> ring_inv (sup_ring mem') \<and> ring_inv (returned mem') \<and> rx_vas holds mem' + mset (take (nat got) vas) = rx_vas holds mem
           \<and> (\<forall>va \<in> set (take (nat got) vas). \<forall>off. DataOff (region mem') (unat (va - RegionVA cfg)) = Some off \<longrightarrow>
                int (unat off) < BufferLen (Layout cfg))))"

section \<open>The partition\<close>

definition valid_va :: "('d, 'e) qbase_scheme \<Rightarrow> u64 \<Rightarrow> bool" where
  "valid_va b va \<longleftrightarrow> (\<exists>f. frame_in b f \<and> va = va_of b f)"

definition sup_frames :: "('d, 'e) qbase_scheme \<Rightarrow> u64 multiset" where
  "sup_frames b = image_mset (va_frame b) (mset (ring_abs (sup_ring (q_mem b))))"

definition rx_owned :: "bool \<Rightarrow> ('d \<Rightarrow> u64 list) \<Rightarrow> 'd drx \<Rightarrow> u64 multiset \<Rightarrow> bool" where
  "rx_owned chk holds q held \<longleftrightarrow> partitioned chk holds {} q (held + sup_frames q) \<and> ring_inv (sup_ring (q_mem q))
     \<and> (\<forall>va \<in> set (ring_abs (sup_ring (q_mem q))). valid_va q va) \<and> outstanding q = int (size (rx_vas holds (q_mem q)))"

lemma valid_va_frame:
  assumes "q_geom b" "valid_va b va"
  shows "va_of b (va_frame b va) = va" "frame_in b (va_frame b va)"
  using assms va_frame_va_of [OF assms(1)] by (auto simp: valid_va_def)

lemma frames_of_vas:
  assumes "q_geom b" "\<forall>f \<in> set fs. frame_in b f"
  shows "image_mset (va_frame b) (mset (map (va_of b) fs)) = mset fs"
  using assms va_frame_va_of [OF assms(1)] by (induction fs) auto

text \<open>A change of the shared memory that moves buffers between the driver, its ring and the rest.\<close>

lemma part_mem:
  assumes "partitioned chk holds F b rest" "length (region mem) = length (region (q_mem b))" "ring_inv (returned mem)"
    "\<forall>va \<in># out_vas holds mem. valid_va b va" "image_mset (va_frame b) (out_vas holds mem) + rest' = out_frames holds b + rest"
  shows "partitioned chk holds F (b\<lparr>q_mem := mem\<rparr>) rest'"
proof -
  have a: "frame_in (b\<lparr>q_mem := mem\<rparr>) = frame_in b" "va_of (b\<lparr>q_mem := mem\<rparr>) = va_of b" "va_frame (b\<lparr>q_mem := mem\<rparr>) = va_frame b"
    by (rule same_addr, simp_all add: assms(2))+
  have g: "q_geom (b\<lparr>q_mem := mem\<rparr>) = q_geom b" by (rule same_geom) (simp_all add: assms(2))
  have u: "universe (b\<lparr>q_mem := mem\<rparr>) F = universe b F" by (simp add: universe_def)
  have o: "out_frames holds (b\<lparr>q_mem := mem\<rparr>) + rest' = out_frames holds b + rest" using assms(5) by (simp add: out_frames_def a)
  have "mset (free (q_pool b)) + rest + out_frames holds b = mset_set (universe b F)" using assms(1) by (simp add: partitioned_def)
  then have "mset (free (q_pool b)) + rest' + out_frames holds (b\<lparr>q_mem := mem\<rparr>) = mset_set (universe b F)"
    using o by (metis add.assoc add.commute)
  then show ?thesis using assms(1,3,4) unfolding partitioned_def g a u valid_va_def by simp
qed

lemma part_out_valid: "partitioned chk holds F b rest \<Longrightarrow> \<forall>va \<in># out_vas holds (q_mem b). valid_va b va"
  by (simp add: partitioned_def valid_va_def)

lemma rx_cong:
  assumes "q_cfg b' = q_cfg b" "q_mem b' = q_mem b" "q_pool b' = q_pool b" "regionLen b' = regionLen b" "q_frameMask b' = q_frameMask b"
    "dataStart b' = dataStart b" "bufStart b' = bufStart b" "dead b' = dead b" "outstanding b' = outstanding b"
  shows "rx_owned chk holds b' held = rx_owned chk holds b held"
proof -
  have a: "frame_in b' = frame_in b" "va_of b' = va_of b" "va_frame b' = va_frame b" by (rule same_addr, simp_all add: assms)+
  have v: "valid_va b' = valid_va b" by (simp add: fun_eq_iff valid_va_def a)
  have s: "sup_frames b' = sup_frames b" by (simp add: sup_frames_def a assms)
  have p: "partitioned chk holds {} b' rest = partitioned chk holds {} b rest" for rest by (rule part_cong) (simp_all add: assms)
  show ?thesis unfolding rx_owned_def v s p assms ..
qed

section \<open>Fill\<close>

lemma fill_mbufs_spec:
  assumes "q_geom q" "\<forall>f \<in> set fs. frame_in q f"
  shows "\<exists>r. fill_mbufs fs q = Some (map (va_of q) fs, q\<lparr>q_mem := (q_mem q)\<lparr>region := r\<rparr>\<rparr>) \<and> length r = length (region (q_mem q))"
  using assms
proof (induction fs arbitrary: q)
  case Nil
  then show ?case by (intro exI [of _ "region (q_mem q)"]) simp
next
  case (Cons f fs)
  have "unat f + mhdr q + 128 \<le> length (region (q_mem q))" using mbuf_room(2) [OF Cons.prems(1)] Cons.prems(2) by simp
  then obtain r where r0: "ResetRx (region (q_mem q)) (unat f + mhdr q) (of_int (Headroom (Layout (q_cfg q)))) (PoolVA (q_cfg q)) = Some r"
      "field_kept (unat f + mhdr q + 16) (unat f + mhdr q + 72) (region (q_mem q)) r" by (rule ResetRx_kept)
  note r = r0(1) kept_length [OF r0(2)]
  let ?q = "q\<lparr>q_mem := (q_mem q)\<lparr>region := r\<rparr>\<rparr>"
  have a: "frame_in ?q = frame_in q" "va_of ?q = va_of q" by (rule same_addr, simp_all add: r(2))+
  have g: "q_geom ?q = q_geom q" by (rule same_geom) (simp_all add: r(2))
  obtain r' where "fill_mbufs fs ?q = Some (map (va_of ?q) fs, ?q\<lparr>q_mem := (q_mem ?q)\<lparr>region := r'\<rparr>\<rparr>)" "length r' = length (region (q_mem ?q))"
    using Cons.IH [of ?q] Cons.prems g a by auto
  then show ?case using r by (intro exI [of _ r']) (simp add: a va_of_def [of q f] flip: mhdr_def)
qed

text \<open>Handing frames to the supply ring.\<close>

lemma supply_part:
  assumes "partitioned chk holds {} q (held + sup_frames q + mset xs)" "ring_inv (sup_ring (q_mem q))"
    "\<forall>va \<in> set (ring_abs (sup_ring (q_mem q))). valid_va q va" "\<forall>f \<in> set xs. frame_in q f" "length r = length (region (q_mem q))"
    "ring_inv s" "ring_abs s = ring_abs (sup_ring (q_mem q)) @ take n (map (va_of q) xs)"
  defines "q' \<equiv> q\<lparr>q_mem := (q_mem q)\<lparr>region := r, sup_ring := s\<rparr>\<rparr>"
  shows "partitioned chk holds {} q' (held + sup_frames q' + mset (drop n xs))" "\<forall>va \<in> set (ring_abs s). valid_va q' va"
proof -
  have a: "frame_in q' = frame_in q" "va_of q' = va_of q" "va_frame q' = va_frame q" by (rule same_addr, simp_all add: q'_def assms(5))+
  have g: "q_geom q" using assms(1) by (simp add: partitioned_def)
  show "\<forall>va \<in> set (ring_abs s). valid_va q' va" using assms(3,4,7) by (auto simp: valid_va_def a take_map dest!: in_set_takeD)
  have o: "out_vas holds (q_mem q') = out_vas holds (q_mem q)" by (simp add: q'_def out_vas_def)
  have "image_mset (va_frame q) (mset (map (va_of q) (take n xs))) = mset (take n xs)"
    by (rule frames_of_vas [OF g]) (use assms(4) in \<open>auto dest: in_set_takeD\<close>)
  then have s: "sup_frames q' = sup_frames q + mset (take n xs)" unfolding sup_frames_def a using assms(7)
    by (simp add: q'_def take_map)
  have x: "mset xs = mset (take n xs) + mset (drop n xs)" by (simp flip: mset_append)
  have ri: "ring_inv (returned (q_mem q))" using assms(1) by (simp add: partitioned_def)
  have "partitioned chk holds {} (q\<lparr>q_mem := q_mem q'\<rparr>) (held + sup_frames q' + mset (drop n xs))"
    by (rule part_mem [OF assms(1)])
      (use ri part_out_valid [OF assms(1)] in \<open>simp_all add: o s x out_frames_def assms(5), simp_all add: q'_def assms(5)\<close>)
  then show "partitioned chk holds {} q' (held + sup_frames q' + mset (drop n xs))" by (simp add: q'_def)
qed

lemma Fill_owned:
  assumes own: "rx_owned chk holds q held"
  shows "\<exists>n q'. dq_Fill chk k q = Some (n, q') \<and> rx_owned chk holds q' held \<and> same_queue q q'"
proof -
  have part: "partitioned chk holds {} q (held + sup_frames q)" and sr: "ring_inv (sup_ring (q_mem q))"
    and sv: "\<forall>va \<in> set (ring_abs (sup_ring (q_mem q))). valid_va q va" and out: "outstanding q = int (size (rx_vas holds (q_mem q)))"
    using own by (auto simp: rx_owned_def)
  define G where "G r \<longleftrightarrow> (\<exists>n q'. r = Some (n :: nat, q') \<and> rx_owned chk holds q' held \<and> same_queue q q')" for r
  have same: "G (Some (n, q))" for n using own by (simp add: G_def)
  have stats: "G (Some (n, q\<lparr>rxStats := st\<rparr>))" for n st
    unfolding G_def using own rx_cong [of "q\<lparr>rxStats := st\<rparr>" q] by (simp add: same_queue_def)
  have main: "G (do { (addrs, p) \<leftarrow> Pop chk n1 [] (q_pool q);
                      (vas, q1) \<leftarrow> fill_mbufs addrs (q\<lparr>q_pool := p\<rparr>);
                      (posted, s) \<leftarrow> ring_Push vas (sup_ring (q_mem q1));
                      q2 \<leftarrow> push_frames chk (drop posted addrs) (q1\<lparr>q_mem := (q_mem q1)\<lparr>sup_ring := s\<rparr>\<rparr>);
                      Some (posted, q2\<lparr>outstanding := outstanding q2 + int posted,
                                       rxStats := (rxStats q2)\<lparr>rFilled := rFilled (rxStats q2) + of_nat posted\<rparr>\<rparr>) })" (is "G ?do") for n1
  proof -
    obtain xs p where p: "Pop chk n1 [] (q_pool q) = Some (xs, p)" "partitioned chk holds {} (q\<lparr>q_pool := p\<rparr>) (held + sup_frames q + mset xs)"
        "set xs \<subseteq> all_frames (q_pool q)" "all_frames p = all_frames (q_pool q)" using pop_part [OF part, of n1] by metis
    let ?q = "q\<lparr>q_pool := p\<rparr>"
    have a: "frame_in ?q = frame_in q" "va_of ?q = va_of q" "va_frame ?q = va_frame q" by (rule same_addr, simp_all)+
    have fi: "\<forall>f \<in> set xs. frame_in ?q f" using p(2,3) by (auto simp: partitioned_def universe_def p(4))
    have gq: "q_geom ?q" using p(2) by (simp add: partitioned_def)
    obtain r where r: "fill_mbufs xs ?q = Some (map (va_of ?q) xs, ?q\<lparr>q_mem := (q_mem ?q)\<lparr>region := r\<rparr>\<rparr>)" "length r = length (region (q_mem ?q))"
      using fill_mbufs_spec [OF gq fi] by blast
    obtain n s where s: "ring_Push (map (va_of ?q) xs) (sup_ring (q_mem q)) = Some (n, s)" "ring_inv s"
        "ring_abs s = ring_abs (sup_ring (q_mem q)) @ take n (map (va_of ?q) xs)" "n \<le> length xs"
      using ring_Push_spec [OF sr, of "map (va_of ?q) xs"] by (metis length_map min.cobounded1)
    let ?q2 = "?q\<lparr>q_mem := (q_mem ?q)\<lparr>region := r, sup_ring := s\<rparr>\<rparr>"
    have sf: "sup_frames ?q = sup_frames q" by (simp add: sup_frames_def a)
    have q2: "partitioned chk holds {} ?q2 (held + sup_frames ?q2 + mset (drop n xs))" "\<forall>va \<in> set (ring_abs s). valid_va ?q2 va"
      by (rule supply_part [of chk holds ?q held xs]; use p(2) sf sr sv fi r(2) s in \<open>auto simp: valid_va_def a\<close>)+
    have "set (drop n xs) \<subseteq> all_frames (q_pool ?q2)" using p(3,4) by (auto dest: in_set_dropD)
    then obtain p2 where p2: "push_frames chk (drop n xs) ?q2 = Some (?q2\<lparr>q_pool := p2\<rparr>)"
        "partitioned chk holds {} (?q2\<lparr>q_pool := p2\<rparr>) (held + sup_frames ?q2)" "all_frames p2 = all_frames (q_pool ?q2)"
      using push_frames_part [OF q2(1)] by blast
    define q3 where "q3 = ?q2\<lparr>q_pool := p2, outstanding := outstanding q + int n, rxStats := (rxStats q)\<lparr>rFilled := rFilled (rxStats q) + of_nat n\<rparr>\<rparr>"
    have do: "?do = Some (n, q3)" using p(1) r(1) s(1) p2(1) by (simp add: q3_def)
    have a3: "frame_in q3 = frame_in ?q2" "va_of q3 = va_of ?q2" "va_frame q3 = va_frame ?q2" by (rule same_addr, simp_all add: q3_def)+
    have "partitioned chk holds {} q3 (held + sup_frames ?q2) = partitioned chk holds {} (?q2\<lparr>q_pool := p2\<rparr>) (held + sup_frames ?q2)"
      by (rule part_cong) (simp_all add: q3_def)
    then have "partitioned chk holds {} q3 (held + sup_frames q3)" using p2(2) by (simp add: sup_frames_def a3, simp add: q3_def)
    moreover have "size (rx_vas holds (q_mem q3)) = size (rx_vas holds (q_mem q)) + n"
      using arg_cong [OF s(3), of length] s(4) by (simp add: rx_vas_def out_vas_def q3_def)
    moreover have "\<forall>va \<in> set (ring_abs (sup_ring (q_mem q3))). valid_va q3 va" using q2(2) by (simp add: valid_va_def a3, simp add: q3_def)
    ultimately have "rx_owned chk holds q3 held" using s(2) out by (simp add: rx_owned_def, simp add: q3_def)
    moreover have "same_queue q q3" using p(4) p2(3) r(2) by (simp add: same_queue_def q3_def)
    ultimately show ?thesis unfolding do G_def by blast
  qed
  have "G (dq_Fill chk k q)" unfolding dq_Fill_def Let_def by (simp only: if_split same stats main) simp
  then show ?thesis by (simp add: G_def)
qed

section \<open>Receive\<close>

lemma rx_one_spec:
  assumes part: "partitioned chk holds {} q (add_mset f R)" and fi: "frame_in q f" "f \<in> all_frames (q_pool q)"
    and off: "\<forall>off. DataOff (region (q_mem q)) (unat f + mhdr q) = Some off \<longrightarrow> unat (bufStart q) + unat off < fsize q"
  shows "\<exists>d p st. rx_one chk (va_of q f) q = Some (d, True, q\<lparr>q_pool := p, rxStats := st\<rparr>) \<and> all_frames p = all_frames (q_pool q)
     \<and> (case d of None \<Rightarrow> partitioned chk holds {} (q\<lparr>q_pool := p\<rparr>) R
         | Some x \<Rightarrow> partitioned chk holds {} (q\<lparr>q_pool := p\<rparr>) (add_mset f R) \<and> descOK q x \<and> frameOf q (d_addr x) = f)"
    (is "\<exists>d p st. ?G d p st")
proof -
  have g: "q_geom q" using part by (simp add: partitioned_def)
  have gg: "mhdr q < fsize q" "length (region (q_mem q)) < 2 ^ 63" using g by (auto simp: q_geom_def)
  have e: "unat f + fsize q \<le> length (region (q_mem q))" by (rule q_frame_end [OF g fi(1)])
  have "unat (of_nat (unat f + mhdr q) :: u64) = unat f + mhdr q"
    using gg e by (simp add: unsigned_of_nat take_bit_nat_eq_self del: of_nat_add)
  then have fo: "frameOf q (of_nat (unat f + mhdr q)) = f" using gg by (intro frameOf_inside [OF g fi(1)])
  then have fo': "frameOf q (f + of_nat (mhdr q)) = f" by simp
  have room: "unat f + mhdr q + 128 \<le> length (region (q_mem q))" by (rule mbuf_room(2) [OF g fi(1)])
  obtain a n l fl where rd: "DataOff (region (q_mem q)) (unat f + mhdr q) = Some a" "RxRead (region (q_mem q)) (unat f + mhdr q) = Some (a, n, l, fl)"
    using room fetch_defined(3) [of "unat f + mhdr q + 16" "region (q_mem q)"] fetch_defined(3) [of "unat f + mhdr q + 20" "region (q_mem q)"]
      fetch_defined(3) [of "unat f + mhdr q + 40" "region (q_mem q)"] fetch_defined(1) [of "unat f + mhdr q + 24" "region (q_mem q)"]
    by (auto simp: RxRead_fields DataOff_def NbSegs_def DataLen_def OlFlags_def mbuf_offsets)
  obtain p where p: "Push chk f (q_pool q) = Some p" "partitioned chk holds {} (q\<lparr>q_pool := p\<rparr>) R" "all_frames p = all_frames (q_pool q)"
    using push_part [OF part fi(2)] by metis
  let ?d = "\<lparr>d_addr = f + bufStart q + ucast a, d_len = ucast l, d_options = 0\<rparr> :: desc"
  note one = rx_one_def offsetOfVA_va_of [OF g fi(1)] fo rd(2) Let_def p(1)
  show ?thesis
  proof (cases "n = 1 \<and> descOK q ?d")
    case False
    then show ?thesis
      by (intro exI [of _ None] exI [of _ p] exI [of _ "if n \<noteq> 1 then (rxStats q)\<lparr>rChained := rChained (rxStats q) + 1\<rparr> else (rxStats q)\<lparr>rBadLen := rBadLen (rxStats q) + 1\<rparr>"])
        (use p in \<open>auto simp: one fo' rd(2) simp flip: mhdr_def\<close>)
  next
    case True
    have o: "unat (bufStart q) + unat a < fsize q" using off rd(1) by blast
    have ua: "unat (ucast a :: u64) = unat a" by (simp add: unat_ucast_up)
    have u1: "unat (f + bufStart q) = unat f + unat (bufStart q)" by (rule unat_plus_exact) (use e o gg in simp)
    have "unat (f + bufStart q + ucast a) = unat f + unat (bufStart q) + unat a" by (subst unat_plus_exact) (use e o gg ua u1 in simp_all)
    then have fr: "frameOf q (f + bufStart q + ucast a) = f" using o by (intro frameOf_inside [OF g fi(1)]) simp_all
    define opts where "opts = (if fl AND RxIPChecksumGood \<noteq> 0
                                        then if fl AND RxL4ChecksumGood \<noteq> 0 then OptL3ChecksumOK OR OptChecksumOK else OptL3ChecksumOK
                                        else 0)"
    have "rx_one chk (va_of q f) q = Some (Some (?d\<lparr>d_options := opts\<rparr>), True, q)"
      using True by (simp add: one fo' rd(2) opts_def flip: mhdr_def)
    moreover have "descOK q (?d\<lparr>d_options := opts\<rparr>)" using True by (auto simp: descOK_def Let_def split: if_splits)
    ultimately show ?thesis
      by (intro exI [of _ "Some (?d\<lparr>d_options := opts\<rparr>)"] exI [of _ "q_pool q"] exI [of _ "rxStats q"]) (use part fr in simp)
  qed
qed

lemma rx_all_spec:
  assumes "partitioned chk holds {} q (R + mset fs)" "\<forall>f \<in> set fs. frame_in q f" "set fs \<subseteq> all_frames (q_pool q)"
    "\<forall>f \<in> set fs. \<forall>off. DataOff (region (q_mem q)) (unat f + mhdr q) = Some off \<longrightarrow> unat (bufStart q) + unat off < fsize q"
  shows "\<exists>ds p st. rx_all chk (map (va_of q) fs) q = Some (ds, length fs, q\<lparr>q_pool := p, rxStats := st\<rparr>) \<and> all_frames p = all_frames (q_pool q)
     \<and> length ds \<le> length fs \<and> partitioned chk holds {} (q\<lparr>q_pool := p\<rparr>) (R + frames_of q ds) \<and> (\<forall>d \<in> set ds. descOK q d)"
  using assms
proof (induction fs arbitrary: q R)
  case Nil
  then show ?case by (intro exI [of _ "[]"] exI [of _ "q_pool q"] exI [of _ "rxStats q"]) (simp add: frames_of_def)
next
  case (Cons f fs)
  obtain d p st where one: "rx_one chk (va_of q f) q = Some (d, True, q\<lparr>q_pool := p, rxStats := st\<rparr>)" "all_frames p = all_frames (q_pool q)"
      "case d of None \<Rightarrow> partitioned chk holds {} (q\<lparr>q_pool := p\<rparr>) (R + mset fs)
         | Some x \<Rightarrow> partitioned chk holds {} (q\<lparr>q_pool := p\<rparr>) (add_mset f (R + mset fs)) \<and> descOK q x \<and> frameOf q (d_addr x) = f"
    using rx_one_spec [of chk holds q f "R + mset fs"] Cons.prems by auto
  let ?q = "q\<lparr>q_pool := p, rxStats := st\<rparr>"
  let ?R = "R + frames_of q (case d of None \<Rightarrow> [] | Some x \<Rightarrow> [x])"
  have a: "frame_in ?q = frame_in q" "va_of ?q = va_of q" "frameOf ?q = frameOf q" "fsize ?q = fsize q" "mhdr ?q = mhdr q" by (rule same_addr, simp_all)+
  have do: "descOK ?q = descOK q" by (rule same_descOK) simp_all
  have fo: "frames_of ?q = frames_of q" by (simp add: fun_eq_iff frames_of_def a)
  have c: "partitioned chk holds {} ?q rest = partitioned chk holds {} (q\<lparr>q_pool := p\<rparr>) rest" for rest by (rule part_cong) simp_all
  have "partitioned chk holds {} ?q (?R + mset fs)" unfolding c using one(3) by (cases d) (simp_all add: frames_of_def)
  then obtain ds p' st' where r: "rx_all chk (map (va_of q) fs) ?q = Some (ds, length fs, ?q\<lparr>q_pool := p', rxStats := st'\<rparr>)"
      "all_frames p' = all_frames p" "length ds \<le> length fs" "partitioned chk holds {} (?q\<lparr>q_pool := p'\<rparr>) (?R + frames_of q ds)" "\<forall>d \<in> set ds. descOK q d"
    using Cons.IH [of ?q ?R] Cons.prems one(2) by (auto simp: a do fo)
  let ?ds = "case d of Some x \<Rightarrow> x # ds | None \<Rightarrow> ds"
  have "rx_all chk (map (va_of q) (f # fs)) q = Some (?ds, length (f # fs), q\<lparr>q_pool := p', rxStats := st'\<rparr>)"
    using one(1) r(1) by (simp split: option.split)
  moreover have "partitioned chk holds {} (?q\<lparr>q_pool := p'\<rparr>) rest = partitioned chk holds {} (q\<lparr>q_pool := p'\<rparr>) rest" for rest by (rule part_cong) simp_all
  then have "partitioned chk holds {} (q\<lparr>q_pool := p'\<rparr>) (R + frames_of q ?ds)"
    using r(4) by (cases d) (simp_all add: frames_of_def)
  moreover have "length ?ds \<le> length (f # fs)" "\<forall>x \<in> set ?ds. descOK q x" using r(3,5) one(3) by (auto split: option.splits)
  ultimately show ?case using r(2) one(2) by blast
qed

lemma Receive_owned:
  assumes own: "rx_owned chk holds q held" and drv: "PMD (q_cfg q) = Some drv" "lawful_rx (q_cfg q) drv holds"
    and bs: "int (unat (bufStart q)) = ObjHeader (Layout (q_cfg q)) + MbufSize (Layout (q_cfg q))"
  shows "\<exists>ds q'. dq_Receive chk k q = Some (ds, q') \<and> rx_owned chk holds q' (held + frames_of q ds) \<and> same_queue q q'
     \<and> int (length ds) \<le> max 0 k \<and> (\<forall>d \<in> set ds. descOK q d)"
proof -
  have part: "partitioned chk holds {} q (held + sup_frames q)" and sr: "ring_inv (sup_ring (q_mem q))"
    and sv: "\<forall>va \<in> set (ring_abs (sup_ring (q_mem q))). valid_va q va" and out: "outstanding q = int (size (rx_vas holds (q_mem q)))"
    using own by (auto simp: rx_owned_def)
  have g: "q_geom q" and rr: "ring_inv (returned (q_mem q))" using part by (simp_all add: partitioned_def)
  define G where "G r \<longleftrightarrow> (\<exists>ds q'. r = Some (ds, q') \<and> rx_owned chk holds q' (held + frames_of q ds) \<and> same_queue q q'
     \<and> int (length ds) \<le> max 0 k \<and> (\<forall>d \<in> set ds. descOK q d))" for r
  have same: "G (Some ([], q))" using own by (simp add: G_def frames_of_def)
  let ?m = "if k > int (burst_len q) then int (burst_len q) else k"
  obtain got vas mem where b: "RxBurst drv (nat ?m) (q_mem q) = (got, vas, mem)" by (metis surj_pair)
  have l: "0 \<le> got" "got \<le> int (nat ?m)" "nat got \<le> length vas" "length (region mem) = length (region (q_mem q))"
      "ring_inv (sup_ring mem)" "ring_inv (returned mem)" "rx_vas holds mem + mset (take (nat got) vas) = rx_vas holds (q_mem q)"
      "\<And>va off. va \<in> set (take (nat got) vas) \<Longrightarrow> DataOff (region mem) (unat (va - RegionVA (q_cfg q))) = Some off \<Longrightarrow>
         int (unat off) < BufferLen (Layout (q_cfg q))"
    using drv(2) sr rr b unfolding lawful_rx_def by (auto dest!: spec [of _ "nat ?m"] spec [of _ "q_mem q"])
  let ?q = "q\<lparr>q_mem := mem\<rparr>" and ?fs = "map (va_frame q) (take (nat got) vas)"
  have a: "frame_in ?q = frame_in q" "va_of ?q = va_of q" "va_frame ?q = va_frame q" "frameOf ?q = frameOf q" "fsize ?q = fsize q" "mhdr ?q = mhdr q"
    by (rule same_addr, simp_all add: l(4))+
  have val: "valid_va q va" if "va \<in># rx_vas holds mem \<or> va \<in> set (take (nat got) vas)" for va
  proof -
    have "va \<in># rx_vas holds (q_mem q)" unfolding l(7) [symmetric] using that by auto
    then show ?thesis using sv part_out_valid [OF part] by (auto simp: rx_vas_def)
  qed
  have p1: "partitioned chk holds {} ?q ((held + sup_frames ?q) + mset ?fs)"
  proof (rule part_mem [OF part l(4,6)])
    show "\<forall>va \<in># out_vas holds mem. valid_va q va" using val by (auto simp: rx_vas_def)
    have "image_mset (va_frame q) (rx_vas holds mem + mset (take (nat got) vas)) = image_mset (va_frame q) (rx_vas holds (q_mem q))"
      by (simp only: l(7))
    then show "image_mset (va_frame q) (out_vas holds mem) + (held + sup_frames ?q + mset ?fs) = out_frames holds q + (held + sup_frames q)"
      by (simp add: rx_vas_def sup_frames_def a out_frames_def ac_simps)
  qed
  have vs: "map (va_of ?q) ?fs = take (nat got) vas" unfolding a using val valid_va_frame(1) [OF g] by (simp add: comp_def map_idI)
  have fi: "\<forall>f \<in> set ?fs. frame_in ?q f" unfolding a using val valid_va_frame(2) [OF g] by auto
  have fa: "set ?fs \<subseteq> all_frames (q_pool ?q)"
    using part_not_free(3) [OF p1] by (auto simp: universe_def)
  have fo: "\<forall>f \<in> set ?fs. \<forall>off. DataOff (region (q_mem ?q)) (unat f + mhdr ?q) = Some off \<longrightarrow> unat (bufStart ?q) + unat off < fsize ?q"
  proof (intro ballI allI impI)
    fix f off assume f: "f \<in> set ?fs" "DataOff (region (q_mem ?q)) (unat f + mhdr ?q) = Some off"
    then obtain va where va: "va \<in> set (take (nat got) vas)" "f = va_frame q va" by auto
    have "va = va_of q f" "frame_in q f" using va val valid_va_frame [OF g] by simp_all
    then have "unat (va - RegionVA (q_cfg q)) = unat f + mhdr q"
      using mbuf_room(2) [OF g, of f] g by (simp add: va_of_def unsigned_of_nat take_bit_nat_eq_self q_geom_def del: of_nat_add)
    then have "int (unat off) < BufferLen (Layout (q_cfg q))" using l(8) [OF va(1)] f(2) by (simp add: a)
    then have "unat (bufStart q) + unat off < fsize q" using bs unfolding BufferLen_def fsize_def by linarith
    then show "unat (bufStart ?q) + unat off < fsize ?q" by (simp add: a)
  qed
  obtain ds p st where r: "rx_all chk (take (nat got) vas) ?q = Some (ds, length ?fs, ?q\<lparr>q_pool := p, rxStats := st\<rparr>)"
      "all_frames p = all_frames (q_pool ?q)" "length ds \<le> length ?fs" "partitioned chk holds {} (?q\<lparr>q_pool := p\<rparr>) (held + sup_frames ?q + frames_of ?q ds)"
      "\<forall>d \<in> set ds. descOK ?q d" using rx_all_spec [OF p1 fi fa fo] unfolding vs by blast
  have n: "length ?fs = nat got" using l(3) by simp
  have f0: "frames_of ?q ds = frames_of q ds" "descOK ?q = descOK q" by (simp add: frames_of_def a, rule same_descOK, simp_all)
  have n0: "size (rx_vas holds (q_mem q)) = size (rx_vas holds mem) + nat got" using arg_cong [OF l(7), of size] l(3) by simp
  have vq: "\<forall>va \<in> set (ring_abs (sup_ring mem)). valid_va q va" using val by (auto simp: rx_vas_def)
  have fin: "G (Some (ds, ?q\<lparr>q_pool := p, outstanding := outstanding q - got, rxStats := st'\<rparr>))" for st'
  proof -
    define q' where "q' = ?q\<lparr>q_pool := p, outstanding := outstanding q - got, rxStats := st'\<rparr>"
    have m: "q_mem q' = mem" "outstanding q' = int (size (rx_vas holds mem))" using out n0 l(1) by (simp_all add: q'_def)
    have a': "frame_in q' = frame_in q" "va_of q' = va_of q" "va_frame q' = va_frame q" by (rule same_addr, simp_all add: l(4) q'_def)+
    have "partitioned chk holds {} q' rest = partitioned chk holds {} (?q\<lparr>q_pool := p\<rparr>) rest" for rest by (rule part_cong) (simp_all add: q'_def)
    moreover have "sup_frames q' = sup_frames ?q" by (simp add: sup_frames_def a a' m)
    ultimately have "partitioned chk holds {} q' (held + frames_of q ds + sup_frames q')" using r(4) by (simp add: f0 ac_simps)
    then have "rx_owned chk holds q' (held + frames_of q ds)" using l(5) vq by (simp add: rx_owned_def valid_va_def a' m)
    moreover have "int (length ds) \<le> max 0 k" using r(3) n l(1,2) by (auto split: if_splits)
    moreover have "same_queue q q'" using r(2) l(4) by (simp add: same_queue_def q'_def)
    ultimately show ?thesis unfolding G_def q'_def [symmetric] using r(5) f0 by auto
  qed
  have none: "G (Some ([], ?q))" if "got \<le> 0"
  proof -
    have "got = 0" using that l(1) by simp
    then have "partitioned chk holds {} ?q (held + sup_frames ?q)" "size (rx_vas holds (q_mem q)) = size (rx_vas holds mem)" using p1 n0 by simp_all
    then have "rx_owned chk holds ?q held" using l(5) vq out by (simp add: rx_owned_def valid_va_def a)
    then show ?thesis using l(4) by (simp add: G_def frames_of_def same_queue_def)
  qed
  have "G (dq_Receive chk k q)"
  proof (cases "closed q \<or> k \<le> 0 \<or> dead q \<noteq> None")
    case True
    then show ?thesis using same by (simp add: dq_Receive_def)
  next
    case False
    then have m: "got \<le> ?m" using l(2) by (auto split: if_splits)
    show ?thesis
    proof (cases "got \<le> 0")
      case True
      then show ?thesis using False none b drv(1) by (simp add: dq_Receive_def Let_def)
    next
      case got: False
      then have "0 < length ?fs" using n by simp
      have "?q\<lparr>q_pool := p, rxStats := st, outstanding := outstanding q - got\<rparr> = ?q\<lparr>q_pool := p, outstanding := outstanding q - got, rxStats := st\<rparr>"
        by (cases q) simp
      then have fin2: "G (Some (ds, ?q\<lparr>q_pool := p, rxStats := st, outstanding := outstanding q - got\<rparr>))" using fin by (simp only:)
      show ?thesis using \<open>0 < length ?fs\<close> False got m b drv(1) r(1) n fin fin2 by (cases "ds = []") (simp_all add: dq_Receive_def Let_def not_less)
    qed
  qed
  then show ?thesis by (simp add: G_def)
qed

section \<open>Recycle and DrainReturned\<close>

text \<open>An operation that only gives frames back to the pool.\<close>

lemma rx_pushed:
  assumes "partitioned chk holds {} (q\<lparr>q_pool := p\<rparr>) (held + sup_frames q)" "ring_inv (sup_ring (q_mem q))"
    "\<forall>va \<in> set (ring_abs (sup_ring (q_mem q))). valid_va q va" "outstanding q = int (size (rx_vas holds (q_mem q)))"
  shows "rx_owned chk holds (q\<lparr>q_pool := p\<rparr>) held"
proof -
  have a: "frame_in (q\<lparr>q_pool := p\<rparr>) = frame_in q" "va_of (q\<lparr>q_pool := p\<rparr>) = va_of q" "va_frame (q\<lparr>q_pool := p\<rparr>) = va_frame q"
    by (rule same_addr, simp_all)+
  have "sup_frames (q\<lparr>q_pool := p\<rparr>) = sup_frames q" by (simp add: sup_frames_def a)
  then show ?thesis using assms by (simp add: rx_owned_def valid_va_def a)
qed

lemma Recycle_owned:
  assumes own: "rx_owned chk holds q held" and sub: "frames_of q ds \<subseteq># held"
  shows "\<exists>q'. dq_Recycle chk ds q = Some q' \<and> rx_owned chk holds q' (held - frames_of q ds) \<and> same_queue q q'"
proof -
  have part: "partitioned chk holds {} q (held + sup_frames q)" using own by (simp add: rx_owned_def)
  have g: "q_geom q" using part by (simp add: partitioned_def)
  let ?fs = "map (\<lambda>d. frameOf q (d_addr d)) ds"
  define H where "H = held - frames_of q ds"
  have h: "held = H + mset ?fs" using subset_mset.diff_add [OF sub] by (simp add: frames_of_def H_def)
  have p1: "partitioned chk holds {} q ((H + sup_frames q) + mset ?fs)" using part unfolding h by (simp add: ac_simps)
  have "set ?fs \<subseteq> all_frames (q_pool q)"
  proof
    fix f assume "f \<in> set ?fs"
    then have "f \<in># (H + sup_frames q) + mset ?fs" by simp
    then show "f \<in> all_frames (q_pool q)" using part_not_free(3) [OF p1] by (auto simp: universe_def)
  qed
  then obtain p where p: "push_frames chk ?fs q = Some (q\<lparr>q_pool := p\<rparr>)" "all_frames p = all_frames (q_pool q)"
      "partitioned chk holds {} (q\<lparr>q_pool := p\<rparr>) (H + sup_frames q)" using push_frames_part [OF p1] by blast
  then show ?thesis using own rx_pushed [OF p(3)] by (simp add: dq_Recycle_def Base_frameOf [OF g] same_queue_def rx_owned_def H_def)
qed

lemma drain_each_spec:
  assumes "partitioned chk holds {} q (R + mset fs)" "\<forall>f \<in> set fs. frame_in q f" "set fs \<subseteq> all_frames (q_pool q)"
  shows "\<exists>p. drain_each chk (map (va_of q) fs) q = Some (length fs, q\<lparr>q_pool := p\<rparr>) \<and> partitioned chk holds {} (q\<lparr>q_pool := p\<rparr>) R
     \<and> all_frames p = all_frames (q_pool q)"
  using assms
proof (induction fs arbitrary: q)
  case Nil
  then show ?case by (intro exI [of _ "q_pool q"]) simp
next
  case (Cons f fs)
  have g: "q_geom q" and fi: "frame_in q f" using Cons.prems by (auto simp: partitioned_def)
  obtain p where p: "Push chk f (q_pool q) = Some p" "partitioned chk holds {} (q\<lparr>q_pool := p\<rparr>) (R + mset fs)" "all_frames p = all_frames (q_pool q)"
    using push_part [of chk holds "{}" q f "R + mset fs"] Cons.prems by auto
  let ?q = "q\<lparr>q_pool := p\<rparr>"
  have a: "frame_in ?q = frame_in q" "va_of ?q = va_of q" by (rule same_addr, simp_all)+
  obtain p' where r: "drain_each chk (map (va_of q) fs) ?q = Some (length fs, ?q\<lparr>q_pool := p'\<rparr>)" "partitioned chk holds {} (?q\<lparr>q_pool := p'\<rparr>) R"
      "all_frames p' = all_frames p" using Cons.IH [OF p(2)] Cons.prems p(3) by (auto simp: a)
  have "frameOf q (of_nat (unat f + mhdr q)) = f" using va_frame_va_of [OF g fi] by (simp add: va_frame_def offsetOfVA_va_of [OF g fi])
  then have "drain_each chk (map (va_of q) (f # fs)) q = Some (length (f # fs), q\<lparr>q_pool := p'\<rparr>)"
    using p(1) r(1) by (simp add: offsetOfVA_va_of [OF g fi] del: of_nat_add)
  then show ?case using r p(3) by (intro exI [of _ p']) simp
qed

lemma Drain_owned:
  assumes own: "rx_owned chk holds q held"
  shows "\<exists>n q'. DrainReturned chk q = Some (n, q') \<and> rx_owned chk holds q' held \<and> same_queue q q' \<and> n = ring_Len (returned (q_mem q))
     \<and> ring_Len (returned (q_mem q')) = 0"
proof (cases "ring_Len (returned (q_mem q)) = 0")
  case True
  then show ?thesis using own by (simp add: DrainReturned_def Let_def)
next
  case False
  let ?n = "ring_Len (returned (q_mem q))"
  have part: "partitioned chk holds {} q (held + sup_frames q)" using own by (simp add: rx_owned_def)
  have rr: "ring_inv (returned (q_mem q))" using part by (simp add: partitioned_def)
  obtain r where r: "ring_Pop (int ?n) [] (returned (q_mem q)) = Some (ring_abs (returned (q_mem q)), r)" "ring_inv r" "ring_abs r = []"
    using ring_Pop_spec [OF rr, of "int ?n" "[]"] by (metis append_Nil drop_all length_ring_abs nat_int order_refl take_all)
  let ?mem = "(q_mem q)\<lparr>returned := r\<rparr>" let ?q = "q\<lparr>q_mem := ?mem\<rparr>"
  have a: "frame_in ?q = frame_in q" "va_of ?q = va_of q" "va_frame ?q = va_frame q" by (rule same_addr, simp_all)+
  have o: "out_vas holds (q_mem q) = out_vas holds ?mem + mset (ring_abs (returned (q_mem q)))" using r(3) by (simp add: out_vas_def)
  have r2: "length (region ?mem) = length (region (q_mem q))" "ring_inv (returned ?mem)" using r(2) by simp_all
  obtain fs where fs: "ring_abs (returned (q_mem q)) = map (va_of q) fs" "map (va_frame q) (ring_abs (returned (q_mem q))) = fs" "\<forall>f \<in> set fs. frame_in q f"
    using part_back(2) [OF part r2 o] by blast
  have pf: "partitioned chk holds {} ?q (held + sup_frames q + mset fs)" using part_back(1) [OF part r2 o] unfolding fs(2) .
  have len: "length fs = ?n" using arg_cong [OF fs(1), of length] by simp
  have fa: "set fs \<subseteq> all_frames (q_pool ?q)" using part_not_free(3) [OF pf] by (auto simp: universe_def)
  obtain p where p: "drain_each chk (map (va_of q) fs) ?q = Some (length fs, ?q\<lparr>q_pool := p\<rparr>)" "partitioned chk holds {} (?q\<lparr>q_pool := p\<rparr>) (held + sup_frames q)"
      "all_frames p = all_frames (q_pool q)" using drain_each_spec [OF pf _ fa] fs(3) by (auto simp: a)
  let ?q' = "?q\<lparr>q_pool := p, outstanding := outstanding q - int ?n\<rparr>"
  have "DrainReturned chk q = Some (?n, ?q')" using False r(1) p(1) len by (simp add: DrainReturned_def Let_def fs(1))
  moreover have "rx_owned chk holds ?q' held"
  proof -
    define q2 where "q2 = ?q\<lparr>outstanding := outstanding q - int ?n\<rparr>"
    have a2: "frame_in q2 = frame_in q" "va_of q2 = va_of q" "va_frame q2 = va_frame q" by (rule same_addr, simp_all add: q2_def)+
    have "size (rx_vas holds (q_mem q)) = size (rx_vas holds ?mem) + ?n" by (simp add: rx_vas_def o)
    then have m: "q_mem q2 = ?mem" "outstanding q2 = int (size (rx_vas holds ?mem))" using own by (simp_all add: q2_def rx_owned_def)
    have "partitioned chk holds {} (q2\<lparr>q_pool := p\<rparr>) rest = partitioned chk holds {} (?q\<lparr>q_pool := p\<rparr>) rest" for rest
      by (rule part_cong) (simp_all add: q2_def)
    moreover have "sup_frames q2 = sup_frames q" by (simp add: sup_frames_def a2 m)
    ultimately have "rx_owned chk holds (q2\<lparr>q_pool := p\<rparr>) held"
      using own p(2) by (intro rx_pushed) (simp_all add: rx_owned_def valid_va_def a2 m)
    moreover have "rx_owned chk holds ?q' held = rx_owned chk holds (q2\<lparr>q_pool := p\<rparr>) held" by (rule rx_cong) (simp_all add: q2_def)
    ultimately show ?thesis by simp
  qed
  moreover have "ring_Len r = 0" using r(3) length_ring_abs [of r] by simp
  ultimately show ?thesis using p(3) by (simp add: same_queue_def)
qed

end
