(* ===== verification/Dpdk_Rx_Run.thy ===== *)
theory Dpdk_Rx_Run
  imports Dpdk_Rx Dpdk_Tx_Run
begin

text \<open>
  Runs of the DPDK receive queue, and the theorem that no run loses, duplicates or mislabels a frame.
\<close>

section \<open>Runs\<close>

text \<open>\<open>held\<close> is the frames the callers have. A caller recycles only frames it holds.\<close>

inductive dq_rx_step :: "bool \<Rightarrow> 'd drx \<times> u64 multiset \<Rightarrow> 'd drx \<times> u64 multiset \<Rightarrow> bool" for chk where
  fill: "dq_Fill chk k q = Some (n, q') \<Longrightarrow> dq_rx_step chk (q, held) (q', held)"
| receive: "dq_Receive chk k q = Some (ds, q') \<Longrightarrow> dq_rx_step chk (q, held) (q', held + frames_of q ds)"
| recycle: "frames_of q ds \<subseteq># held \<Longrightarrow> dq_Recycle chk ds q = Some q' \<Longrightarrow> dq_rx_step chk (q, held) (q', held - frames_of q ds)"
| drain: "DrainReturned chk q = Some (n, q') \<Longrightarrow> dq_rx_step chk (q, held) (q', held)"
| close: "dq_rx_step chk (q, held) (q_Close q, held)"

definition rx_good :: "bool \<Rightarrow> ('d \<Rightarrow> u64 list) \<Rightarrow> 'd config \<Rightarrow> u64 set \<Rightarrow> 'd drx \<times> u64 multiset \<Rightarrow> bool" where
  "rx_good chk holds cfg A s \<longleftrightarrow> rx_owned chk holds (fst s) (snd s) \<and> q_cfg (fst s) = cfg \<and> all_frames (q_pool (fst s)) = A
     \<and> int (unat (bufStart (fst s))) = ObjHeader (Layout cfg) + MbufSize (Layout cfg)"

lemma rx_good_same:
  "rx_good chk holds cfg A (q, held) \<Longrightarrow> same_queue q q' \<Longrightarrow> rx_owned chk holds q' held' \<Longrightarrow> rx_good chk holds cfg A (q', held')"
  by (simp add: rx_good_def same_queue_def)

lemma rx_good_owned:
  assumes "rx_good chk holds cfg A (q, held)" "PMD cfg = Some drv" "lawful_rx cfg drv holds"
  shows "rx_owned chk holds q held" "PMD (q_cfg q) = Some drv" "lawful_rx (q_cfg q) drv holds"
    "int (unat (bufStart q)) = ObjHeader (Layout (q_cfg q)) + MbufSize (Layout (q_cfg q))"
  using assms by (simp_all add: rx_good_def)

lemma dq_rx_step_good:
  assumes "dq_rx_step chk s s'" "rx_good chk holds cfg A s" "PMD cfg = Some drv" "lawful_rx cfg drv holds"
  shows "rx_good chk holds cfg A s'"
  using assms
proof (induction rule: dq_rx_step.induct)
  case (fill k q n q' held)
  note o = rx_good_owned [OF fill(2-4)]
  from Fill_owned [OF o(1), of k] fill(1) show ?case by (auto intro: rx_good_same [OF fill(2)])
next
  case (receive k q ds q' held)
  note o = rx_good_owned [OF receive(2-4)]
  from Receive_owned [OF o, of k] receive(1) show ?case by (auto intro: rx_good_same [OF receive(2)])
next
  case (recycle q ds held q')
  note o = rx_good_owned [OF recycle(3-5)]
  from Recycle_owned [OF o(1) recycle(1)] recycle(2) show ?case by (auto intro: rx_good_same [OF recycle(3)])
next
  case (drain q n q' held)
  note o = rx_good_owned [OF drain(2-4)]
  from Drain_owned [OF o(1)] drain(1) show ?case by (auto intro: rx_good_same [OF drain(2)])
next
  case (close q held)
  have "rx_owned chk holds (q_Close q) held = rx_owned chk holds q held" unfolding q_Close_def by (rule rx_cong) simp_all
  then show ?case using close by (simp add: rx_good_def q_Close_def)
qed

lemma rx_run_good:
  assumes "(dq_rx_step chk)\<^sup>*\<^sup>* s s'" "rx_good chk holds cfg A s" "PMD cfg = Some drv" "lawful_rx cfg drv holds"
  shows "rx_good chk holds cfg A s'"
  using assms by (induction rule: rtranclp_induct) (auto intro: dq_rx_step_good)

lemma start_rx_good:
  assumes new: "dq_NewRx chk cfg d = Inr q0" and mem: "in_memory cfg"
    and ring: "Returned cfg = Some rr" "ring_inv rr" "ring_abs rr = []" "Supply cfg = Some sr" "ring_inv sr" "ring_abs sr = []" "holds d = []"
  shows "rx_good chk holds cfg (all_frames (q_pool q0)) (q0, {#})"
proof -
  note st = NewRx_starts [OF new ring(1)]
  have s: "config_validate cfg = None" "q_cfg q0 = cfg" "sup_ring (q_mem q0) = sr" "bufStart q0 = of_int (ObjHeader (Layout cfg) + MbufSize (Layout cfg))"
    using st(1) ring(4) by (simp_all add: starts_def)
  note v = valid_layout [OF s(1)]
  have F: "finite ({} :: u64 set)" "\<forall>f \<in> {}. frame_in q0 f" "{} \<inter> all_frames (q_pool q0) = {}" by simp_all
  note sp = start_part [where chk = chk and holds = holds, OF st(1) mem ring(2,3,7) F]
  have "ObjHeader (Layout cfg) + MbufSize (Layout cfg) < FrameSize (Layout cfg)" using v(4,5) by (simp add: DataStart_def)
  moreover have "FrameSize (Layout cfg) \<le> int (length (Region cfg))"
  proof -
    have "nat (FrameSize (Layout cfg)) \<le> length (Region cfg)" using v(6,7) by (rule dvd_imp_le)
    then show ?thesis by linarith
  qed
  ultimately have b: "ObjHeader (Layout cfg) + MbufSize (Layout cfg) < 2 ^ 64" "0 \<le> ObjHeader (Layout cfg) + MbufSize (Layout cfg)"
    using mem v(2,3) by (auto simp: in_memory_def)
  then have "int (unat (bufStart q0)) = ObjHeader (Layout cfg) + MbufSize (Layout cfg)"
    unfolding s(4) by (simp add: unsigned_of_int take_bit_int_eq_self del: of_int_add)
  moreover have "sup_frames q0 = {#}" "rx_vas holds (q_mem q0) = {#}" using sp(2) ring(6) by (simp_all add: sup_frames_def rx_vas_def s(3))
  ultimately show ?thesis using sp(1) st(2) ring(5,6) s by (simp add: rx_good_def rx_owned_def)
qed

section \<open>Properties\<close>

text \<open>C14: frames are conserved by the DPDK receive queue. For either build of the pool, a driver that keeps its contract,
  and any interleaving of \<open>Fill\<close>, \<open>Receive\<close>, \<open>Recycle\<close>, \<open>DrainReturned\<close> and \<open>Close\<close> by callers that recycle only
  frames they hold, every frame of the queue is always in exactly one place: free, with a caller, waiting in the supply
  ring, or with the driver and its returned ring. \<open>NumOutstanding\<close> is the number in the last two, the pool refuses nothing,
  the queue does not fail, and no operation panics. \<open>Receive\<close> delivers at most what was asked for, and every descriptor it
  delivers lies inside one frame, behind its mbuf.\<close>

theorem dq_rx_conserves:
  assumes new: "dq_NewRx chk cfg d = Inr q0" and mem: "in_memory cfg"
    and ring: "Returned cfg = Some rr" "ring_inv rr" "ring_abs rr = []" "Supply cfg = Some sr" "ring_inv sr" "ring_abs sr = []" "holds d = []"
    and drv: "PMD cfg = Some drv" "lawful_rx cfg drv holds"
    and run: "(dq_rx_step chk)\<^sup>*\<^sup>* (q0, {#}) (q, held)"
  shows "mset (free (q_pool q)) + held + (sup_frames q + out_frames holds q) = mset_set (all_frames (q_pool q0))
     \<and> NumOutstanding q = int (size (sup_frames q + out_frames holds q)) \<and> PoolRejected q = 0 \<and> Dead q = None
     \<and> (\<forall>k. dq_Fill chk k q \<noteq> None) \<and> DrainReturned chk q \<noteq> None \<and> (\<forall>ds. frames_of q ds \<subseteq># held \<longrightarrow> dq_Recycle chk ds q \<noteq> None)
     \<and> (\<forall>k. \<exists>ds q'. dq_Receive chk k q = Some (ds, q') \<and> int (length ds) \<le> max 0 k \<and> (\<forall>d \<in> set ds. descOK q d))"
proof -
  have good: "rx_good chk holds cfg (all_frames (q_pool q0)) (q, held)"
    by (rule rx_run_good [OF run start_rx_good [where holds = holds, OF new mem ring] drv])
  note o = rx_good_owned [OF good drv]
  have p: "mset (free (q_pool q)) + held + (sup_frames q + out_frames holds q) = mset_set (all_frames (q_pool q0))" "rejected (q_pool q) = 0" "dead q = None"
      "outstanding q = int (size (sup_frames q + out_frames holds q))"
    using good by (auto simp: rx_good_def rx_owned_def partitioned_def universe_def out_frames_def sup_frames_def rx_vas_def ac_simps)
  have "dq_Fill chk k q \<noteq> None" for k using Fill_owned [OF o(1), of k] by auto
  moreover have "dq_Recycle chk ds q \<noteq> None" if "frames_of q ds \<subseteq># held" for ds using Recycle_owned [OF o(1) that] by auto
  moreover have "DrainReturned chk q \<noteq> None" using Drain_owned [OF o(1)] by auto
  moreover have "\<exists>ds q'. dq_Receive chk k q = Some (ds, q') \<and> int (length ds) \<le> max 0 k \<and> (\<forall>d \<in> set ds. descOK q d)" for k
    using Receive_owned [OF o, of k] by blast
  ultimately show ?thesis using p by (simp add: NumOutstanding_def PoolRejected_def Dead_def)
qed

text \<open>A driver for the example: each poll takes the next buffer of the supply ring and delivers a packet of 60 bytes in it.
  A buffer it cannot use it keeps.\<close>

definition line_pmd :: "u64 list pmd" where
  "line_pmd = keep_pmd\<lparr>RxBurst := \<lambda>n mem. case ring_Pop 1 [] (sup_ring mem) of
     Some ([va], s) \<Rightarrow>
       (case put16 (region mem) (unat (va - 0x10000) + offDataLen) 60 of
          Some r \<Rightarrow>
            if 0 < n \<and> (case DataOff r (unat (va - 0x10000)) of Some off \<Rightarrow> unat off < 128 | None \<Rightarrow> False)
            then (1, [va], mem\<lparr>sup_ring := s, region := r\<rparr>)
            else (0, [], mem\<lparr>sup_ring := s, driver := driver mem @ [va]\<rparr>)
        | None \<Rightarrow> (0, [], mem\<lparr>sup_ring := s, driver := driver mem @ [va]\<rparr>))
   | _ \<Rightarrow> (0, [], mem)\<rparr>"

definition rx_frames :: "u64 list config" where
  "rx_frames = two_frames\<lparr>PMD := Some line_pmd\<rparr>"

lemma line_pmd_lawful: "lawful_rx rx_frames line_pmd (\<lambda>x. x)"
  unfolding lawful_rx_def
proof (intro allI impI)
  fix n :: nat and mem :: "u64 list shared" assume inv: "ring_inv (sup_ring mem) \<and> ring_inv (returned mem)"
  obtain s where s: "ring_Pop 1 [] (sup_ring mem) = Some (take 1 (ring_abs (sup_ring mem)), s)" "ring_inv s" "ring_abs s = drop 1 (ring_abs (sup_ring mem))"
    using ring_Pop_spec [of "sup_ring mem" 1 "[]"] inv by (metis append_Nil nat_one_as_int)
  have len: "put16 (region mem) i 60 = Some r \<Longrightarrow> length r = length (region mem)" for i r
    by (rule kept_length [OF put_kept(3)])
  have cfg: "RegionVA rx_frames = 0x10000" "BufferLen (Layout rx_frames) = 128" by (simp_all add: rx_frames_def two_frames_def BufferLen_def)
  show "case RxBurst line_pmd n mem of (got, vas, mem') \<Rightarrow>
           0 \<le> got \<and> got \<le> int n \<and> nat got \<le> length vas \<and> length (region mem') = length (region mem)
           \<and> ring_inv (sup_ring mem') \<and> ring_inv (returned mem') \<and> rx_vas (\<lambda>x. x) mem' + mset (take (nat got) vas) = rx_vas (\<lambda>x. x) mem
           \<and> (\<forall>va \<in> set (take (nat got) vas). \<forall>off. DataOff (region mem') (unat (va - RegionVA rx_frames)) = Some off \<longrightarrow>
                int (unat off) < BufferLen (Layout rx_frames))"
  proof (cases "ring_abs (sup_ring mem)")
    case Nil
    then show ?thesis using s inv by (simp add: line_pmd_def)
  next
    case (Cons va vas)
    then show ?thesis using s inv len cfg
      by (auto simp: line_pmd_def rx_vas_def out_vas_def simp del: of_nat_unat split: option.splits)
  qed
qed

theorem dq_rx_conserves_witness:
  "\<exists>q0 n q1 ds q2. dq_NewRx True rx_frames [] = Inr q0 \<and> dq_Fill True 2 q0 = Some (n, q1) \<and> dq_Receive True 1 q1 = Some (ds, q2)
     \<and> mset (free (q_pool q2)) + frames_of q1 ds + (sup_frames q2 + out_frames (\<lambda>x. x) q2) = {#0, 256#}"
proof -
  let ?R = "\<lparr>rg_buf = [0, 0], rg_mask = 1, rg_head = 0, rg_tail = 0\<rparr> :: dring"
  have v: "config_validate rx_frames = None"
    using two_frames_valid by (simp add: rx_frames_def config_validate_def split: option.splits if_splits)
  have cfg: "Returned rx_frames = Some ?R" "Supply rx_frames = Some ?R" "PMD rx_frames = Some line_pmd" "in_memory rx_frames"
    by (simp_all add: rx_frames_def two_frames_def in_memory_def)
  obtain q0 where q0: "dq_NewRx True rx_frames [] = Inr q0" "q_pool q0 = New True 0 2 256"
    by (simp add: dq_NewRx_def initBase_def v Let_def cfg(1,2)) (simp add: rx_frames_def two_frames_def qbase.extend_def drx.fields_def)
  have main: "(dq_rx_step True)\<^sup>*\<^sup>* (q0, {#}) (q, held) \<Longrightarrow>
      mset (free (q_pool q)) + held + (sup_frames q + out_frames (\<lambda>x. x) q) = {#0, 256#} \<and> (\<forall>k. dq_Fill True k q \<noteq> None)
      \<and> (\<forall>k. \<exists>ds q'. dq_Receive True k q = Some (ds, q'))" for q held
    using dq_rx_conserves [OF q0(1) cfg(4,1) empty_ring cfg(2) empty_ring _ cfg(3) line_pmd_lawful, of q held]
    by (simp add: q0(2) two_frames_pool) blast
  obtain n q1 where f: "dq_Fill True 2 q0 = Some (n, q1)" using main [OF rtranclp.rtrancl_refl] by fastforce
  have r1: "(dq_rx_step True)\<^sup>*\<^sup>* (q0, {#}) (q1, {#})" using dq_rx_step.fill [OF f, of "{#}"] by (rule r_into_rtranclp)
  obtain ds q2 where r: "dq_Receive True 1 q1 = Some (ds, q2)" using main [OF r1] by blast
  have "(dq_rx_step True)\<^sup>*\<^sup>* (q0, {#}) (q2, {#} + frames_of q1 ds)"
    using r1 dq_rx_step.receive [OF r, of "{#}"] by (rule rtranclp.rtrancl_into_rtrancl)
  from main [OF this] show ?thesis using q0 f r by auto
qed

end
