(* ===== verification/Mlx5_Queue.thy ===== *)
theory Mlx5_Queue
  imports Mlx5_Tx Mlx5_Rx Frame_Pool Tick_Clock
begin

text \<open>
  The mlx5 queues an application holds, \<^verbatim>\<open>mlx5/txqueue.go\<close> and \<^verbatim>\<open>mlx5/rxqueue.go\<close>, over the rings, the frame pool and
  the region of \<^verbatim>\<open>mlx5/region.go\<close>.

  The queues hold what a device gave them: its region, whose bytes are as they stand when an operation runs; the hardware
  queues, which the packages \<open>dv\<close> creates and closes, as records of their memory with the error closing them gives; and
  the outcome of placing the calling goroutine. Scratch slices are local lists. Atomics are plain fields, since one
  goroutine drives a queue. A ring's own region field is a reference, so it is set from the device's region at each call
  that reads it. \<open>None\<close> is a Go panic. \<open>chk\<close> is the build of the pool.
\<close>

section \<open>The device's parts\<close>

record mregion =
  mr_b :: bytes
  mr_frameSize :: int
  mr_frameMask :: u64
  mr_frames :: int
  mr_va :: u64

definition region_Frame :: "mregion \<Rightarrow> desc \<Rightarrow> bytes option" where
  "region_Frame r d =
     (let n = of_nat (length (mr_b r))
      in if d_addr d \<ge> n \<or> d_addr d + ucast (d_len d) > n then Some []
         else if unat (d_addr d) \<le> unat (d_addr d + ucast (d_len d))
         then Some (take (unat (d_addr d + ucast (d_len d)) - unat (d_addr d)) (drop (unat (d_addr d)) (mr_b r)))
         else None)"

definition region_Writable :: "mregion \<Rightarrow> desc \<Rightarrow> bytes option" where
  "region_Writable r d =
     (let n = of_nat (length (mr_b r))
      in if d_addr d \<ge> n then Some []
         else let e = (d_addr d AND NOT (mr_frameMask r)) + mr_frameMask r + 1;
                  e' = (if e > n then n else e)
              in if d_addr d \<le> e' then Some (take (unat e' - unat (d_addr d)) (drop (unat (d_addr d)) (mr_b r))) else None)"

text \<open>What a caller that was given the \<open>Writable\<close> bytes of \<open>d\<close> left there.\<close>

definition region_store :: "mregion \<Rightarrow> desc \<Rightarrow> bytes \<Rightarrow> mregion" where
  "region_store r d frame =
     (if d_addr d \<ge> of_nat (length (mr_b r)) then r
      else r\<lparr>mr_b := take (unat (d_addr d)) (mr_b r) @ frame @ drop (unat (d_addr d) + length frame) (mr_b r)\<rparr>)"

record mdevice =
  md_region :: mregion
  md_LKey :: u32
  md_checksums :: bool
  md_frameSize :: int
  md_signalEvery :: int
  md_mpwMaxLen :: int
  md_clock :: clock_info
  md_place :: "string + int"

record dv_tx =
  dt_SQ :: bytes
  dt_CQ :: bytes
  dt_SQDbrec :: "bytes option"
  dt_CQDbrec :: "bytes option"
  dt_UAR :: "bytes option"
  dt_QPN :: u32
  dt_CQN :: u32
  dt_Blocks :: int
  dt_CQEntries :: int
  dt_Close :: "string option"

record dv_rx =
  dr_RQ :: bytes
  dr_CQ :: bytes
  dr_RQDbrec :: "bytes option"
  dr_CQDbrec :: "bytes option"
  dr_Stride :: u32
  dr_CQN :: u32
  dr_Close :: "string option"

datatype mq_error = DvError string | TxRingError ring_cfg_error | RxRingError rx_error | QueueClosed
  | SendFailed error_info | ReceiveFailed rx_dead | BadLength int nat | PinError string

text \<open>Placement: \<open>pinCPU\<close> is one more than the processor, 0 for none.\<close>

record pinning =
  pin_once :: bool
  pin_CPU :: int
  pin_Err :: "string option"

definition not_pinned :: pinning where
  "not_pinned = \<lparr>pin_once = False, pin_CPU = 0, pin_Err = None\<rparr>"

definition PinnedCPU :: "pinning \<Rightarrow> int" where
  "PinnedCPU p = (if pin_CPU p = 0 then -1 else pin_CPU p - 1)"

definition autoPin :: "string + int \<Rightarrow> pinning \<Rightarrow> (mq_error + int) \<times> pinning" where
  "autoPin place p =
     (let p1 = (if pin_once p then p
                else case place of Inl e \<Rightarrow> p\<lparr>pin_once := True, pin_Err := Some e\<rparr>
                     | Inr cpu \<Rightarrow> if cpu \<ge> 0 then p\<lparr>pin_once := True, pin_CPU := cpu + 1\<rparr> else p\<lparr>pin_once := True\<rparr>)
      in (case pin_Err p1 of Some e \<Rightarrow> Inl (PinError e) | None \<Rightarrow> Inr (PinnedCPU p1), p1))"

text \<open>\<open>q.pool.Push(q.pool.Base(d.Addr))\<close> over a batch.\<close>

fun push_descs :: "bool \<Rightarrow> desc list \<Rightarrow> frames \<Rightarrow> frames option" where
  "push_descs chk [] p = Some p"
| "push_descs chk (d # ds) p = do { p1 \<leftarrow> Push chk (Base p (d_addr d)) p; push_descs chk ds p1 }"

section \<open>The transmit queue\<close>

record txqueue =
  tq_dev :: mdevice
  tq_dvqs :: "dv_tx list"
  tq_rings :: "tx list"
  tq_next :: nat
  tq_pool :: frames
  tq_ringFull :: u64
  tq_poolEmpty :: u64
  tq_stallsRingFull :: u64
  tq_stallsPoolEmpty :: u64
  tq_qpn :: u32
  tq_cqn :: u32
  tq_blocks :: int
  tq_cqEntries :: int
  tq_inlineLen :: int
  tq_pin :: pinning
  tq_index :: int
  tq_closed :: bool

definition EthWQEL3Csum :: u8 where "EthWQEL3Csum = push_bit 6 1"
definition EthWQEL4Csum :: u8 where "EthWQEL4Csum = push_bit 7 1"

definition ring_config :: "mdevice \<Rightarrow> int \<Rightarrow> bool \<Rightarrow> bool \<Rightarrow> dv_tx \<Rightarrow> tx_config" where
  "ring_config d inlineLen multiPacket mpwPointer dvq =
     \<lparr>tc_SQ = dt_SQ dvq, tc_CQ = dt_CQ dvq, tc_SQDbrec = dt_SQDbrec dvq, tc_CQDbrec = dt_CQDbrec dvq, tc_UAR = dt_UAR dvq,
      tc_QPN = dt_QPN dvq, tc_LKey = md_LKey d, tc_Region = mr_b (md_region d), tc_RegionVA = mr_va (md_region d),
      tc_FrameSize = mr_frameSize (md_region d), tc_InlineLen = inlineLen,
      tc_CSFlags = (if md_checksums d then EthWQEL3Csum OR EthWQEL4Csum else 0), tc_MultiPacket = multiPacket,
      tc_MultiPacketMaxLen = md_mpwMaxLen d, tc_MultiPacketPointer = mpwPointer, tc_SignalEvery = md_signalEvery d\<rparr>"

text \<open>The rings, one hardware queue each; \<open>created\<close> is what the \<open>CreateTxQueue\<close> calls give, in order.\<close>

fun new_rings :: "(dv_tx \<Rightarrow> tx_config) \<Rightarrow> (string + dv_tx) list \<Rightarrow> (mq_error + (dv_tx \<times> tx) list) option" where
  "new_rings cfg [] = Some (Inr [])"
| "new_rings cfg (c # cs) =
     (case c of Inl e \<Rightarrow> Some (Inl (DvError e))
      | Inr dvq \<Rightarrow>
        do { r \<leftarrow> NewTx (cfg dvq);
             case r of Inl e \<Rightarrow> Some (Inl (TxRingError e))
             | Inr t \<Rightarrow> do { rest \<leftarrow> new_rings cfg cs;
                             Some (case rest of Inl e \<Rightarrow> Inl e | Inr l \<Rightarrow> Inr ((dvq, t) # l)) } })"

definition newTxQueue :: "bool \<Rightarrow> mdevice \<Rightarrow> int \<Rightarrow> int \<Rightarrow> int \<Rightarrow> (string + dv_tx) list \<Rightarrow> int \<Rightarrow> bool \<Rightarrow> bool \<Rightarrow> (mq_error + txqueue) option" where
  "newTxQueue chk d ix firstFrame nframes created inlineLen multiPacket mpwPointer =
     do { r \<leftarrow> new_rings (ring_config d inlineLen multiPacket mpwPointer) created;
          case r of Inl e \<Rightarrow> Some (Inl e)
          | Inr [] \<Rightarrow> None
          | Inr ((dvq, t) # l) \<Rightarrow>
              Some (Inr \<lparr>tq_dev = d, tq_dvqs = dvq # map fst l, tq_rings = t # map snd l, tq_next = 0,
                         tq_pool = New chk (nat firstFrame) (nat nframes) (nat (md_frameSize d)), tq_ringFull = 0, tq_poolEmpty = 0,
                         tq_stallsRingFull = 0, tq_stallsPoolEmpty = 0, tq_qpn = dt_QPN dvq, tq_cqn = dt_CQN dvq,
                         tq_blocks = dt_Blocks dvq, tq_cqEntries = dt_CQEntries dvq, tq_inlineLen = inlineLen, tq_pin = not_pinned,
                         tq_index = ix, tq_closed = False\<rparr>) }"

definition tq_autoPin :: "txqueue \<Rightarrow> txqueue" where
  "tq_autoPin q = q\<lparr>tq_pin := snd (autoPin (md_place (tq_dev q)) (tq_pin q))\<rparr>"

definition tq_Pin :: "txqueue \<Rightarrow> (mq_error + int) \<times> txqueue" where
  "tq_Pin q = (let (r, p) = autoPin (md_place (tq_dev q)) (tq_pin q) in (r, q\<lparr>tq_pin := p\<rparr>))"

text \<open>The ring as it reads the region now.\<close>

definition with_region :: "txqueue \<Rightarrow> tx \<Rightarrow> tx" where
  "with_region q t = t\<lparr>tx_region := mr_b (md_region (tq_dev q))\<rparr>"

definition syncStalls :: "txqueue \<Rightarrow> txqueue" where
  "syncStalls q = q\<lparr>tq_ringFull := tq_stallsRingFull q, tq_poolEmpty := tq_stallsPoolEmpty q, tq_rings := map tx_Sync (tq_rings q)\<rparr>"

definition tq_Alloc :: "bool \<Rightarrow> int \<Rightarrow> txqueue \<Rightarrow> (desc list \<times> txqueue) option" where
  "tq_Alloc chk n q0 =
     (if tq_closed q0 \<or> n \<le> 0 then Some ([], q0)
      else let q = tq_autoPin q0
      in if \<not> tq_next q < length (tq_rings q) then None
         else let free = tx_FreeSlots (tq_rings q ! tq_next q)
         in if n > free \<and> free = 0 then Some ([], syncStalls (q\<lparr>tq_stallsRingFull := tq_stallsRingFull q + 1\<rparr>))
            else let n1 = (if n > free then free else n); have' = int (Len (tq_pool q))
            in if n1 > have' \<and> have' = 0 then Some ([], syncStalls (q\<lparr>tq_stallsPoolEmpty := tq_stallsPoolEmpty q + 1\<rparr>))
               else do { (addrs, p) \<leftarrow> Pop chk (if n1 > have' then have' else n1) [] (tq_pool q);
                         Some (map (\<lambda>addr. \<lparr>d_addr = addr, d_len = 0, d_options = 0\<rparr>) addrs, q\<lparr>tq_pool := p\<rparr>) })"

definition tq_Transmit :: "desc list \<Rightarrow> txqueue \<Rightarrow> (nat \<times> txqueue) option" where
  "tq_Transmit descs q0 =
     (if tq_closed q0 then Some (0, q0)
      else let q = tq_autoPin q0
      in if \<not> tq_next q < length (tq_rings q) then None
         else do { (n, t) \<leftarrow> tx_Post descs (with_region q (tq_rings q ! tq_next q));
                   let next' = (if Suc (tq_next q) = length (tq_rings q) then 0 else Suc (tq_next q));
                   Some (n, q\<lparr>tq_rings := (tq_rings q)[tq_next q := t], tq_next := next'\<rparr>) })"

text \<open>The loop of \<open>Complete\<close> over the rings.\<close>

fun complete_rings :: "bool \<Rightarrow> int \<Rightarrow> nat \<Rightarrow> tx list \<Rightarrow> frames \<Rightarrow> (nat \<times> tx list \<times> frames) option" where
  "complete_rings chk mx tot [] p = Some (tot, [], p)"
| "complete_rings chk mx tot (r # rs) p =
     (if int tot \<ge> mx then Some (tot, r # rs, p)
      else do { (released, r') \<leftarrow> tx_Complete (mx - int tot) [] r;
                p1 \<leftarrow> push_descs chk released p;
                (tot', rs', p2) \<leftarrow> complete_rings chk mx (tot + length released) rs p1;
                Some (tot', r' # rs', p2) })"

definition tq_Complete :: "bool \<Rightarrow> int \<Rightarrow> txqueue \<Rightarrow> (nat \<times> txqueue) option" where
  "tq_Complete chk mx q =
     (if tq_closed q then Some (0, q)
      else do { (tot, rs, p) \<leftarrow> complete_rings chk mx 0 (tq_rings q) (tq_pool q);
                Some (tot, q\<lparr>tq_rings := rs, tq_pool := p\<rparr>) })"

fun reclaim_rings :: "int \<Rightarrow> nat \<Rightarrow> tx list \<Rightarrow> desc list \<Rightarrow> (desc list \<times> tx list) option" where
  "reclaim_rings mx before [] out = Some (out, [])"
| "reclaim_rings mx before (r # rs) out =
     (let got = int (length out) - int before
      in if got \<ge> mx then Some (out, r # rs)
         else do { (out1, r') \<leftarrow> tx_Complete (mx - got) out r;
                   (out2, rs') \<leftarrow> reclaim_rings mx before rs out1;
                   Some (out2, r' # rs') })"

definition tq_Reclaim :: "int \<Rightarrow> desc list \<Rightarrow> txqueue \<Rightarrow> (desc list \<times> txqueue) option" where
  "tq_Reclaim mx out q =
     (if tq_closed q then Some (out, q)
      else do { (out', rs) \<leftarrow> reclaim_rings mx (length out) (tq_rings q) out; Some (out', q\<lparr>tq_rings := rs\<rparr>) })"

definition tq_Free :: "bool \<Rightarrow> desc list \<Rightarrow> txqueue \<Rightarrow> txqueue option" where
  "tq_Free chk descs q = do { p \<leftarrow> push_descs chk descs (tq_pool q); Some (q\<lparr>tq_pool := p\<rparr>) }"

fun sum_completable :: "tx list \<Rightarrow> nat option" where
  "sum_completable [] = Some 0"
| "sum_completable (r # rs) = do { n \<leftarrow> tx_Completable r; m \<leftarrow> sum_completable rs; Some (n + m) }"

definition tq_NumCompleted :: "txqueue \<Rightarrow> nat option" where
  "tq_NumCompleted q = (if tq_closed q then Some 0 else sum_completable (tq_rings q))"

definition tq_NumInFlight :: "txqueue \<Rightarrow> nat" where
  "tq_NumInFlight q = sum_list (map tx_InFlight (tq_rings q))"

definition tq_NumFreeSlots :: "txqueue \<Rightarrow> int option" where
  "tq_NumFreeSlots q =
     (if tq_closed q then Some 0
      else if tq_next q < length (tq_rings q) then Some (tx_FreeSlots (tq_rings q ! tq_next q)) else None)"

definition tq_NumFreeFrames :: "txqueue \<Rightarrow> nat" where
  "tq_NumFreeFrames q = Len (tq_pool q)"

fun failedInfo :: "tx list \<Rightarrow> error_info option" where
  "failedInfo [] = None"
| "failedInfo (r # rs) = (case tx_Failed r of Some e \<Rightarrow> Some e | None \<Rightarrow> failedInfo rs)"

text \<open>The loop of \<open>SendFunc\<close>: \<open>build\<close> gives the length and what it left in the frame. The result is the descriptors built, or
  the length that was refused.\<close>

fun build_each :: "(nat \<Rightarrow> bytes \<Rightarrow> int \<times> bytes) \<Rightarrow> nat \<Rightarrow> desc list \<Rightarrow> mregion \<Rightarrow> ((mq_error + desc list) \<times> mregion) option" where
  "build_each build i [] r = Some (Inr [], r)"
| "build_each build i (d # ds) r =
     do { frame \<leftarrow> region_Writable r d;
          let (n, frame') = build i frame;
          let r1 = region_store r d frame';
          if n = 0 then Some (Inr [], r1)
          else if n < 0 \<or> n > int (length frame) then Some (Inl (BadLength n (length frame)), r1)
          else do { (res, r2) \<leftarrow> build_each build (Suc i) ds r1;
                    Some (case res of Inl e \<Rightarrow> Inl e | Inr l \<Rightarrow> Inr (d\<lparr>d_len := of_int n\<rparr> # l), r2) } }"

definition SendFunc :: "bool \<Rightarrow> int \<Rightarrow> (nat \<Rightarrow> bytes \<Rightarrow> int \<times> bytes) \<Rightarrow> txqueue \<Rightarrow> (nat \<times> mq_error option \<times> txqueue) option" where
  "SendFunc chk count build q =
     (if tq_closed q then Some (0, Some QueueClosed, q)
      else case failedInfo (tq_rings q) of Some e \<Rightarrow> Some (0, Some (SendFailed e), q)
      | None \<Rightarrow>
        do { (_, q1) \<leftarrow> tq_Complete chk (count + int (tq_NumInFlight (tq_autoPin q))) (tq_autoPin q);
             (descs, q2) \<leftarrow> tq_Alloc chk count q1;
             if descs = [] then Some (0, None, q2)
             else do {
               (res, r) \<leftarrow> build_each build 0 descs (md_region (tq_dev q2));
               let q3 = q2\<lparr>tq_dev := (tq_dev q2)\<lparr>md_region := r\<rparr>\<rparr>;
               case res of
                 Inl e \<Rightarrow> do { q4 \<leftarrow> tq_Free chk descs q3; Some (0, Some e, q4) }
               | Inr l \<Rightarrow>
                   do { q4 \<leftarrow> (if length l < length descs then tq_Free chk (drop (length l) descs) q3 else Some q3);
                        (sent, q5) \<leftarrow> tq_Transmit l q4;
                        q6 \<leftarrow> (if sent < length l then tq_Free chk (drop sent l) q5 else Some q5);
                        Some (sent, None, q6) } } })"

definition tq_Err :: "txqueue \<Rightarrow> mq_error option" where
  "tq_Err q = (if tq_closed q then Some QueueClosed else map_option SendFailed (failedInfo (tq_rings q)))"

text \<open>The first error closing the hardware queues gives.\<close>

fun first_error :: "string option list \<Rightarrow> string option" where
  "first_error [] = None"
| "first_error (e # es) = (case e of Some x \<Rightarrow> Some x | None \<Rightarrow> first_error es)"

definition tq_close :: "txqueue \<Rightarrow> mq_error option \<times> txqueue" where
  "tq_close q =
     (if tq_closed q then (None, q)
      else (map_option DvError (first_error (map dt_Close (tq_dvqs q))), q\<lparr>tq_closed := True, tq_dvqs := []\<rparr>))"

section \<open>The receive queue\<close>

record rxqueue =
  rq_dev :: mdevice
  rq_dvq :: "dv_rx option"
  rq_ring :: rx
  rq_pool :: frames
  rq_poolEmpty :: u64
  rq_cqn :: u32
  rq_entries :: int
  rq_pin :: pinning
  rq_index :: int
  rq_closed :: bool
  rq_clock :: "counter option"

definition rxHeadroom :: u64 where "rxHeadroom = 64"

definition newRxQueue :: "bool \<Rightarrow> mdevice \<Rightarrow> int \<Rightarrow> int \<Rightarrow> int \<Rightarrow> string + dv_rx \<Rightarrow> (mq_error + rxqueue) option" where
  "newRxQueue chk d ix firstFrame nframes created =
     (case created of Inl e \<Rightarrow> Some (Inl (DvError e))
      | Inr dvq \<Rightarrow>
        do { r \<leftarrow> NewRx \<lparr>xc_RQ = dr_RQ dvq, xc_CQ = dr_CQ dvq, xc_RQDbrec = dr_RQDbrec dvq, xc_CQDbrec = dr_CQDbrec dvq,
               xc_Stride = dr_Stride dvq, xc_LKey = md_LKey d, xc_Region = mr_b (md_region d), xc_RegionVA = mr_va (md_region d),
               xc_BufferSize = of_int (md_frameSize d - int (unat rxHeadroom))\<rparr>;
             Some (case r of Inl e \<Rightarrow> Inl (RxRingError e)
               | Inr ring \<Rightarrow>
                   Inr \<lparr>rq_dev = d, rq_dvq = Some dvq, rq_ring = ring,
                        rq_pool = New chk (nat firstFrame) (nat nframes) (nat (md_frameSize d)), rq_poolEmpty = 0,
                        rq_cqn = dr_CQN dvq, rq_entries = int (rx_Entries ring), rq_pin = not_pinned, rq_index = ix, rq_closed = False,
                        rq_clock = (if clock_OK (md_clock d) then Some (clock_New (md_clock d)) else None)\<rparr>) })"

definition rq_autoPin :: "rxqueue \<Rightarrow> rxqueue" where
  "rq_autoPin q = q\<lparr>rq_pin := snd (autoPin (md_place (rq_dev q)) (rq_pin q))\<rparr>"

definition rq_Pin :: "rxqueue \<Rightarrow> (mq_error + int) \<times> rxqueue" where
  "rq_Pin q = (let (r, p) = autoPin (md_place (rq_dev q)) (rq_pin q) in (r, q\<lparr>rq_pin := p\<rparr>))"

fun clock_each :: "u64 list \<Rightarrow> counter \<Rightarrow> u64 list \<times> counter" where
  "clock_each [] c = ([], c)"
| "clock_each (t # ts) c = (let (ns, c1) = clock_NS t c; (l, c2) = clock_each ts c1 in (ns # l, c2))"

definition rq_ReceiveTimestamps :: "bool \<Rightarrow> int \<Rightarrow> rxqueue \<Rightarrow> ((desc list \<times> u64 list) \<times> rxqueue) option" where
  "rq_ReceiveTimestamps chk mx q0 =
     (if rq_closed q0 then Some (([], []), q0)
      else let q = rq_autoPin q0
      in case rq_clock q of None \<Rightarrow> Some (([], []), q)
         | Some c \<Rightarrow>
           do { ((received, ts), ring) \<leftarrow> rx_ReceiveTimestamps mx [] (Some []) (rq_ring q);
                p \<leftarrow> push_descs chk (rx_Failed ring) (rq_pool q);
                let (ns, c') = clock_each (case ts of None \<Rightarrow> [] | Some l \<Rightarrow> l) c;
                Some ((received, ns), q\<lparr>rq_ring := ring, rq_pool := p, rq_clock := Some c'\<rparr>) })"

definition rq_Fill :: "bool \<Rightarrow> int \<Rightarrow> rxqueue \<Rightarrow> (nat \<times> rxqueue) option" where
  "rq_Fill chk n q0 =
     (if rq_closed q0 \<or> n \<le> 0 then Some (0, q0)
      else let q = rq_autoPin q0;
               free = int (rx_FreeSlots (rq_ring q));
               n1 = (if n > free then free else n);
               have' = int (Len (rq_pool q))
      in if n1 > have' \<and> have' = 0 then Some (0, q\<lparr>rq_poolEmpty := rq_poolEmpty q + 1\<rparr>)
         else let n2 = (if n1 > have' then have' else n1)
         in if n2 = 0 then Some (0, q)
            else do { (addrs, p) \<leftarrow> Pop chk n2 [] (rq_pool q);
                      let fill = map (\<lambda>addr. \<lparr>d_addr = addr + rxHeadroom, d_len = 0, d_options = 0\<rparr>) addrs;
                      (posted, ring) \<leftarrow> rx_Fill fill (rq_ring q);
                      p1 \<leftarrow> push_descs chk (drop posted fill) p;
                      Some (posted, q\<lparr>rq_ring := ring, rq_pool := p1\<rparr>) })"

definition readyLocked :: "rxqueue \<Rightarrow> (nat \<times> bool) option" where
  "readyLocked q = (if rq_closed q then Some (0, True) else map_option (\<lambda>n. (n, False)) (rx_ReadyCount (rq_entries q) (rq_ring q)))"

text \<open>\<open>Poll\<close> looks again until something is there. The looks are the queue as it stands at each turn, with whether the deadline has
  passed by then; \<open>None\<close> is that it is still looking when they run out.\<close>

fun poll_looks :: "int \<Rightarrow> (rxqueue \<times> bool) list \<Rightarrow> (nat \<times> mq_error option) option" where
  "poll_looks timeout [] = None"
| "poll_looks timeout ((q, past) # looks) =
     do { (n, closed') \<leftarrow> readyLocked q;
          if closed' then Some (0, Some QueueClosed)
          else if n > 0 then Some (n, None)
          else if timeout = 0 \<or> timeout > 0 \<and> past then Some (0, None)
          else poll_looks timeout looks }"

definition rq_Poll :: "int \<Rightarrow> rxqueue \<Rightarrow> (rxqueue \<times> bool) list \<Rightarrow> (nat \<times> mq_error option) option" where
  "rq_Poll timeout q looks = (if rq_closed q then Some (0, Some QueueClosed) else poll_looks timeout looks)"

definition rq_Receive :: "bool \<Rightarrow> int \<Rightarrow> rxqueue \<Rightarrow> (desc list \<times> rxqueue) option" where
  "rq_Receive chk mx q0 =
     (if rq_closed q0 then Some ([], q0)
      else let q = rq_autoPin q0
      in do { (received, ring) \<leftarrow> rx_Receive mx [] (rq_ring q);
              p \<leftarrow> push_descs chk (rx_Failed ring) (rq_pool q);
              Some (received, q\<lparr>rq_ring := ring, rq_pool := p\<rparr>) })"

definition rq_Recycle :: "bool \<Rightarrow> desc list \<Rightarrow> rxqueue \<Rightarrow> rxqueue option" where
  "rq_Recycle chk descs q = do { p \<leftarrow> push_descs chk descs (rq_pool q); Some (q\<lparr>rq_pool := p\<rparr>) }"

definition rq_NumFreeFillSlots :: "rxqueue \<Rightarrow> nat" where
  "rq_NumFreeFillSlots q = (if rq_closed q then 0 else rx_FreeSlots (rq_ring q))"

definition rq_NumReceived :: "rxqueue \<Rightarrow> nat option" where
  "rq_NumReceived q = (if rq_closed q then Some 0 else rx_ReadyCount (rq_entries q) (rq_ring q))"

definition rq_NumOutstanding :: "rxqueue \<Rightarrow> nat" where
  "rq_NumOutstanding q = rx_Outstanding (rq_ring q)"

definition rq_NumFreeFrames :: "rxqueue \<Rightarrow> nat" where
  "rq_NumFreeFrames q = Len (rq_pool q)"

definition rq_Err :: "rxqueue \<Rightarrow> mq_error option" where
  "rq_Err q = (if rq_closed q then Some QueueClosed else map_option ReceiveFailed (rx_Err (rq_ring q)))"

definition rq_close :: "rxqueue \<Rightarrow> mq_error option \<times> rxqueue" where
  "rq_close q =
     (if rq_closed q then (None, q)
      else case rq_dvq q of None \<Rightarrow> (None, q\<lparr>rq_closed := True\<rparr>)
      | Some dvq \<Rightarrow> (map_option DvError (dr_Close dvq), q\<lparr>rq_closed := True, rq_dvq := None\<rparr>))"

section \<open>Counters\<close>

record pk_tx_stats =
  ts_Packets :: u64
  ts_Bytes :: u64
  ts_Completed :: u64
  ts_Batches :: u64
  ts_Completions :: u64
  ts_RingFull :: u64
  ts_PoolEmpty :: u64
  ts_Errors :: u64
  ts_Backend :: "string \<rightharpoonup> u64"

record pk_rx_stats =
  xs_Packets :: u64
  xs_Bytes :: u64
  xs_Filled :: u64
  xs_Batches :: u64
  xs_Polls :: u64
  xs_Completions :: u64
  xs_PoolEmpty :: u64
  xs_Errors :: u64
  xs_Dropped :: u64
  xs_Backend :: "string \<rightharpoonup> u64"

definition boolCount :: "bool \<Rightarrow> u64" where
  "boolCount b = (if b then 1 else 0)"

text \<open>One ring's part of the sums.\<close>

definition add_ring :: "tx \<Rightarrow> pk_tx_stats \<times> u64 \<Rightarrow> pk_tx_stats \<times> u64" where
  "add_ring r acc =
     (let (st, badDesc) = acc; s = tx_Stats r;
          st1 = st\<lparr>ts_Packets := ts_Packets st + st_Packets s, ts_Bytes := ts_Bytes st + st_Bytes s,
                   ts_Completed := ts_Completed st + st_Completed s, ts_Batches := ts_Batches st + st_Batches s,
                   ts_Completions := ts_Completions st + st_Completions s, ts_RingFull := ts_RingFull st + st_RingFull s,
                   ts_Errors := ts_Errors st + st_Errors s\<rparr>
      in (case tx_Failed r of None \<Rightarrow> st1
          | Some e \<Rightarrow> st1\<lparr>ts_Backend := (ts_Backend st1)(''last_syndrome'' \<mapsto> ucast (ei_Syndrome e),
                                                      ''last_vendor_syndrome'' \<mapsto> ucast (ei_VendorSyndrome e))\<rparr>,
          badDesc + st_BadDesc s))"

definition tq_Stats :: "txqueue \<Rightarrow> pk_tx_stats option" where
  "tq_Stats q =
     (case tq_rings q of [] \<Rightarrow> None
      | r0 # _ \<Rightarrow>
        let st0 = \<lparr>ts_Packets = 0, ts_Bytes = 0, ts_Completed = 0, ts_Batches = 0, ts_Completions = 0,
                   ts_RingFull = tq_ringFull q, ts_PoolEmpty = tq_poolEmpty q, ts_Errors = 0,
                   ts_Backend = [''qpn'' \<mapsto> ucast (tq_qpn q), ''cqn'' \<mapsto> ucast (tq_cqn q), ''rings'' \<mapsto> of_nat (length (tq_rings q)),
                     ''sq_blocks'' \<mapsto> of_int (tq_blocks q), ''cq_entries'' \<mapsto> of_int (tq_cqEntries q),
                     ''inline_bytes'' \<mapsto> of_int (tq_inlineLen q), ''multi_packet'' \<mapsto> boolCount (tx_mpw r0 \<noteq> None),
                     ''pool_rejected'' \<mapsto> rejected (tq_pool q)]\<rparr>;
            (st1, badDesc) = fold add_ring (tq_rings q) (st0, 0);
            st2 = st1\<lparr>ts_Backend := (ts_Backend st1)(''bad_desc'' \<mapsto> badDesc)\<rparr>
        in Some (if ts_Packets st2 \<ge> ts_Completed st2
                 then st2\<lparr>ts_Backend := (ts_Backend st2)(''in_flight'' \<mapsto> ts_Packets st2 - ts_Completed st2)\<rparr> else st2))"

definition rq_Stats :: "rxqueue \<Rightarrow> pk_rx_stats" where
  "rq_Stats q =
     (let s = rx_Stats (rq_ring q)
      in \<lparr>xs_Packets = rs_Packets s, xs_Bytes = rs_Bytes s, xs_Filled = rs_Filled s, xs_Batches = rs_Batches s, xs_Polls = 0,
          xs_Completions = rs_Completions s, xs_PoolEmpty = rq_poolEmpty q, xs_Errors = rs_Errors s, xs_Dropped = 0,
          xs_Backend = [''cqn'' \<mapsto> ucast (rq_cqn q), ''rq_entries'' \<mapsto> of_int (rq_entries q), ''outstanding'' \<mapsto> rs_Outstanding s,
            ''pool_rejected'' \<mapsto> rejected (rq_pool q), ''oversize'' \<mapsto> rs_Oversize s]\<rparr>)"

end
