(* ===== verification/Mlx5_Queue_Own.thy ===== *)
theory Mlx5_Queue_Own
  imports Mlx5_Queue Mlx5_Tx_Run Mlx5_Rx_Run
begin

text \<open>
  Frame ownership in the mlx5 queues: what the pool, the rings and the callers hold between them, and that every operation
  keeps it.
\<close>

section \<open>A pool and what is out of it\<close>

text \<open>\<open>F\<close> is frames of other pools that callers brought; \<open>rest\<close> is the frames that are not free.\<close>

definition pool_out :: "bool \<Rightarrow> frames \<Rightarrow> u64 set \<Rightarrow> u64 multiset \<Rightarrow> bool" where
  "pool_out chk p F rest \<longleftrightarrow> pool_inv chk p \<and> rejected p = 0 \<and> finite F \<and> F \<inter> all_frames p = {}
     \<and> mset (free p) + rest = mset_set (all_frames p \<union> F)"

definition pool_same :: "frames \<Rightarrow> frames \<Rightarrow> bool" where
  "pool_same p p' \<longleftrightarrow> all_frames p' = all_frames p \<and> frameSize p' = frameSize p \<and> frameMask p' = frameMask p"

definition bases :: "frames \<Rightarrow> desc list \<Rightarrow> u64 multiset" where
  "bases p ds = mset (map (\<lambda>d. Base p (d_addr d)) ds)"

lemma pool_same_refl [simp]: "pool_same p p" by (simp add: pool_same_def)

lemma pool_same_trans: "pool_same a b \<Longrightarrow> pool_same b c \<Longrightarrow> pool_same a c" by (simp add: pool_same_def)

lemma pool_same_bases: "pool_same p p' \<Longrightarrow> bases p' = bases p"
  by (simp add: fun_eq_iff pool_same_def bases_def Base_def)

lemma bases_simps [simp]: "bases p [] = {#}" "bases p (d # ds) = add_mset (Base p (d_addr d)) (bases p ds)" "bases p (xs @ ys) = bases p xs + bases p ys"
  by (simp_all add: bases_def)

lemma bases_split: "bases p (take n ds) + bases p (drop n ds) = bases p ds"
  by (metis append_take_drop_id bases_simps(3))

lemma pool_out_elem:
  assumes "pool_out chk p F rest" "f \<in># rest"
  shows "f \<notin> set (free p)" "f \<in> all_frames p \<union> F"
proof -
  have fin: "finite (all_frames p \<union> F)" using assms(1) by (simp add: pool_out_def all_frames_def)
  have "count (mset (free p)) f + count rest f = (if f \<in> all_frames p \<union> F then 1 else 0)"
    using assms(1) fin by (metis (no_types) pool_out_def count_mset_set' count_union)
  moreover have "count rest f \<noteq> 0" using assms(2) by (simp add: count_eq_zero_iff)
  moreover have "a + b = (if Q then 1 else 0) \<Longrightarrow> b \<noteq> 0 \<Longrightarrow> a = 0 \<and> Q" for a b :: nat and Q by (cases Q) auto
  ultimately have "count (mset (free p)) f = 0 \<and> f \<in> all_frames p \<union> F" by blast
  then show "f \<notin> set (free p)" "f \<in> all_frames p \<union> F" by (simp_all add: count_mset_0_iff)
qed

lemma pool_out_push:
  assumes "pool_out chk p F (add_mset f rest)" "f \<in> all_frames p"
  shows "\<exists>p'. Push chk f p = Some p' \<and> pool_out chk p' F rest \<and> pool_same p p'"
proof -
  have nf: "f \<notin> set (free p)" using pool_out_elem(1) [OF assms(1)] by simp
  have inv: "pool_inv chk p" using assms(1) by (simp add: pool_out_def)
  have c: "chk \<or> f \<notin> set (free p)" using nf by simp
  show ?thesis
  proof (rule Push_spec [OF inv c])
    fix p' assume "Push chk f p = Some p'" "pool_inv chk p'" "free p' = free p @ [f]" "all_frames p' = all_frames p" "rejected p' = rejected p"
      "frameSize p' = frameSize p" "frameMask p' = frameMask p"
    then show ?thesis using assms(1) by (auto simp: pool_out_def pool_same_def)
  next
    assume "f \<notin> all_frames p \<or> f \<in> set (free p)"
    then show ?thesis using assms(2) nf by blast
  qed
qed

lemma pool_out_push_descs:
  assumes "pool_out chk p F (rest + bases p ds)" "set_mset (bases p ds) \<subseteq> all_frames p"
  shows "\<exists>p'. push_descs chk ds p = Some p' \<and> pool_out chk p' F rest \<and> pool_same p p'"
  using assms
proof (induction ds arbitrary: p)
  case Nil
  then show ?case by simp
next
  case (Cons d ds)
  have "pool_out chk p F (add_mset (Base p (d_addr d)) (rest + bases p ds))" "Base p (d_addr d) \<in> all_frames p" using Cons.prems by simp_all
  then obtain p1 where p1: "Push chk (Base p (d_addr d)) p = Some p1" "pool_out chk p1 F (rest + bases p ds)" "pool_same p p1"
    using pool_out_push by blast
  have "bases p1 = bases p" using p1(3) by (rule pool_same_bases)
  then obtain p' where "push_descs chk ds p1 = Some p'" "pool_out chk p' F rest" "pool_same p1 p'"
    using Cons.IH [of p1] p1(2,3) Cons.prems(2) by (auto simp: pool_same_def)
  then show ?case using p1 pool_same_trans by auto
qed

lemma pool_out_pop:
  assumes "pool_out chk p F rest"
  shows "\<exists>xs p'. Pop chk n [] p = Some (xs, p') \<and> pool_out chk p' F (rest + mset xs) \<and> pool_same p p' \<and> length xs = min (nat n) (Len p)
     \<and> set xs \<subseteq> all_frames p"
proof -
  have inv: "pool_inv chk p" using assms by (simp add: pool_out_def)
  show ?thesis
  proof (rule Pop_spec [OF inv, of n "[]"])
    fix xs p' assume p: "Pop chk n [] p = Some ([] @ xs, p')" "pool_inv chk p'" "free p = free p' @ xs" "length xs = min (nat n) (length (free p))"
        "all_frames p' = all_frames p" "rejected p' = rejected p" "frameSize p' = frameSize p" "frameMask p' = frameMask p"
    have "pool_out chk p' F (rest + mset xs)" using assms p by (simp add: pool_out_def ac_simps)
    moreover have "set xs \<subseteq> all_frames p" using inv p(3) by (auto simp: pool_inv_def)
    ultimately show ?thesis using p by (simp add: Len_def pool_same_def)
  qed
qed

lemma Base_inside:
  assumes "pool_inv chk p" "f \<in> all_frames p" "unat off < frameSize p"
  shows "Base p (f + off) = f"
proof -
  have g: "pool_geom p" using assms(1) by (simp add: pool_inv_def)
  have m: "is_pow2 (frameSize p)" "frameSize p \<le> 2 ^ LENGTH(64)" "frameMask p = of_nat (frameSize p - 1)" "frameSize p dvd unat (base p)"
      "unat (base p) + free_cap p * frameSize p < 2 ^ 64"
    using g by (auto simp: pool_geom_def)
  obtain i where i: "i < free_cap p" "f = faddr p i" using assms(2) by (auto simp: all_frames_def)
  have f: "unat f = unat (base p) + i * frameSize p" using unat_faddr [OF g, of i] i by simp
  have "Suc i * frameSize p \<le> free_cap p * frameSize p" using i(1) by (intro mult_le_mono1) simp
  then have "unat f + unat off < 2 ^ 64" using f m(5) assms(3) by simp
  then have u: "unat (f + off) = unat f + unat off" by (simp add: unat_plus_exact)
  have d: "frameSize p dvd unat f" using f m(4) by simp
  have "unat ((f + off) AND frameMask p) = unat (f + off) mod frameSize p" unfolding m(3) by (rule unat_and_pow2_mask [OF m(1,2)])
  also have "\<dots> = unat off" using u d assms(3) by (auto elim: dvdE)
  finally have "(f + off) AND frameMask p = off" by (simp add: word_unat_eq_iff)
  then show ?thesis by (simp add: Base_def and_not_eq_minus)
qed

lemma bases_map:
  assumes "pool_inv chk p" "set fs \<subseteq> all_frames p" "unat off < frameSize p"
  shows "bases p (map (\<lambda>f. \<lparr>d_addr = f + off, d_len = n, d_options = o'\<rparr>) fs) = mset fs"
  using assms by (induction fs) (simp_all add: Base_inside)

section \<open>The send ring\<close>

text \<open>What ownership needs of a ring: it is some queue of entries, whatever the frames hold now.\<close>

definition tx_live :: "tx \<Rightarrow> bool" where
  "tx_live t \<longleftrightarrow> (\<exists>es. tx_abs t es)"

definition dma_of :: "tx \<Rightarrow> u64 \<Rightarrow> nat \<Rightarrow> bytes" where
  "dma_of t a n = take n (drop (unat (a - tx_regionVA t)) (tx_region t))"

lemma dma_of_dma: "length (tx_region t) < 2 ^ 63 \<Longrightarrow> dma (dma_of t) t"
  by (simp add: dma_def dma_of_def unsigned_of_nat take_bit_nat_eq_self)

lemma tx_live_region:
  assumes "tx_live t" "length b = length (tx_region t)"
  shows "tx_live (t\<lparr>tx_region := b\<rparr>)" "tx_queue (t\<lparr>tx_region := b\<rparr>) = tx_queue t"
  using assms by (auto simp: tx_live_def tx_abs_def tx_geom_def slot_abs_def tx_queue_def tx_InFlight_def)

lemma Post_live:
  assumes "tx_live t"
  shows "\<exists>n t'. tx_Post descs t = Some (n, t') \<and> n \<le> length descs \<and> tx_live t' \<and> tx_queue t' = tx_queue t @ take n descs
     \<and> length (tx_region t') = length (tx_region t)"
proof -
  obtain es where es: "tx_abs t es" using assms by (auto simp: tx_live_def)
  have "length (tx_region t) < 2 ^ 63" using es by (simp add: tx_abs_def tx_geom_def)
  then have d: "dma (dma_of t) t" by (rule dma_of_dma)
  have l: "loaded (length es) (dma_of t) t es" by (simp add: loaded_def)
  obtain n t' where p: "tx_Post descs t = Some (n, t')" "posted (length es) (dma_of t) t es descs n t'"
    using tx_Post_spec [OF es l d, of descs] by blast
  then obtain fs where f: "n \<le> length descs" "kept t t'" "dsum fs = take n descs" "tx_abs t' (es @ fs)" by (auto simp: posted_def)
  have "tx_queue t' = tx_queue t @ take n descs" using tx_queue_abs [OF f(4)] tx_queue_abs [OF es] f(3) by simp
  then show ?thesis using p(1) f kept_same [OF f(2)] by (auto simp: tx_live_def)
qed

lemma Complete_live:
  assumes "tx_live t" "tx_hw_ok t"
  shows "\<exists>k t'. tx_Complete mx out t = Some (out @ take k (tx_queue t), t') \<and> k \<le> length (tx_queue t) \<and> tx_live t'
     \<and> tx_queue t' = drop k (tx_queue t) \<and> tx_region t' = tx_region t"
proof -
  obtain es where es: "tx_abs t es" using assms(1) by (auto simp: tx_live_def)
  from tx_Complete_prefix [OF es assms(2), of mx out] obtain j t' where
    c: "tx_Complete mx out t = Some (out @ dsum (take j es), t')" "tx_abs t' (drop j es)" "tx_region t' = tx_region t" by blast
  let ?k = "length (dsum (take j es))"
  have q: "tx_queue t = dsum es" "tx_queue t' = dsum (drop j es)" using tx_queue_abs [OF es] tx_queue_abs [OF c(2)] by simp_all
  have "take ?k (dsum es) = dsum (take j es)" "drop ?k (dsum es) = dsum (drop j es)"
    using dsum_take_drop [of j es] by (metis append_eq_conv_conj)+
  then show ?thesis using c q dsum_take_le [of j es] by (intro exI [of _ ?k] exI [of _ t']) (auto simp: tx_live_def)
qed

lemma Sync_live: "tx_live t \<Longrightarrow> tx_live (tx_Sync t)" "tx_queue (tx_Sync t) = tx_queue t" "tx_region (tx_Sync t) = tx_region t"
  by (auto simp: tx_live_def tx_Sync_def tx_publish_def Let_def tx_abs_def tx_geom_def slot_abs_def tx_queue_def tx_InFlight_def)

lemma InFlight_live: "tx_live t \<Longrightarrow> tx_InFlight t = length (tx_queue t)"
  using tx_queue_abs by (auto simp: tx_live_def)

section \<open>The transmit queue\<close>

definition tq_queue :: "tx list \<Rightarrow> desc list" where
  "tq_queue rs = concat (map tx_queue rs)"

definition tq_owned :: "bool \<Rightarrow> u64 set \<Rightarrow> txqueue \<Rightarrow> u64 multiset \<Rightarrow> bool" where
  "tq_owned chk F q held \<longleftrightarrow> pool_out chk (tq_pool q) F (held + bases (tq_pool q) (tq_queue (tq_rings q)))
     \<and> tq_next q < length (tq_rings q)
     \<and> (\<forall>t \<in> set (tq_rings q). tx_live t \<and> length (tx_region t) = length (mr_b (md_region (tq_dev q))))"

text \<open>What no operation changes.\<close>

definition tq_same :: "txqueue \<Rightarrow> txqueue \<Rightarrow> bool" where
  "tq_same q q' \<longleftrightarrow> pool_same (tq_pool q) (tq_pool q')
     \<and> length (mr_b (md_region (tq_dev q'))) = length (mr_b (md_region (tq_dev q)))
     \<and> mr_frameMask (md_region (tq_dev q')) = mr_frameMask (md_region (tq_dev q))"

lemma tq_same_refl [simp]: "tq_same q q" by (simp add: tq_same_def)

lemma tq_same_trans: "tq_same a b \<Longrightarrow> tq_same b c \<Longrightarrow> tq_same a c"
  using pool_same_trans by (auto simp: tq_same_def)

lemma tq_same_bases: "tq_same q q' \<Longrightarrow> bases (tq_pool q') = bases (tq_pool q)"
  using pool_same_bases by (simp add: tq_same_def)

lemma tq_same_pool: "tq_same q q' \<Longrightarrow> all_frames (tq_pool q') = all_frames (tq_pool q)" "tq_same q q' \<Longrightarrow> frameSize (tq_pool q') = frameSize (tq_pool q)"
  by (simp_all add: tq_same_def pool_same_def)

lemma tq_autoPin_owned [simp]: "tq_owned chk F (tq_autoPin q) held = tq_owned chk F q held" "tq_same q (tq_autoPin q)"
    "tq_rings (tq_autoPin q) = tq_rings q" "tq_pool (tq_autoPin q) = tq_pool q" "tq_next (tq_autoPin q) = tq_next q"
    "tq_closed (tq_autoPin q) = tq_closed q" "tq_dev (tq_autoPin q) = tq_dev q"
  by (simp_all add: tq_autoPin_def tq_owned_def tq_same_def)

lemma tq_queue_simps [simp]: "tq_queue [] = []" "tq_queue (t # rs) = tx_queue t @ tq_queue rs"
  by (simp_all add: tq_queue_def)

lemma tq_queue_update:
  assumes "i < length rs" "tx_queue t' = tx_queue (rs ! i) @ xs"
  shows "bases p (tq_queue (rs[i := t'])) = bases p (tq_queue rs) + bases p xs"
  using assms by (induction rs arbitrary: i) (auto simp: less_Suc_eq_0_disj)

lemma syncStalls_owned:
  assumes "tq_owned chk F q held"
  shows "tq_owned chk F (syncStalls q) held" "tq_same q (syncStalls q)"
proof -
  have "map tx_queue (map tx_Sync (tq_rings q)) = map tx_queue (tq_rings q)" by (simp add: Sync_live(2))
  then have "tq_queue (map tx_Sync (tq_rings q)) = tq_queue (tq_rings q)" by (simp add: tq_queue_def comp_def Sync_live(2))
  then show "tq_owned chk F (syncStalls q) held" using assms by (auto simp: tq_owned_def syncStalls_def Sync_live)
  show "tq_same q (syncStalls q)" by (simp add: tq_same_def syncStalls_def)
qed

lemma tq_Alloc_owned:
  assumes own: "tq_owned chk F q held" and pos: "0 < frameSize (tq_pool q)"
  shows "\<exists>ds q'. tq_Alloc chk n q = Some (ds, q') \<and> tq_owned chk F q' (held + bases (tq_pool q) ds) \<and> tq_same q q'
     \<and> int (length ds) \<le> max 0 n \<and> (\<forall>d \<in> set ds. d_addr d \<in> all_frames (tq_pool q) \<and> Base (tq_pool q) (d_addr d) = d_addr d)
     \<and> tq_queue (tq_rings q') = tq_queue (tq_rings q) \<and> tq_closed q' = tq_closed q \<and> tq_dev q' = tq_dev q"
proof -
  define G where "G r \<longleftrightarrow> (\<exists>ds q'. r = Some (ds, q') \<and> tq_owned chk F q' (held + bases (tq_pool q) ds) \<and> tq_same q q'
     \<and> int (length ds) \<le> max 0 n \<and> (\<forall>d \<in> set ds. d_addr d \<in> all_frames (tq_pool q) \<and> Base (tq_pool q) (d_addr d) = d_addr d)
     \<and> tq_queue (tq_rings q') = tq_queue (tq_rings q) \<and> tq_closed q' = tq_closed q \<and> tq_dev q' = tq_dev q)" for r
  have same: "G (Some ([], q))" using own by (simp add: G_def)
  have sq: "tq_queue (map tx_Sync rs) = tq_queue rs" for rs by (simp add: tq_queue_def comp_def Sync_live(2))
  have stall: "G (Some ([], syncStalls ((tq_autoPin q)\<lparr>tq_stallsRingFull := a, tq_stallsPoolEmpty := b\<rparr>)))" for a b
  proof -
    let ?q = "(tq_autoPin q)\<lparr>tq_stallsRingFull := a, tq_stallsPoolEmpty := b\<rparr>"
    have o: "tq_owned chk F ?q held" using own by (simp add: tq_owned_def)
    have "tq_same q (syncStalls ?q)" using syncStalls_owned(2) [OF o] by (simp add: tq_same_def)
    then show ?thesis unfolding G_def using syncStalls_owned(1) [OF o] sq by (auto simp: syncStalls_def)
  qed
  have s1: "G (Some ([], syncStalls ((tq_autoPin q)\<lparr>tq_stallsRingFull := a\<rparr>)))" for a
    using stall [where a = a and b = "tq_stallsPoolEmpty (tq_autoPin q)"] by simp
  have s2: "G (Some ([], syncStalls ((tq_autoPin q)\<lparr>tq_stallsPoolEmpty := a\<rparr>)))" for a
    using stall [where a = "tq_stallsRingFull (tq_autoPin q)" and b = a] by simp
  have take': "G (do { (addrs, p) \<leftarrow> Pop chk m [] (tq_pool q);
                       Some (map (\<lambda>addr. \<lparr>d_addr = addr, d_len = 0, d_options = 0\<rparr>) addrs, (tq_autoPin q)\<lparr>tq_pool := p\<rparr>) })" if "m \<le> n" for m
  proof -
    have po: "pool_out chk (tq_pool q) F (held + bases (tq_pool q) (tq_queue (tq_rings q)))" using own by (simp add: tq_owned_def)
    then have inv: "pool_inv chk (tq_pool q)" by (simp add: pool_out_def)
    obtain xs p where x: "Pop chk m [] (tq_pool q) = Some (xs, p)"
        "pool_out chk p F (held + bases (tq_pool q) (tq_queue (tq_rings q)) + mset xs)" "pool_same (tq_pool q) p" "length xs = min (nat m) (Len (tq_pool q))"
        "set xs \<subseteq> all_frames (tq_pool q)" using pool_out_pop [OF po] by blast
    let ?ds = "map (\<lambda>addr. \<lparr>d_addr = addr, d_len = 0, d_options = 0\<rparr>) xs"
    have b: "bases (tq_pool q) ?ds = mset xs" using bases_map [OF inv x(5), of 0 0 0] pos by simp
    have B: "Base (tq_pool q) f = f" if "f \<in> all_frames (tq_pool q)" for f using Base_inside [OF inv that, of 0] pos by simp
    have "tq_owned chk F ((tq_autoPin q)\<lparr>tq_pool := p\<rparr>) (held + mset xs)"
      using own x(2) pool_same_bases [OF x(3)] by (simp add: tq_owned_def ac_simps)
    moreover have "tq_same q ((tq_autoPin q)\<lparr>tq_pool := p\<rparr>)" using x(3) by (simp add: tq_same_def)
    moreover have "int (length xs) \<le> max 0 n" using x(4) that by simp
    ultimately show ?thesis unfolding G_def using x(1,5) b B by auto
  qed
  have nx: "tq_next q < length (tq_rings q)" using own by (simp add: tq_owned_def)
  have "G (tq_Alloc chk n q)" unfolding tq_Alloc_def Let_def using nx by (auto simp: same s1 s2 intro!: take')
  then show ?thesis by (simp add: G_def)
qed

lemma tq_Transmit_owned:
  assumes own: "tq_owned chk F q held" and sub: "bases (tq_pool q) ds \<subseteq># held"
  shows "\<exists>n q'. tq_Transmit ds q = Some (n, q') \<and> n \<le> length ds \<and> tq_owned chk F q' (held - bases (tq_pool q) (take n ds)) \<and> tq_same q q'
     \<and> tq_pool q' = tq_pool q \<and> bases (tq_pool q) (tq_queue (tq_rings q')) = bases (tq_pool q) (tq_queue (tq_rings q)) + bases (tq_pool q) (take n ds)"
proof (cases "tq_closed q")
  case True
  then show ?thesis using own by (simp add: tq_Transmit_def)
next
  case False
  let ?i = "tq_next q" and ?rs = "tq_rings q" and ?p = "tq_pool q"
  have i: "?i < length ?rs" and po: "pool_out chk ?p F (held + bases ?p (tq_queue ?rs))" using own by (simp_all add: tq_owned_def)
  have live: "tx_live t" "length (tx_region t) = length (mr_b (md_region (tq_dev q)))" if "t \<in> set ?rs" for t using own that by (simp_all add: tq_owned_def)
  let ?t = "with_region (tq_autoPin q) (?rs ! ?i)"
  have t: "tx_live ?t" "tx_queue ?t = tx_queue (?rs ! ?i)" "length (tx_region ?t) = length (mr_b (md_region (tq_dev q)))"
    unfolding with_region_def using tx_live_region [of "?rs ! ?i"] live i by simp_all
  obtain n t' where p: "tx_Post ds ?t = Some (n, t')" "n \<le> length ds" "tx_live t'" "tx_queue t' = tx_queue ?t @ take n ds"
      "length (tx_region t') = length (tx_region ?t)" using Post_live [OF t(1), of ds] by blast
  define q' where "q' = (tq_autoPin q)\<lparr>tq_rings := ?rs[?i := t'], tq_next := if Suc ?i = length ?rs then 0 else Suc ?i\<rparr>"
  have ex: "tq_Transmit ds q = Some (n, q')" using False i p(1) by (simp add: tq_Transmit_def Let_def q'_def)
  have b: "bases ?p (tq_queue (?rs[?i := t'])) = bases ?p (tq_queue ?rs) + bases ?p (take n ds)"
    by (rule tq_queue_update [OF i]) (simp add: p(4) t(2))
  have sub': "bases ?p (take n ds) \<subseteq># held" using sub bases_split [of ?p n ds] by (metis subset_mset.order_trans mset_subset_eq_add_left)
  have eq: "held - bases ?p (take n ds) + (bases ?p (tq_queue ?rs) + bases ?p (take n ds)) = held + bases ?p (tq_queue ?rs)"
    using subset_mset.diff_add [OF sub'] by (metis add.assoc add.commute)
  have "pool_out chk ?p F (held - bases ?p (take n ds) + bases ?p (tq_queue (?rs[?i := t'])))" unfolding b eq by (rule po)
  moreover have "\<forall>t \<in> set (?rs[?i := t']). tx_live t \<and> length (tx_region t) = length (mr_b (md_region (tq_dev q)))"
    using live p(3,5) t(3) set_update_subset_insert [of ?rs ?i t'] by auto
  ultimately have "tq_owned chk F q' (held - bases ?p (take n ds))" using i by (auto simp: tq_owned_def q'_def)
  moreover have "tq_same q q'" by (simp add: tq_same_def q'_def)
  ultimately show ?thesis using ex p(2) b by (simp add: q'_def)
qed

text \<open>The rings after completions were taken from them.\<close>

definition rings_kept :: "tx list \<Rightarrow> tx list \<Rightarrow> bool" where
  "rings_kept rs rs' \<longleftrightarrow> list_all2 (\<lambda>r r'. tx_live r' \<and> tx_region r' = tx_region r) rs rs'"

lemma rings_kept_live: "\<forall>t \<in> set rs. tx_live t \<Longrightarrow> rings_kept rs rs" "rings_kept rs rs' \<Longrightarrow> length rs' = length rs"
  by (auto simp: rings_kept_def list_all2_conv_all_nth)

lemma rings_kept_owned:
  assumes "tq_owned chk F q held" "rings_kept (tq_rings q) rs" "pool_out chk p F (held' + bases (tq_pool q) (tq_queue rs))" "pool_same (tq_pool q) p"
  shows "tq_owned chk F (q\<lparr>tq_rings := rs, tq_pool := p\<rparr>) held'" "tq_same q (q\<lparr>tq_rings := rs, tq_pool := p\<rparr>)"
proof -
  have "tx_live t \<and> length (tx_region t) = length (mr_b (md_region (tq_dev q)))" if t: "t \<in> set rs" for t
  proof -
    obtain i where i: "i < length rs" "t = rs ! i" using t by (auto simp: in_set_conv_nth)
    then have "i < length (tq_rings q)" "tx_live t" "tx_region t = tx_region (tq_rings q ! i)"
      using assms(2) by (auto simp: rings_kept_def list_all2_conv_all_nth)
    then show ?thesis using assms(1) nth_mem by (fastforce simp: tq_owned_def)
  qed
  moreover have "length rs = length (tq_rings q)" using assms(2) by (rule rings_kept_live)
  ultimately show "tq_owned chk F (q\<lparr>tq_rings := rs, tq_pool := p\<rparr>) held'"
    using assms(1,3) pool_same_bases [OF assms(4)] by (simp add: tq_owned_def)
  show "tq_same q (q\<lparr>tq_rings := rs, tq_pool := p\<rparr>)" using assms(4) by (simp add: tq_same_def)
qed

lemma complete_rings_spec:
  assumes "pool_out chk p F (R + bases p (tq_queue rs))" "\<forall>t \<in> set rs. tx_live t \<and> tx_hw_ok t" "set_mset (bases p (tq_queue rs)) \<subseteq> all_frames p"
  shows "\<exists>tot' rs' p'. complete_rings chk mx tot rs p = Some (tot', rs', p') \<and> rings_kept rs rs' \<and> pool_same p p'
     \<and> pool_out chk p' F (R + bases p (tq_queue rs')) \<and> bases p (tq_queue rs') \<subseteq># bases p (tq_queue rs)
     \<and> tot' + length (tq_queue rs') = tot + length (tq_queue rs)"
  using assms
proof (induction rs arbitrary: p R tot)
  case Nil
  then show ?case by (simp add: rings_kept_def)
next
  case (Cons r rs)
  show ?case
  proof (cases "int tot \<ge> mx")
    case True
    then show ?thesis using Cons.prems rings_kept_live(1) [of "r # rs"] by simp
  next
    case False
    obtain k r' where r: "tx_Complete (mx - int tot) [] r = Some (take k (tx_queue r), r')" "k \<le> length (tx_queue r)" "tx_live r'"
        "tx_queue r' = drop k (tx_queue r)" "tx_region r' = tx_region r"
      using Complete_live [of r "mx - int tot" "[]"] Cons.prems(2) by auto
    let ?rel = "take k (tx_queue r)"
    have sp: "bases p (tx_queue r) = bases p ?rel + bases p (tx_queue r')" unfolding r(4) by (simp add: bases_split)
    have "pool_out chk p F ((R + bases p (tx_queue r') + bases p (tq_queue rs)) + bases p ?rel)" using Cons.prems(1) by (simp add: sp ac_simps)
    moreover have "set_mset (bases p ?rel) \<subseteq> all_frames p" using Cons.prems(3) by (simp add: sp)
    ultimately obtain p1 where p1: "push_descs chk ?rel p = Some p1" "pool_out chk p1 F ((R + bases p (tx_queue r')) + bases p (tq_queue rs))" "pool_same p p1"
      using pool_out_push_descs by blast
    have b1: "bases p1 = bases p" using p1(3) by (rule pool_same_bases)
    obtain tot' rs' p' where ih: "complete_rings chk mx (tot + length ?rel) rs p1 = Some (tot', rs', p')" "rings_kept rs rs'" "pool_same p1 p'"
        "pool_out chk p' F (R + bases p (tx_queue r') + bases p (tq_queue rs'))" "bases p (tq_queue rs') \<subseteq># bases p (tq_queue rs)"
        "tot' + length (tq_queue rs') = (tot + length ?rel) + length (tq_queue rs)"
      using Cons.IH [of p1 "R + bases p (tx_queue r')" "tot + length ?rel"] p1(2,3) Cons.prems(2,3) unfolding b1 by (auto simp: pool_same_def)
    have "complete_rings chk mx tot (r # rs) p = Some (tot', r' # rs', p')" using False r(1) p1(1) ih(1) by simp
    moreover have "rings_kept (r # rs) (r' # rs')" using ih(2) r(3,5) by (simp add: rings_kept_def)
    moreover have "pool_same p p'" using p1(3) ih(3) by (rule pool_same_trans)
    moreover have "bases p (tq_queue (r' # rs')) \<subseteq># bases p (tq_queue (r # rs))"
      using ih(5) by (simp add: sp subset_mset.add_mono)
    moreover have "pool_out chk p' F (R + bases p (tq_queue (r' # rs')))" using ih(4) by (simp add: ac_simps)
    moreover have "tot' + length (tq_queue (r' # rs')) = tot + length (tq_queue (r # rs))" using ih(6) r(2,4) by simp
    ultimately show ?thesis by blast
  qed
qed

lemma tq_Complete_owned:
  assumes own: "tq_owned chk F q held" and hw: "\<forall>t \<in> set (tq_rings q). tx_hw_ok t"
    and mine: "set_mset (bases (tq_pool q) (tq_queue (tq_rings q))) \<subseteq> all_frames (tq_pool q)"
  shows "\<exists>n q'. tq_Complete chk mx q = Some (n, q') \<and> tq_owned chk F q' held \<and> tq_same q q' \<and> tq_closed q' = tq_closed q \<and> tq_dev q' = tq_dev q
     \<and> bases (tq_pool q) (tq_queue (tq_rings q')) \<subseteq># bases (tq_pool q) (tq_queue (tq_rings q))
     \<and> n + length (tq_queue (tq_rings q')) = length (tq_queue (tq_rings q))"
proof (cases "tq_closed q")
  case True
  then show ?thesis using own by (simp add: tq_Complete_def)
next
  case False
  have po: "pool_out chk (tq_pool q) F (held + bases (tq_pool q) (tq_queue (tq_rings q)))" "\<forall>t \<in> set (tq_rings q). tx_live t \<and> tx_hw_ok t"
    using own hw by (simp_all add: tq_owned_def)
  obtain n rs p where c: "complete_rings chk mx 0 (tq_rings q) (tq_pool q) = Some (n, rs, p)" "rings_kept (tq_rings q) rs" "pool_same (tq_pool q) p"
      "pool_out chk p F (held + bases (tq_pool q) (tq_queue rs))" "bases (tq_pool q) (tq_queue rs) \<subseteq># bases (tq_pool q) (tq_queue (tq_rings q))"
      "n + length (tq_queue rs) = 0 + length (tq_queue (tq_rings q))"
    using complete_rings_spec [OF po mine, of mx 0] by blast
  then show ?thesis using False rings_kept_owned [OF own c(2,4,3)] by (simp add: tq_Complete_def)
qed

lemma reclaim_rings_spec:
  assumes "\<forall>t \<in> set rs. tx_live t \<and> tx_hw_ok t"
  shows "\<exists>xs rs'. reclaim_rings mx n0 rs out = Some (out @ xs, rs') \<and> rings_kept rs rs' \<and> bases p (tq_queue rs) = bases p xs + bases p (tq_queue rs')"
  using assms
proof (induction rs arbitrary: out)
  case Nil
  then show ?case by (simp add: rings_kept_def)
next
  case (Cons r rs)
  show ?case
  proof (cases "int (length out) - int n0 \<ge> mx")
    case True
    then show ?thesis using Cons.prems rings_kept_live(1) [of "r # rs"] by (intro exI [of _ "[]"] exI [of _ "r # rs"]) simp
  next
    case False
    obtain k r' where r: "tx_Complete (mx - (int (length out) - int n0)) out r = Some (out @ take k (tx_queue r), r')" "tx_live r'"
        "tx_queue r' = drop k (tx_queue r)" "tx_region r' = tx_region r"
      using Complete_live [of r "mx - (int (length out) - int n0)" out] Cons.prems by auto
    have sp: "bases p (tx_queue r) = bases p (take k (tx_queue r)) + bases p (tx_queue r')" unfolding r(3) by (simp add: bases_split)
    obtain xs rs' where ih: "reclaim_rings mx n0 rs (out @ take k (tx_queue r)) = Some ((out @ take k (tx_queue r)) @ xs, rs')" "rings_kept rs rs'"
        "bases p (tq_queue rs) = bases p xs + bases p (tq_queue rs')" using Cons.IH [of "out @ take k (tx_queue r)"] Cons.prems by auto
    have "reclaim_rings mx n0 (r # rs) out = Some (out @ (take k (tx_queue r) @ xs), r' # rs')" using False r(1) ih(1) by (simp add: Let_def)
    moreover have "rings_kept (r # rs) (r' # rs')" using ih(2) r(2,4) by (simp add: rings_kept_def)
    moreover have "bases p (tq_queue (r # rs)) = bases p (take k (tx_queue r) @ xs) + bases p (tq_queue (r' # rs'))" using sp ih(3) by simp
    ultimately show ?thesis by blast
  qed
qed

lemma tq_Reclaim_owned:
  assumes own: "tq_owned chk F q held" and hw: "\<forall>t \<in> set (tq_rings q). tx_hw_ok t"
  shows "\<exists>ds q'. tq_Reclaim mx [] q = Some (ds, q') \<and> tq_owned chk F q' (held + bases (tq_pool q) ds) \<and> tq_same q q'"
proof (cases "tq_closed q")
  case True
  then show ?thesis using own by (simp add: tq_Reclaim_def)
next
  case False
  have l: "\<forall>t \<in> set (tq_rings q). tx_live t \<and> tx_hw_ok t" using own hw by (simp add: tq_owned_def)
  obtain xs rs where r: "reclaim_rings mx 0 (tq_rings q) [] = Some ([] @ xs, rs)" "rings_kept (tq_rings q) rs"
      "bases (tq_pool q) (tq_queue (tq_rings q)) = bases (tq_pool q) xs + bases (tq_pool q) (tq_queue rs)"
    using reclaim_rings_spec [OF l, of mx 0 "[]" "tq_pool q"] by blast
  have "pool_out chk (tq_pool q) F (held + bases (tq_pool q) xs + bases (tq_pool q) (tq_queue rs))" using own r(3) by (simp add: tq_owned_def ac_simps)
  from rings_kept_owned [OF own r(2) this] show ?thesis using False r(1) by (simp add: tq_Reclaim_def)
qed

lemma tq_Free_owned:
  assumes own: "tq_owned chk F q held" and sub: "bases (tq_pool q) ds \<subseteq># held" "set_mset (bases (tq_pool q) ds) \<subseteq> all_frames (tq_pool q)"
  shows "\<exists>q'. tq_Free chk ds q = Some q' \<and> tq_owned chk F q' (held - bases (tq_pool q) ds) \<and> tq_same q q' \<and> tq_rings q' = tq_rings q
     \<and> tq_closed q' = tq_closed q \<and> tq_dev q' = tq_dev q"
proof -
  let ?p = "tq_pool q"
  define H where "H = held - bases ?p ds"
  have h: "held = H + bases ?p ds" using subset_mset.diff_add [OF sub(1)] by (simp add: H_def)
  have "pool_out chk ?p F ((H + bases ?p (tq_queue (tq_rings q))) + bases ?p ds)" using own unfolding h by (simp add: tq_owned_def ac_simps)
  then obtain p where p: "push_descs chk ds ?p = Some p" "pool_out chk p F (H + bases ?p (tq_queue (tq_rings q)))" "pool_same ?p p"
    using pool_out_push_descs sub(2) by blast
  have "\<forall>t \<in> set (tq_rings q). tx_live t" using own by (simp add: tq_owned_def)
  from rings_kept_owned [OF own rings_kept_live(1) [OF this] p(2,3)] show ?thesis using p(1) by (simp add: tq_Free_def H_def)
qed

section \<open>SendFunc\<close>

lemma Writable_some:
  assumes "length (mr_b r) < 2 ^ 63" "unat (mr_frameMask r) < 2 ^ 63"
  shows "\<exists>frame. region_Writable r d = Some frame \<and> (unat (d_addr d) < length (mr_b r) \<longrightarrow> unat (d_addr d) + length frame \<le> length (mr_b r))"
proof -
  let ?n = "of_nat (length (mr_b r)) :: u64" and ?a = "d_addr d" and ?m = "mr_frameMask r"
  have n: "unat ?n = length (mr_b r)" using assms(1) by (simp add: unsigned_of_nat take_bit_nat_eq_self)
  show ?thesis
  proof (cases "?a \<ge> ?n")
    case True
    then show ?thesis using n by (simp add: region_Writable_def word_le_nat_alt)
  next
    case False
    then have a: "unat ?a < length (mr_b r)" using n by (simp add: word_le_nat_alt)
    have le: "?a AND ?m \<le> ?m" "?a AND ?m \<le> ?a" by (simp_all add: word_and_le1 word_and_le2)
    have k: "unat (?a AND NOT ?m) = unat ?a - unat (?a AND ?m)" "unat (?a AND ?m) \<le> unat ?m" "unat (?a AND ?m) \<le> unat ?a"
      using le by (simp_all add: and_not_eq_minus unat_sub word_le_nat_alt)
    have "unat (?a AND NOT ?m) + unat ?m < 2 ^ 64" using k a assms by simp
    then have e1: "unat ((?a AND NOT ?m) + ?m) = unat (?a AND NOT ?m) + unat ?m" by (simp add: unat_plus_exact)
    then have "unat ((?a AND NOT ?m) + ?m) + unat (1 :: u64) < 2 ^ 64" using k a assms by simp
    then have e: "unat ((?a AND NOT ?m) + ?m + 1) = unat (?a AND NOT ?m) + unat ?m + 1" using unat_plus_exact [of "(?a AND NOT ?m) + ?m" 1] e1 by simp
    define e' where "e' = (if (?a AND NOT ?m) + ?m + 1 > ?n then ?n else (?a AND NOT ?m) + ?m + 1)"
    have "unat ?a \<le> unat e'" "unat e' \<le> length (mr_b r)" unfolding e'_def using e k a n by (auto simp: word_less_nat_alt)
    then have "region_Writable r d = Some (take (unat e' - unat ?a) (drop (unat ?a) (mr_b r)))" "unat ?a + (unat e' - unat ?a) \<le> length (mr_b r)"
      using False by (simp_all add: region_Writable_def Let_def e'_def [symmetric] word_le_nat_alt)
    then show ?thesis by auto
  qed
qed

text \<open>\<open>build\<close> writes into the frame it is given; it cannot change its length.\<close>

definition writes_in_place :: "(nat \<Rightarrow> bytes \<Rightarrow> int \<times> bytes) \<Rightarrow> bool" where
  "writes_in_place build \<longleftrightarrow> (\<forall>i frame. length (snd (build i frame)) = length frame)"

lemma build_each_spec:
  assumes "writes_in_place build" "length (mr_b r) < 2 ^ 63" "unat (mr_frameMask r) < 2 ^ 63"
  shows "\<exists>res r'. build_each build i ds r = Some (res, r') \<and> length (mr_b r') = length (mr_b r) \<and> mr_frameMask r' = mr_frameMask r
     \<and> (\<forall>l. res = Inr l \<longrightarrow> length l \<le> length ds \<and> map d_addr l = map d_addr (take (length l) ds))"
  using assms(2,3)
proof (induction ds arbitrary: i r)
  case Nil
  then show ?case by simp
next
  case (Cons d ds)
  obtain frame where f: "region_Writable r d = Some frame" "unat (d_addr d) < length (mr_b r) \<Longrightarrow> unat (d_addr d) + length frame \<le> length (mr_b r)"
    using Writable_some [OF Cons.prems] by blast
  obtain n frame' where b: "build i frame = (n, frame')" by fastforce
  have lf: "length frame' = length frame" using assms(1) b unfolding writes_in_place_def by (metis snd_conv)
  let ?r = "region_store r d frame'"
  have r: "length (mr_b ?r) = length (mr_b r)" "mr_frameMask ?r = mr_frameMask r"
    using f(2) lf Cons.prems(1) by (auto simp: region_store_def word_le_nat_alt unsigned_of_nat take_bit_nat_eq_self)
  obtain res r' where ih: "build_each build (Suc i) ds ?r = Some (res, r')" "length (mr_b r') = length (mr_b r)" "mr_frameMask r' = mr_frameMask r"
      "\<And>l. res = Inr l \<Longrightarrow> length l \<le> length ds \<and> map d_addr l = map d_addr (take (length l) ds)"
    using Cons.IH [of ?r "Suc i"] Cons.prems r by auto
  consider "n = 0" | "n \<noteq> 0" "n < 0 \<or> n > int (length frame)" | "n \<noteq> 0" "\<not> (n < 0 \<or> n > int (length frame))" by blast
  then show ?case
  proof cases
    case 1
    then show ?thesis using f(1) b r by simp
  next
    case 2
    then show ?thesis using f(1) b r by simp
  next
    case 3
    then have "build_each build i (d # ds) r = Some (case res of Inl e \<Rightarrow> Inl e | Inr l \<Rightarrow> Inr (d\<lparr>d_len := of_int n\<rparr> # l), r')"
      using f(1) b ih(1) by simp
    then show ?thesis using ih(2-4) by (cases res) auto
  qed
qed

lemma bases_addrs: "map d_addr l = map d_addr l' \<Longrightarrow> bases p l = bases p l'"
  unfolding bases_def by (metis (no_types, lifting) map_map comp_def map_cong)

lemma tq_region_owned:
  assumes "tq_owned chk F q held" "length (mr_b r) = length (mr_b (md_region (tq_dev q)))" "mr_frameMask r = mr_frameMask (md_region (tq_dev q))"
  defines "q' \<equiv> q\<lparr>tq_dev := (tq_dev q)\<lparr>md_region := r\<rparr>\<rparr>"
  shows "tq_owned chk F q' held" "tq_same q q'" "tq_pool q' = tq_pool q" "tq_rings q' = tq_rings q" "tq_closed q' = tq_closed q"
  using assms by (simp_all add: tq_owned_def tq_same_def)

definition region_ok :: "txqueue \<Rightarrow> bool" where
  "region_ok q \<longleftrightarrow> length (mr_b (md_region (tq_dev q))) < 2 ^ 63 \<and> unat (mr_frameMask (md_region (tq_dev q))) < 2 ^ 63 \<and> 0 < frameSize (tq_pool q)"

lemma SendFunc_owned:
  assumes own: "tq_owned chk F q held" and hw: "\<forall>t \<in> set (tq_rings q). tx_hw_ok t"
    and mine: "set_mset (bases (tq_pool q) (tq_queue (tq_rings q))) \<subseteq> all_frames (tq_pool q)"
    and env: "region_ok q" "writes_in_place build"
  shows "\<exists>sent e q'. SendFunc chk cnt build q = Some (sent, e, q') \<and> tq_owned chk F q' held \<and> tq_same q q' \<and> int sent \<le> max 0 cnt
     \<and> (e \<noteq> None \<longrightarrow> sent = 0 \<and> bases (tq_pool q) (tq_queue (tq_rings q')) \<subseteq># bases (tq_pool q) (tq_queue (tq_rings q)))"
proof -
  let ?b = "bases (tq_pool q)"
  define G where "G r \<longleftrightarrow> (\<exists>sent (e :: mq_error option) q'. r = Some (sent, e, q') \<and> tq_owned chk F q' held \<and> tq_same q q' \<and> int sent \<le> max 0 cnt
     \<and> (e \<noteq> None \<longrightarrow> sent = 0 \<and> ?b (tq_queue (tq_rings q')) \<subseteq># ?b (tq_queue (tq_rings q))))" for r
  have stop: "G (Some (0, e, q))" for e using own by (simp add: G_def)
  let ?q = "tq_autoPin q" and ?mx = "cnt + int (tq_NumInFlight (tq_autoPin q))"
  have pin: "tq_owned chk F ?q held" "\<forall>t \<in> set (tq_rings ?q). tx_hw_ok t"
      "set_mset (bases (tq_pool ?q) (tq_queue (tq_rings ?q))) \<subseteq> all_frames (tq_pool ?q)" using own hw mine by simp_all
  obtain n q1 where c0: "tq_Complete chk ?mx ?q = Some (n, q1)" "tq_owned chk F q1 held" "tq_same ?q q1"
      "bases (tq_pool ?q) (tq_queue (tq_rings q1)) \<subseteq># bases (tq_pool ?q) (tq_queue (tq_rings ?q))"
    using tq_Complete_owned [OF pin, of ?mx] by blast
  have c: "tq_Complete chk ?mx ?q = Some (n, q1)" "tq_owned chk F q1 held" "tq_same q q1" "?b (tq_queue (tq_rings q1)) \<subseteq># ?b (tq_queue (tq_rings q))"
    using c0(1,2,4) tq_same_trans [OF tq_autoPin_owned(2) c0(3)] by simp_all
  have fs1: "0 < frameSize (tq_pool q1)" "bases (tq_pool q1) = ?b" "all_frames (tq_pool q1) = all_frames (tq_pool q)"
    using env(1) tq_same_bases [OF c(3)] tq_same_pool [OF c(3)] by (simp_all add: region_ok_def)
  obtain ds q2 where a: "tq_Alloc chk cnt q1 = Some (ds, q2)" "tq_owned chk F q2 (held + ?b ds)" "tq_same q1 q2" "int (length ds) \<le> max 0 cnt"
      "\<forall>d \<in> set ds. d_addr d \<in> all_frames (tq_pool q) \<and> Base (tq_pool q1) (d_addr d) = d_addr d" "tq_queue (tq_rings q2) = tq_queue (tq_rings q1)"
    using tq_Alloc_owned [OF c(2) fs1(1), of cnt] unfolding fs1(2,3) by blast
  have s2: "tq_same q q2" using c(3) a(3) by (rule tq_same_trans)
  have b2: "bases (tq_pool q2) = ?b" "all_frames (tq_pool q2) = all_frames (tq_pool q)" using tq_same_bases [OF s2] tq_same_pool [OF s2] by simp_all
  have dsin: "set_mset (?b ds) \<subseteq> all_frames (tq_pool q)" using a(5) unfolding fs1(2) [symmetric] by (auto simp: bases_def)
  have none: "G (Some (0, None, q2))" if "ds = []" using a(2) s2 that by (simp add: G_def)
  have ro: "length (mr_b (md_region (tq_dev q2))) < 2 ^ 63" "unat (mr_frameMask (md_region (tq_dev q2))) < 2 ^ 63"
    using env(1) s2 by (simp_all add: region_ok_def tq_same_def)
  obtain res r where r: "build_each build 0 ds (md_region (tq_dev q2)) = Some (res, r)" "length (mr_b r) = length (mr_b (md_region (tq_dev q2)))"
      "mr_frameMask r = mr_frameMask (md_region (tq_dev q2))"
      "\<And>l. res = Inr l \<Longrightarrow> length l \<le> length ds \<and> map d_addr l = map d_addr (take (length l) ds)"
    using build_each_spec [OF env(2) ro, of 0 ds] by blast
  define q3 where "q3 = q2\<lparr>tq_dev := (tq_dev q2)\<lparr>md_region := r\<rparr>\<rparr>"
  note o3 = tq_region_owned [OF a(2) r(2,3), folded q3_def]
  have s3: "tq_same q q3" using s2 o3(2) by (rule tq_same_trans)
  have b3: "bases (tq_pool q3) = ?b" "all_frames (tq_pool q3) = all_frames (tq_pool q)" using o3(3) b2 by simp_all
  have finish: "G (case res of
                 Inl e \<Rightarrow> do { q4 \<leftarrow> tq_Free chk ds q3; Some (0, Some e, q4) }
               | Inr l \<Rightarrow>
                   do { q4 \<leftarrow> (if length l < length ds then tq_Free chk (drop (length l) ds) q3 else Some q3);
                        (sent, q5) \<leftarrow> tq_Transmit l q4;
                        q6 \<leftarrow> (if sent < length l then tq_Free chk (drop sent l) q5 else Some q5);
                        Some (sent, None, q6) })"
  proof (cases res)
    case (Inl e)
    obtain q4 where q4: "tq_Free chk ds q3 = Some q4" "tq_owned chk F q4 held" "tq_same q3 q4" "tq_rings q4 = tq_rings q3"
      using tq_Free_owned [OF o3(1), of ds] dsin unfolding b3 by auto
    then show ?thesis using Inl c(4) a(6) o3(4) tq_same_trans [OF s3 q4(3)] by (simp add: G_def)
  next
    case (Inr l)
    have l: "length l \<le> length ds" "map d_addr l = map d_addr (take (length l) ds)" using r(4) [OF Inr] by auto
    have bl: "?b l = ?b (take (length l) ds)" using l(2) by (rule bases_addrs)
    have sp: "?b ds = ?b l + ?b (drop (length l) ds)" unfolding bl by (simp add: bases_split)
    have q4: "\<exists>q4. (if length l < length ds then tq_Free chk (drop (length l) ds) q3 else Some q3) = Some q4
        \<and> tq_owned chk F q4 (held + ?b l) \<and> tq_same q3 q4 \<and> tq_rings q4 = tq_rings q3"
    proof (cases "length l < length ds")
      case True
      have "?b (drop (length l) ds) \<subseteq># held + ?b ds" "set_mset (?b (drop (length l) ds)) \<subseteq> all_frames (tq_pool q)"
          "held + ?b ds - ?b (drop (length l) ds) = held + ?b l" using dsin by (auto simp: sp)
      then show ?thesis using True tq_Free_owned [OF o3(1), of "drop (length l) ds"] unfolding b3 by auto
    next
      case False
      then have "?b ds = ?b l" using l(1) bl by simp
      then show ?thesis using False o3(1) by simp
    qed
    then obtain q4 where q4: "(if length l < length ds then tq_Free chk (drop (length l) ds) q3 else Some q3) = Some q4"
        "tq_owned chk F q4 (held + ?b l)" "tq_same q3 q4" by blast
    have s4: "tq_same q q4" using s3 q4(3) by (rule tq_same_trans)
    have b4: "bases (tq_pool q4) = ?b" using s4 by (rule tq_same_bases)
    obtain sent q5 where q5: "tq_Transmit l q4 = Some (sent, q5)" "sent \<le> length l" "tq_owned chk F q5 (held + ?b l - ?b (take sent l))" "tq_same q4 q5"
      using tq_Transmit_owned [OF q4(2), of l] unfolding b4 by auto
    have s5: "tq_same q q5" using s4 q5(4) by (rule tq_same_trans)
    have b5: "bases (tq_pool q5) = ?b" "all_frames (tq_pool q5) = all_frames (tq_pool q)"
      using tq_same_bases [OF s5] tq_same_pool [OF s5] by simp_all
    have sl: "held + ?b l - ?b (take sent l) = held + ?b (drop sent l)" using bases_split [of "tq_pool q" sent l, symmetric] by simp
    have "\<exists>q6. (if sent < length l then tq_Free chk (drop sent l) q5 else Some q5) = Some q6 \<and> tq_owned chk F q6 held \<and> tq_same q5 q6"
    proof (cases "sent < length l")
      case True
      have "set_mset (?b (drop sent l)) \<subseteq> set_mset (?b l)" unfolding bases_split [of "tq_pool q" sent l, symmetric] by simp
      then have "set_mset (?b (drop sent l)) \<subseteq> all_frames (tq_pool q)" using dsin sp by auto
      then show ?thesis using True tq_Free_owned [OF q5(3), of "drop sent l"] unfolding b5 sl by auto
    next
      case False
      then show ?thesis using q5(2,3) by (simp add: sl)
    qed
    then obtain q6 where q6: "(if sent < length l then tq_Free chk (drop sent l) q5 else Some q5) = Some q6" "tq_owned chk F q6 held" "tq_same q5 q6" by blast
    have "int sent \<le> max 0 cnt" using q5(2) l(1) a(4) by linarith
    then show ?thesis using Inr q4(1) q5(1) q6 tq_same_trans [OF s5 q6(3)] by (simp add: G_def)
  qed
  have "G (SendFunc chk cnt build q)"
  proof (cases "tq_closed q \<or> failedInfo (tq_rings q) \<noteq> None")
    case True
    then show ?thesis using stop by (auto simp: SendFunc_def)
  next
    case False
    then show ?thesis using c(1) a(1) none r(1) finish [unfolded q3_def] by (cases "ds = []") (simp_all add: SendFunc_def Let_def)
  qed
  then show ?thesis by (simp add: G_def)
qed

section \<open>The receive queue\<close>

text \<open>Every buffer the device has starts behind the headroom of a frame of the pool.\<close>

definition placed :: "frames \<Rightarrow> desc list \<Rightarrow> bool" where
  "placed p ds \<longleftrightarrow> (\<forall>d \<in> set ds. d_addr d - rxHeadroom \<in> all_frames p)"

lemma placed_addrs:
  assumes "placed p ds" "set (map d_addr xs) \<subseteq> set (map d_addr ds)"
  shows "placed p xs"
  unfolding placed_def
proof
  fix x assume "x \<in> set xs"
  then obtain d where "d \<in> set ds" "d_addr d = d_addr x" using assms(2) by auto
  then show "d_addr x - rxHeadroom \<in> all_frames p" using assms(1) unfolding placed_def by metis
qed

lemma placed_simps [simp]: "placed p (xs @ ys) \<longleftrightarrow> placed p xs \<and> placed p ys" "placed p []"
  by (auto simp: placed_def)

lemma placed_part: "placed p xs \<Longrightarrow> placed p (take n xs)" "placed p xs \<Longrightarrow> placed p (drop n xs)"
  by (auto simp: placed_def dest: in_set_takeD in_set_dropD)

definition rq_owned :: "bool \<Rightarrow> u32 \<Rightarrow> rxqueue \<Rightarrow> u64 multiset \<Rightarrow> bool" where
  "rq_owned chk lkey q held \<longleftrightarrow> pool_out chk (rq_pool q) {} (held + bases (rq_pool q) (rx_queue (rq_ring q)))
     \<and> rx_inv lkey (rq_ring q) \<and> unat rxHeadroom < frameSize (rq_pool q)
     \<and> (\<forall>f \<in> all_frames (rq_pool q). unat f + frameSize (rq_pool q) \<le> length (rx_region (rq_ring q)))
     \<and> unat (rx_bufSize (rq_ring q)) + unat rxHeadroom = frameSize (rq_pool q) \<and> placed (rq_pool q) (rx_queue (rq_ring q))"

definition rq_same :: "rxqueue \<Rightarrow> rxqueue \<Rightarrow> bool" where
  "rq_same q q' \<longleftrightarrow> pool_same (rq_pool q) (rq_pool q')"

lemma rq_same_refl [simp]: "rq_same q q" by (simp add: rq_same_def)

lemma rq_autoPin_owned [simp]: "rq_owned chk lkey (rq_autoPin q) held = rq_owned chk lkey q held"
    "rq_ring (rq_autoPin q) = rq_ring q" "rq_pool (rq_autoPin q) = rq_pool q" "rq_closed (rq_autoPin q) = rq_closed q" "rq_clock (rq_autoPin q) = rq_clock q"
  by (simp_all add: rq_autoPin_def rq_owned_def)

lemma rq_parts:
  assumes "rq_owned chk lkey q held" "pool_out chk p {} (held' + bases (rq_pool q) (rx_queue r))" "pool_same (rq_pool q) p" "rx_inv lkey r"
    "length (rx_region r) = length (rx_region (rq_ring q))" "rx_bufSize r = rx_bufSize (rq_ring q)" "placed (rq_pool q) (rx_queue r)"
    "rq_ring q' = r" "rq_pool q' = p"
  shows "rq_owned chk lkey q' held'" "rq_same q q'"
  using assms pool_same_bases [OF assms(3)] by (auto simp: rq_owned_def rq_same_def pool_same_def placed_def)

lemma rq_all:
  assumes "pool_out chk p {} rest" "xs \<subseteq># rest"
  shows "set_mset xs \<subseteq> all_frames p"
  using pool_out_elem(2) [OF assms(1)] mset_subset_eqD [OF assms(2)] by auto

lemma rq_Fill_owned:
  assumes own: "rq_owned chk lkey q held"
  shows "\<exists>n q'. rq_Fill chk k q = Some (n, q') \<and> rq_owned chk lkey q' held \<and> rq_same q q' \<and> int n \<le> max 0 k"
proof -
  define G where "G r \<longleftrightarrow> (\<exists>n q'. r = Some (n :: nat, q') \<and> rq_owned chk lkey q' held \<and> rq_same q q' \<and> int n \<le> max 0 k)" for r
  have part: "pool_out chk (rq_pool q) {} (held + bases (rq_pool q) (rx_queue (rq_ring q)))" and inv: "rx_inv lkey (rq_ring q)"
    and hr: "unat rxHeadroom < frameSize (rq_pool q)" and reg: "\<forall>f \<in> all_frames (rq_pool q). unat f + frameSize (rq_pool q) \<le> length (rx_region (rq_ring q))"
    using own by (simp_all add: rq_owned_def)
  have pin: "pool_inv chk (rq_pool q)" using part by (simp add: pool_out_def)
  have same: "G (Some (0, q))" "G (Some (0, rq_autoPin q))" "G (Some (0, (rq_autoPin q)\<lparr>rq_poolEmpty := x\<rparr>))" for x
    using own rq_autoPin_owned(1) [of chk lkey q held] by (auto simp: G_def rq_owned_def rq_same_def)
  have main: "G (do { (addrs, p) \<leftarrow> Pop chk n2 [] (rq_pool q);
                      let fill = map (\<lambda>addr. \<lparr>d_addr = addr + rxHeadroom, d_len = 0, d_options = 0\<rparr>) addrs;
                      (posted, ring) \<leftarrow> rx_Fill fill (rq_ring q);
                      p1 \<leftarrow> push_descs chk (drop posted fill) p;
                      Some (posted, (rq_autoPin q)\<lparr>rq_ring := ring, rq_pool := p1\<rparr>) })" if "n2 \<le> k" for n2
  proof -
    obtain xs p where x: "Pop chk n2 [] (rq_pool q) = Some (xs, p)" "pool_out chk p {} (held + bases (rq_pool q) (rx_queue (rq_ring q)) + mset xs)"
        "pool_same (rq_pool q) p" "length xs = min (nat n2) (Len (rq_pool q))" "set xs \<subseteq> all_frames (rq_pool q)" using pool_out_pop [OF part] by blast
    define ds where "ds = map (\<lambda>addr. \<lparr>d_addr = addr + rxHeadroom, d_len = 0, d_options = 0\<rparr> :: desc) xs"
    have bp: "bases p = bases (rq_pool q)" using x(3) by (rule pool_same_bases)
    have b: "bases (rq_pool q) ds = mset xs" unfolding ds_def by (rule bases_map [OF pin x(5) hr])
    have "rx_buffer (rq_ring q) d" if d: "d \<in> set ds" for d
    proof -
      obtain f where f: "f \<in> set xs" "d_addr d = f + rxHeadroom" using d by (auto simp: ds_def)
      then have "unat f + frameSize (rq_pool q) \<le> length (rx_region (rq_ring q))" using reg x(5) by auto
      moreover have "unat (f + rxHeadroom) \<le> unat f + unat rxHeadroom" by (simp add: unat_word_ariths)
      ultimately show ?thesis using hr f(2) by (simp add: rx_buffer_def)
    qed
    then obtain r where r: "rx_Fill ds (rq_ring q) = Some (min (length ds) (rx_FreeSlots (rq_ring q)), r)" "rx_inv lkey r"
        "rx_queue r = rx_queue (rq_ring q) @ take (rx_FreeSlots (rq_ring q)) ds" "rx_region r = rx_region (rq_ring q)"
        "rx_bufSize r = rx_bufSize (rq_ring q)"
      using rx_Fill_step [OF inv, of ds] by blast
    define n where "n = min (length ds) (rx_FreeSlots (rq_ring q))"
    have tk: "take (rx_FreeSlots (rq_ring q)) ds = take n ds" by (simp add: n_def min_def)
    have sp: "mset xs = bases (rq_pool q) (take n ds) + bases (rq_pool q) (drop n ds)" using b bases_split [of "rq_pool q" n ds] by simp
    have "pool_out chk p {} ((held + bases (rq_pool q) (rx_queue r)) + bases p (drop n ds))" using x(2) by (simp add: r(3) tk sp bp ac_simps)
    moreover have "set_mset (bases p (drop n ds)) \<subseteq> all_frames p" by (rule rq_all [OF calculation]) simp
    ultimately obtain p1 where p1: "push_descs chk (drop n ds) p = Some p1" "pool_out chk p1 {} (held + bases (rq_pool q) (rx_queue r))" "pool_same p p1"
      using pool_out_push_descs by blast
    have "placed (rq_pool q) ds" using x(5) by (auto simp: placed_def ds_def)
    then have pl: "placed (rq_pool q) (rx_queue r)" using own placed_part(1) by (simp add: r(3) rq_owned_def)
    let ?q' = "(rq_autoPin q)\<lparr>rq_ring := r, rq_pool := p1\<rparr>"
    have "rq_owned chk lkey ?q' held" "rq_same q ?q'"
      using rq_parts [OF own p1(2) pool_same_trans [OF x(3) p1(3)] r(2), of ?q'] r(4,5) pl by simp_all
    moreover have "int n \<le> max 0 k" using x(4) that by (simp add: n_def ds_def)
    ultimately show ?thesis using x(1) r(1) p1(1) by (simp add: G_def ds_def [symmetric] n_def [symmetric])
  qed
  have "G (rq_Fill chk k q)" unfolding rq_Fill_def Let_def by (auto simp: same intro!: main [unfolded Let_def])
  then show ?thesis by (simp add: G_def)
qed

lemma rq_taken:
  assumes own: "rq_owned chk lkey q held" and rec: "rx_receive mx [] ts (rq_ring q) = Some ((os, ts'), r)"
  shows "\<exists>p. push_descs chk (rx_Failed r) (rq_pool q) = Some p
     \<and> (\<forall>q'. rq_ring q' = r \<and> rq_pool q' = p \<longrightarrow> rq_owned chk lkey q' (held + bases (rq_pool q) os) \<and> rq_same q q')
     \<and> length os \<le> nat mx \<and> (\<forall>d \<in> set os. unat rxHeadroom + unat (d_len d) \<le> frameSize (rq_pool q)) \<and> placed (rq_pool q) os"
proof -
  let ?p = "rq_pool q"
  have part: "pool_out chk ?p {} (held + bases ?p (rx_queue (rq_ring q)))" and inv: "rx_inv lkey (rq_ring q)" using own by (simp_all add: rq_owned_def)
  from rx_receive_step [OF inv, of mx "[]" ts] rec obtain k where
    k: "rx_inv lkey r" "k \<le> length (rx_queue (rq_ring q))" "rx_queue r = drop k (rx_queue (rq_ring q))"
      "map d_addr (take k (rx_queue (rq_ring q))) \<in> shuffles (map d_addr os) (map d_addr (rx_Failed r))" "length os \<le> nat mx"
      "\<forall>d \<in> set os. d_len d \<le> rx_bufSize (rq_ring q)" "rx_region r = rx_region (rq_ring q)" "rx_bufSize r = rx_bufSize (rq_ring q)" by auto
  have pl: "placed ?p (rx_queue (rq_ring q))" and bs: "unat (rx_bufSize (rq_ring q)) + unat rxHeadroom = frameSize ?p" using own by (simp_all add: rq_owned_def)
  have pq: "placed ?p (rx_queue r)" unfolding k(3) using pl by (rule placed_part)
  have "set (map d_addr os) \<subseteq> set (map d_addr (take k (rx_queue (rq_ring q))))" using mset_eq_setD [OF mset_shuffles [OF k(4), folded mset_append]] by auto
  then have po': "placed ?p os" by (rule placed_addrs [OF placed_part(1) [OF pl]])
  have im: "bases ?p ds = image_mset (Base ?p) (mset (map d_addr ds))" for ds by (simp add: bases_def image_mset.compositionality comp_def)
  have "bases ?p (take k (rx_queue (rq_ring q))) = bases ?p os + bases ?p (rx_Failed r)"
    unfolding im mset_shuffles [OF k(4)] by simp
  then have sp: "bases ?p (rx_queue (rq_ring q)) = bases ?p os + bases ?p (rx_Failed r) + bases ?p (rx_queue r)"
    using bases_split [of ?p k "rx_queue (rq_ring q)"] k(3) by simp
  have po: "pool_out chk ?p {} ((held + bases ?p os + bases ?p (rx_queue r)) + bases ?p (rx_Failed r))" using part by (simp add: sp ac_simps)
  have "set_mset (bases ?p (rx_Failed r)) \<subseteq> all_frames ?p" by (rule rq_all [OF po]) simp
  then obtain p where p: "push_descs chk (rx_Failed r) ?p = Some p" "pool_out chk p {} (held + bases ?p os + bases ?p (rx_queue r))" "pool_same ?p p"
    using pool_out_push_descs [OF po] by blast
  have "rq_owned chk lkey q' (held + bases ?p os) \<and> rq_same q q'" if "rq_ring q' = r \<and> rq_pool q' = p" for q'
    using rq_parts [OF own p(2,3) k(1), of q'] that k(7,8) pq by simp
  moreover have "unat rxHeadroom + unat (d_len d) \<le> frameSize ?p" if "d \<in> set os" for d
  proof -
    have "unat (d_len d) \<le> unat (rx_bufSize (rq_ring q))" using k(6) that by (simp add: word_le_nat_alt)
    then show ?thesis using bs by linarith
  qed
  ultimately show ?thesis using p(1) k(5) po' by blast
qed

lemma rq_Receive_owned:
  assumes own: "rq_owned chk lkey q held"
  shows "\<exists>ds q'. rq_Receive chk mx q = Some (ds, q') \<and> rq_owned chk lkey q' (held + bases (rq_pool q) ds) \<and> rq_same q q' \<and> length ds \<le> nat mx
     \<and> (\<forall>d \<in> set ds. unat rxHeadroom + unat (d_len d) \<le> frameSize (rq_pool q)) \<and> placed (rq_pool q) ds"
proof (cases "rq_closed q")
  case True
  then show ?thesis using own by (simp add: rq_Receive_def)
next
  case False
  have inv: "rx_inv lkey (rq_ring q)" using own by (simp add: rq_owned_def)
  obtain os ts' r where r: "rx_receive mx [] None (rq_ring q) = Some ((os, ts'), r)" using rx_receive_step [OF inv, of mx "[]" None] by auto
  obtain p where p: "push_descs chk (rx_Failed r) (rq_pool q) = Some p"
      "\<And>q'. rq_ring q' = r \<Longrightarrow> rq_pool q' = p \<Longrightarrow> rq_owned chk lkey q' (held + bases (rq_pool q) os) \<and> rq_same q q'"
      "length os \<le> nat mx" "\<forall>d \<in> set os. unat rxHeadroom + unat (d_len d) \<le> frameSize (rq_pool q)" "placed (rq_pool q) os"
    using rq_taken [OF own r] by blast
  then show ?thesis using False r by (simp add: rq_Receive_def rx_Receive_def)
qed

lemma clock_each_length: "length (fst (clock_each ts c)) = length ts"
proof (induction ts arbitrary: c)
  case (Cons t ts)
  obtain ns c1 l c2 where "clock_NS t c = (ns, c1)" "clock_each ts c1 = (l, c2)" by fastforce
  then show ?case using Cons.IH [of c1] by simp
qed simp

lemma rq_ReceiveTimestamps_owned:
  assumes own: "rq_owned chk lkey q held"
  shows "\<exists>ds ns q'. rq_ReceiveTimestamps chk mx q = Some ((ds, ns), q') \<and> rq_owned chk lkey q' (held + bases (rq_pool q) ds) \<and> rq_same q q'
     \<and> length ns = length ds \<and> length ds \<le> nat mx \<and> (\<forall>d \<in> set ds. unat rxHeadroom + unat (d_len d) \<le> frameSize (rq_pool q)) \<and> placed (rq_pool q) ds"
proof (cases "rq_closed q \<or> rq_clock q = None")
  case True
  then show ?thesis using own rq_autoPin_owned(1) [of chk lkey q held] by (auto simp: rq_ReceiveTimestamps_def Let_def rq_same_def)
next
  case False
  then obtain c where c: "\<not> rq_closed q" "rq_clock q = Some c" by auto
  have inv: "rx_inv lkey (rq_ring q)" using own by (simp add: rq_owned_def)
  obtain os ts' r where r: "rx_receive mx [] (Some []) (rq_ring q) = Some ((os, ts'), r)" "map_option length ts' = Some (length os)"
    using rx_receive_step [OF inv, of mx "[]" "Some []"] by auto
  obtain l where l: "ts' = Some l" "length l = length os" using r(2) by (cases ts') auto
  obtain ns c' where n: "clock_each l c = (ns, c')" "length ns = length os" using l(2) clock_each_length [of l c] by (metis eq_fst_iff)
  obtain p where p: "push_descs chk (rx_Failed r) (rq_pool q) = Some p"
      "\<And>q'. rq_ring q' = r \<Longrightarrow> rq_pool q' = p \<Longrightarrow> rq_owned chk lkey q' (held + bases (rq_pool q) os) \<and> rq_same q q'"
      "length os \<le> nat mx" "\<forall>d \<in> set os. unat rxHeadroom + unat (d_len d) \<le> frameSize (rq_pool q)" "placed (rq_pool q) os" using rq_taken [OF own r(1)] by blast
  then show ?thesis using c r(1) l n by (simp add: rq_ReceiveTimestamps_def rx_ReceiveTimestamps_def)
qed

lemma rq_Recycle_owned:
  assumes own: "rq_owned chk lkey q held" and sub: "bases (rq_pool q) ds \<subseteq># held"
  shows "\<exists>q'. rq_Recycle chk ds q = Some q' \<and> rq_owned chk lkey q' (held - bases (rq_pool q) ds) \<and> rq_same q q'"
proof -
  let ?p = "rq_pool q"
  define H where "H = held - bases ?p ds"
  have h: "held = H + bases ?p ds" using subset_mset.diff_add [OF sub] by (simp add: H_def)
  have po: "pool_out chk ?p {} ((H + bases ?p (rx_queue (rq_ring q))) + bases ?p ds)" using own unfolding h by (simp add: rq_owned_def ac_simps)
  have "set_mset (bases ?p ds) \<subseteq> all_frames ?p" by (rule rq_all [OF po]) simp
  then obtain p where p: "push_descs chk ds ?p = Some p" "pool_out chk p {} (H + bases ?p (rx_queue (rq_ring q)))" "pool_same ?p p"
    using pool_out_push_descs [OF po] by blast
  have i: "rx_inv lkey (rq_ring q)" "placed ?p (rx_queue (rq_ring q))" using own by (simp_all add: rq_owned_def)
  from rq_parts [OF own p(2,3) i(1) refl refl i(2), of "q\<lparr>rq_pool := p\<rparr>"] show ?thesis using p(1) by (simp add: rq_Recycle_def H_def)
qed

end
