(* ===== verification/Mlx5_Queue_Run.thy ===== *)
theory Mlx5_Queue_Run
  imports Mlx5_Queue_Own Mlx5_Tx_Props Mlx5_Rx_Props
begin

text \<open>
  Runs of the mlx5 queues from their construction, and the theorems that no run loses or duplicates a frame.
\<close>

section \<open>Runs of a transmit queue\<close>

text \<open>One step of the code that drives a transmit queue, or of the device: \<open>held\<close> is the frames the callers have. A caller
  gives the queue only descriptors of frames it holds; \<open>Complete\<close>, \<open>SendFunc\<close> and \<open>Free\<close> are for frames of the queue's own
  pool (a forwarder, whose frames are another queue's, uses \<open>Reclaim\<close>). Completions are read only when those ahead name
  entries in flight or stale ones. The device rewrites the completion queues as it likes, and callers write the region.\<close>

definition own_out :: "txqueue \<Rightarrow> bool" where
  "own_out q \<longleftrightarrow> set_mset (bases (tq_pool q) (tq_queue (tq_rings q))) \<subseteq> all_frames (tq_pool q)"

inductive mlx5_tx_step :: "bool \<Rightarrow> txqueue \<times> u64 multiset \<Rightarrow> txqueue \<times> u64 multiset \<Rightarrow> bool"
  for chk where
  alloc: "tq_Alloc chk n q = Some (ds, q') \<Longrightarrow> mlx5_tx_step chk (q, held) (q', held + bases (tq_pool q) ds)"
| transmit: "bases (tq_pool q) ds \<subseteq># held \<Longrightarrow> tq_Transmit ds q = Some (n, q') \<Longrightarrow>
    mlx5_tx_step chk (q, held) (q', held - bases (tq_pool q) (take n ds))"
| complete: "\<forall>t \<in> set (tq_rings q). tx_hw_ok t \<Longrightarrow> own_out q \<Longrightarrow> tq_Complete chk mx q = Some (n, q') \<Longrightarrow>
    mlx5_tx_step chk (q, held) (q', held)"
| sendfunc: "\<forall>t \<in> set (tq_rings q). tx_hw_ok t \<Longrightarrow> own_out q \<Longrightarrow> writes_in_place build \<Longrightarrow>
    SendFunc chk n build q = Some (sent, e, q') \<Longrightarrow> mlx5_tx_step chk (q, held) (q', held)"
| reclaims: "\<forall>t \<in> set (tq_rings q). tx_hw_ok t \<Longrightarrow> tq_Reclaim mx [] q = Some (ds, q') \<Longrightarrow>
    mlx5_tx_step chk (q, held) (q', held + bases (tq_pool q) ds)"
| free: "bases (tq_pool q) ds \<subseteq># held \<Longrightarrow> set_mset (bases (tq_pool q) ds) \<subseteq> all_frames (tq_pool q) \<Longrightarrow> tq_Free chk ds q = Some q' \<Longrightarrow>
    mlx5_tx_step chk (q, held) (q', held - bases (tq_pool q) ds)"
| device: "list_all2 cq_rewrite (tq_rings q) rs \<Longrightarrow> mlx5_tx_step chk (q, held) (q\<lparr>tq_rings := rs\<rparr>, held)"
| region: "length b = length (mr_b (md_region (tq_dev q))) \<Longrightarrow>
    mlx5_tx_step chk (q, held) (q\<lparr>tq_dev := (tq_dev q)\<lparr>md_region := (md_region (tq_dev q))\<lparr>mr_b := b\<rparr>\<rparr>\<rparr>, held)"
| pin: "mlx5_tx_step chk (q, held) (snd (tq_Pin q), held)"
| close: "mlx5_tx_step chk (q, held) (snd (tq_close q), held)"

text \<open>What every step keeps.\<close>

definition tq_good :: "bool \<Rightarrow> u64 set \<Rightarrow> txqueue \<Rightarrow> txqueue \<times> u64 multiset \<Rightarrow> bool" where
  "tq_good chk F q0 s \<longleftrightarrow> tq_owned chk F (fst s) (snd s) \<and> tq_same q0 (fst s) \<and> region_ok q0"

lemma region_ok_same: "tq_same q q' \<Longrightarrow> region_ok q \<Longrightarrow> region_ok q'"
  by (simp add: region_ok_def tq_same_def pool_same_def)

lemma cq_rewrite_live:
  assumes "tx_live t" "cq_rewrite t t'"
  shows "tx_live t'" "tx_queue t' = tx_queue t" "tx_region t' = tx_region t"
proof -
  obtain es b where e: "tx_abs t es" "length b = length (cq_buf (tx_cq t))" "t' = t\<lparr>tx_cq := (tx_cq t)\<lparr>cq_buf := b\<rparr>\<rparr>"
    using assms by (auto simp: tx_live_def cq_rewrite_def)
  show "tx_live t'" using e tx_abs_cq [OF e(2,1)] by (auto simp: tx_live_def)
  show "tx_queue t' = tx_queue t" "tx_region t' = tx_region t" by (simp_all add: e(3) tx_queue_def tx_InFlight_def)
qed

lemma rings_rewritten:
  assumes "list_all2 cq_rewrite rs rs'" "\<forall>t \<in> set rs. tx_live t"
  shows "rings_kept rs rs' \<and> tq_queue rs' = tq_queue rs"
  using assms
proof (induction rule: list_all2_induct)
  case (Cons r rs r' rs')
  then show ?case using cq_rewrite_live [of r r'] by (simp add: rings_kept_def)
qed (simp add: rings_kept_def)

lemma tq_good_next:
  assumes "tq_good chk F q0 (q, held)" "tq_owned chk F q' held'" "tq_same q q'"
  shows "tq_good chk F q0 (q', held')"
  using assms tq_same_trans [of q0 q q'] by (simp add: tq_good_def)

lemma mlx5_tx_step_good:
  assumes "mlx5_tx_step chk s s'" "tq_good chk F q0 s"
  shows "tq_good chk F q0 s'"
  using assms
proof (induction rule: mlx5_tx_step.induct)
  case (alloc n q ds q' held)
  then have o: "tq_owned chk F q held" "0 < frameSize (tq_pool q)"
    using region_ok_same [of q0 q] by (simp_all add: tq_good_def region_ok_def)
  from tq_Alloc_owned [OF o, of n] alloc(1) show ?case by (auto intro: tq_good_next [OF alloc(2)])
next
  case (transmit q ds held n q')
  then have o: "tq_owned chk F q held" by (simp add: tq_good_def)
  from tq_Transmit_owned [OF o transmit(1)] transmit(2) show ?case by (auto intro: tq_good_next [OF transmit(3)])
next
  case (complete q mx n q' held)
  then have o: "tq_owned chk F q held" by (simp add: tq_good_def)
  from tq_Complete_owned [OF o complete(1) complete(2) [unfolded own_out_def], of mx] complete(3)
  show ?case by (auto intro: tq_good_next [OF complete(4)])
next
  case (sendfunc q build n sent e q' held)
  then have o: "tq_owned chk F q held" "region_ok q" using region_ok_same [of q0 q] by (simp_all add: tq_good_def)
  from SendFunc_owned [OF o(1) sendfunc(1) sendfunc(2) [unfolded own_out_def] o(2) sendfunc(3), of n] sendfunc(4)
  show ?case by (auto intro: tq_good_next [OF sendfunc(5)])
next
  case (reclaims q mx ds q' held)
  then have o: "tq_owned chk F q held" by (simp add: tq_good_def)
  from tq_Reclaim_owned [OF o reclaims(1), of mx] reclaims(2) show ?case by (auto intro: tq_good_next [OF reclaims(3)])
next
  case (free q ds held q')
  then have o: "tq_owned chk F q held" by (simp add: tq_good_def)
  from tq_Free_owned [OF o free(1,2)] free(3) show ?case by (auto intro: tq_good_next [OF free(4)])
next
  case (device q rs held)
  then have o: "tq_owned chk F q held" by (simp add: tq_good_def)
  then have r: "rings_kept (tq_rings q) rs" "tq_queue rs = tq_queue (tq_rings q)"
    using rings_rewritten [OF device(1)] by (simp_all add: tq_owned_def)
  have "pool_out chk (tq_pool q) F (held + bases (tq_pool q) (tq_queue rs))" using o r(2) by (simp add: tq_owned_def)
  from rings_kept_owned [OF o r(1) this] show ?case by (auto intro: tq_good_next [OF device(2)])
next
  case (region b q held)
  then have o: "tq_owned chk F q held" by (simp add: tq_good_def)
  have "tq_owned chk F (q\<lparr>tq_dev := (tq_dev q)\<lparr>md_region := (md_region (tq_dev q))\<lparr>mr_b := b\<rparr>\<rparr>\<rparr>) held"
    "tq_same q (q\<lparr>tq_dev := (tq_dev q)\<lparr>md_region := (md_region (tq_dev q))\<lparr>mr_b := b\<rparr>\<rparr>\<rparr>)"
    using tq_region_owned [OF o, of "(md_region (tq_dev q))\<lparr>mr_b := b\<rparr>"] region(1) by simp_all
  then show ?case by (rule tq_good_next [OF region(2)])
next
  case (pin q held)
  have "snd (tq_Pin q) = tq_autoPin q" by (simp add: tq_Pin_def tq_autoPin_def split: prod.split)
  then show ?case using pin by (intro tq_good_next [OF pin]) (simp_all add: tq_good_def)
next
  case (close q held)
  then have "tq_owned chk F (snd (tq_close q)) held" "tq_same q (snd (tq_close q))"
    by (auto simp: tq_good_def tq_owned_def tq_same_def tq_close_def)
  then show ?case by (rule tq_good_next [OF close])
qed

lemma mlx5_tx_run_good:
  assumes "(mlx5_tx_step chk)\<^sup>*\<^sup>* s s'" "tq_good chk F q0 s"
  shows "tq_good chk F q0 s'"
  using assms by (induction rule: rtranclp_induct) (auto intro: mlx5_tx_step_good)

section \<open>Construction\<close>

text \<open>What an opened device gives a queue: its frames are whole frames of the region, whose mask is that of a power of two.\<close>

definition frames_inside :: "mdevice \<Rightarrow> int \<Rightarrow> int \<Rightarrow> bool" where
  "frames_inside d firstFrame n \<longleftrightarrow> 0 \<le> firstFrame \<and> 0 \<le> n \<and> is_pow2 (nat (md_frameSize d)) \<and> md_frameSize d < 2 ^ 31
     \<and> (firstFrame + n) * md_frameSize d \<le> int (length (mr_b (md_region d))) \<and> length (mr_b (md_region d)) < 2 ^ 63
     \<and> mr_frameMask (md_region d) = of_nat (nat (md_frameSize d) - 1)"

lemma frames_inside_pool:
  fixes chk
  assumes "frames_inside d firstFrame n"
  defines "p \<equiv> New chk (nat firstFrame) (nat n) (nat (md_frameSize d))"
  shows "pool_inv chk p" "set (free p) = all_frames p" "rejected p = 0" "frameSize p = nat (md_frameSize d)" "0 < frameSize p"
    "\<forall>f \<in> all_frames p. unat f + frameSize p \<le> length (mr_b (md_region d))"
proof -
  let ?fs = "nat (md_frameSize d)"
  have a: "is_pow2 ?fs" "?fs < 2 ^ 63" "length (mr_b (md_region d)) < 2 ^ 63" using assms(1) by (auto simp: frames_inside_def nat_less_iff)
  have pos: "0 < ?fs" using is_pow2_pos [OF a(1)] .
  have b: "(nat firstFrame + nat n) * ?fs \<le> length (mr_b (md_region d))"
    using assms(1) pos by (simp add: frames_inside_def nat_add_distrib [symmetric] nat_mult_distrib [symmetric] nat_le_iff)
  then have c: "(nat firstFrame + nat n) * ?fs < 2 ^ 64" using a(3) by simp
  show inv: "pool_inv chk p" "set (free p) = all_frames p" unfolding p_def by (rule New_inv [OF a(1,2) c])+
  show r: "rejected p = 0" and f: "frameSize p = ?fs" by (simp_all add: p_def New_def initChecks_def Let_def)
  show "0 < frameSize p" using f pos by simp
  have p: "free_cap p = nat n" "base p = of_nat (nat firstFrame * ?fs)" by (simp_all add: p_def New_def initChecks_def Let_def)
  show "\<forall>f \<in> all_frames p. unat f + frameSize p \<le> length (mr_b (md_region d))"
  proof
    fix x assume "x \<in> all_frames p"
    then obtain i where i: "i < nat n" "x = of_nat (nat firstFrame * ?fs + i * ?fs)" by (auto simp: all_frames_def faddr_def p f)
    have "(nat firstFrame + Suc i) * ?fs \<le> (nat firstFrame + nat n) * ?fs" using i(1) by (intro mult_le_mono1) simp
    then have l: "nat firstFrame * ?fs + i * ?fs + ?fs \<le> length (mr_b (md_region d))" using b by (simp add: algebra_simps)
    have "unat x \<le> nat firstFrame * ?fs + i * ?fs" unfolding i(2) by (simp only: unsigned_of_nat of_nat_id take_bit_nat_less_eq_self)
    then show "unat x + frameSize p \<le> length (mr_b (md_region d))" using l f by simp
  qed
qed

lemma pool_starts:
  fixes chk
  assumes "frames_inside d firstFrame n" "finite F"
  defines "p \<equiv> New chk (nat firstFrame) (nat n) (nat (md_frameSize d))"
  assumes "F \<inter> all_frames p = {}"
  shows "pool_out chk p F (mset_set F)"
proof -
  note i = frames_inside_pool [OF assms(1), of chk, folded p_def]
  have "mset (free p) = mset_set (all_frames p)" using i(1,2) by (metis mset_set_set pool_inv_def)
  moreover have "finite (all_frames p)" by (simp add: all_frames_def)
  ultimately show ?thesis using i(1,3) assms(2,4) by (simp add: pool_out_def mset_set_Union Int_commute)
qed

lemma new_rings_made:
  assumes "new_rings cfg created = Some (Inr l)" "(dvq, t) \<in> set l"
  shows "NewTx (cfg dvq) = Some (Inr t) \<and> Inr dvq \<in> set created"
  using assms
proof (induction created arbitrary: l)
  case (Cons c cs)
  obtain dv where c: "c = Inr dv" using Cons.prems(1) by (cases c) auto
  obtain r where r: "NewTx (cfg dv) = Some r" using Cons.prems(1) c by (cases "NewTx (cfg dv)") auto
  obtain u where u: "r = Inr u" using Cons.prems(1) c r by (cases r) auto
  obtain x where x: "new_rings cfg cs = Some x" using Cons.prems(1) c r u by (cases "new_rings cfg cs") auto
  obtain l' where l: "x = Inr l'" "l = (dv, u) # l'" using Cons.prems(1) c r u x by (cases x) auto
  then show ?case using Cons.IH [of l'] Cons.prems(2) c r u x by auto
qed simp

lemma newTxQueue_parts:
  assumes "newTxQueue chk d ix firstFrame n created inl mp ptr = Some (Inr q)"
  obtains l where "new_rings (ring_config d inl mp ptr) created = Some (Inr l)" "l \<noteq> []" "tq_rings q = map snd l" "tq_dev q = d" "tq_next q = 0"
    "tq_pool q = New chk (nat firstFrame) (nat n) (nat (md_frameSize d))" "\<not> tq_closed q"
proof -
  obtain x where x: "new_rings (ring_config d inl mp ptr) created = Some x"
    using assms by (cases "new_rings (ring_config d inl mp ptr) created") (auto simp: newTxQueue_def)
  obtain l where l: "x = Inr l" using assms x by (cases x) (auto simp: newTxQueue_def)
  obtain a l' where "l = a # l'" using assms x l by (cases l) (auto simp: newTxQueue_def)
  then show ?thesis using that [of l] assms x l by (cases a) (auto simp: newTxQueue_def)
qed

lemma newTxQueue_owned:
  assumes new: "newTxQueue chk d ix firstFrame n created inl mp ptr = Some (Inr q)"
    and cfg: "\<forall>dvq. Inr dvq \<in> set created \<longrightarrow> tx_cfg_ok (ring_config d inl mp ptr dvq)"
    and mem: "frames_inside d firstFrame n" and F: "finite F" "F \<inter> all_frames (tq_pool q) = {}"
  shows "tq_good chk F q (q, mset_set F)" "tq_queue (tq_rings q) = []"
proof -
  from new obtain l where l: "new_rings (ring_config d inl mp ptr) created = Some (Inr l)" "l \<noteq> []" "tq_rings q = map snd l" "tq_dev q = d" "tq_next q = 0"
    "tq_pool q = New chk (nat firstFrame) (nat n) (nat (md_frameSize d))" by (rule newTxQueue_parts)
  have r: "tx_live t \<and> tx_queue t = [] \<and> tx_region t = mr_b (md_region d)" if t: "t \<in> set (tq_rings q)" for t
  proof -
    obtain dvq where v: "(dvq, t) \<in> set l" using t l(3) by auto
    have nt: "NewTx (ring_config d inl mp ptr dvq) = Some (Inr t)" "tx_cfg_ok (ring_config d inl mp ptr dvq)"
      using new_rings_made [OF l(1) v] cfg by auto
    have a: "tx_abs t []" by (rule NewTx_abs [OF nt])
    have "tx_region t = tc_Region (ring_config d inl mp ptr dvq)" using nt(1) by (rule NewTx_parts) (simp add: tx_fresh_def)
    then show ?thesis using a tx_queue_abs [OF a] by (auto simp: tx_live_def ring_config_def)
  qed
  then have "\<forall>xs \<in> set (map tx_queue (tq_rings q)). xs = []" by auto
  then show qe: "tq_queue (tq_rings q) = []" by (simp add: tq_queue_def)
  note i = frames_inside_pool [OF mem, of chk, folded l(6)]
  have "pool_out chk (tq_pool q) F (mset_set F)" using pool_starts [OF mem F(1), of chk] F(2) l(6) by simp
  moreover have "tq_next q < length (tq_rings q)" using l(2,3,5) by simp
  ultimately have "tq_owned chk F q (mset_set F)" using qe r l(4) by (auto simp: tq_owned_def)
  moreover have "region_ok q"
  proof -
    have "nat (md_frameSize d) < 2 ^ 31" "length (mr_b (md_region d)) < 2 ^ 63" using mem by (auto simp: frames_inside_def)
    then have "unat (of_nat (nat (md_frameSize d) - 1) :: u64) < 2 ^ 63" by (simp add: unsigned_of_nat take_bit_nat_eq_self)
    then show ?thesis using mem i(5) l(4) by (simp add: region_ok_def frames_inside_def)
  qed
  ultimately show "tq_good chk F q (q, mset_set F)" by (simp add: tq_good_def)
qed

lemma tq_NumInFlight_owned:
  assumes "tq_owned chk F q held"
  shows "tq_NumInFlight q = length (tq_queue (tq_rings q))"
proof -
  have "map tx_InFlight (tq_rings q) = map length (map tx_queue (tq_rings q))" using assms InFlight_live by (auto simp: tq_owned_def)
  then show ?thesis by (simp only: tq_NumInFlight_def tq_queue_def length_concat)
qed

text \<open>An allocation fits the ring it is meant for.\<close>

lemma tq_Alloc_room:
  assumes own: "tq_owned chk F q held" and al: "tq_Alloc chk n q = Some (ds, q')" and ds: "ds \<noteq> []"
  shows "tq_rings q' = tq_rings q" "tq_next q' = tq_next q" "tq_closed q' = tq_closed q" "tq_dev q' = tq_dev q"
    "int (length ds) \<le> tx_FreeSlots (tq_rings q ! tq_next q)"
proof -
  define f where "f = tx_FreeSlots (tq_rings q ! tq_next q)"
  define n1 where "n1 = (if n > f then f else n)"
  define n2 where "n2 = (if n1 > int (Len (tq_pool q)) then int (Len (tq_pool q)) else n1)"
  have nx: "tq_next q < length (tq_rings q)" and inv: "pool_inv chk (tq_pool q)" using own by (simp_all add: tq_owned_def pool_out_def)
  obtain xs p where p: "Pop chk n2 [] (tq_pool q) = Some (xs, p)" "length xs = min (nat n2) (Len (tq_pool q))"
    using Pop_spec [OF inv, of n2 "[]"] by (metis append_Nil Len_def)
  have a: "tq_rings (tq_autoPin q) = tq_rings q" "tq_next (tq_autoPin q) = tq_next q" "tq_pool (tq_autoPin q) = tq_pool q"
      "tq_closed (tq_autoPin q) = tq_closed q" "tq_dev (tq_autoPin q) = tq_dev q" by (simp_all add: tq_autoPin_def)
  have c: "\<not> (tq_closed q \<or> n \<le> 0)" "\<not> (n > f \<and> f = 0)" "\<not> (n1 > int (Len (tq_pool q)) \<and> int (Len (tq_pool q)) = 0)"
    using al ds nx by (auto simp: tq_Alloc_def Let_def a f_def [symmetric] n1_def [symmetric] split: if_split_asm)
  then have "tq_Alloc chk n q = Some (map (\<lambda>addr. \<lparr>d_addr = addr, d_len = 0, d_options = 0\<rparr>) xs, (tq_autoPin q)\<lparr>tq_pool := p\<rparr>)"
    using nx p(1) by (auto simp: tq_Alloc_def Let_def a f_def [symmetric] n1_def [symmetric] n2_def [symmetric])
  then have e: "ds = map (\<lambda>addr. \<lparr>d_addr = addr, d_len = 0, d_options = 0\<rparr>) xs" "q' = (tq_autoPin q)\<lparr>tq_pool := p\<rparr>" using al by simp_all
  show "tq_rings q' = tq_rings q" "tq_next q' = tq_next q" "tq_closed q' = tq_closed q" "tq_dev q' = tq_dev q" by (simp_all add: e a)
  have "xs \<noteq> []" using ds e by simp
  then have "int (length xs) \<le> n2" using p(2) by (cases "n2 \<le> 0") auto
  moreover have "n2 \<le> f" by (simp add: n2_def n1_def)
  ultimately show "int (length ds) \<le> tx_FreeSlots (tq_rings q ! tq_next q)" by (simp add: e f_def)
qed

lemma Post_live_room:
  assumes live: "tx_live t" and single: "tx_mpw t = None" "tx_failed t = None"
    and fit: "int (length ds) \<le> tx_FreeSlots t" and ok: "\<forall>d \<in> set ds. tx_descOK t d"
  shows "\<exists>t'. tx_Post ds t = Some (length ds, t')"
proof (cases "ds = []")
  case True
  obtain n t' where "tx_Post [] t = Some (n, t')" "n \<le> length ([] :: desc list)" using Post_live [OF live, of "[]"] by blast
  then show ?thesis using True by simp
next
  case False
  obtain es where es: "tx_abs t es" using live by (auto simp: tx_live_def)
  have "length (tx_region t) < 2 ^ 63" using es by (simp add: tx_abs_def tx_geom_def)
  then have d: "dma (dma_of t) t" by (rule dma_of_dma)
  have l: "loaded (length es) (dma_of t) t es" by (simp add: loaded_def)
  have nn: "length ds = (if int (length ds) > tx_FreeSlots t then nat (tx_FreeSlots t) else length ds)" using fit by simp
  have "\<exists>i t'. tx_Post ds t = Some (i, t') \<and> posted (length es) (dma_of t) t es (take (length ds) ds) i t'
     \<and> ((\<forall>d \<in> set (take (length ds) ds). tx_descOK t d) \<longrightarrow> i = length ds)"
    using tx_Post_single [OF es l d single(2) _ _ single(1) nn] fit False by auto
  then show ?thesis using ok by auto
qed

section \<open>Properties of the transmit queue\<close>

text \<open>C8: frames are conserved by the mlx5 transmit queue. For either build of the pool, any number of rings and any of their
  modes, and any interleaving of \<open>Alloc\<close>, \<open>Transmit\<close>, \<open>Complete\<close>, \<open>SendFunc\<close>, \<open>Reclaim\<close>, \<open>Free\<close>, \<open>Pin\<close>, \<open>Close\<close>, writes to the frames and
  completions by the device, by callers that give the queue only frames they hold (their own or, forwarding, another pool's),
  every frame is always in exactly one place: free, with a caller, or in flight on one of the rings. \<open>NumInFlight\<close> is the
  number in flight, the pool refuses nothing, and no operation panics.\<close>

theorem mlx5_tx_conserves:
  assumes new: "newTxQueue chk d ix firstFrame n created inl mp ptr = Some (Inr q0)"
    and cfg: "\<forall>dvq. Inr dvq \<in> set created \<longrightarrow> tx_cfg_ok (ring_config d inl mp ptr dvq)"
    and mem: "frames_inside d firstFrame n" and F: "finite F" "F \<inter> all_frames (tq_pool q0) = {}"
    and run: "(mlx5_tx_step chk)\<^sup>*\<^sup>* (q0, mset_set F) (q, held)"
  shows "mset (free (tq_pool q)) + held + bases (tq_pool q0) (tq_queue (tq_rings q)) = mset_set (all_frames (tq_pool q0) \<union> F)
     \<and> tq_NumInFlight q = length (tq_queue (tq_rings q)) \<and> rejected (tq_pool q) = 0
     \<and> (\<forall>k. tq_Alloc chk k q \<noteq> None) \<and> (\<forall>ds. bases (tq_pool q0) ds \<subseteq># held \<longrightarrow> tq_Transmit ds q \<noteq> None)
     \<and> ((\<forall>t \<in> set (tq_rings q). tx_hw_ok t) \<longrightarrow> (\<forall>mx. tq_Reclaim mx [] q \<noteq> None) \<and>
          (own_out q \<longrightarrow> (\<forall>mx. tq_Complete chk mx q \<noteq> None) \<and> (\<forall>k build. writes_in_place build \<longrightarrow> SendFunc chk k build q \<noteq> None)))"
proof -
  have good: "tq_good chk F q0 (q, held)" by (rule mlx5_tx_run_good [OF run newTxQueue_owned(1) [OF new cfg mem F]])
  then have o: "tq_owned chk F q held" and s: "tq_same q0 q" and r: "region_ok q" using region_ok_same by (auto simp: tq_good_def)
  have b: "bases (tq_pool q) = bases (tq_pool q0)" "all_frames (tq_pool q) = all_frames (tq_pool q0)"
    using tq_same_bases [OF s] tq_same_pool(1) [OF s] by simp_all
  have fs: "0 < frameSize (tq_pool q)" using r by (simp add: region_ok_def)
  have p: "mset (free (tq_pool q)) + held + bases (tq_pool q0) (tq_queue (tq_rings q)) = mset_set (all_frames (tq_pool q0) \<union> F)" "rejected (tq_pool q) = 0"
    using o b by (simp_all add: tq_owned_def pool_out_def ac_simps)
  have "tq_Alloc chk k q \<noteq> None" for k using tq_Alloc_owned [OF o fs, of k] by auto
  moreover have "tq_Transmit ds q \<noteq> None" if "bases (tq_pool q0) ds \<subseteq># held" for ds using tq_Transmit_owned [OF o, of ds] that b by auto
  moreover have "tq_Reclaim mx [] q \<noteq> None" if "\<forall>t \<in> set (tq_rings q). tx_hw_ok t" for mx using tq_Reclaim_owned [OF o that, of mx] by auto
  moreover have "tq_Complete chk mx q \<noteq> None" if "\<forall>t \<in> set (tq_rings q). tx_hw_ok t" "own_out q" for mx
    using tq_Complete_owned [OF o that(1) that(2) [unfolded own_out_def], of mx] by auto
  moreover have "SendFunc chk k build q \<noteq> None" if "\<forall>t \<in> set (tq_rings q). tx_hw_ok t" "own_out q" "writes_in_place build" for k build
    using SendFunc_owned [OF o that(1) that(2) [unfolded own_out_def] r that(3), of k] by auto
  ultimately show ?thesis using p tq_NumInFlight_owned [OF o] by blast
qed

text \<open>A device of two frames of four bytes and a hardware queue of one entry.\<close>

definition demo_dev :: mdevice where
  "demo_dev = \<lparr>md_region = \<lparr>mr_b = [1, 2, 3, 4, 5, 6, 7, 8], mr_frameSize = 4, mr_frameMask = 3, mr_frames = 2, mr_va = 0\<rparr>, md_LKey = 6,
     md_checksums = False, md_frameSize = 4, md_signalEvery = 0, md_mpwMaxLen = 0, md_clock = \<lparr>ci_Mult = 1, ci_Shift = 0, ci_Mask = 0xff\<rparr>, md_place = Inr (-1)\<rparr>"

definition demo_dv :: dv_tx where
  "demo_dv = \<lparr>dt_SQ = replicate 64 0, dt_CQ = replicate 64 0, dt_SQDbrec = Some [], dt_CQDbrec = Some [], dt_UAR = Some [],
     dt_QPN = 5, dt_CQN = 9, dt_Blocks = 1, dt_CQEntries = 1, dt_Close = None\<rparr>"

definition demo_frame :: "u32 \<Rightarrow> desc" where
  "demo_frame n = \<lparr>d_addr = 0, d_len = n, d_options = 0\<rparr>"

lemma demo_tq:
  obtains q0 q1 q2 where "newTxQueue True demo_dev 0 0 2 [Inr demo_dv] 0 False False = Some (Inr q0)"
    "tq_Alloc True 1 q0 = Some ([demo_frame 0], q1)" "tq_Transmit [demo_frame 2] q1 = Some (1, q2)" "\<not> tq_closed q0"
    "tx_mpw (tq_rings q0 ! tq_next q0) = None" "tx_failed (tq_rings q0 ! tq_next q0) = None"
    "tx_descOK (with_region q0 (tq_rings q0 ! tq_next q0)) (demo_frame 2)"
    "tq_pool q0 = New True 0 2 4"
proof -
  have "case newTxQueue True demo_dev 0 0 2 [Inr demo_dv] 0 False False of Some (Inr q0) \<Rightarrow>
      (case tq_Alloc True 1 q0 of Some (ds, q1) \<Rightarrow> ds = [demo_frame 0] \<and>
        (case tq_Transmit [demo_frame 2] q1 of Some (n, q2) \<Rightarrow> n = 1 | None \<Rightarrow> False) | None \<Rightarrow> False)
      \<and> \<not> tq_closed q0 \<and> tx_mpw (tq_rings q0 ! tq_next q0) = None \<and> tx_failed (tq_rings q0 ! tq_next q0) = None
      \<and> tx_descOK (with_region q0 (tq_rings q0 ! tq_next q0)) (demo_frame 2)
    | _ \<Rightarrow> False" by code_simp
  then obtain q0 q1 q2 where q: "newTxQueue True demo_dev 0 0 2 [Inr demo_dv] 0 False False = Some (Inr q0)"
    "tq_Alloc True 1 q0 = Some ([demo_frame 0], q1)" "tq_Transmit [demo_frame 2] q1 = Some (1, q2)" "\<not> tq_closed q0"
    "tx_mpw (tq_rings q0 ! tq_next q0) = None" "tx_failed (tq_rings q0 ! tq_next q0) = None"
    "tx_descOK (with_region q0 (tq_rings q0 ! tq_next q0)) (demo_frame 2)"
    by (auto split: option.split_asm sum.split_asm)
  moreover have "tq_pool q0 = New True 0 2 4" using q(1) by (rule newTxQueue_parts) (simp add: demo_dev_def)
  ultimately show ?thesis using that by blast
qed

lemma demo_pool: "all_frames (New True 0 2 4) = {0, 4}" "Base (New True 0 2 4) (d_addr (demo_frame n)) = 0"
  by (auto simp: all_frames_def faddr_def lessThan_Suc numeral_2_eq_2) (simp add: demo_frame_def Base_def)

lemma demo_dev_ok: "frames_inside demo_dev 0 2" "\<forall>dvq. Inr dvq \<in> set [Inr demo_dv] \<longrightarrow> tx_cfg_ok (ring_config demo_dev 0 False False dvq)"
  by (simp_all add: frames_inside_def demo_dev_def demo_dv_def tx_cfg_ok_def ring_config_def is_pow2_def exI [of _ "2 :: nat"])

theorem mlx5_tx_conserves_witness:
  "\<exists>q0 q1 q2. newTxQueue True demo_dev 0 0 2 [Inr demo_dv] 0 False False = Some (Inr q0)
     \<and> tq_Alloc True 1 q0 = Some ([demo_frame 0], q1) \<and> tq_Transmit [demo_frame 2] q1 = Some (1, q2)
     \<and> mset (free (tq_pool q2)) + bases (New True 0 2 4) (tq_queue (tq_rings q2)) = {#0, 4#} \<and> tq_Alloc True 1 q2 \<noteq> None"
proof -
  obtain q0 q1 q2 where q: "newTxQueue True demo_dev 0 0 2 [Inr demo_dv] 0 False False = Some (Inr q0)"
    "tq_Alloc True 1 q0 = Some ([demo_frame 0], q1)" "tq_Transmit [demo_frame 2] q1 = Some (1, q2)" "tq_pool q0 = New True 0 2 4" by (rule demo_tq)
  have o: "tq_owned True {} q0 {#}" "0 < frameSize (tq_pool q0)"
    using newTxQueue_owned(1) [OF q(1) demo_dev_ok(2,1), of "{}"] by (simp_all add: tq_good_def region_ok_def)
  have b: "bases (tq_pool q1) = bases (New True 0 2 4)" using tq_Alloc_owned [OF o, of 1] q(2,4) tq_same_bases [of q0 q1] by auto
  have s1: "mlx5_tx_step True (q0, {#}) (q1, {#0#})" using mlx5_tx_step.alloc [OF q(2), of "{#}"] by (simp add: q(4) demo_pool)
  have s2: "mlx5_tx_step True (q1, {#0#}) (q2, {#})"
    using mlx5_tx_step.transmit [of q1 "[demo_frame 2]" "{#0#}" 1 q2 True] q(3) by (simp add: b demo_pool)
  have "(mlx5_tx_step True)\<^sup>*\<^sup>* (q0, mset_set {}) (q2, {#})" using s1 s2 by simp
  from mlx5_tx_conserves [OF q(1) demo_dev_ok(2,1) _ _ this] have
    "mset (free (tq_pool q2)) + bases (New True 0 2 4) (tq_queue (tq_rings q2)) = {#0, 4#} \<and> tq_Alloc True 1 q2 \<noteq> None"
    by (simp add: q(4) demo_pool)
  then show ?thesis using q by blast
qed

text \<open>C11: \<open>Alloc\<close> never returns more than the following \<open>Transmit\<close> accepts. In every state a queue can reach, with one packet per
  entry on the ring whose turn it is, a caller that describes acceptable packets in the frames it was given has all of them
  taken by the next \<open>Transmit\<close>.\<close>

theorem mlx5_Alloc_fits:
  assumes new: "newTxQueue chk d ix firstFrame n created inl mp ptr = Some (Inr q0)"
    and cfg: "\<forall>dvq. Inr dvq \<in> set created \<longrightarrow> tx_cfg_ok (ring_config d inl mp ptr dvq)"
    and mem: "frames_inside d firstFrame n" and F: "finite F" "F \<inter> all_frames (tq_pool q0) = {}"
    and run: "(mlx5_tx_step chk)\<^sup>*\<^sup>* (q0, mset_set F) (q, held)"
    and al: "tq_Alloc chk k q = Some (ds, q')" and open': "\<not> tq_closed q"
    and single: "tx_mpw (tq_rings q ! tq_next q) = None" "tx_failed (tq_rings q ! tq_next q) = None"
    and same: "map d_addr ds' = map d_addr ds" and ok: "\<forall>d \<in> set ds'. tx_descOK (with_region q (tq_rings q ! tq_next q)) d"
  shows "\<exists>q''. tq_Transmit ds' q' = Some (length ds', q'') \<and> tq_NumInFlight q'' = tq_NumInFlight q + length ds"
proof -
  have good: "tq_good chk F q0 (q, held)" by (rule mlx5_tx_run_good [OF run newTxQueue_owned(1) [OF new cfg mem F]])
  then have o: "tq_owned chk F q held" and r: "region_ok q" using region_ok_same by (auto simp: tq_good_def)
  then have fs: "0 < frameSize (tq_pool q)" by (simp add: region_ok_def)
  have len: "length ds' = length ds" using same by (metis length_map)
  have a: "tq_owned chk F q' (held + bases (tq_pool q) ds)" "tq_same q q'" "tq_queue (tq_rings q') = tq_queue (tq_rings q)"
    using tq_Alloc_owned [OF o fs, of k] al by auto
  have "bases (tq_pool q') ds' = bases (tq_pool q) ds" using tq_same_bases [OF a(2)] bases_addrs [OF same] by simp
  then have sub: "bases (tq_pool q') ds' \<subseteq># held + bases (tq_pool q) ds" by simp
  obtain m q'' where t: "tq_Transmit ds' q' = Some (m, q'')" "m \<le> length ds'" "tq_owned chk F q'' (held + bases (tq_pool q) ds - bases (tq_pool q') (take m ds'))"
      "bases (tq_pool q') (tq_queue (tq_rings q'')) = bases (tq_pool q') (tq_queue (tq_rings q')) + bases (tq_pool q') (take m ds')"
    using tq_Transmit_owned [OF a(1) sub] by blast
  have m: "m = length ds'"
  proof (cases "ds = []")
    case False
    note rm = tq_Alloc_room [OF o al False]
    let ?t = "with_region q (tq_rings q ! tq_next q)"
    have nx: "tq_next q < length (tq_rings q)" and l0: "tx_live (tq_rings q ! tq_next q)"
        "length (tx_region (tq_rings q ! tq_next q)) = length (mr_b (md_region (tq_dev q)))" using o by (simp_all add: tq_owned_def)
    have l: "tx_live ?t" using tx_live_region(1) [OF l0(1)] l0(2) by (simp add: with_region_def)
    have "tx_FreeSlots ?t = tx_FreeSlots (tq_rings q ! tq_next q)" using single by (simp add: tx_FreeSlots_def with_region_def Let_def)
    then obtain t' where p: "tx_Post ds' ?t = Some (length ds', t')"
      using Post_live_room [OF l _ _ _ ok] single rm(5) len by (auto simp: with_region_def)
    have "with_region (tq_autoPin q') (tq_rings q' ! tq_next q') = ?t" using rm by (simp add: with_region_def tq_autoPin_def)
    then show ?thesis using t(1) p rm nx open' by (simp add: tq_Transmit_def tq_autoPin_def Let_def)
  qed (use t(2) len in simp)
  have "size (bases (tq_pool q') (tq_queue (tq_rings q''))) = size (bases (tq_pool q') (tq_queue (tq_rings q')) + bases (tq_pool q') (take m ds'))" by (simp only: t(4))
  then have "length (tq_queue (tq_rings q'')) = length (tq_queue (tq_rings q)) + length ds" using m len a(3) by (simp add: bases_def)
  then show ?thesis using t(1,3) m tq_NumInFlight_owned [OF o] tq_NumInFlight_owned [OF t(3)] by simp
qed

theorem mlx5_Alloc_fits_witness:
  "\<exists>q0 q1 q2. newTxQueue True demo_dev 0 0 2 [Inr demo_dv] 0 False False = Some (Inr q0)
     \<and> tq_Alloc True 1 q0 = Some ([demo_frame 0], q1) \<and> tq_Transmit [demo_frame 2] q1 = Some (1, q2)
     \<and> tq_NumInFlight q2 = tq_NumInFlight q0 + 1"
proof -
  obtain q0 q1 where q: "newTxQueue True demo_dev 0 0 2 [Inr demo_dv] 0 False False = Some (Inr q0)"
    "tq_Alloc True 1 q0 = Some ([demo_frame 0], q1)" "\<not> tq_closed q0"
    "tx_mpw (tq_rings q0 ! tq_next q0) = None" "tx_failed (tq_rings q0 ! tq_next q0) = None"
    "tx_descOK (with_region q0 (tq_rings q0 ! tq_next q0)) (demo_frame 2)" by (rule demo_tq)
  have "(mlx5_tx_step True)\<^sup>*\<^sup>* (q0, mset_set {}) (q0, {#})" by simp
  from mlx5_Alloc_fits [OF q(1) demo_dev_ok(2,1) _ _ this q(2-5), of "[demo_frame 2]"] q(6)
  have "\<exists>q2. tq_Transmit [demo_frame 2] q1 = Some (1, q2) \<and> tq_NumInFlight q2 = tq_NumInFlight q0 + 1" by (simp add: demo_frame_def)
  then show ?thesis using q(1,2) by blast
qed

end
