(* ===== verification/Mlx5_Queue_Rx_Run.thy ===== *)
theory Mlx5_Queue_Rx_Run
  imports Mlx5_Queue_Run
begin

text \<open>
  Runs of the mlx5 receive queue from its construction.
\<close>

section \<open>Runs\<close>

text \<open>One step of the code that drives a receive queue, or of the device, which rewrites the completion queue as it likes:
  \<open>held\<close> is the frames the callers have. A caller recycles only frames it holds.\<close>

inductive mlx5_rx_step :: "bool \<Rightarrow> rxqueue \<times> u64 multiset \<Rightarrow> rxqueue \<times> u64 multiset \<Rightarrow> bool"
  for chk where
  fill: "rq_Fill chk n q = Some (k, q') \<Longrightarrow> mlx5_rx_step chk (q, held) (q', held)"
| receive: "rq_Receive chk mx q = Some (ds, q') \<Longrightarrow> mlx5_rx_step chk (q, held) (q', held + bases (rq_pool q) ds)"
| timestamps: "rq_ReceiveTimestamps chk mx q = Some ((ds, ns), q') \<Longrightarrow> mlx5_rx_step chk (q, held) (q', held + bases (rq_pool q) ds)"
| recycle: "bases (rq_pool q) ds \<subseteq># held \<Longrightarrow> rq_Recycle chk ds q = Some q' \<Longrightarrow> mlx5_rx_step chk (q, held) (q', held - bases (rq_pool q) ds)"
| device: "rx_device (rq_ring q) r \<Longrightarrow> mlx5_rx_step chk (q, held) (q\<lparr>rq_ring := r\<rparr>, held)"
| pin: "mlx5_rx_step chk (q, held) (snd (rq_Pin q), held)"
| close: "mlx5_rx_step chk (q, held) (snd (rq_close q), held)"

definition rq_good :: "bool \<Rightarrow> u32 \<Rightarrow> rxqueue \<Rightarrow> rxqueue \<times> u64 multiset \<Rightarrow> bool" where
  "rq_good chk lkey q0 s \<longleftrightarrow> rq_owned chk lkey (fst s) (snd s) \<and> rq_same q0 (fst s)"

lemma rq_same_trans: "rq_same a b \<Longrightarrow> rq_same b c \<Longrightarrow> rq_same a c"
  unfolding rq_same_def by (rule pool_same_trans)

lemma rq_good_next:
  assumes "rq_good chk lkey q0 (q, held)" "rq_owned chk lkey q' held'" "rq_same q q'"
  shows "rq_good chk lkey q0 (q', held')"
  using assms rq_same_trans [of q0 q q'] by (simp add: rq_good_def)

lemma rq_ring_kept:
  assumes "rq_owned chk lkey q held" "rx_inv lkey (rq_ring q')" "rx_queue (rq_ring q') = rx_queue (rq_ring q)"
    "rx_region (rq_ring q') = rx_region (rq_ring q)" "rx_bufSize (rq_ring q') = rx_bufSize (rq_ring q)" "rq_pool q' = rq_pool q"
  shows "rq_owned chk lkey q' held" "rq_same q q'"
  using assms by (simp_all add: rq_owned_def rq_same_def)

lemma mlx5_rx_step_good:
  assumes "mlx5_rx_step chk s s'" "rq_good chk lkey q0 s"
  shows "rq_good chk lkey q0 s'"
  using assms
proof (induction rule: mlx5_rx_step.induct)
  case (fill n q k q' held)
  then have "rq_owned chk lkey q held" by (simp add: rq_good_def)
  from rq_Fill_owned [OF this, of n] fill(1) show ?case by (auto intro: rq_good_next [OF fill(2)])
next
  case (receive mx q ds q' held)
  then have "rq_owned chk lkey q held" by (simp add: rq_good_def)
  from rq_Receive_owned [OF this, of mx] receive(1) show ?case by (auto intro: rq_good_next [OF receive(2)])
next
  case (timestamps mx q ds ns q' held)
  then have "rq_owned chk lkey q held" by (simp add: rq_good_def)
  from rq_ReceiveTimestamps_owned [OF this, of mx] timestamps(1) show ?case by (auto intro: rq_good_next [OF timestamps(2)])
next
  case (recycle q ds held q')
  then have "rq_owned chk lkey q held" by (simp add: rq_good_def)
  from rq_Recycle_owned [OF this recycle(1)] recycle(2) show ?case by (auto intro: rq_good_next [OF recycle(3)])
next
  case (device q r held)
  then have o: "rq_owned chk lkey q held" by (simp add: rq_good_def)
  then have "rx_inv lkey r \<and> rx_queue r = rx_queue (rq_ring q) \<and> rx_region r = rx_region (rq_ring q)"
    using rx_device_step [of lkey, OF _ device(1)] by (simp add: rq_owned_def)
  moreover have "rx_bufSize r = rx_bufSize (rq_ring q)" using device(1) by (auto simp: rx_device_def)
  ultimately have "rq_owned chk lkey (q\<lparr>rq_ring := r\<rparr>) held" "rq_same q (q\<lparr>rq_ring := r\<rparr>)"
    using rq_ring_kept [OF o, of "q\<lparr>rq_ring := r\<rparr>"] by simp_all
  then show ?case by (rule rq_good_next [OF device(2)])
next
  case (pin q held)
  then have o: "rq_owned chk lkey q held" by (simp add: rq_good_def)
  have "snd (rq_Pin q) = rq_autoPin q" by (simp add: rq_Pin_def rq_autoPin_def split: prod.split)
  then show ?case using o by (intro rq_good_next [OF pin]) (simp_all add: rq_same_def)
next
  case (close q held)
  then have "rq_owned chk lkey (snd (rq_close q)) held" "rq_same q (snd (rq_close q))"
    by (auto simp: rq_good_def rq_owned_def rq_same_def rq_close_def split: option.split)
  then show ?case by (rule rq_good_next [OF close])
qed

lemma mlx5_rx_run_good:
  assumes "(mlx5_rx_step chk)\<^sup>*\<^sup>* s s'" "rq_good chk lkey q0 s"
  shows "rq_good chk lkey q0 s'"
  using assms by (induction rule: rtranclp_induct) (auto intro: mlx5_rx_step_good)

section \<open>Construction\<close>

lemma newRxQueue_owned:
  assumes new: "newRxQueue chk d ix firstFrame n (Inr dvq) = Some (Inr q)"
    and cfg: "length (dr_RQ dvq) < 2 ^ 32" "length (dr_CQ dvq) \<le> 2 ^ 32"
    and mem: "frames_inside d firstFrame n" "64 < md_frameSize d"
  shows "rq_good chk (md_LKey d) q (q, {#})" "rq_pool q = New chk (nat firstFrame) (nat n) (nat (md_frameSize d))" "rx_queue (rq_ring q) = []"
proof -
  let ?c = "\<lparr>xc_RQ = dr_RQ dvq, xc_CQ = dr_CQ dvq, xc_RQDbrec = dr_RQDbrec dvq, xc_CQDbrec = dr_CQDbrec dvq,
               xc_Stride = dr_Stride dvq, xc_LKey = md_LKey d, xc_Region = mr_b (md_region d), xc_RegionVA = mr_va (md_region d),
               xc_BufferSize = of_int (md_frameSize d - int (unat rxHeadroom))\<rparr>"
  obtain x where x: "NewRx ?c = Some x" using new by (cases "NewRx ?c") (auto simp: newRxQueue_def)
  obtain r where r: "x = Inr r" using new x by (cases x) (auto simp: newRxQueue_def)
  have q: "rq_ring q = r" and p: "rq_pool q = New chk (nat firstFrame) (nat n) (nat (md_frameSize d))"
    using new x r by (auto simp: newRxQueue_def)
  have "rx_cfg_ok ?c" using cfg by (simp add: rx_cfg_ok_def)
  note i = NewRx_inv [OF x [unfolded r] this]
  note f = frames_inside_pool [OF mem(1), of chk, folded p]
  have fs: "nat (md_frameSize d) < 2 ^ 31" "64 < nat (md_frameSize d)" using mem by (auto simp: frames_inside_def)
  have "of_int (md_frameSize d - 64) = (of_nat (nat (md_frameSize d) - 64) :: u32)"
    using mem(2) by (simp add: of_nat_diff of_nat_nat)
  then have "rx_bufSize r = of_nat (nat (md_frameSize d) - 64)" using i(5) by (simp add: rxHeadroom_def)
  then have b: "unat (rx_bufSize r) + unat rxHeadroom = nat (md_frameSize d)"
    using fs by (simp only: unsigned_of_nat of_nat_id) (simp add: rxHeadroom_def take_bit_nat_eq_self)
  have "pool_out chk (rq_pool q) {} {#}" using pool_starts [OF mem(1), of "{}" chk] by (simp add: p)
  then have "rq_owned chk (md_LKey d) q {#}"
    using i f b fs by (simp add: rq_owned_def q rxHeadroom_def)
  then show "rq_good chk (md_LKey d) q (q, {#})" by (simp add: rq_good_def)
  show "rq_pool q = New chk (nat firstFrame) (nat n) (nat (md_frameSize d))" by (rule p)
  show "rx_queue (rq_ring q) = []" using i(2) q by simp
qed

section \<open>Properties\<close>

text \<open>C9: frames are conserved by the mlx5 receive queue. For either build of the pool, any completions the device writes, and any
  interleaving of \<open>Fill\<close>, \<open>Receive\<close>, \<open>ReceiveTimestamps\<close>, \<open>Recycle\<close>, \<open>Pin\<close> and \<open>Close\<close> by callers that recycle only frames they
  hold, every frame is always in exactly one place: free, with a caller, or with the device, which sees exactly the buffers posted,
  each as long as its frame behind the headroom. \<open>NumOutstanding\<close> is the number with the device, the pool refuses nothing, no
  operation panics, and every packet delivered lies inside one frame of the pool, behind its headroom.\<close>

theorem mlx5_rx_conserves:
  assumes new: "newRxQueue chk d ix firstFrame n (Inr dvq) = Some (Inr q0)"
    and cfg: "length (dr_RQ dvq) < 2 ^ 32" "length (dr_CQ dvq) \<le> 2 ^ 32"
    and mem: "frames_inside d firstFrame n" "64 < md_frameSize d"
    and run: "(mlx5_rx_step chk)\<^sup>*\<^sup>* (q0, {#}) (q, held)"
  shows "mset (free (rq_pool q)) + held + bases (rq_pool q0) (rx_queue (rq_ring q)) = mset_set (all_frames (rq_pool q0))
     \<and> rx_nic (rq_ring q) = map (\<lambda>b. Some (rx_entry_bytes (md_LKey d) (rq_ring q) b)) (rx_queue (rq_ring q))
     \<and> unat (rx_bufSize (rq_ring q)) + unat rxHeadroom = frameSize (rq_pool q0)
     \<and> rq_NumOutstanding q = length (rx_queue (rq_ring q)) \<and> rejected (rq_pool q) = 0
     \<and> (\<forall>k. rq_Fill chk k q \<noteq> None) \<and> (\<forall>ds. bases (rq_pool q0) ds \<subseteq># held \<longrightarrow> rq_Recycle chk ds q \<noteq> None)
     \<and> (\<forall>mx. \<exists>ds q'. rq_Receive chk mx q = Some (ds, q') \<and> length ds \<le> nat mx
          \<and> (\<forall>b \<in> set ds. d_addr b - rxHeadroom \<in> all_frames (rq_pool q0) \<and> unat rxHeadroom + unat (d_len b) \<le> frameSize (rq_pool q0)))
     \<and> (\<forall>mx. \<exists>ds ns q'. rq_ReceiveTimestamps chk mx q = Some ((ds, ns), q') \<and> length ns = length ds)"
proof -
  have good: "rq_good chk (md_LKey d) q0 (q, held)" by (rule mlx5_rx_run_good [OF run newRxQueue_owned(1) [OF new cfg mem]])
  then have o: "rq_owned chk (md_LKey d) q held" and s: "pool_same (rq_pool q0) (rq_pool q)" by (simp_all add: rq_good_def rq_same_def)
  have b: "bases (rq_pool q) = bases (rq_pool q0)" "all_frames (rq_pool q) = all_frames (rq_pool q0)" "frameSize (rq_pool q) = frameSize (rq_pool q0)"
    using pool_same_bases [OF s] s by (simp_all add: pool_same_def)
  have p: "mset (free (rq_pool q)) + held + bases (rq_pool q0) (rx_queue (rq_ring q)) = mset_set (all_frames (rq_pool q0))" "rejected (rq_pool q) = 0"
      "rx_inv (md_LKey d) (rq_ring q)" "unat (rx_bufSize (rq_ring q)) + unat rxHeadroom = frameSize (rq_pool q0)"
    using o b by (simp_all add: rq_owned_def pool_out_def ac_simps)
  have nic: "rx_nic (rq_ring q) = map (\<lambda>b. Some (rx_entry_bytes (md_LKey d) (rq_ring q) b)) (rx_queue (rq_ring q))" by (rule rx_nic_queue [OF p(3)])
  have num: "rq_NumOutstanding q = length (rx_queue (rq_ring q))" by (simp add: rq_NumOutstanding_def rx_queue_def)
  have "rq_Fill chk k q \<noteq> None" for k using rq_Fill_owned [OF o, of k] by auto
  moreover have "rq_Recycle chk ds q \<noteq> None" if "bases (rq_pool q0) ds \<subseteq># held" for ds using rq_Recycle_owned [OF o, of ds] that b by auto
  moreover have "\<exists>ds q'. rq_Receive chk mx q = Some (ds, q') \<and> length ds \<le> nat mx
      \<and> (\<forall>b \<in> set ds. d_addr b - rxHeadroom \<in> all_frames (rq_pool q0) \<and> unat rxHeadroom + unat (d_len b) \<le> frameSize (rq_pool q0))" for mx
    using rq_Receive_owned [OF o, of mx] b unfolding placed_def by auto
  moreover have "\<exists>ds ns q'. rq_ReceiveTimestamps chk mx q = Some ((ds, ns), q') \<and> length ns = length ds" for mx
    using rq_ReceiveTimestamps_owned [OF o, of mx] by blast
  ultimately show ?thesis using p(1,2,4) nic num by blast
qed

text \<open>A device of one frame of 128 bytes with a completion for it.\<close>

definition demo_rx_dev :: mdevice where
  "demo_rx_dev = demo_dev\<lparr>md_region := \<lparr>mr_b = replicate 128 0, mr_frameSize = 128, mr_frameMask = 127, mr_frames = 1, mr_va = 0\<rparr>, md_frameSize := 128\<rparr>"

definition demo_dv_rx :: dv_rx where
  "demo_dv_rx = \<lparr>dr_RQ = replicate 16 0, dr_CQ = demo_good, dr_RQDbrec = Some [], dr_CQDbrec = Some [], dr_Stride = 16, dr_CQN = 3, dr_Close = None\<rparr>"

definition demo_received :: "rxqueue \<Rightarrow> bool" where
  "demo_received q0 \<longleftrightarrow> (case rq_Fill True 1 q0 of None \<Rightarrow> False
     | Some (n, q1) \<Rightarrow> n = 1 \<and> (case rq_Receive True 1 q1 of None \<Rightarrow> False
         | Some (bs, q2) \<Rightarrow> map (\<lambda>b. (d_addr b, d_len b)) bs = [(64, 3)] \<and> rq_NumOutstanding q2 = 0))"

lemma demo_receivedE:
  assumes "demo_received q0"
  obtains q1 b q2 where "rq_Fill True 1 q0 = Some (1, q1)" "rq_Receive True 1 q1 = Some ([b], q2)" "d_addr b = 64" "d_len b = 3" "rq_NumOutstanding q2 = 0"
proof -
  obtain q1 where q1: "rq_Fill True 1 q0 = Some (1, q1)" using assms by (cases "rq_Fill True 1 q0") (auto simp: demo_received_def)
  obtain bs q2 where q2: "rq_Receive True 1 q1 = Some (bs, q2)" using assms q1 by (cases "rq_Receive True 1 q1") (auto simp: demo_received_def)
  obtain b where "bs = [b]" "d_addr b = 64" "d_len b = 3" using assms q1 q2 by (auto simp: demo_received_def)
  then show ?thesis using that [of q1 b q2] assms q1 q2 by (simp add: demo_received_def)
qed

theorem mlx5_rx_conserves_witness:
  "\<exists>q0 q1 q2 b. newRxQueue True demo_rx_dev 0 0 1 (Inr demo_dv_rx) = Some (Inr q0) \<and> rq_Fill True 1 q0 = Some (1, q1)
     \<and> rq_Receive True 1 q1 = Some ([b], q2) \<and> d_addr b = 64 \<and> d_len b = 3 \<and> rq_NumOutstanding q2 = 0
     \<and> mset (free (rq_pool q2)) + bases (rq_pool q1) [b] + bases (rq_pool q0) (rx_queue (rq_ring q2)) = {#0#}"
proof -
  have "case newRxQueue True demo_rx_dev 0 0 1 (Inr demo_dv_rx) of Some (Inr q0) \<Rightarrow> demo_received q0 | _ \<Rightarrow> False" by code_simp
  then obtain q0 where q0: "newRxQueue True demo_rx_dev 0 0 1 (Inr demo_dv_rx) = Some (Inr q0)" "demo_received q0"
    by (auto split: option.split_asm sum.split_asm)
  obtain q1 b q2 where q': "rq_Fill True 1 q0 = Some (1, q1)" "rq_Receive True 1 q1 = Some ([b], q2)" "d_addr b = 64" "d_len b = 3" "rq_NumOutstanding q2 = 0"
    using q0(2) by (rule demo_receivedE)
  note q = q0(1) q'
  have m: "frames_inside demo_rx_dev 0 1" "64 < md_frameSize demo_rx_dev" "length (dr_RQ demo_dv_rx) < 2 ^ 32" "length (dr_CQ demo_dv_rx) \<le> 2 ^ 32"
    by (simp_all add: frames_inside_def demo_rx_dev_def demo_dv_rx_def demo_good_def is_pow2_def exI [of _ "7 :: nat"])
  have "rq_pool q0 = New True 0 1 128" using newRxQueue_owned(2) [OF q(1) m(3,4,1,2)] by (simp add: demo_rx_dev_def)
  then have a: "all_frames (rq_pool q0) = {0}" by (auto simp: all_frames_def faddr_def)
  have "(mlx5_rx_step True)\<^sup>*\<^sup>* (q0, {#}) (q2, {#} + bases (rq_pool q1) [b])"
    using mlx5_rx_step.fill [OF q(2), of "{#}"] mlx5_rx_step.receive [OF q(3), of "{#}"] by (intro rtranclp_trans [OF r_into_rtranclp r_into_rtranclp])
  from mlx5_rx_conserves [OF q(1) m(3,4,1,2) this] have
    "mset (free (rq_pool q2)) + bases (rq_pool q1) [b] + bases (rq_pool q0) (rx_queue (rq_ring q2)) = {#0#}" by (simp add: a)
  then show ?thesis using q by blast
qed

end
