(* ===== verification/Mlx5_Queue_Send.thy ===== *)
theory Mlx5_Queue_Send
  imports Mlx5_Queue_Run
begin

text \<open>
  What \<open>SendFunc\<close> of the mlx5 transmit queue sends: the bytes the caller's \<open>build\<close> left in each frame.
\<close>

section \<open>Frames of the region\<close>

definition frame_at :: "nat \<Rightarrow> mregion \<Rightarrow> u64 \<Rightarrow> bytes" where
  "frame_at fs r a = take fs (drop (unat a) (mr_b r))"

definition region_frame :: "nat \<Rightarrow> mregion \<Rightarrow> u64 \<Rightarrow> bool" where
  "region_frame fs r a \<longleftrightarrow> fs dvd unat a \<and> unat a + fs \<le> length (mr_b r)"

definition framed :: "nat \<Rightarrow> mregion \<Rightarrow> bool" where
  "framed fs r \<longleftrightarrow> is_pow2 fs \<and> fs < 2 ^ 31 \<and> length (mr_b r) < 2 ^ 63 \<and> mr_frameMask r = of_nat (fs - 1)"

lemma Writable_frame:
  assumes f: "framed fs r" and a: "region_frame fs r (d_addr d)"
  shows "region_Writable r d = Some (frame_at fs r (d_addr d))"
proof -
  let ?a = "d_addr d" and ?n = "of_nat (length (mr_b r)) :: u64"
  have g: "is_pow2 fs" "0 < fs" "fs \<le> 2 ^ 64" "length (mr_b r) < 2 ^ 63" "mr_frameMask r = of_nat (fs - 1)" "fs dvd unat ?a" "unat ?a + fs \<le> length (mr_b r)"
    using f a is_pow2_pos by (auto simp: framed_def region_frame_def)
  have n: "unat ?n = length (mr_b r)" using g(4) by (simp add: unsigned_of_nat take_bit_nat_eq_self)
  have lt: "?a < ?n" using n g(2,7) by (simp add: word_less_nat_alt del: of_nat_unat)
  have "unat (?a AND mr_frameMask r) = unat ?a mod fs" unfolding g(5) using g(1,3) by (intro unat_and_pow2_mask) simp_all
  then have "?a AND mr_frameMask r = 0" using g(6) by (simp add: word_unat_eq_iff)
  then have "?a AND NOT (mr_frameMask r) = ?a" by (simp add: and_not_eq_minus)
  then have e: "(?a AND NOT (mr_frameMask r)) + mr_frameMask r + 1 = ?a + of_nat fs" using g(2) by (simp add: g(5) of_nat_diff)
  have ue: "unat (?a + of_nat fs) = unat ?a + fs" using g(4,7) by (simp add: unat_word_ariths unsigned_of_nat take_bit_nat_eq_self)
  have "\<not> ?a + of_nat fs > ?n" "?a \<le> ?a + of_nat fs" using ue n g(7) by (simp_all add: word_less_nat_alt word_le_nat_alt)
  then show ?thesis using lt ue by (simp add: region_Writable_def Let_def e frame_at_def not_le)
qed

lemma store_frame:
  assumes f: "framed fs r" and a: "region_frame fs r (d_addr d)" and l: "length b = fs"
  shows "length (mr_b (region_store r d b)) = length (mr_b r)" "mr_frameMask (region_store r d b) = mr_frameMask r"
    "frame_at fs (region_store r d b) (d_addr d) = b"
    "region_frame fs r x \<Longrightarrow> x \<noteq> d_addr d \<Longrightarrow> frame_at fs (region_store r d b) x = frame_at fs r x"
proof -
  let ?a = "unat (d_addr d)"
  have g: "0 < fs" "length (mr_b r) < 2 ^ 63" "?a + fs \<le> length (mr_b r)" "fs dvd ?a"
    using f a is_pow2_pos by (auto simp: framed_def region_frame_def)
  have n: "unat (of_nat (length (mr_b r)) :: u64) = length (mr_b r)" using g(2) by (simp add: unsigned_of_nat take_bit_nat_eq_self)
  have "\<not> of_nat (length (mr_b r)) \<le> d_addr d" using n g(1,3) by (simp add: word_le_nat_alt del: of_nat_unat)
  then have s: "mr_b (region_store r d b) = take ?a (mr_b r) @ b @ drop (?a + fs) (mr_b r)" "mr_frameMask (region_store r d b) = mr_frameMask r"
    by (simp_all add: region_store_def l)
  show "length (mr_b (region_store r d b)) = length (mr_b r)" "mr_frameMask (region_store r d b) = mr_frameMask r"
    "frame_at fs (region_store r d b) (d_addr d) = b" using g(3) l by (simp_all add: s frame_at_def)
  show "frame_at fs (region_store r d b) x = frame_at fs r x" if x: "region_frame fs r x" "x \<noteq> d_addr d"
  proof -
    have ux: "unat x \<noteq> ?a" "fs dvd unat x" "unat x + fs \<le> length (mr_b r)" using x by (simp_all add: word_unat_eq_iff region_frame_def)
    obtain i j where ij: "?a = fs * i" "unat x = fs * j" using g(4) ux(2) by (auto elim!: dvdE)
    have "fs * Suc j \<le> fs * i \<or> fs * Suc i \<le> fs * j" using ux(1) ij by (metis mult_le_mono2 nat_neq_iff Suc_leI)
    then consider "unat x + fs \<le> ?a" | "?a + fs \<le> unat x" unfolding ij by (auto simp: algebra_simps)
    then show ?thesis
    proof cases
      case 1
      then show ?thesis using g(3) by (simp add: s(1) frame_at_def take_drop min_def)
    next
      case 2
      then show ?thesis using g(3) l by (simp add: s(1) frame_at_def)
    qed
  qed
qed

lemma Frame_frame:
  assumes f: "framed fs r" and a: "region_frame fs r (d_addr d)" and l: "unat (d_len d) \<le> fs"
  shows "region_Frame r d = Some (take (unat (d_len d)) (frame_at fs r (d_addr d)))"
proof -
  let ?n = "of_nat (length (mr_b r)) :: u64"
  have g: "0 < fs" "length (mr_b r) < 2 ^ 63" "unat (d_addr d) + fs \<le> length (mr_b r)"
    using f a is_pow2_pos by (auto simp: framed_def region_frame_def)
  have n: "unat ?n = length (mr_b r)" using g(2) by (simp add: unsigned_of_nat take_bit_nat_eq_self)
  have u: "unat (d_addr d + ucast (d_len d)) = unat (d_addr d) + unat (d_len d)"
    using g l by (simp add: unat_word_ariths unsigned_ucast_eq take_bit_nat_eq_self)
  have "\<not> (d_addr d \<ge> ?n \<or> d_addr d + ucast (d_len d) > ?n)" using n u g l by (simp add: word_le_nat_alt word_less_nat_alt del: of_nat_unat)
  then show ?thesis using u l by (simp add: region_Frame_def Let_def frame_at_def min_def)
qed

section \<open>The loop over the frames\<close>

text \<open>Frame \<open>j\<close> of a batch, as its turn of \<open>build\<close> left it, and the descriptor that names what was built.\<close>

definition built :: "(nat \<Rightarrow> bytes \<Rightarrow> int \<times> bytes) \<Rightarrow> nat \<Rightarrow> nat \<Rightarrow> mregion \<Rightarrow> mregion \<Rightarrow> desc \<Rightarrow> desc \<Rightarrow> bool" where
  "built build fs j r r' d d' \<longleftrightarrow> (let (n, b) = build j (frame_at fs r (d_addr d))
     in 0 < n \<and> n \<le> int fs \<and> d' = d\<lparr>d_len := of_int n\<rparr> \<and> frame_at fs r' (d_addr d) = b)"

lemma build_each_frames:
  assumes w: "writes_in_place build" and f: "framed fs r" "\<forall>d \<in> set ds. region_frame fs r (d_addr d)" "distinct (map d_addr ds)"
    and b: "build_each build i ds r = Some (res, r')"
  shows "framed fs r' \<and> length (mr_b r') = length (mr_b r)
     \<and> (\<forall>l. res = Inr l \<longrightarrow> length l \<le> length ds \<and> (\<forall>j < length l. built build fs (i + j) r r' (ds ! j) (l ! j)))
     \<and> (\<forall>x. region_frame fs r x \<and> x \<notin> set (map d_addr ds) \<longrightarrow> frame_at fs r' x = frame_at fs r x)"
  using f b
proof (induction ds arbitrary: i r res)
  case Nil
  then show ?case by auto
next
  case (Cons d ds)
  let ?f = "frame_at fs r (d_addr d)"
  have rf: "region_frame fs r (d_addr d)" using Cons.prems(2) by simp
  obtain n b where nb: "build i ?f = (n, b)" by fastforce
  have lf: "length ?f = fs" using rf by (auto simp: frame_at_def region_frame_def)
  then have lb: "length b = fs" using w nb unfolding writes_in_place_def by (metis snd_conv)
  let ?r = "region_store r d b"
  note st = store_frame [OF Cons.prems(1) rf lb]
  have f1: "framed fs ?r" using Cons.prems(1) st(1,2) by (simp add: framed_def)
  have rr: "region_frame fs ?r x = region_frame fs r x" for x using st(1) by (simp add: region_frame_def)
  have step: "build_each build i (d # ds) r = (if n = 0 then Some (Inr [], ?r) else if n < 0 \<or> n > int fs then Some (Inl (BadLength n fs), ?r)
      else do { (res, r2) \<leftarrow> build_each build (Suc i) ds ?r; Some (case res of Inl e \<Rightarrow> Inl e | Inr l \<Rightarrow> Inr (d\<lparr>d_len := of_int n\<rparr> # l), r2) })"
    using Writable_frame [OF Cons.prems(1) rf] nb lf by simp
  show ?case
  proof (cases "n = 0 \<or> n < 0 \<or> n > int fs")
    case True
    then have "\<forall>l. res = Inr l \<longrightarrow> l = []" "r' = ?r" using Cons.prems(4) step by (auto split: if_splits)
    then show ?thesis using f1 st(1) st(4) by auto
  next
    case False
    then have n: "0 < n" "n \<le> int fs" by auto
    obtain res2 where e: "build_each build (Suc i) ds ?r = Some (res2, r')" "res = (case res2 of Inl e \<Rightarrow> Inl e | Inr l \<Rightarrow> Inr (d\<lparr>d_len := of_int n\<rparr> # l))"
      using Cons.prems(4) step False by (cases "build_each build (Suc i) ds ?r") auto
    have dd: "distinct (map d_addr ds)" "d_addr d \<notin> set (map d_addr ds)" using Cons.prems(3) by simp_all
    have ih: "framed fs r'" "length (mr_b r') = length (mr_b ?r)"
        "\<And>l. res2 = Inr l \<Longrightarrow> length l \<le> length ds \<and> (\<forall>j < length l. built build fs (Suc i + j) ?r r' (ds ! j) (l ! j))"
        "\<And>x. region_frame fs r x \<Longrightarrow> x \<notin> set (map d_addr ds) \<Longrightarrow> frame_at fs r' x = frame_at fs ?r x"
      using Cons.IH [OF f1 _ dd(1) e(1)] Cons.prems(2) rr by auto
    have "length l \<le> length (d # ds) \<and> (\<forall>j < length l. built build fs (i + j) r r' ((d # ds) ! j) (l ! j))" if l: "res = Inr l" for l
    proof -
      obtain l2 where l2: "res2 = Inr l2" "l = d\<lparr>d_len := of_int n\<rparr> # l2" using l e(2) by (cases res2) auto
      note il = ih(3) [OF l2(1)]
      have "built build fs (i + j) r r' ((d # ds) ! j) (l ! j)" if j: "j < length l" for j
      proof (cases j)
        case 0
        have "frame_at fs r' (d_addr d) = b" using ih(4) [OF rf dd(2)] st(3) by simp
        then show ?thesis using 0 n nb l2(2) by (simp add: built_def)
      next
        case (Suc k)
        then have k: "k < length l2" using j l2(2) by simp
        have "ds ! k \<in> set ds" using k il by simp
        then have "frame_at fs ?r (d_addr (ds ! k)) = frame_at fs r (d_addr (ds ! k))"
          using st(4) Cons.prems(2) dd(2) by (metis image_eqI list.set_intros(2) list.set_map)
        moreover have "built build fs (Suc i + k) ?r r' (ds ! k) (l2 ! k)" using il k by blast
        ultimately show ?thesis using Suc l2(2) by (simp add: built_def)
      qed
      then show ?thesis using il l2(2) by simp
    qed
    moreover have "frame_at fs r' x = frame_at fs r x" if "region_frame fs r x" "x \<notin> set (map d_addr (d # ds))" for x
      using ih(4) [of x] st(4) [of x] that by simp
    ultimately show ?thesis using ih(1,2) st(1) by simp
  qed
qed

section \<open>The parts of a send\<close>

lemma SendFunc_result:
  assumes "SendFunc chk cnt build q = Some (sent, e, q')"
  obtains (stopped) "sent = 0" "q' = q"
  | (empty) n0 q1 where "tq_Complete chk (cnt + int (tq_NumInFlight (tq_autoPin q))) (tq_autoPin q) = Some (n0, q1)"
      "tq_Alloc chk cnt q1 = Some ([], q')" "sent = 0"
  | (bad) n0 q1 ds q2 err r where "tq_Complete chk (cnt + int (tq_NumInFlight (tq_autoPin q))) (tq_autoPin q) = Some (n0, q1)"
      "tq_Alloc chk cnt q1 = Some (ds, q2)" "ds \<noteq> []" "build_each build 0 ds (md_region (tq_dev q2)) = Some (Inl err, r)"
      "tq_Free chk ds (q2\<lparr>tq_dev := (tq_dev q2)\<lparr>md_region := r\<rparr>\<rparr>) = Some q'" "sent = 0"
  | (sent) n0 q1 ds q2 l r q4 q5 where "tq_Complete chk (cnt + int (tq_NumInFlight (tq_autoPin q))) (tq_autoPin q) = Some (n0, q1)"
      "tq_Alloc chk cnt q1 = Some (ds, q2)" "ds \<noteq> []" "build_each build 0 ds (md_region (tq_dev q2)) = Some (Inr l, r)"
      "(if length l < length ds then tq_Free chk (drop (length l) ds) (q2\<lparr>tq_dev := (tq_dev q2)\<lparr>md_region := r\<rparr>\<rparr>)
        else Some (q2\<lparr>tq_dev := (tq_dev q2)\<lparr>md_region := r\<rparr>\<rparr>)) = Some q4"
      "tq_Transmit l q4 = Some (sent, q5)" "(if sent < length l then tq_Free chk (drop sent l) q5 else Some q5) = Some q'" "\<not> tq_closed q"
proof (cases "tq_closed q \<or> failedInfo (tq_rings q) \<noteq> None")
  case True
  then show ?thesis using assms stopped by (auto simp: SendFunc_def split: if_split_asm)
next
  case False
  let ?c = "tq_Complete chk (cnt + int (tq_NumInFlight (tq_autoPin q))) (tq_autoPin q)"
  obtain n0 q1 where c: "?c = Some (n0, q1)" using assms False by (cases ?c) (auto simp: SendFunc_def)
  obtain ds q2 where a: "tq_Alloc chk cnt q1 = Some (ds, q2)" using assms False c by (cases "tq_Alloc chk cnt q1") (auto simp: SendFunc_def)
  show ?thesis
  proof (cases "ds = []")
    case True
    then show ?thesis using assms False c a empty by (simp add: SendFunc_def)
  next
    case ne: False
    obtain res r where b: "build_each build 0 ds (md_region (tq_dev q2)) = Some (res, r)"
      using assms False c a ne by (cases "build_each build 0 ds (md_region (tq_dev q2))") (auto simp: SendFunc_def)
    let ?q3 = "q2\<lparr>tq_dev := (tq_dev q2)\<lparr>md_region := r\<rparr>\<rparr>"
    show ?thesis
    proof (cases res)
      case (Inl err)
      then have "tq_Free chk ds ?q3 = Some q'" "sent = 0" using assms False c a ne b
        by (cases "tq_Free chk ds ?q3"; simp add: SendFunc_def Let_def)+
      then show ?thesis using bad c a ne b Inl by blast
    next
      case (Inr l)
      let ?f = "if length l < length ds then tq_Free chk (drop (length l) ds) ?q3 else Some ?q3"
      obtain q4 where q4: "?f = Some q4" using assms False c a ne b Inr by (cases ?f) (simp_all add: SendFunc_def Let_def)
      obtain k q5 where q5: "tq_Transmit l q4 = Some (k, q5)" using assms False c a ne b Inr q4
        by (cases "tq_Transmit l q4") (auto simp: SendFunc_def Let_def)
      have "(if k < length l then tq_Free chk (drop k l) q5 else Some q5) = Some q' \<and> sent = k"
        using assms False c a ne b Inr q4 q5
        by (cases "if k < length l then tq_Free chk (drop k l) q5 else Some q5") (simp_all add: SendFunc_def Let_def)
      then show ?thesis using sent c a ne b Inr q4 q5 False by blast
    qed
  qed
qed

text \<open>\<open>Complete\<close> takes the oldest of each ring.\<close>

lemma complete_rings_oldest:
  assumes "\<forall>t \<in> set rs. tx_live t \<and> tx_hw_ok t" "complete_rings chk mx tot rs p = Some (tot', rs', p')"
  shows "list_all2 (\<lambda>t t'. \<exists>k. tx_queue t' = drop k (tx_queue t)) rs rs'"
  using assms
proof (induction rs arbitrary: tot p rs')
  case Nil
  then show ?case by simp
next
  case (Cons t rs)
  have refl: "list_all2 (\<lambda>t t'. \<exists>k. tx_queue t' = drop k (tx_queue t)) ts ts" for ts :: "tx list"
    by (induction ts) (auto intro: exI [of _ 0])
  show ?case
  proof (cases "int tot \<ge> mx")
    case True
    then show ?thesis using Cons.prems(2) refl by simp
  next
    case False
    have "tx_live t" "tx_hw_ok t" using Cons.prems(1) by simp_all
    then obtain k t' where t: "tx_Complete (mx - int tot) [] t = Some (take k (tx_queue t), t')" "tx_queue t' = drop k (tx_queue t)"
      using Complete_live [of t "mx - int tot" "[]"] by auto
    obtain p1 where p1: "push_descs chk (take k (tx_queue t)) p = Some p1"
      using Cons.prems(2) False t(1) by (cases "push_descs chk (take k (tx_queue t)) p") auto
    let ?n = "tot + length (take k (tx_queue t))"
    obtain rs2 where "complete_rings chk mx ?n rs p1 = Some (tot', rs2, p')" "rs' = t' # rs2"
      using Cons.prems(2) False t(1) p1 by (cases "complete_rings chk mx ?n rs p1") auto
    then show ?thesis using Cons.IH [of ?n p1 rs2] Cons.prems(1) t(2) by auto
  qed
qed

lemma tq_Complete_oldest:
  assumes "tq_owned chk F q held" "\<forall>t \<in> set (tq_rings q). tx_hw_ok t" "tq_Complete chk mx q = Some (n, q')"
  shows "list_all2 (\<lambda>t t'. \<exists>k. tx_queue t' = drop k (tx_queue t)) (tq_rings q) (tq_rings q')" "tq_next q' = tq_next q"
proof -
  have l: "\<forall>t \<in> set (tq_rings q). tx_live t \<and> tx_hw_ok t" using assms(1,2) by (simp add: tq_owned_def)
  have refl: "list_all2 (\<lambda>t t'. \<exists>k. tx_queue t' = drop k (tx_queue t)) ts ts" for ts :: "tx list"
    by (induction ts) (auto intro: exI [of _ 0])
  show "list_all2 (\<lambda>t t'. \<exists>k. tx_queue t' = drop k (tx_queue t)) (tq_rings q) (tq_rings q')" "tq_next q' = tq_next q"
    using assms(3) complete_rings_oldest [OF l, of chk mx 0 "tq_pool q"] refl
    by (cases "complete_rings chk mx 0 (tq_rings q) (tq_pool q)"; auto simp: tq_Complete_def split: if_split_asm)+
qed

lemma tq_Transmit_ring:
  assumes "tq_next q < length (tq_rings q)" "tx_live (tq_rings q ! tq_next q)"
    "length (tx_region (tq_rings q ! tq_next q)) = length (mr_b (md_region (tq_dev q)))" "tq_Transmit ds q = Some (n, q')" "\<not> tq_closed q"
  shows "tx_queue (tq_rings q' ! tq_next q) = tx_queue (tq_rings q ! tq_next q) @ take n ds" "tq_dev q' = tq_dev q" "n \<le> length ds"
proof -
  let ?t = "tq_rings q ! tq_next q"
  have w: "tx_live (with_region (tq_autoPin q) ?t)" "tx_queue (with_region (tq_autoPin q) ?t) = tx_queue ?t"
    using tx_live_region [OF assms(2)] assms(3) by (simp_all add: with_region_def tq_autoPin_def)
  obtain t' where p: "tx_Post ds (with_region (tq_autoPin q) ?t) = Some (n, t')"
    using assms(1,4,5) by (cases "tx_Post ds (with_region (tq_autoPin q) ?t)") (auto simp: tq_Transmit_def tq_autoPin_def Let_def)
  then have "tx_queue t' = tx_queue ?t @ take n ds" "n \<le> length ds" using Post_live [OF w(1), of ds] w(2) by auto
  then show "tx_queue (tq_rings q' ! tq_next q) = tx_queue ?t @ take n ds" "tq_dev q' = tq_dev q" "n \<le> length ds"
    using assms(1,4,5) p by (auto simp: tq_Transmit_def tq_autoPin_def Let_def)
qed

lemma tq_Free_fields:
  assumes "tq_Free chk ds q = Some q'"
  shows "tq_rings q' = tq_rings q" "tq_next q' = tq_next q" "tq_dev q' = tq_dev q" "tq_closed q' = tq_closed q"
  using assms by (auto simp: tq_Free_def split: Option.bind_splits)

lemma frames_aligned:
  assumes "pool_inv chk p" "f \<in> all_frames p"
  shows "frameSize p dvd unat f"
proof -
  have g: "pool_geom p" using assms(1) by (simp add: pool_inv_def)
  obtain i where i: "i < free_cap p" "f = faddr p i" using assms(2) by (auto simp: all_frames_def)
  then show ?thesis using unat_faddr [OF g, of i] g by (simp add: pool_geom_def)
qed

lemma mset_distinct:
  assumes "mset xs \<subseteq># mset_set A" "finite A"
  shows "distinct xs"
  unfolding distinct_count_atmost_1
proof
  fix a
  have "count (mset xs) a \<le> 1" using assms mset_subset_eq_count [OF assms(1), of a] by (metis count_mset_set(1,3) le_trans le_numeral_extra(4) zero_le_one)
  then show "count (mset xs) a = (if a \<in> set xs then 1 else 0)" by (metis count_mset_0_iff le_antisym less_one not_le)
qed

lemma Alloc_fresh:
  assumes own: "tq_owned chk F q held" and pos: "0 < frameSize (tq_pool q)" and al: "tq_Alloc chk n q = Some (ds, q')"
  shows "distinct (map d_addr ds)" "d_addr ` set ds \<subseteq> all_frames (tq_pool q)" "set_mset held \<inter> d_addr ` set ds = {}"
proof -
  let ?p = "tq_pool q'"
  have a: "tq_owned chk F q' (held + bases (tq_pool q) ds)" "\<forall>d \<in> set ds. d_addr d \<in> all_frames (tq_pool q) \<and> Base (tq_pool q) (d_addr d) = d_addr d"
    using tq_Alloc_owned [OF own pos, of n] al by auto
  show "d_addr ` set ds \<subseteq> all_frames (tq_pool q)" using a(2) by auto
  have b: "bases (tq_pool q) ds = mset (map d_addr ds)" unfolding bases_def by (intro arg_cong [of _ _ mset] map_cong) (use a(2) in auto)
  have X: "mset (free ?p) + (held + mset (map d_addr ds) + bases ?p (tq_queue (tq_rings q'))) = mset_set (all_frames ?p \<union> F)" "finite (all_frames ?p \<union> F)"
    using a(1) unfolding b by (simp_all add: tq_owned_def pool_out_def all_frames_def)
  have "mset (map d_addr ds) \<subseteq># mset_set (all_frames ?p \<union> F)" unfolding X(1) [symmetric] by (simp add: subset_mset.le_iff_add)
  then show "distinct (map d_addr ds)" using X(2) by (rule mset_distinct)
  show "set_mset held \<inter> d_addr ` set ds = {}"
  proof (rule ccontr)
    assume "set_mset held \<inter> d_addr ` set ds \<noteq> {}"
    then obtain f where f: "f \<in># held" "f \<in># mset (map d_addr ds)" by auto
    have "count (mset_set (all_frames ?p \<union> F)) f \<le> 1" using X(2) by (cases "f \<in> all_frames ?p \<union> F") simp_all
    moreover have "count held f \<noteq> 0" "count (mset (map d_addr ds)) f \<noteq> 0" using f by (simp_all only: count_eq_zero_iff not_not)
    ultimately show False unfolding X(1) [symmetric] count_union by linarith
  qed
qed

text \<open>The state a send starts from, and what its parts leave.\<close>

definition send_ready :: "bool \<Rightarrow> nat \<Rightarrow> u64 set \<Rightarrow> txqueue \<Rightarrow> u64 multiset \<Rightarrow> bool" where
  "send_ready chk fs F q held \<longleftrightarrow> tq_owned chk F q held \<and> (\<forall>t \<in> set (tq_rings q). tx_hw_ok t) \<and> own_out q \<and> 0 < frameSize (tq_pool q)
     \<and> framed fs (md_region (tq_dev q)) \<and> (\<forall>f \<in> all_frames (tq_pool q). region_frame fs (md_region (tq_dev q)) f)"

lemma send_completes:
  assumes rdy: "send_ready chk fs F q held" and c: "tq_Complete chk mx (tq_autoPin q) = Some (n0, q1)"
  shows "tq_owned chk F q1 held" "tq_same q q1" "tq_dev q1 = tq_dev q" "tq_closed q1 = tq_closed q" "tq_next q1 = tq_next q"
    "\<exists>k. tx_queue (tq_rings q1 ! tq_next q) = drop k (tx_queue (tq_rings q ! tq_next q))"
proof -
  let ?q = "tq_autoPin q"
  have pin: "tq_owned chk F ?q held" "\<forall>t \<in> set (tq_rings ?q). tx_hw_ok t" "set_mset (bases (tq_pool ?q) (tq_queue (tq_rings ?q))) \<subseteq> all_frames (tq_pool ?q)"
    using rdy by (simp_all add: send_ready_def own_out_def)
  have f: "tq_dev ?q = tq_dev q" "tq_rings ?q = tq_rings q" "tq_next ?q = tq_next q" "tq_closed ?q = tq_closed q" by (simp_all add: tq_autoPin_def)
  note old = tq_Complete_oldest [OF pin(1,2) c, unfolded f]
  show "tq_owned chk F q1 held" "tq_dev q1 = tq_dev q" "tq_closed q1 = tq_closed q" "tq_next q1 = tq_next q"
    using tq_Complete_owned [OF pin, of mx] c f old(2) by auto
  show "tq_same q q1" using tq_Complete_owned [OF pin, of mx] c tq_same_trans [OF tq_autoPin_owned(2), of q q1] by auto
  have "tq_next q < length (tq_rings q)" using rdy by (simp add: send_ready_def tq_owned_def)
  then show "\<exists>k. tx_queue (tq_rings q1 ! tq_next q) = drop k (tx_queue (tq_rings q ! tq_next q))" using list_all2_nthD [OF old(1)] by blast
qed

lemma send_allocs:
  assumes rdy: "send_ready chk fs F q held" and c: "tq_Complete chk mx (tq_autoPin q) = Some (n0, q1)" and a: "tq_Alloc chk cnt q1 = Some (ds, q2)"
  shows "distinct (map d_addr ds)" "d_addr ` set ds \<subseteq> all_frames (tq_pool q)" "set_mset held \<inter> d_addr ` set ds = {}" "tq_dev q2 = tq_dev q"
proof -
  note cm = send_completes [OF rdy c]
  have p: "all_frames (tq_pool q1) = all_frames (tq_pool q)" "0 < frameSize (tq_pool q1)"
    using tq_same_pool [OF cm(2)] rdy by (simp_all add: send_ready_def)
  show "distinct (map d_addr ds)" "d_addr ` set ds \<subseteq> all_frames (tq_pool q)" "set_mset held \<inter> d_addr ` set ds = {}"
    using Alloc_fresh [OF cm(1) p(2) a] p(1) by simp_all
  show "tq_dev q2 = tq_dev q" using tq_Alloc_owned [OF cm(1) p(2), of cnt] a cm(3) by auto
qed

lemma send_builds:
  assumes rdy: "send_ready chk fs F q held" and c: "tq_Complete chk mx (tq_autoPin q) = Some (n0, q1)" and a: "tq_Alloc chk cnt q1 = Some (ds, q2)"
    and b: "build_each build 0 ds (md_region (tq_dev q2)) = Some (res, r)" and w: "writes_in_place build"
  defines "reg \<equiv> md_region (tq_dev q)"
  shows "framed fs r" "length (mr_b r) = length (mr_b reg)" "\<And>f. f \<in># held \<Longrightarrow> region_frame fs reg f \<Longrightarrow> frame_at fs r f = frame_at fs reg f"
    "\<And>l. res = Inr l \<Longrightarrow> length l \<le> length ds \<and> (\<forall>j < length l. built build fs j reg r (ds ! j) (l ! j))"
proof -
  note al = send_allocs [OF rdy c a]
  have fr: "framed fs reg" "\<forall>d \<in> set ds. region_frame fs reg (d_addr d)" using rdy al(2) by (auto simp: send_ready_def reg_def)
  have "build_each build 0 ds reg = Some (res, r)" using b al(4) by (simp add: reg_def)
  note bf = build_each_frames [OF w fr al(1) this, simplified]
  show "framed fs r" "length (mr_b r) = length (mr_b reg)" using bf by simp_all
  show "frame_at fs r f = frame_at fs reg f" if "f \<in># held" "region_frame fs reg f" for f
  proof -
    have "f \<notin> d_addr ` set ds" using al(3) that(1) by auto
    then show ?thesis using bf that(2) by simp
  qed
  show "length l \<le> length ds \<and> (\<forall>j < length l. built build fs j reg r (ds ! j) (l ! j))" if "res = Inr l" for l using bf that by simp
qed

text \<open>What a built descriptor names.\<close>

lemma built_named:
  assumes "built build fs j reg r d d'" "framed fs r" "region_frame fs r (d_addr d)"
  shows "d_addr d' = d_addr d" "let (m, b) = build j (frame_at fs reg (d_addr d)) in 0 < m \<and> m \<le> int fs \<and> unat (d_len d') = nat m \<and> region_Frame r d' = Some (take (nat m) b)"
proof -
  obtain m b where mb: "build j (frame_at fs reg (d_addr d)) = (m, b)" by fastforce
  have d: "0 < m" "m \<le> int fs" "d' = d\<lparr>d_len := of_int m\<rparr>" "frame_at fs r (d_addr d) = b" using assms(1) mb by (auto simp: built_def)
  show "d_addr d' = d_addr d" using d(3) by simp
  have "fs < 2 ^ 31" using assms(2) by (simp add: framed_def)
  then have m: "nat m < 2 ^ 32" "nat m \<le> fs" "int (nat m) = m" using d(1,2) by auto
  have "unat (of_nat (nat m) :: u32) = nat m" using m(1) by (simp only: unsigned_of_nat of_nat_id) (simp add: take_bit_nat_eq_self)
  moreover have "of_int m = (of_nat (nat m) :: u32)" using d(1) by (simp add: of_nat_nat)
  ultimately have u: "unat (d_len d') = nat m" using d(3) by simp
  have "region_Frame r d' = Some (take (unat (d_len d')) (frame_at fs r (d_addr d')))" by (rule Frame_frame [OF assms(2)]) (use assms(3) d(3) u m in simp_all)
  then show "let (m, b) = build j (frame_at fs reg (d_addr d)) in 0 < m \<and> m \<le> int fs \<and> unat (d_len d') = nat m \<and> region_Frame r d' = Some (take (nat m) b)"
    using mb d u by simp
qed

definition sends :: "(nat \<Rightarrow> bytes \<Rightarrow> int \<times> bytes) \<Rightarrow> nat \<Rightarrow> mregion \<Rightarrow> mregion \<Rightarrow> desc list \<Rightarrow> bool" where
  "sends build fs reg reg' l \<longleftrightarrow> distinct (map d_addr l) \<and> (\<forall>j < length l. region_frame fs reg (d_addr (l ! j))
     \<and> (let (m, b) = build j (frame_at fs reg (d_addr (l ! j)))
        in 0 < m \<and> m \<le> int fs \<and> unat (d_len (l ! j)) = nat m \<and> region_Frame reg' (l ! j) = Some (take (nat m) b)))"

lemma send_sends:
  assumes rdy: "send_ready chk fs F q held" and w: "writes_in_place build"
    and p: "tq_Complete chk mx (tq_autoPin q) = Some (n0, q1)" "tq_Alloc chk cnt q1 = Some (ds, q2)"
      "build_each build 0 ds (md_region (tq_dev q2)) = Some (Inr l, r)"
  shows "sends build fs (md_region (tq_dev q)) r (take k l)"
  unfolding sends_def
proof (intro conjI allI impI)
  note al = send_allocs [OF rdy p(1,2)] and bl = send_builds [OF rdy p w]
  have l: "length l \<le> length ds" "\<And>j. j < length l \<Longrightarrow> built build fs j (md_region (tq_dev q)) r (ds ! j) (l ! j)" using bl(4) by auto
  have rf: "region_frame fs (md_region (tq_dev q)) (d_addr (ds ! j))" if "j < length l" for j
  proof -
    have "ds ! j \<in> set ds" using l(1) that by simp
    then show ?thesis using rdy al(2) by (auto simp: send_ready_def)
  qed
  then have rf': "region_frame fs r (d_addr (ds ! j))" if "j < length l" for j using that bl(2) by (simp add: region_frame_def)
  note nm = built_named [OF l(2) bl(1) rf']
  have "map d_addr l = map d_addr (take (length l) ds)" using l(1) nm(1) by (intro nth_equalityI) simp_all
  then have "distinct (map d_addr l)" using al(1) by (simp add: take_map [symmetric])
  then show "distinct (map d_addr (take k l))" by (simp add: take_map [symmetric])
  fix j assume "j < length (take k l)"
  then have j: "j < length l" "take k l ! j = l ! j" by simp_all
  show "region_frame fs (md_region (tq_dev q)) (d_addr (take k l ! j))" unfolding j(2) using rf [OF j(1)] nm(1) [OF j(1) j(1)] by simp
  show "let (m, b) = build j (frame_at fs (md_region (tq_dev q)) (d_addr (take k l ! j)))
        in 0 < m \<and> m \<le> int fs \<and> unat (d_len (take k l ! j)) = nat m \<and> region_Frame r (take k l ! j) = Some (take (nat m) b)"
    unfolding j(2) using nm(2) [OF j(1) j(1)] nm(1) [OF j(1) j(1)] by simp
qed

section \<open>Properties\<close>

text \<open>C10: \<open>SendFunc\<close> sends what \<open>build\<close> wrote. In every state a queue can reach, the packets it reports as sent are appended to the ring whose
  turn it was, behind those the device has not finished with; packet \<open>j\<close> is in a frame of its own, and the descriptor given to
  the ring names exactly the bytes, as many as \<open>build\<close> said, that its call with \<open>j\<close> left in that frame. No frame a caller holds
  changes, on any path.\<close>

theorem SendFunc_sends_built:
  assumes new: "newTxQueue chk d ix firstFrame n created inl mp ptr = Some (Inr q0)"
    and cfg: "\<forall>dvq. Inr dvq \<in> set created \<longrightarrow> tx_cfg_ok (ring_config d inl mp ptr dvq)"
    and mem: "frames_inside d firstFrame n" and F: "finite F" "F \<inter> all_frames (tq_pool q0) = {}"
    and run: "(mlx5_tx_step chk)\<^sup>*\<^sup>* (q0, mset_set F) (q, held)"
    and env: "\<forall>t \<in> set (tq_rings q). tx_hw_ok t" "own_out q" "writes_in_place build"
    and send: "SendFunc chk cnt build q = Some (sent, e, q')"
  shows "(\<exists>l k. length l = sent \<and> sends build (nat (md_frameSize d)) (md_region (tq_dev q)) (md_region (tq_dev q')) l
        \<and> (0 < sent \<longrightarrow> tx_queue (tq_rings q' ! tq_next q) = drop k (tx_queue (tq_rings q ! tq_next q)) @ l))
     \<and> (\<forall>f. f \<in># held \<and> region_frame (nat (md_frameSize d)) (md_region (tq_dev q)) f \<longrightarrow>
          frame_at (nat (md_frameSize d)) (md_region (tq_dev q')) f = frame_at (nat (md_frameSize d)) (md_region (tq_dev q)) f)"
proof -
  let ?fs = "nat (md_frameSize d)" and ?reg = "md_region (tq_dev q)" and ?reg' = "md_region (tq_dev q')"
  have good: "tq_good chk F q0 (q, held)" by (rule mlx5_tx_run_good [OF run newTxQueue_owned(1) [OF new cfg mem F]])
  then have o: "tq_owned chk F q held" and s0: "tq_same q0 q" and r: "region_ok q" using region_ok_same by (auto simp: tq_good_def)
  have q0: "tq_dev q0 = d" "tq_pool q0 = New chk (nat firstFrame) (nat n) (nat (md_frameSize d))" using new by (rule newTxQueue_parts, simp)+
  note pool = frames_inside_pool [OF mem, of chk, folded q0(2)]
  have "framed ?fs ?reg" using mem s0 by (auto simp: framed_def frames_inside_def tq_same_def q0(1))
  moreover have "region_frame ?fs ?reg f" if "f \<in> all_frames (tq_pool q0)" for f
    using frames_aligned [OF pool(1) that] pool(4,6) that s0 by (auto simp: region_frame_def tq_same_def q0(1))
  ultimately have rdy: "send_ready chk ?fs F q held" using o env r tq_same_pool(1) [OF s0] by (simp add: send_ready_def region_ok_def)
  have none: ?thesis if "sent = 0" "\<And>f. f \<in># held \<Longrightarrow> region_frame ?fs ?reg f \<Longrightarrow> frame_at ?fs ?reg' f = frame_at ?fs ?reg f"
    using that by (auto simp: sends_def intro: exI [of _ "[]"])
  from send show ?thesis
  proof (cases rule: SendFunc_result)
    case stopped
    then show ?thesis by (intro none) simp_all
  next
    case (empty n0 q1)
    then show ?thesis using send_allocs(4) [OF rdy empty(1,2)] by (intro none) simp_all
  next
    case (bad n0 q1 ds q2 err r)
    have "?reg' = r" using tq_Free_fields(3) [OF bad(5)] by simp
    then show ?thesis using send_builds(3) [OF rdy bad(1,2,4) env(3)] bad(6) by (intro none) simp_all
  next
    case (sent n0 q1 ds q2 l r q4 q5)
    note c = send_completes [OF rdy sent(1)] and b = send_builds [OF rdy sent(1,2,4) env(3)] and rm = tq_Alloc_room [OF c(1) sent(2,3)]
    let ?q3 = "q2\<lparr>tq_dev := (tq_dev q2)\<lparr>md_region := r\<rparr>\<rparr>"
    have q4: "tq_rings q4 = tq_rings q1" "tq_next q4 = tq_next q" "md_region (tq_dev q4) = r" "\<not> tq_closed q4"
      using sent(5,8) tq_Free_fields [of chk "drop (length l) ds" ?q3 q4] rm c(4,5) by (auto split: if_split_asm)
    have nx: "tq_next q < length (tq_rings q1)" "tx_live (tq_rings q1 ! tq_next q)" "length (tx_region (tq_rings q1 ! tq_next q)) = length (mr_b r)"
      using c(1,3,5) b(2) by (auto simp: tq_owned_def)
    note tr = tq_Transmit_ring [of q4, unfolded q4(1-3), OF nx sent(6) q4(4)]
    have q': "tq_rings q' = tq_rings q5" "?reg' = r"
      using sent(7) tr(2) q4(3) tq_Free_fields [of chk "drop sent l" q5 q'] by (auto split: if_split_asm)
    obtain k where k: "tx_queue (tq_rings q1 ! tq_next q) = drop k (tx_queue (tq_rings q ! tq_next q))" using c(6) by blast
    have "sends build ?fs ?reg ?reg' (take sent l)" unfolding q'(2) by (rule send_sends [OF rdy env(3) sent(1,2,4)])
    then show ?thesis using tr(1,3) k q' b(3) by (intro conjI exI [of _ "take sent l"] exI [of _ k]) simp_all
  qed
qed

text \<open>A builder that fills its frame with nines and asks for two of them.\<close>

definition demo_build :: "nat \<Rightarrow> bytes \<Rightarrow> int \<times> bytes" where
  "demo_build i frame = (2, map (\<lambda>_. 9) frame)"

theorem SendFunc_sends_built_witness:
  "\<exists>q0 q' l. newTxQueue True demo_dev 0 0 2 [Inr demo_dv] 0 False False = Some (Inr q0) \<and> SendFunc True 1 demo_build q0 = Some (1, None, q')
     \<and> tx_queue (tq_rings q' ! 0) = [l] \<and> region_Frame (md_region (tq_dev q')) l = Some [9, 9]"
proof -
  have "case newTxQueue True demo_dev 0 0 2 [Inr demo_dv] 0 False False of Some (Inr q0) \<Rightarrow>
      (case SendFunc True 1 demo_build q0 of Some (n, e, q') \<Rightarrow> n = 1 \<and> e = None | None \<Rightarrow> False) \<and> list_all (\<lambda>t. tx_pi t = tx_head t) (tq_rings q0)
    | _ \<Rightarrow> False" by code_simp
  then obtain q0 q' where q: "newTxQueue True demo_dev 0 0 2 [Inr demo_dv] 0 False False = Some (Inr q0)"
      "SendFunc True 1 demo_build q0 = Some (1, None, q')" "\<forall>t \<in> set (tq_rings q0). tx_pi t = tx_head t"
    by (auto simp: list_all_iff split: option.split_asm sum.split_asm)
  have hw: "\<forall>t \<in> set (tq_rings q0). tx_hw_ok t" using q(3) by (auto simp: tx_hw_ok_def tx_cqe_ok_def split: option.split)
  have e: "tq_queue (tq_rings q0) = []" by (rule newTxQueue_owned(2) [OF q(1) demo_dev_ok(2,1), of "{}"]) simp_all
  have nx: "tq_next q0 = 0" "tq_rings q0 \<noteq> []" "tq_dev q0 = demo_dev" using q(1) by (rule newTxQueue_parts, simp)+
  then have t: "tx_queue (tq_rings q0 ! 0) = []" using e by (cases "tq_rings q0") simp_all
  have o: "own_out q0" using e by (simp add: own_out_def)
  have w: "writes_in_place demo_build" by (simp add: writes_in_place_def demo_build_def)
  have "(mlx5_tx_step True)\<^sup>*\<^sup>* (q0, mset_set {}) (q0, {#})" by simp
  from SendFunc_sends_built [OF q(1) demo_dev_ok(2,1) _ _ this hw o w q(2)] nx(1) t obtain l where
    l: "length l = 1" "sends demo_build 4 (md_region demo_dev) (md_region (tq_dev q')) l" "tx_queue (tq_rings q' ! 0) = l"
    by (auto simp: nx(3)) (auto simp: demo_dev_def)
  obtain x where x: "l = [x]" using l(1) by (auto simp: length_Suc_conv)
  have "region_frame 4 (md_region demo_dev) (d_addr x)" "region_Frame (md_region (tq_dev q')) x = Some (take 2 (map (\<lambda>_. 9) (frame_at 4 (md_region demo_dev) (d_addr x))))"
    using l(2) by (simp_all add: x sends_def demo_build_def)
  moreover have "take 2 (map (\<lambda>_. 9) f) = [9, 9 :: u8]" if "length f = 4" for f :: bytes using that by (simp add: length_Suc_conv numeral_eq_Suc) auto
  ultimately have "region_Frame (md_region (tq_dev q')) x = Some [9, 9]" by (auto simp: frame_at_def region_frame_def)
  then show ?thesis using q(1,2) l(3) x by blast
qed

end
